(* ===== verification/Chok_Prelude.thy ===== *)
theory Chok_Prelude
  imports Main "HOL-Library.Sublist" "HOL-Library.Multiset" "HOL-Library.AList"
begin

text \<open>
  The prelude of the development: the types that every component shares (instants,
  durations, byte strings, errors), the parts of Go's \<^verbatim>\<open>time\<close> package that more than one
  component uses, the interface of a component whose operations run one at a time under
  a lock (a transition system with an invariant), and generic lemmas on lists and maps.
\<close>

section \<open>Shared types\<close>

text \<open>
  An instant (\<^verbatim>\<open>time.Time\<close>) is its distance in nanoseconds from a fixed origin; Go's
  instants reach billions of years, so no component can overflow them and \<open>int\<close> is
  faithful. A \<^verbatim>\<open>time.Duration\<close> is a signed 64-bit count of nanoseconds: the one operation
  that can leave that range, \<^verbatim>\<open>Time.Sub\<close>, saturates.
\<close>

type_synonym instant = int
type_synonym duration = int
type_synonym bytes = string

text \<open>The arithmetic of a signed 64-bit integer wraps around.\<close>

definition wrap64 :: "int \<Rightarrow> int" where
  "wrap64 x = (x + 2 ^ 63) mod 2 ^ 64 - 2 ^ 63"

lemma wrap64_id: "0 \<le> x \<Longrightarrow> x \<le> 2 ^ 31 - 1 \<Longrightarrow> wrap64 x = x"
  by (simp add: wrap64_def)

definition max_duration :: duration where
  "max_duration = 2 ^ 63 - 1"

definition min_duration :: duration where
  "min_duration = - (2 ^ 63)"

definition second_ns :: duration where
  "second_ns = 1000000000"

definition time_sub :: "instant \<Rightarrow> instant \<Rightarrow> duration" where
  "time_sub t u =
     (if t - u > max_duration then max_duration
      else if t - u < min_duration then min_duration
      else t - u)"

named_theorems chok_defs \<open>definitions a component proof unfolds\<close>
named_theorems chok_inv \<open>preservation of a component invariant by one operation\<close>

lemma time_sub_less_iff:
  "min_duration < r \<Longrightarrow> r \<le> max_duration \<Longrightarrow> time_sub t u < r \<longleftrightarrow> t - u < r"
  by (auto simp: time_sub_def)

lemma time_sub_self [simp]: "time_sub t t = 0"
  by (simp add: time_sub_def max_duration_def min_duration_def)

section \<open>Components under a lock\<close>

text \<open>
  A component guarded by a mutex moves by one whole operation at a time. Its states are
  those reachable from an initial state by steps, each labelled with the event that
  caused it.
\<close>

inductive reachable :: "('s \<Rightarrow> bool) \<Rightarrow> ('s \<Rightarrow> 'e \<Rightarrow> 's \<Rightarrow> bool) \<Rightarrow> 's \<Rightarrow> bool"
  for init step where
  reachable_init: "init s \<Longrightarrow> reachable init step s"
| reachable_step: "reachable init step s \<Longrightarrow> step s e s' \<Longrightarrow> reachable init step s'"

lemma reachable_self: "reachable (\<lambda>x. x = s) step s"
  by (rule reachable_init) (rule refl)

locale guarded_component =
  fixes init :: "'s \<Rightarrow> bool"
    and step :: "'s \<Rightarrow> 'e \<Rightarrow> 's \<Rightarrow> bool"
    and inv :: "'s \<Rightarrow> bool"
  assumes inv_init: "init s \<Longrightarrow> inv s"
    and inv_step: "inv s \<Longrightarrow> step s e s' \<Longrightarrow> inv s'"
begin

lemma reachable_inv: "reachable init step s \<Longrightarrow> inv s"
  by (induction rule: reachable.induct) (auto intro: inv_init inv_step)

lemma reachable_from_inv:
  assumes "reachable (\<lambda>x. x = s0) step s" and "inv s0"
  shows "inv s"
  using assms by (induction rule: reachable.induct) (auto intro: inv_step)

end

section \<open>Sets\<close>

lemma disjoint_singleton: "a \<notin> A \<Longrightarrow> B \<subseteq> {a} \<Longrightarrow> A \<inter> B = {}"
  by blast

section \<open>Sums\<close>

lemma map_sum_Inr: "map_sum f g x = Inr y \<longleftrightarrow> (\<exists>z. x = Inr z \<and> y = g z)"
  by (cases x) auto

section \<open>Ring indices\<close>

lemma mod_wrap: "n \<le> m \<Longrightarrow> m < 2 * n \<Longrightarrow> m mod n = m - (n::nat)"
  by (simp add: le_mod_geq)

lemma ring_index_eq_iff:
  assumes "h < L" and "i < L" and "j < (L::nat)"
  shows "(h + i) mod L = (h + j) mod L \<longleftrightarrow> i = j"
proof -
  have "(h + k) mod L = (if h + k < L then h + k else h + k - L)" if "k < L" for k
    using assms(1) that by (simp add: mod_wrap)
  with assms show ?thesis by auto
qed

lemma set_update_subset: "x \<in> set (AList.update b e es) \<Longrightarrow> x = (b, e) \<or> x \<in> set es"
  by (induction es) (auto split: if_splits)

end
