(* ===== verification/Breaker.thy ===== *)
theory Breaker
  imports Chok_Prelude
begin

text \<open>
  The circuit breaker in front of the Redis layer (\<^verbatim>\<open>cache/breaker.go\<close>): its three states,
  the admission decision \<open>allow\<close>, the bookkeeping \<open>record\<close>, and the guarded layer
  operations built from them. Every operation holds the breaker's mutex, so concurrent
  calls interleave as whole \<open>allow\<close> and \<open>record\<close> steps; the machine at the end of the
  theory has one step per such operation and keeps the calls in flight.
\<close>

section \<open>State\<close>

datatype breakerState = Closed | Open | HalfOpen

record breaker =
  threshold :: int
  reset :: duration
  successes :: int
  probeTimeout :: duration
  state :: breakerState
  failures :: int
  streak :: int
  openedAt :: instant
  probing :: bool
  probeAt :: instant

text \<open>Go's zero \<^verbatim>\<open>time.Time\<close>, the initial \<^verbatim>\<open>openedAt\<close> and \<^verbatim>\<open>probeAt\<close>, is the origin.\<close>

definition newBreaker :: "int \<Rightarrow> duration \<Rightarrow> int \<Rightarrow> duration \<Rightarrow> breaker" where
  "newBreaker thr rst succs pt =
     \<lparr>threshold = thr, reset = rst, successes = succs, probeTimeout = min pt rst,
      state = Closed, failures = 0, streak = 0, openedAt = 0, probing = False, probeAt = 0\<rparr>"

section \<open>Operations\<close>

definition reopen :: "instant \<Rightarrow> breaker \<Rightarrow> breaker" where
  "reopen now b = b\<lparr>state := Open, openedAt := now, streak := 0, probing := False\<rparr>"

text \<open>
  \<open>allow\<close> answers \<open>(probe, ok)\<close>. The \<open>half_open_gate\<close> is the code after the switch, which
  the half-open state falls into and the open state reaches once \<open>reset\<close> has passed.
\<close>

definition half_open_gate :: "instant \<Rightarrow> breaker \<Rightarrow> (bool \<times> bool) \<times> breaker" where
  "half_open_gate now b =
     (if probing b then
        (if time_sub now (probeAt b) < reset b then ((False, False), b)
         else ((False, False), reopen now b))
      else ((True, True), b\<lparr>probing := True, probeAt := now\<rparr>))"

definition allow :: "instant \<Rightarrow> breaker \<Rightarrow> (bool \<times> bool) \<times> breaker" where
  "allow now b =
     (case state b of
        Closed \<Rightarrow> ((False, True), b)
      | Open \<Rightarrow>
          (if time_sub now (openedAt b) < reset b then ((False, False), b)
           else half_open_gate now (b\<lparr>state := HalfOpen, streak := 0, probing := False\<rparr>))
      | HalfOpen \<Rightarrow> half_open_gate now b)"

text \<open>
  \<open>record\<close> counts an outcome: \<open>failed\<close> is \<^verbatim>\<open>err != nil\<close>, \<open>ended\<close> is \<^verbatim>\<open>ctx.Err() != nil\<close> of
  the caller's context, \<open>now\<close> the reading of the clock it makes when it opens.
\<close>

definition count_outcome :: "instant \<Rightarrow> bool \<Rightarrow> bool \<Rightarrow> breaker \<Rightarrow> breaker" where
  "count_outcome now failed probe b =
     (if state b = Closed \<and> \<not> failed then b\<lparr>failures := 0\<rparr>
      else if state b = Closed then
        (let b' = b\<lparr>failures := failures b + 1\<rparr>
         in if failures b' \<ge> threshold b' then b'\<lparr>state := Open, openedAt := now\<rparr> else b')
      else if state b = HalfOpen \<and> probe \<and> \<not> failed then
        (let b' = b\<lparr>streak := streak b + 1\<rparr>
         in if streak b' \<ge> successes b'
            then b'\<lparr>state := Closed, failures := 0, streak := 0\<rparr> else b')
      else if state b = HalfOpen \<and> probe then reopen now b
      else b)"

definition record_outcome :: "instant \<Rightarrow> bool \<Rightarrow> bool \<Rightarrow> bool \<Rightarrow> breaker \<Rightarrow> breaker" where
  "record_outcome now failed ended probe b =
     (let b1 = (if probe then b\<lparr>probing := False\<rparr> else b)
      in if failed \<and> \<not> probe \<and> ended then b1 else count_outcome now failed probe b1)"

text \<open>
  The context a call runs under: the caller's own, or, for a probe, one without the
  caller's cancellation that ends after the probe timeout.
\<close>

datatype call_context = CallerContext | ProbeContext duration

definition callContext :: "breaker \<Rightarrow> bool \<Rightarrow> call_context" where
  "callContext b probe = (if \<not> probe then CallerContext else ProbeContext (probeTimeout b))"

text \<open>
  The guarded layer operations. The inner layer is a parameter (Redis is behind it): its
  state \<open>'l\<close> and its operation, which takes the call's context. \<open>t1\<close> and \<open>t2\<close> are the
  clock readings of \<open>allow\<close> and \<open>record\<close>, \<open>ended\<close> whether the caller's context has ended
  by the time of \<open>record\<close>. A result is the value, the hit flag and the error.
\<close>

type_synonym 'err get_result = "bytes \<times> bool \<times> 'err option"

definition breaker_get ::
  "('l \<Rightarrow> call_context \<Rightarrow> string \<Rightarrow> 'l \<times> 'err get_result) \<Rightarrow> instant \<Rightarrow> instant \<Rightarrow> bool \<Rightarrow>
   string \<Rightarrow> breaker \<times> 'l \<Rightarrow> (breaker \<times> 'l) \<times> 'err get_result" where
  "breaker_get inner t1 t2 ended key = (\<lambda>(b, l).
     (case allow t1 b of ((probe, ok), b1) \<Rightarrow>
        if \<not> ok then ((b1, l), ([], False, None))
        else (case inner l (callContext b1 probe) key of (l', v, hit, err) \<Rightarrow>
          (let b2 = record_outcome t2 (err \<noteq> None) ended probe b1
           in if err \<noteq> None then ((b2, l'), ([], False, None))
              else ((b2, l'), (v, hit, None))))))"

definition breaker_call ::
  "('l \<Rightarrow> call_context \<Rightarrow> 'l \<times> 'err option) \<Rightarrow> instant \<Rightarrow> instant \<Rightarrow> bool \<Rightarrow>
   breaker \<times> 'l \<Rightarrow> (breaker \<times> 'l) \<times> 'err option" where
  "breaker_call inner t1 t2 ended = (\<lambda>(b, l).
     (case allow t1 b of ((probe, ok), b1) \<Rightarrow>
        if \<not> ok then ((b1, l), None)
        else (case inner l (callContext b1 probe) of (l', err) \<Rightarrow>
          ((record_outcome t2 (err \<noteq> None) ended probe b1, l'), None))))"

definition breaker_set ::
  "('l \<Rightarrow> call_context \<Rightarrow> string \<Rightarrow> bytes \<Rightarrow> duration \<Rightarrow> 'l \<times> 'err option) \<Rightarrow>
   instant \<Rightarrow> instant \<Rightarrow> bool \<Rightarrow> string \<Rightarrow> bytes \<Rightarrow> duration \<Rightarrow>
   breaker \<times> 'l \<Rightarrow> (breaker \<times> 'l) \<times> 'err option" where
  "breaker_set inner t1 t2 ended key val ttl =
     breaker_call (\<lambda>l c. inner l c key val ttl) t1 t2 ended"

definition breaker_del ::
  "('l \<Rightarrow> call_context \<Rightarrow> string \<Rightarrow> 'l \<times> 'err option) \<Rightarrow>
   instant \<Rightarrow> instant \<Rightarrow> bool \<Rightarrow> string \<Rightarrow>
   breaker \<times> 'l \<Rightarrow> (breaker \<times> 'l) \<times> 'err option" where
  "breaker_del inner t1 t2 ended key =
     breaker_call (\<lambda>l c. inner l c key) t1 t2 ended"

lemmas breaker_defs =
  allow_def half_open_gate_def reopen_def record_outcome_def count_outcome_def Let_def

section \<open>Interleaved calls\<close>

text \<open>
  A configuration is the breaker, the clock and the calls in flight: for each whether it
  is a probe and when it was admitted. With \<open>timely\<close>, the clock never passes the point
  where a probe has run for \<open>reset\<close>: the inner layer honours the probe's context, whose
  timeout is at most \<open>reset\<close>.
\<close>

record bconfig =
  brk :: breaker
  clock :: instant
  inflight :: "(bool \<times> instant) list"

datatype bevent = Tick instant | Call | Return "bool \<times> instant" bool bool

inductive breaker_step :: "bool \<Rightarrow> bconfig \<Rightarrow> bevent \<Rightarrow> bconfig \<Rightarrow> bool"
  for timely where
  tick: "clock c \<le> t \<Longrightarrow>
     (timely \<Longrightarrow> \<forall>(p, s) \<in> set (inflight c). p \<longrightarrow> t - s < reset (brk c)) \<Longrightarrow>
     breaker_step timely c (Tick t) (c\<lparr>clock := t\<rparr>)"
| admitted: "allow (clock c) (brk c) = ((probe, True), b') \<Longrightarrow>
     breaker_step timely c Call
       (c\<lparr>brk := b', inflight := (probe, clock c) # inflight c\<rparr>)"
| rejected: "allow (clock c) (brk c) = ((probe, False), b') \<Longrightarrow>
     breaker_step timely c Call (c\<lparr>brk := b'\<rparr>)"
| return: "(probe, s) \<in> set (inflight c) \<Longrightarrow>
     breaker_step timely c (Return (probe, s) failed ended)
       (c\<lparr>brk := record_outcome (clock c) failed ended probe (brk c),
          inflight := remove1 (probe, s) (inflight c)\<rparr>)"

definition breaker_init :: "breaker \<Rightarrow> bconfig \<Rightarrow> bool" where
  "breaker_init b0 c \<longleftrightarrow> brk c = b0 \<and> inflight c = []"


section \<open>The invariant of one breaker\<close>

definition breaker_ok :: "breaker \<Rightarrow> bool" where
  "breaker_ok b \<longleftrightarrow>
     0 < threshold b \<and> 0 < successes b \<and> 0 \<le> failures b \<and> 0 \<le> streak b \<and>
     (state b = Closed \<longrightarrow> failures b < threshold b) \<and>
     (state b = HalfOpen \<longrightarrow> streak b < successes b) \<and>
     (probing b \<longrightarrow> state b = HalfOpen)"

lemma breaker_ok_new: "0 < thr \<Longrightarrow> 0 < succs \<Longrightarrow> breaker_ok (newBreaker thr rst succs pt)"
  by (simp add: breaker_ok_def newBreaker_def)

lemma breaker_ok_allow [chok_inv]: "breaker_ok b \<Longrightarrow> breaker_ok (snd (allow now b))"
  by (auto simp: breaker_ok_def breaker_defs split: breakerState.splits)

lemma breaker_ok_record [chok_inv]:
  "breaker_ok b \<Longrightarrow> breaker_ok (record_outcome now failed ended probe b)"
  by (cases "state b") (auto simp: breaker_ok_def breaker_defs)

interpretation calls: guarded_component "breaker_init b0" "breaker_step timely"
  "\<lambda>c. breaker_ok b0 \<longrightarrow> breaker_ok (brk c)"
proof unfold_locales
  fix s e s'
  assume inv: "breaker_ok b0 \<longrightarrow> breaker_ok (brk s)" and "breaker_step timely s e s'"
  from this(2) show "breaker_ok b0 \<longrightarrow> breaker_ok (brk s')"
    using inv breaker_ok_allow [of "brk s" "clock s"]
    by (cases rule: breaker_step.cases) (auto intro: breaker_ok_record)
qed (simp add: breaker_init_def)

text \<open>From a well-formed breaker every interleaving of calls, returns and clock
  ticks keeps the counters well-formed: the failure count and the probe streak stay below
  their limits and a probe is only marked in flight while the breaker is half-open.\<close>

theorem breaker_reachable_ok:
  assumes "breaker_ok b0" and "reachable (breaker_init b0) (breaker_step timely) c"
  shows "breaker_ok (brk c)"
  using calls.reachable_inv assms by blast

section \<open>One probe at a time\<close>

definition probe_ok :: "instant \<Rightarrow> breaker \<Rightarrow> (bool \<times> instant) list \<Rightarrow> bool" where
  "probe_ok now b ps \<longleftrightarrow>
     0 < reset b \<and> reset b \<le> max_duration \<and>
     (probing b \<longrightarrow> state b = HalfOpen \<and> now - probeAt b < reset b) \<and>
     ps = (if probing b then [(True, probeAt b)] else [])"

definition probe_inv :: "bconfig \<Rightarrow> bool" where
  "probe_inv c \<longleftrightarrow> probe_ok (clock c) (brk c) (filter fst (inflight c))"

lemma probe_ok_allow:
  assumes "probe_ok now b ps" and "allow now b = ((probe, ok), b')"
  shows "probe_ok now b' ((if ok \<and> probe then [(True, now)] else []) @ ps)"
proof -
  have lt: "time_sub now (probeAt b) < reset b" if "probing b"
    using assms(1) that
    by (subst time_sub_less_iff) (auto simp: probe_ok_def min_duration_def)
  from assms lt show ?thesis
    by (cases "state b")
      (auto simp: probe_ok_def allow_def half_open_gate_def split: if_splits)
qed

lemma probe_ok_return:
  assumes "probe_ok now b ps" and "probe \<Longrightarrow> (True, s) \<in> set ps"
  shows "probe_ok now (record_outcome t failed ended probe b) (remove1 (probe, s) ps)"
proof (cases probe)
  case True
  with assms have "ps = [(True, s)]" "probing b" by (auto simp: probe_ok_def split: if_splits)
  with assms(1) True show ?thesis
    by (cases "state b") (auto simp: probe_ok_def breaker_defs)
next
  case False
  with assms(1) have "remove1 (probe, s) ps = ps"
    by (intro remove1_idem) (auto simp: probe_ok_def)
  with assms(1) False show ?thesis
    by (cases "state b") (auto simp: probe_ok_def breaker_defs)
qed

interpretation probes: guarded_component "\<lambda>c. breaker_init b0 c \<and> probe_inv c" "breaker_step True"
  probe_inv
proof unfold_locales
  fix s e s'
  assume inv: "probe_inv s" and "breaker_step True s e s'"
  from this(2) show "probe_inv s'"
  proof (cases rule: breaker_step.cases)
    case (tick t)
    have "(True, probeAt (brk s)) \<in> set (inflight s)" if "probing (brk s)"
    proof -
      have "(True, probeAt (brk s)) \<in> set (filter fst (inflight s))"
        using inv that by (simp add: probe_inv_def probe_ok_def)
      then show ?thesis by simp
    qed
    with tick inv show ?thesis by (auto simp: probe_inv_def probe_ok_def)
  next
    case (admitted probe b')
    with probe_ok_allow [OF inv [unfolded probe_inv_def], of probe True b']
    show ?thesis by (simp add: probe_inv_def split: if_splits)
  next
    case (rejected probe b')
    with probe_ok_allow [OF inv [unfolded probe_inv_def], of probe False b']
    show ?thesis by (simp add: probe_inv_def)
  next
    case (return probe u failed ended)
    then have "probe \<Longrightarrow> (True, u) \<in> set (filter fst (inflight s))" by simp
    from probe_ok_return [OF inv [unfolded probe_inv_def] this] return show ?thesis
      by (simp add: probe_inv_def filter_remove1)
  qed
qed simp

text \<open>As long as every probe returns before \<^verbatim>\<open>reset\<close> has passed since it
  started (its own timeout is at most \<^verbatim>\<open>reset\<close>), at most one probe is in flight in
  every reachable state, however the calls interleave.\<close>

theorem breaker_one_probe:
  assumes "0 < rst" and "rst \<le> max_duration"
    and "reachable (breaker_init (newBreaker thr rst succs pt)) (breaker_step True) c"
  shows "length (filter fst (inflight c)) \<le> 1"
proof -
  have "breaker_init (newBreaker thr rst succs pt) c0 \<Longrightarrow> probe_inv c0" for c0
    using assms(1,2) by (simp add: probe_inv_def probe_ok_def breaker_init_def newBreaker_def)
  then have "breaker_init (newBreaker thr rst succs pt) =
      (\<lambda>c0. breaker_init (newBreaker thr rst succs pt) c0 \<and> probe_inv c0)" by blast
  with assms(3) have "probe_inv c" using probes.reachable_inv by metis
  then show ?thesis by (simp add: probe_inv_def probe_ok_def)
qed

section \<open>When the breaker opens\<close>

text \<open>
  The outcomes of calls admitted while closed, in the order they are recorded: the clock,
  whether the call failed and whether its caller's context had ended. An outcome counts
  unless it is a failure of a caller that gave up.
\<close>

type_synonym outcome = "instant \<times> bool \<times> bool"

definition record_all :: "outcome list \<Rightarrow> breaker \<Rightarrow> breaker" where
  "record_all = fold (\<lambda>(now, failed, ended). record_outcome now failed ended False)"

definition counted :: "outcome list \<Rightarrow> bool list" where
  "counted os = map (\<lambda>(now, failed, ended). failed) (filter (\<lambda>(now, failed, ended). \<not> (failed \<and> ended)) os)"

fun failure_run :: "nat \<Rightarrow> nat \<Rightarrow> bool list \<Rightarrow> bool" where
  "failure_run thr k [] = False"
| "failure_run thr k (failed # fs) =
     (if failed then Suc k \<ge> thr \<or> failure_run thr (Suc k) fs else failure_run thr 0 fs)"

lemma failure_run_iff:
  "k < thr \<Longrightarrow> failure_run thr k fs \<longleftrightarrow>
     (\<exists>xs ys. replicate k True @ fs = xs @ replicate thr True @ ys)"
proof (induction thr k fs rule: failure_run.induct)
  case (1 thr k)
  have "length (replicate k True) \<noteq> length (xs @ replicate thr True @ ys)" for xs ys :: "bool list"
    using 1 by simp
  then show ?case by (metis append_Nil2 failure_run.simps(1))
next
  case (2 thr k failed fs)
  show ?case
  proof (cases failed)
    case True
    have shift: "replicate k True @ failed # fs = replicate (Suc k) True @ fs"
      using True by (simp add: replicate_app_Cons_same)
    show ?thesis
    proof (cases "Suc k < thr")
      case True
      with \<open>failed\<close> have "failure_run thr k (failed # fs) = failure_run thr (Suc k) fs" by simp
      then show ?thesis unfolding shift using 2(1) [OF \<open>failed\<close> True] by simp
    next
      case False
      with 2(3) have "Suc k = thr" by simp
      then have "replicate k True @ failed # fs = [] @ replicate thr True @ fs"
        using shift by simp
      with \<open>failed\<close> \<open>Suc k = thr\<close> show ?thesis by (metis failure_run.simps(2) order_refl)
    qed
  next
    case False
    have "(\<exists>xs ys. replicate k True @ False # fs = xs @ replicate thr True @ ys) \<longleftrightarrow>
          (\<exists>xs ys. fs = xs @ replicate thr True @ ys)" (is "?L \<longleftrightarrow> ?R")
    proof
      assume ?R
      then obtain xs ys where "fs = xs @ replicate thr True @ ys" by blast
      then have "replicate k True @ False # fs
          = (replicate k True @ False # xs) @ replicate thr True @ ys" by simp
      then show ?L by blast
    next
      assume ?L
      then obtain xs ys where eq: "replicate k True @ False # fs = xs @ replicate thr True @ ys"
        by blast
      have "\<not> length xs \<le> k"
      proof
        assume le: "length xs \<le> k"
        have "(replicate k True @ False # fs) ! k = False" by (simp add: nth_append)
        moreover have "(xs @ replicate thr True @ ys) ! k = True"
          using le 2(3) by (simp add: nth_append less_imp_diff_less)
        ultimately show False using eq by simp
      qed
      then have "drop (Suc k) (replicate k True @ False # fs) = drop (Suc k) xs @ replicate thr True @ ys"
        using eq by simp
      then show ?R by auto
    qed
    with False 2 show ?thesis by simp
  qed
qed

lemma record_all_open: "state b = Open \<Longrightarrow> state (record_all os b) = Open"
  by (induction os arbitrary: b) (auto simp: record_all_def breaker_defs)

lemma record_all_trips:
  "state b = Closed \<Longrightarrow> failures b = int k \<Longrightarrow> threshold b = int thr \<Longrightarrow>
   state (record_all os b) = (if failure_run thr k (counted os) then Open else Closed)"
proof (induction os arbitrary: b k)
  case Nil
  then show ?case by (simp add: record_all_def counted_def)
next
  case (Cons x os)
  obtain now failed ended where x: "x = (now, failed, ended)" by (cases x)
  let ?b = "record_outcome now failed ended False b"
  have unfold: "record_all (x # os) b = record_all os ?b"
    by (simp add: record_all_def x)
  consider (skip) "failed" "ended" | (ok) "\<not> failed" | (bad) "failed" "\<not> ended" by blast
  then show ?case
  proof cases
    case skip
    then have "?b = b" by (simp add: breaker_defs)
    with Cons skip unfold show ?thesis by (simp add: x counted_def)
  next
    case ok
    have "state ?b = Closed" "failures ?b = int 0" "threshold ?b = int thr"
      using Cons.prems ok by (simp_all add: breaker_defs)
    from Cons.IH [OF this] ok unfold show ?thesis by (simp add: x counted_def)
  next
    case bad
    show ?thesis
    proof (cases "thr \<le> Suc k")
      case True
      with Cons.prems bad have "state ?b = Open" by (simp add: breaker_defs)
      with True bad unfold show ?thesis by (simp add: x counted_def record_all_open)
    next
      case False
      with Cons.prems bad have "state ?b = Closed" "failures ?b = int (Suc k)" "threshold ?b = int thr"
        by (simp_all add: breaker_defs)
      from Cons.IH [OF this] False bad unfold show ?thesis by (simp add: x counted_def)
    qed
  qed
qed

text \<open>A closed breaker is open after a sequence of call outcomes exactly when the
  counted outcomes, those not excused by the caller's own ended context, contain
  \<^verbatim>\<open>threshold\<close> failures in a row.\<close>

theorem breaker_trips_iff:
  assumes "0 < thr"
  shows "state (record_all os (newBreaker (int thr) rst succs pt)) =
    (if \<exists>xs ys. counted os = xs @ replicate thr True @ ys then Open else Closed)"
  using assms failure_run_iff [of 0 thr "counted os"]
  by (subst record_all_trips [where k = 0 and thr = thr]) (simp_all add: newBreaker_def)

section \<open>Shielding Redis and recovering\<close>

text \<open>
  A sequence of guarded calls, one after the other: each is the inner operation with the
  clock readings of its \<open>allow\<close> and \<open>record\<close>.
\<close>

type_synonym ('l, 'err) guarded_call =
  "('l \<Rightarrow> call_context \<Rightarrow> 'l \<times> 'err option) \<times> instant \<times> instant"

definition run_calls :: "('l, 'err) guarded_call list \<Rightarrow> breaker \<times> 'l \<Rightarrow> breaker \<times> 'l" where
  "run_calls = fold (\<lambda>(inner, t1, t2) s. fst (breaker_call inner t1 t2 False s))"

lemma breaker_call_open:
  assumes "state b = Open" and "t1 - openedAt b < reset b" and "reset b \<le> max_duration"
    and "0 < reset b"
  shows "breaker_call inner t1 t2 ended (b, l) = ((b, l), None)"
proof -
  have "time_sub t1 (openedAt b) < reset b"
    using assms by (subst time_sub_less_iff) (auto simp: min_duration_def)
  with assms show ?thesis by (simp add: breaker_call_def allow_def)
qed

text \<open>While an open breaker's \<^verbatim>\<open>reset\<close> period lasts, no sequence of calls reaches
  the inner layer, and the breaker does not change.\<close>

theorem breaker_open_shields:
  assumes "state b = Open" and "0 < reset b" and "reset b \<le> max_duration"
    and "\<forall>(inner, t1, t2) \<in> set cs. t1 - openedAt b < reset b"
  shows "run_calls cs (b, l) = (b, l)"
  using assms(4)
proof (induction cs)
  case Nil
  then show ?case by (simp add: run_calls_def)
next
  case (Cons c cs)
  obtain inner t1 t2 where c: "c = (inner, t1, t2)" by (cases c)
  with Cons.prems have "t1 - openedAt b < reset b" by simp
  from breaker_call_open [OF assms(1) this assms(3,2), of inner t2 False l]
  have "run_calls (c # cs) (b, l) = run_calls cs (b, l)"
    by (simp add: run_calls_def c)
  with Cons show ?case by simp
qed

text \<open>
  Recovery: a call whose inner operation succeeds, made while half-open without a probe in
  flight, adds one to the streak, and the streak closes the breaker.
\<close>

definition probed :: "instant \<Rightarrow> instant \<Rightarrow> breaker \<Rightarrow> breaker" where
  "probed t1 t2 b = count_outcome t2 False True (b\<lparr>probeAt := t1, probing := False\<rparr>)"

text \<open>An inner operation that never fails: Redis answers.\<close>

definition healthy :: "('l \<Rightarrow> call_context \<Rightarrow> 'l \<times> 'err option) \<Rightarrow> bool" where
  "healthy inner \<longleftrightarrow> (\<forall>l c. snd (inner l c) = None)"

lemma healthyD: "healthy inner \<Longrightarrow> inner l c = (l', err) \<Longrightarrow> err = None"
  by (metis healthy_def snd_conv)

lemma breaker_call_half_open:
  assumes "state b = HalfOpen" and "\<not> probing b" and "healthy inner"
  shows "fst (fst (breaker_call inner t1 t2 False (b, l))) = probed t1 t2 b"
  using assms
  by (auto simp: breaker_call_def probed_def allow_def half_open_gate_def record_outcome_def
      dest: healthyD split: prod.split)

lemma breaker_call_reset_over:
  assumes "state b = Open" and "reset b \<le> t1 - openedAt b" and "0 < reset b"
    and "reset b \<le> max_duration" and "healthy inner"
  shows "fst (fst (breaker_call inner t1 t2 False (b, l))) =
    probed t1 t2 (b\<lparr>state := HalfOpen, streak := 0, probing := False\<rparr>)"
proof -
  have "\<not> time_sub t1 (openedAt b) < reset b"
    using assms by (subst time_sub_less_iff) (auto simp: min_duration_def)
  with assms show ?thesis
    by (auto simp: breaker_call_def probed_def allow_def half_open_gate_def record_outcome_def
      dest: healthyD split: prod.split)
qed

lemma probed_streak:
  assumes "state b = HalfOpen" and "streak b = int k" and "successes b = int n" and "k < n"
  shows "if Suc k = n
    then state (probed t1 t2 b) = Closed \<and> failures (probed t1 t2 b) = 0
    else state (probed t1 t2 b) = HalfOpen \<and> streak (probed t1 t2 b) = int (Suc k) \<and>
         \<not> probing (probed t1 t2 b) \<and> successes (probed t1 t2 b) = int n"
  using assms by (auto simp: probed_def count_outcome_def Let_def)

lemma run_calls_Cons:
  "run_calls ((inner, t1, t2) # cs) s = run_calls cs (fst (breaker_call inner t1 t2 False s))"
  by (simp add: run_calls_def)

lemma run_calls_half_open:
  assumes "state b = HalfOpen" and "\<not> probing b" and "streak b = int k"
    and "successes b = int (k + length cs)" and "cs \<noteq> []"
    and "\<forall>(inner, t1, t2) \<in> set cs. healthy inner"
  shows "state (fst (run_calls cs (b, l))) = Closed \<and> failures (fst (run_calls cs (b, l))) = 0"
  using assms
proof (induction cs arbitrary: b l k)
  case (Cons x cs)
  obtain inner t1 t2 where x: "x = (inner, t1, t2)" by (cases x)
  obtain b' l' where step: "fst (breaker_call inner t1 t2 False (b, l)) = (b', l')"
    by fastforce
  have ok: "healthy inner" using Cons.prems(6) by (simp add: x)
  from breaker_call_half_open [OF Cons.prems(1,2) ok] step
  have b': "b' = probed t1 t2 b" by (metis fst_conv)
  note streak = probed_streak [OF Cons.prems(1,3,4), of t1 t2]
  have more: "run_calls (x # cs) (b, l) = run_calls cs (b', l')"
    by (simp add: x run_calls_Cons step)
  show ?case
  proof (cases "cs = []")
    case True
    with streak b' more show ?thesis by (simp add: run_calls_def)
  next
    case False
    with streak b' have "state b' = HalfOpen" "\<not> probing b'" "streak b' = int (Suc k)"
      "successes b' = int (Suc k + length cs)" by simp_all
    from Cons.IH [OF this False] Cons.prems(6) more show ?thesis by simp
  qed
qed simp

text \<open>Once the \<^verbatim>\<open>reset\<close> period of an open breaker is over, \<^verbatim>\<open>successes\<close> calls in a
  row to a healthy inner layer close it again with the failure count at zero.\<close>

theorem breaker_recovers:
  assumes "state b = Open" and "0 < reset b" and "reset b \<le> max_duration"
    and "cs = (inner, t1, t2) # rest" and "openedAt b + reset b \<le> t1"
    and "successes b = int (length cs)"
    and "\<forall>(inner, t1, t2) \<in> set cs. healthy inner"
  shows "state (fst (run_calls cs (b, l))) = Closed \<and> failures (fst (run_calls cs (b, l))) = 0"
proof -
  let ?h = "b\<lparr>state := HalfOpen, streak := 0, probing := False\<rparr>"
  obtain b' l' where step: "fst (breaker_call inner t1 t2 False (b, l)) = (b', l')"
    by fastforce
  have ok: "healthy inner" using assms(4,7) by simp
  have "reset b \<le> t1 - openedAt b" using assms(5) by simp
  from breaker_call_reset_over [OF assms(1) this assms(2,3) ok] step
  have b': "b' = probed t1 t2 ?h" by (metis fst_conv)
  have streak: "if Suc 0 = length cs
    then state b' = Closed \<and> failures b' = 0
    else state b' = HalfOpen \<and> streak b' = int (Suc 0) \<and> \<not> probing b' \<and>
         successes b' = int (length cs)"
    unfolding b' using assms(4,6) by (intro probed_streak) auto
  have more: "run_calls cs (b, l) = run_calls rest (b', l')"
    by (simp add: assms(4) run_calls_Cons step)
  show ?thesis
  proof (cases "rest = []")
    case True
    with streak more assms(4) show ?thesis by (simp add: run_calls_def)
  next
    case False
    then have "state b' = HalfOpen" "\<not> probing b'" "streak b' = int (Suc 0)"
      "successes b' = int (Suc 0 + length rest)" using streak assms(4) by simp_all
    from run_calls_half_open [OF this False] assms(4,7) more show ?thesis by auto
  qed
qed

section \<open>A run of the machine\<close>

text \<open>
  A breaker with threshold 1, two successful probes to close and a reset of 10: one failed
  call opens it, and the first call after the reset is a probe.
\<close>

definition demo_brk :: breaker where
  "demo_brk = newBreaker 1 10 2 10"

definition demo_probe :: bconfig where
  "demo_probe =
     \<lparr>brk = demo_brk\<lparr>failures := 1, state := HalfOpen, probing := True, probeAt := 10\<rparr>,
      clock = 10, inflight = [(True, 10)]\<rparr>"

lemmas demo_defs = demo_brk_def demo_probe_def newBreaker_def breaker_defs time_sub_def
  max_duration_def min_duration_def

lemma reach_tick:
  "reachable I (breaker_step timely) c \<Longrightarrow> clock c \<le> t \<Longrightarrow>
   (timely \<Longrightarrow> \<forall>(p, s) \<in> set (inflight c). p \<longrightarrow> t - s < reset (brk c)) \<Longrightarrow>
   c' = c\<lparr>clock := t\<rparr> \<Longrightarrow> reachable I (breaker_step timely) c'"
  by (metis (no_types, lifting) reachable_step breaker_step.tick)

lemma reach_admitted:
  "reachable I (breaker_step timely) c \<Longrightarrow> snd (fst (allow (clock c) (brk c))) \<Longrightarrow>
   c' = c\<lparr>brk := snd (allow (clock c) (brk c)),
          inflight := (fst (fst (allow (clock c) (brk c))), clock c) # inflight c\<rparr> \<Longrightarrow>
   reachable I (breaker_step timely) c'"
  by (cases "allow (clock c) (brk c)"; cases "fst (allow (clock c) (brk c))")
    (auto intro: reachable_step breaker_step.admitted)

lemma reach_rejected:
  "reachable I (breaker_step timely) c \<Longrightarrow> \<not> snd (fst (allow (clock c) (brk c))) \<Longrightarrow>
   c' = c\<lparr>brk := snd (allow (clock c) (brk c))\<rparr> \<Longrightarrow> reachable I (breaker_step timely) c'"
  by (cases "allow (clock c) (brk c)"; cases "fst (allow (clock c) (brk c))")
    (auto intro: reachable_step breaker_step.rejected)

lemma reach_return:
  "reachable I (breaker_step timely) c \<Longrightarrow> (probe, s) \<in> set (inflight c) \<Longrightarrow>
   c' = c\<lparr>brk := record_outcome (clock c) failed ended probe (brk c),
         inflight := remove1 (probe, s) (inflight c)\<rparr> \<Longrightarrow>
   reachable I (breaker_step timely) c'"
  by (metis reachable_step breaker_step.return)

lemma demo_probe_reachable: "reachable (breaker_init demo_brk) (breaker_step timely) demo_probe"
proof -
  let ?R = "reachable (breaker_init demo_brk) (breaker_step timely)"
  have "?R \<lparr>brk = demo_brk, clock = 0, inflight = []\<rparr>"
    by (rule reachable_init) (simp add: breaker_init_def)
  then have "?R \<lparr>brk = demo_brk, clock = 0, inflight = [(False, 0)]\<rparr>"
    by (rule reach_admitted) (simp_all add: demo_defs)
  then have "?R \<lparr>brk = demo_brk\<lparr>failures := 1, state := Open\<rparr>, clock = 0, inflight = []\<rparr>"
    by (rule reach_return [where probe = False and s = 0 and failed = True and ended = False])
      (simp_all add: demo_defs)
  then have "?R \<lparr>brk = demo_brk\<lparr>failures := 1, state := Open\<rparr>, clock = 10, inflight = []\<rparr>"
    by (rule reach_tick [where t = 10]) (simp_all add: demo_defs)
  then show "?R demo_probe"
    by (rule reach_admitted) (simp_all add: demo_defs)
qed

theorem breaker_reachable_ok_witness:
  "breaker_ok demo_brk \<and> reachable (breaker_init demo_brk) (breaker_step False) demo_probe \<and>
   breaker_ok (brk demo_probe)"
proof -
  have "breaker_ok demo_brk" by (simp add: breaker_ok_def demo_defs)
  with breaker_reachable_ok [OF this demo_probe_reachable] demo_probe_reachable
  show ?thesis by simp
qed

theorem breaker_one_probe_witness:
  "reachable (breaker_init (newBreaker 1 10 2 10)) (breaker_step True) demo_probe \<and>
   filter fst (inflight demo_probe) = [(True, 10)] \<and> length (filter fst (inflight demo_probe)) \<le> 1"
proof -
  have reach: "reachable (breaker_init (newBreaker 1 10 2 10)) (breaker_step True) demo_probe"
    using demo_probe_reachable by (simp add: demo_brk_def)
  have "(0::int) < 10" "(10::int) \<le> max_duration" by (simp_all add: max_duration_def)
  from breaker_one_probe [OF this reach] reach show ?thesis by (simp add: demo_probe_def)
qed

theorem breaker_trips_iff_witness:
  "state (record_all [(1, True, False), (2, True, True), (3, True, False)] (newBreaker (int 2) 10 1 1)) = Open"
proof -
  have "counted [(1, True, False), (2, True, True), (3, True, False)] = [] @ replicate 2 True @ []"
    by (simp add: counted_def numeral_2_eq_2)
  then show ?thesis by (subst breaker_trips_iff) (simp, metis)
qed

theorem breaker_open_shields_witness:
  "run_calls [(\<lambda>l c. (l + 1, Some ()), 5, 6), (\<lambda>l c. (l + 1, None), 9, 9)]
     (demo_brk\<lparr>state := Open\<rparr>, 0::nat) = (demo_brk\<lparr>state := Open\<rparr>, 0)"
  by (rule breaker_open_shields) (simp_all add: demo_defs)

theorem breaker_recovers_witness:
  "state (fst (run_calls [(\<lambda>l c. (l + 1, None :: unit option), 10, 11), (\<lambda>l c. (l + 1, None), 12, 13)]
     (demo_brk\<lparr>state := Open\<rparr>, 0::nat))) = Closed \<and>
   failures (fst (run_calls [(\<lambda>l c. (l + 1, None :: unit option), 10, 11), (\<lambda>l c. (l + 1, None), 12, 13)]
     (demo_brk\<lparr>state := Open\<rparr>, 0::nat))) = 0"
  by (rule breaker_recovers) (auto simp: demo_defs healthy_def)

text \<open>The comment's "one probe at a time" fails when a probe outlives \<^verbatim>\<open>reset\<close>:
  its late return clears the flag of the probe that took its place, and two probes younger
  than \<^verbatim>\<open>reset\<close> are then in flight at once.\<close>

theorem breaker_two_live_probes:
  "\<exists>c. reachable (breaker_init (newBreaker 1 10 2 10)) (breaker_step False) c \<and>
       length (filter (\<lambda>(p, s). p \<and> clock c - s < reset (brk c)) (inflight c)) = 2"
proof -
  let ?R = "reachable (breaker_init demo_brk) (breaker_step False)"
  let ?b = "demo_brk\<lparr>failures := 1\<rparr>"
  have "?R \<lparr>brk = brk demo_probe, clock = 20, inflight = [(True, 10)]\<rparr>"
    by (rule reach_tick [OF demo_probe_reachable, where t = 20]) (simp_all add: demo_probe_def)
  then have "?R \<lparr>brk = ?b\<lparr>state := Open, openedAt := 20, probeAt := 10\<rparr>, clock = 20,
      inflight = [(True, 10)]\<rparr>"
    by (rule reach_rejected) (simp_all add: demo_defs)
  then have "?R \<lparr>brk = ?b\<lparr>state := Open, openedAt := 20, probeAt := 10\<rparr>, clock = 30,
      inflight = [(True, 10)]\<rparr>"
    by (rule reach_tick [where t = 30]) simp_all
  then have "?R \<lparr>brk = ?b\<lparr>state := HalfOpen, openedAt := 20, probing := True, probeAt := 30\<rparr>,
      clock = 30, inflight = [(True, 30), (True, 10)]\<rparr>"
    by (rule reach_admitted) (simp_all add: demo_defs)
  then have "?R \<lparr>brk = ?b\<lparr>state := HalfOpen, openedAt := 20, streak := 1, probeAt := 30\<rparr>,
      clock = 30, inflight = [(True, 30)]\<rparr>"
    by (rule reach_return [where probe = True and s = 10 and failed = False])
      (simp_all add: demo_defs)
  then have "?R \<lparr>brk = ?b\<lparr>state := HalfOpen, openedAt := 20, streak := 1, probing := True,
      probeAt := 30\<rparr>, clock = 30, inflight = [(True, 30), (True, 30)]\<rparr>"
    by (rule reach_admitted) (simp_all add: demo_defs)
  then show ?thesis
    by (intro exI [of _ "\<lparr>brk = ?b\<lparr>state := HalfOpen, openedAt := 20, streak := 1,
      probing := True, probeAt := 30\<rparr>, clock = 30, inflight = [(True, 30), (True, 30)]\<rparr>"])
      (simp add: demo_brk_def newBreaker_def)
qed

end
