(* ===== verification/Cache.thy ===== *)
theory Cache
  imports Breaker
begin

text \<open>
  The cache in front of the breaker: the single flight of loads (\<^verbatim>\<open>cache/flight.go\<close>), the layers
  (\<^verbatim>\<open>cache/layers.go\<close>), the operations over them (\<^verbatim>\<open>cache/cache.go\<close>) and the configuration
  (\<^verbatim>\<open>cache/config.go\<close>). The libraries below the layers (otter, the Redis client) are parameters.
\<close>

section \<open>The single flight\<close>

text \<open>
  A call is its channel \<open>done\<close> (closed or not) and its result: \<open>None\<close> is \<open>errLoadPanicked\<close>, which the
  call is born with. A goroutine in \<open>do\<close> is running the function as the leader of a call, has
  its function behind it and is about to take the call out of the map or to close the channel,
  waits for another's call, or has returned. A leader returns the buffer of its call itself
  (\<open>Landed\<close>), which its caller may write to; a waiter returns a copy.
\<close>

datatype 'err load_result = Loaded bytes | LoadErr 'err | LoadPanicked

record 'err fcall =
  ckey :: string
  cdone :: bool
  cres :: "'err load_result"

datatype 'err flight_pc =
    Leading string nat
  | Deleting string nat
  | Closing nat
  | Waiting string nat
  | Landed nat
  | Returned "'err load_result"
  | CtxEnded

record 'err flight =
  calls :: "string \<rightharpoonup> nat"
  heap :: "'err fcall list"
  procs :: "'err flight_pc list"

definition set_pc :: "nat \<Rightarrow> 'err flight_pc \<Rightarrow> 'err flight \<Rightarrow> 'err flight" where
  "set_pc g pc f = f\<lparr>procs := (procs f)[g := pc]\<rparr>"

text \<open>The section of \<open>do\<close> under the lock: a new goroutine joins a call or leads one.\<close>

definition flight_enter :: "string \<Rightarrow> 'err flight \<Rightarrow> 'err flight" where
  "flight_enter key f =
     (case calls f key of
        Some c \<Rightarrow> f\<lparr>procs := procs f @ [Waiting key c]\<rparr>
      | None \<Rightarrow>
          (let c = length (heap f)
           in f\<lparr>calls := (calls f)(key \<mapsto> c),
                heap := heap f @ [\<lparr>ckey = key, cdone = False, cres = LoadPanicked\<rparr>],
                procs := procs f @ [Leading key c]\<rparr>))"

text \<open>The function has returned (or panicked: the call keeps the result it was born with).\<close>

definition flight_loaded :: "nat \<Rightarrow> string \<Rightarrow> nat \<Rightarrow> 'err load_result \<Rightarrow> 'err flight \<Rightarrow> 'err flight" where
  "flight_loaded g key c res f =
     (set_pc g (Deleting key c) f)\<lparr>heap := (heap f)[c := (heap f ! c)\<lparr>cres := res\<rparr>]\<rparr>"

definition flight_delete :: "nat \<Rightarrow> string \<Rightarrow> nat \<Rightarrow> 'err flight \<Rightarrow> 'err flight" where
  "flight_delete g key c f = (set_pc g (Closing c) f)\<lparr>calls := (calls f)(key := None)\<rparr>"

definition flight_close :: "nat \<Rightarrow> nat \<Rightarrow> 'err flight \<Rightarrow> 'err flight" where
  "flight_close g c f =
     (set_pc g (Landed c) f)\<lparr>heap := (heap f)[c := (heap f ! c)\<lparr>cdone := True\<rparr>]\<rparr>"

definition flight_wake :: "nat \<Rightarrow> nat \<Rightarrow> 'err flight \<Rightarrow> 'err flight" where
  "flight_wake g c f = set_pc g (Returned (cres (heap f ! c))) f"

definition flight_give_up :: "nat \<Rightarrow> 'err flight \<Rightarrow> 'err flight" where
  "flight_give_up g f = set_pc g CtxEnded f"

text \<open>The caller of a leader writes to the slice it got, which is the value of the call.\<close>

definition flight_scribble :: "nat \<Rightarrow> bytes \<Rightarrow> 'err flight \<Rightarrow> 'err flight" where
  "flight_scribble c v f = f\<lparr>heap := (heap f)[c := (heap f ! c)\<lparr>cres := Loaded v\<rparr>]\<rparr>"

datatype 'err flight_event =
    FEnter string
  | FLoaded nat "'err load_result"
  | FDelete nat
  | FClose nat
  | FWake nat
  | FGiveUp nat
  | FScribble nat bytes

definition pc :: "'err flight \<Rightarrow> nat \<Rightarrow> 'err flight_pc option" where
  "pc f g = (if g < length (procs f) then Some (procs f ! g) else None)"

inductive flight_step :: "'err flight \<Rightarrow> 'err flight_event \<Rightarrow> 'err flight \<Rightarrow> bool" where
  enter: "flight_step f (FEnter key) (flight_enter key f)"
| loaded: "pc f g = Some (Leading key c) \<Longrightarrow> flight_step f (FLoaded g res) (flight_loaded g key c res f)"
| deleted: "pc f g = Some (Deleting key c) \<Longrightarrow> flight_step f (FDelete g) (flight_delete g key c f)"
| closed: "pc f g = Some (Closing c) \<Longrightarrow> flight_step f (FClose g) (flight_close g c f)"
| wake: "pc f g = Some (Waiting key c) \<Longrightarrow> cdone (heap f ! c) \<Longrightarrow> flight_step f (FWake g) (flight_wake g c f)"
| give_up: "pc f g = Some (Waiting key c) \<Longrightarrow> flight_step f (FGiveUp g) (flight_give_up g f)"
| scribble: "pc f g = Some (Landed c) \<Longrightarrow> c < length (heap f) \<Longrightarrow> cres (heap f ! c) = Loaded x \<Longrightarrow> length y = length x \<Longrightarrow>
    flight_step f (FScribble g y) (flight_scribble c y f)"

inductive_cases flight_stepE: "flight_step f e f'"

text \<open>What a goroutine has returned, as its caller sees it now.\<close>

definition result :: "'err flight \<Rightarrow> nat \<Rightarrow> 'err load_result option" where
  "result f g =
     (case pc f g of Some (Landed c) \<Rightarrow> Some (cres (heap f ! c)) | Some (Returned r) \<Rightarrow> Some r | _ \<Rightarrow> None)"

text \<open>The step as a function, and a sequence of events in turn.\<close>

fun flight_next :: "'err flight \<Rightarrow> 'err flight_event \<Rightarrow> 'err flight option" where
  "flight_next f (FEnter key) = Some (flight_enter key f)"
| "flight_next f (FLoaded g res) = (case pc f g of Some (Leading key c) \<Rightarrow> Some (flight_loaded g key c res f) | _ \<Rightarrow> None)"
| "flight_next f (FDelete g) = (case pc f g of Some (Deleting key c) \<Rightarrow> Some (flight_delete g key c f) | _ \<Rightarrow> None)"
| "flight_next f (FClose g) = (case pc f g of Some (Closing c) \<Rightarrow> Some (flight_close g c f) | _ \<Rightarrow> None)"
| "flight_next f (FWake g) =
     (case pc f g of Some (Waiting key c) \<Rightarrow> if cdone (heap f ! c) then Some (flight_wake g c f) else None | _ \<Rightarrow> None)"
| "flight_next f (FGiveUp g) = (case pc f g of Some (Waiting key c) \<Rightarrow> Some (flight_give_up g f) | _ \<Rightarrow> None)"
| "flight_next f (FScribble g y) =
     (case pc f g of
        Some (Landed c) \<Rightarrow>
          if c < length (heap f) then
            (case cres (heap f ! c) of
               Loaded x \<Rightarrow> if length y = length x then Some (flight_scribble c y f) else None
             | _ \<Rightarrow> None)
          else None
      | _ \<Rightarrow> None)"

lemma flight_next_step: "flight_next f e = Some f' \<longleftrightarrow> flight_step f e f'"
proof
  show "flight_next f e = Some f' \<Longrightarrow> flight_step f e f'"
    by (cases e) (auto intro: flight_step.intros split: option.splits flight_pc.splits if_splits load_result.splits)
  show "flight_step f e f' \<Longrightarrow> flight_next f e = Some f'"
    by (induction rule: flight_step.induct) auto
qed

fun flight_run :: "'err flight \<Rightarrow> 'err flight_event list \<Rightarrow> 'err flight option" where
  "flight_run f [] = Some f"
| "flight_run f (e # es) = (case flight_next f e of None \<Rightarrow> None | Some f' \<Rightarrow> flight_run f' es)"

definition scribbles :: "'err flight_event \<Rightarrow> bool" where
  "scribbles e \<longleftrightarrow> (case e of FScribble _ _ \<Rightarrow> True | _ \<Rightarrow> False)"

definition flight0 :: "'err flight" where
  "flight0 = \<lparr>calls = Map.empty, heap = [], procs = []\<rparr>"

definition flight_init :: "'err flight \<Rightarrow> bool" where
  "flight_init f \<longleftrightarrow> f = flight0"

section \<open>The layers\<close>

text \<open>
  \<open>'w\<close> is the world the calls act on: the stores of the libraries, the clock, the contexts.
  A layer is its three operations.
\<close>

record ('w, 'err) layer =
  lget :: "string \<Rightarrow> 'w \<Rightarrow> 'w \<times> 'err get_result"
  lset :: "string \<Rightarrow> bytes \<Rightarrow> duration \<Rightarrow> 'w \<Rightarrow> 'w \<times> 'err option"
  ldel :: "string \<Rightarrow> 'w \<Rightarrow> 'w \<times> 'err option"

record 'w otter =
  GetIfPresent :: "string \<Rightarrow> 'w \<Rightarrow> 'w \<times> (bytes \<times> duration) option"
  oSet :: "string \<Rightarrow> bytes \<times> duration \<Rightarrow> 'w \<Rightarrow> 'w"
  Invalidate :: "string \<Rightarrow> 'w \<Rightarrow> 'w"

definition memory_get :: "'w otter \<Rightarrow> string \<Rightarrow> 'w \<Rightarrow> 'w \<times> 'err get_result" where
  "memory_get m key w =
     (case GetIfPresent m key w of
        (w1, None) \<Rightarrow> (w1, [], False, None)
      | (w1, Some e) \<Rightarrow> (w1, fst e, True, None))"

definition memory_set :: "'w otter \<Rightarrow> duration \<Rightarrow> string \<Rightarrow> bytes \<Rightarrow> duration \<Rightarrow> 'w \<Rightarrow> 'w \<times> 'err option" where
  "memory_set m dflt key val ttl w = (oSet m key (val, if ttl = 0 then dflt else ttl) w, None)"

definition memory_del :: "'w otter \<Rightarrow> string \<Rightarrow> 'w \<Rightarrow> 'w \<times> 'err option" where
  "memory_del m key w = (Invalidate m key w, None)"

definition memory_layer :: "'w otter \<Rightarrow> duration \<Rightarrow> ('w, 'err) layer" where
  "memory_layer m dflt = \<lparr>lget = memory_get m, lset = memory_set m dflt, ldel = memory_del m\<rparr>"

datatype 'err reply = Value bytes | NoKey | Failed 'err

record ('w, 'err) rclient =
  rGet :: "call_context \<Rightarrow> string \<Rightarrow> 'w \<Rightarrow> 'w \<times> 'err reply"
  rSet :: "call_context \<Rightarrow> string \<Rightarrow> bytes \<Rightarrow> duration \<Rightarrow> 'w \<Rightarrow> 'w \<times> 'err option"
  rDel :: "call_context \<Rightarrow> string \<Rightarrow> 'w \<Rightarrow> 'w \<times> 'err option"

definition redis_get :: "('w, 'err) rclient \<Rightarrow> call_context \<Rightarrow> string \<Rightarrow> 'w \<Rightarrow> 'w \<times> 'err get_result" where
  "redis_get r ctx key w =
     (case rGet r ctx key w of
        (w1, NoKey) \<Rightarrow> (w1, [], False, None)
      | (w1, Failed e) \<Rightarrow> (w1, [], False, Some e)
      | (w1, Value v) \<Rightarrow> (w1, v, True, None))"

definition redis_set :: "('w, 'err) rclient \<Rightarrow> duration \<Rightarrow> call_context \<Rightarrow> string \<Rightarrow> bytes \<Rightarrow> duration \<Rightarrow> 'w \<Rightarrow> 'w \<times> 'err option" where
  "redis_set r dflt ctx key val ttl w = rSet r ctx key val (if ttl = 0 then dflt else ttl) w"

definition redis_del :: "('w, 'err) rclient \<Rightarrow> call_context \<Rightarrow> string \<Rightarrow> 'w \<Rightarrow> 'w \<times> 'err option" where
  "redis_del r ctx key w = rDel r ctx key w"

definition redis_layer :: "('w, 'err) rclient \<Rightarrow> duration \<Rightarrow> ('w, 'err) layer" where
  "redis_layer r dflt =
     \<lparr>lget = redis_get r CallerContext, lset = redis_set r dflt CallerContext, ldel = redis_del r CallerContext\<rparr>"

text \<open>
  The layer behind the breaker. \<open>brk\<close> reads the breaker in the world and \<open>put_brk\<close> replaces it,
  \<open>clock\<close> is the clock and \<open>ended\<close> whether the caller's context has ended; \<open>allow\<close> reads the clock
  before the call, \<open>record\<close> the clock and the context after it.
\<close>

record 'w breaker_env =
  brk :: "'w \<Rightarrow> breaker"
  put_brk :: "breaker \<Rightarrow> 'w \<Rightarrow> 'w"
  clock :: "'w \<Rightarrow> instant"
  ended :: "'w \<Rightarrow> bool"

definition admitted :: "'w breaker_env \<Rightarrow> 'w \<Rightarrow> call_context" where
  "admitted E w = (case allow (clock E w) (brk E w) of ((probe, ok), b1) \<Rightarrow> callContext b1 probe)"

definition with_breaker ::
  "'w breaker_env \<Rightarrow> (call_context \<Rightarrow> 'w \<Rightarrow> 'w) \<Rightarrow> (instant \<Rightarrow> instant \<Rightarrow> bool \<Rightarrow> breaker \<times> 'w \<Rightarrow> (breaker \<times> 'w) \<times> 'r) \<Rightarrow>
   'w \<Rightarrow> 'w \<times> 'r" where
  "with_breaker E inner op w =
     (let w1 = inner (admitted E w) w
      in case op (clock E w) (clock E w1) (ended E w1) (brk E w, w) of
           ((b, w2), r) \<Rightarrow> (put_brk E b w2, r))"

definition breaker_layer :: "'w breaker_env \<Rightarrow> ('w, 'err) rclient \<Rightarrow> duration \<Rightarrow> ('w, 'err) layer" where
  "breaker_layer E r dflt =
     \<lparr>lget = (\<lambda>key. with_breaker E (\<lambda>c w. fst (redis_get r c key w))
                (\<lambda>t1 t2 e. breaker_get (\<lambda>l c k. redis_get r c k l) t1 t2 e key)),
      lset = (\<lambda>key val ttl. with_breaker E (\<lambda>c w. fst (redis_set r dflt c key val ttl w))
                (\<lambda>t1 t2 e. breaker_set (\<lambda>l c k v t. redis_set r dflt c k v t l) t1 t2 e key val ttl)),
      ldel = (\<lambda>key. with_breaker E (\<lambda>c w. fst (redis_del r c key w))
                (\<lambda>t1 t2 e. breaker_del (\<lambda>l c k. redis_del r c k l) t1 t2 e key))\<rparr>"

section \<open>The cache\<close>

record ('w, 'err) Cache =
  layers :: "('w, 'err) layer list"
  memory :: "('w, 'err) layer option"

datatype 'err cache_error =
    CtxErr 'err
  | AllFailed string "'err list"
  | NegativeTTL string duration
  | SomeFailed string "'err list"
  | NilLoad string
  | LoadFailed 'err

text \<open>\<open>ctxErr\<close> is \<^verbatim>\<open>ctx.Err()\<close> of the caller, read in the world of the moment.\<close>

fun get_loop ::
  "('w \<Rightarrow> 'err option) \<Rightarrow> ('w, 'err) Cache \<Rightarrow> string \<Rightarrow> nat \<Rightarrow> ('w, 'err) layer list \<Rightarrow> 'err list \<Rightarrow> 'w \<Rightarrow>
   'w \<times> ('err cache_error + bytes option)" where
  "get_loop ctxErr c key i [] errs w =
     (w, if errs \<noteq> [] \<and> length errs = length (layers c) then Inl (AllFailed key errs) else Inr None)"
| "get_loop ctxErr c key i (l # ls) errs w =
     (case ctxErr w of
        Some e \<Rightarrow> (w, Inl (CtxErr e))
      | None \<Rightarrow>
          (case lget l key w of
             (w1, v, hit, Some e) \<Rightarrow> get_loop ctxErr c key (Suc i) ls (errs @ [e]) w1
           | (w1, v, hit, None) \<Rightarrow>
               if \<not> hit then get_loop ctxErr c key (Suc i) ls errs w1
               else (case memory c of
                       Some m \<Rightarrow> (if i > 0 then fst (lset m key v 0 w1) else w1)
                     | None \<Rightarrow> w1, Inr (Some v))))"

definition Get ::
  "('w \<Rightarrow> 'err option) \<Rightarrow> ('w, 'err) Cache \<Rightarrow> string \<Rightarrow> 'w \<Rightarrow> 'w \<times> ('err cache_error + bytes option)" where
  "Get ctxErr c key w = get_loop ctxErr c key 0 (layers c) [] w"

text \<open>\<open>Set\<close> and \<open>Delete\<close> go on after a layer that fails.\<close>

fun each_layer :: "(('w, 'err) layer \<Rightarrow> 'w \<Rightarrow> 'w \<times> 'err option) \<Rightarrow> ('w, 'err) layer list \<Rightarrow> 'err list \<Rightarrow> 'w \<Rightarrow> 'w \<times> 'err list" where
  "each_layer op [] errs w = (w, errs)"
| "each_layer op (l # ls) errs w =
     (case op l w of
        (w1, None) \<Rightarrow> each_layer op ls errs w1
      | (w1, Some e) \<Rightarrow> each_layer op ls (errs @ [e]) w1)"

definition joined :: "string \<Rightarrow> 'w \<times> 'err list \<Rightarrow> 'w \<times> 'err cache_error option" where
  "joined key r = (fst r, if snd r = [] then None else Some (SomeFailed key (snd r)))"

definition Set :: "('w, 'err) Cache \<Rightarrow> string \<Rightarrow> bytes \<Rightarrow> duration \<Rightarrow> 'w \<Rightarrow> 'w \<times> 'err cache_error option" where
  "Set c key val ttl w =
     (if ttl < 0 then (w, Some (NegativeTTL key ttl))
      else joined key (each_layer (\<lambda>l. lset l key val ttl) (layers c) [] w))"

definition Delete :: "('w, 'err) Cache \<Rightarrow> string \<Rightarrow> 'w \<Rightarrow> 'w \<times> 'err cache_error option" where
  "Delete c key w = joined key (each_layer (\<lambda>l. ldel l key) (layers c) [] w)"

text \<open>The function \<open>GetOrLoad\<close> hands to the flight, and the call of a goroutine that leads.\<close>

definition load_fn ::
  "('w \<Rightarrow> 'err option) \<Rightarrow> ('w, 'err) Cache \<Rightarrow> string \<Rightarrow> duration \<Rightarrow> ('w \<Rightarrow> 'w \<times> ('err + bytes)) \<Rightarrow> 'w \<Rightarrow>
   'w \<times> ('err cache_error + bytes)" where
  "load_fn ctxErr c key ttl load w =
     (case Get ctxErr c key w of
        (w1, Inr (Some v)) \<Rightarrow> (w1, Inr v)
      | (w1, _) \<Rightarrow>
          (case load w1 of
             (w2, Inl e) \<Rightarrow> (w2, Inl (LoadFailed e))
           | (w2, Inr v) \<Rightarrow> (fst (Set c key v ttl w2), Inr v)))"

definition GetOrLoad ::
  "('w \<Rightarrow> 'err option) \<Rightarrow> ('w, 'err) Cache \<Rightarrow> string \<Rightarrow> duration \<Rightarrow> ('w \<Rightarrow> 'w \<times> ('err + bytes)) option \<Rightarrow> 'w \<Rightarrow>
   'w \<times> ('err cache_error + bytes)" where
  "GetOrLoad ctxErr c key ttl load w =
     (case load of
        None \<Rightarrow> (w, Inl (NilLoad key))
      | Some fn \<Rightarrow>
          if ttl < 0 then (w, Inl (NegativeTTL key ttl))
          else case ctxErr w of
                 Some e \<Rightarrow> (w, Inl (CtxErr e))
               | None \<Rightarrow>
                   (case Get ctxErr c key w of
                      (w1, Inr (Some v)) \<Rightarrow> (w1, Inr v)
                    | (w1, _) \<Rightarrow> load_fn ctxErr c key ttl fn w1))"

section \<open>Configuration\<close>

record MemoryConfig =
  mEnabled :: bool
  Capacity :: int
  mTTL :: duration

record RedisConfig =
  rEnabled :: bool
  Addr :: string
  Username :: string
  Password :: string
  DB :: int
  TLS :: bool
  CACert :: string
  DialTimeout :: duration
  ReadTimeout :: duration
  WriteTimeout :: duration
  PoolSize :: int
  rTTL :: duration

record BreakerConfig =
  bEnabled :: bool
  Threshold :: int
  ResetTimeout :: duration
  HalfOpenSuccesses :: int
  ProbeTimeout :: duration

record Config =
  Memory :: MemoryConfig
  Redis :: RedisConfig
  Breaker :: BreakerConfig

definition set_default :: "int \<Rightarrow> int \<Rightarrow> int" where
  "set_default v dflt = (if v = 0 then dflt else v)"

definition withDefaults :: "Config \<Rightarrow> Config" where
  "withDefaults c =
     c\<lparr>Memory := (Memory c)\<lparr>Capacity := set_default (Capacity (Memory c)) 10000,
                              mTTL := set_default (mTTL (Memory c)) (5 * 60 * second_ns)\<rparr>,
       Redis := (Redis c)\<lparr>Addr := (if Addr (Redis c) = [] then ''127.0.0.1:6379'' else Addr (Redis c)),
                            DialTimeout := set_default (DialTimeout (Redis c)) second_ns,
                            ReadTimeout := set_default (ReadTimeout (Redis c)) (second_ns div 2),
                            WriteTimeout := set_default (WriteTimeout (Redis c)) (second_ns div 2),
                            PoolSize := set_default (PoolSize (Redis c)) 10,
                            rTTL := set_default (rTTL (Redis c)) (10 * 60 * second_ns)\<rparr>,
       Breaker := (Breaker c)\<lparr>Threshold := set_default (Threshold (Breaker c)) 5,
                                ResetTimeout := set_default (ResetTimeout (Breaker c)) (30 * second_ns),
                                HalfOpenSuccesses := set_default (HalfOpenSuccesses (Breaker c)) 3,
                                ProbeTimeout := set_default (ProbeTimeout (Breaker c)) (2 * second_ns)\<rparr>\<rparr>"

datatype config_problem = MustBePositive string int | EmptyAddr | NegativeDB int | BreakerWithoutRedis

definition positive :: "string \<Rightarrow> int \<Rightarrow> config_problem list" where
  "positive key v = (if v > 0 then [] else [MustBePositive key v])"

definition Validate :: "Config \<Rightarrow> config_problem list" where
  "Validate c =
     (let m = Memory c; r = Redis c; b = Breaker c
      in (if mEnabled m then positive ''memory.capacity'' (Capacity m) @ positive ''memory.ttl'' (mTTL m) else []) @
         (if rEnabled r then
            (if Addr r = [] then [EmptyAddr] else []) @ (if DB r < 0 then [NegativeDB (DB r)] else []) @
            positive ''redis.dial_timeout'' (DialTimeout r) @ positive ''redis.read_timeout'' (ReadTimeout r) @
            positive ''redis.write_timeout'' (WriteTimeout r) @ positive ''redis.pool_size'' (PoolSize r) @
            positive ''redis.ttl'' (rTTL r)
          else []) @
         (if bEnabled b then
            (if \<not> rEnabled r then [BreakerWithoutRedis] else []) @
            positive ''breaker.threshold'' (Threshold b) @ positive ''breaker.reset_timeout'' (ResetTimeout b) @
            positive ''breaker.half_open_successes'' (HalfOpenSuccesses b) @ positive ''breaker.probe_timeout'' (ProbeTimeout b)
          else []))"

datatype new_error = BadConfig "config_problem list" | NoLayer | BadClient | BadMemory

text \<open>
  \<open>newClient\<close> and \<open>newOtter\<close> build the Redis client (from the TLS files) and the otter cache, or fail;
  \<open>E\<close> places the breaker in the world, where \<open>New\<close> puts the one it builds.
\<close>

definition New ::
  "(Config \<Rightarrow> ('w, 'err) rclient option) \<Rightarrow> (int \<Rightarrow> 'w otter option) \<Rightarrow> 'w breaker_env \<Rightarrow> Config \<Rightarrow> 'w \<Rightarrow>
   new_error + 'w \<times> ('w, 'err) Cache" where
  "New newClient newOtter E cfg0 w =
     (let cfg = withDefaults cfg0; m = Memory cfg; r = Redis cfg; b = Breaker cfg
      in if Validate cfg \<noteq> [] then Inl (BadConfig (Validate cfg))
         else if \<not> mEnabled m \<and> \<not> rEnabled r then Inl NoLayer
         else if rEnabled r \<and> newClient cfg = None then Inl BadClient
         else if mEnabled m \<and> newOtter (Capacity m) = None then Inl BadMemory
         else
           (let mem = (if mEnabled m then Some (memory_layer (the (newOtter (Capacity m))) (mTTL m)) else None);
                cl = the (newClient cfg);
                w1 = (if rEnabled r \<and> bEnabled b
                      then put_brk E (newBreaker (Threshold b) (ResetTimeout b) (HalfOpenSuccesses b) (ProbeTimeout b)) w else w);
                red = (if \<not> rEnabled r then []
                       else if bEnabled b then [breaker_layer E cl (rTTL r)]
                       else [redis_layer cl (rTTL r)])
            in Inr (w1, \<lparr>layers = (case mem of Some l \<Rightarrow> [l] | None \<Rightarrow> []) @ red, memory = mem\<rparr>)))"

section \<open>The invariant of the flight\<close>

text \<open>
  The invariant, over the program counters \<open>P\<close>, the map \<open>m\<close> and the calls \<open>h\<close>. Each call that is not
  closed has one goroutine that will close it; a goroutine leads the call the map has under its
  key until it takes it out, and every call in the map is led; a waiter waits for a call of its
  own key.
\<close>

fun leads :: "'err flight_pc \<Rightarrow> nat \<Rightarrow> bool" where
  "leads (Leading k c) c' = (c' = c)"
| "leads (Deleting k c) c' = (c' = c)"
| "leads (Closing c) c' = (c' = c)"
| "leads _ c' = False"

fun holds_key :: "'err flight_pc \<Rightarrow> string \<Rightarrow> nat \<Rightarrow> bool" where
  "holds_key (Leading k c) k' c' = (k' = k \<and> c' = c)"
| "holds_key (Deleting k c) k' c' = (k' = k \<and> c' = c)"
| "holds_key _ k' c' = False"

type_synonym 'err pcs = "nat \<rightharpoonup> 'err flight_pc"

definition open_led :: "'err pcs \<Rightarrow> 'err fcall list \<Rightarrow> bool" where
  "open_led P h \<longleftrightarrow> (\<forall>g p c. P g = Some p \<longrightarrow> leads p c \<longrightarrow> c < length h \<and> \<not> cdone (h ! c))"

definition one_leader :: "'err pcs \<Rightarrow> bool" where
  "one_leader P \<longleftrightarrow> (\<forall>g g' p p' c. P g = Some p \<longrightarrow> P g' = Some p' \<longrightarrow> leads p c \<longrightarrow> leads p' c \<longrightarrow> g = g')"

definition key_held :: "'err pcs \<Rightarrow> (string \<rightharpoonup> nat) \<Rightarrow> 'err fcall list \<Rightarrow> bool" where
  "key_held P m h \<longleftrightarrow> (\<forall>g p k c. P g = Some p \<longrightarrow> holds_key p k c \<longrightarrow> m k = Some c \<and> ckey (h ! c) = k)"

definition map_led :: "'err pcs \<Rightarrow> (string \<rightharpoonup> nat) \<Rightarrow> bool" where
  "map_led P m \<longleftrightarrow> (\<forall>k c. m k = Some c \<longrightarrow> (\<exists>g p. P g = Some p \<and> holds_key p k c))"

definition waits_ok :: "'err pcs \<Rightarrow> 'err fcall list \<Rightarrow> bool" where
  "waits_ok P h \<longleftrightarrow> (\<forall>g k c. P g = Some (Waiting k c) \<longrightarrow> c < length h \<and> ckey (h ! c) = k)"

definition closes :: "'err pcs \<Rightarrow> 'err fcall list \<Rightarrow> bool" where
  "closes P h \<longleftrightarrow> (\<forall>c < length h. \<not> cdone (h ! c) \<longrightarrow> (\<exists>g p. P g = Some p \<and> leads p c))"

lemmas flight_parts = open_led_def one_leader_def key_held_def map_led_def waits_ok_def closes_def

definition flight_ok :: "'err pcs \<Rightarrow> (string \<rightharpoonup> nat) \<Rightarrow> 'err fcall list \<Rightarrow> bool" where
  "flight_ok P m h \<longleftrightarrow> open_led P h \<and> one_leader P \<and> key_held P m h \<and> map_led P m \<and> waits_ok P h \<and> closes P h"

definition flight_inv :: "'err flight \<Rightarrow> bool" where
  "flight_inv f \<longleftrightarrow> flight_ok (pc f) (calls f) (heap f)"

lemma holds_leads: "holds_key p k c \<Longrightarrow> leads p c"
  by (cases p) auto

lemma pc_less: "pc f g = Some p \<Longrightarrow> g < length (procs f)"
  by (simp add: pc_def split: if_splits)

lemma pc_length [simp]: "pc f (length (procs f)) = None"
  by (simp add: pc_def)

lemma pc_sel [simp]: "pc (f\<lparr>calls := m\<rparr>) = pc f" "pc (f\<lparr>heap := h\<rparr>) = pc f"
  by (simp_all add: pc_def fun_eq_iff)

lemma pc_set_pc: "pc f g = Some p0 \<Longrightarrow> pc (set_pc g p f) = (pc f)(g \<mapsto> p)"
  by (auto simp: pc_def set_pc_def fun_eq_iff split: if_splits)

lemma pc_append [simp]: "pc (f\<lparr>procs := procs f @ [p]\<rparr>) = (pc f)(length (procs f) \<mapsto> p)"
  by (auto simp: pc_def nth_append fun_eq_iff)

lemma pc_appends [simp]:
  "pc (f\<lparr>calls := m, heap := h, procs := procs f @ [p]\<rparr>) = (pc f)(length (procs f) \<mapsto> p)"
  by (auto simp: pc_def nth_append fun_eq_iff)

lemma set_pc_sel [simp]: "calls (set_pc g p f) = calls f" "heap (set_pc g p f) = heap f"
  by (simp_all add: set_pc_def)

lemma flight_ok_wait:
  assumes "flight_ok P m h" "m k = Some c" "P n = None"
  shows "flight_ok (P(n \<mapsto> Waiting k c)) m h"
proof -
  obtain g p where gp: "P g = Some p" "holds_key p k c"
    using assms unfolding flight_ok_def map_led_def by blast
  then have "c < length h" "ckey (h ! c) = k"
    using assms(1) holds_leads unfolding flight_ok_def open_led_def key_held_def by blast+
  with assms show ?thesis
    unfolding flight_ok_def flight_parts by (auto split: if_splits) (metis option.distinct(1))+
qed

lemma flight_ok_lead:
  assumes "flight_ok P m h" "m k = None" "P n = None"
  shows "flight_ok (P(n \<mapsto> Leading k (length h))) (m(k \<mapsto> length h)) (h @ [\<lparr>ckey = k, cdone = False, cres = r\<rparr>])"
proof -
  have old: "c < length h" if "P g = Some p" "leads p c" for g p c
    using assms(1) that by (auto simp: flight_ok_def open_led_def)
  have no: "\<not> leads p (length h)" if "P g = Some p" for g p
    using old that by blast
  show ?thesis
    unfolding flight_ok_def
  proof (intro conjI)
    show "open_led (P(n \<mapsto> Leading k (length h))) (h @ [\<lparr>ckey = k, cdone = False, cres = r\<rparr>])"
      using assms by (auto simp: flight_ok_def open_led_def nth_append split: if_splits) (metis less_SucI)
    show "one_leader (P(n \<mapsto> Leading k (length h)))"
      using assms no by (auto simp: flight_ok_def one_leader_def split: if_splits)
    show "key_held (P(n \<mapsto> Leading k (length h))) (m(k \<mapsto> length h)) (h @ [\<lparr>ckey = k, cdone = False, cres = r\<rparr>])"
      using assms old holds_leads by (auto simp: flight_ok_def key_held_def nth_append split: if_splits) fastforce+
    show "map_led (P(n \<mapsto> Leading k (length h))) (m(k \<mapsto> length h))"
      using assms by (auto simp: flight_ok_def map_led_def split: if_splits) (metis option.distinct(1))
    show "waits_ok (P(n \<mapsto> Leading k (length h))) (h @ [\<lparr>ckey = k, cdone = False, cres = r\<rparr>])"
      using assms by (auto simp: flight_ok_def waits_ok_def nth_append split: if_splits) (metis less_SucI)
    show "closes (P(n \<mapsto> Leading k (length h))) (h @ [\<lparr>ckey = k, cdone = False, cres = r\<rparr>])"
      using assms by (auto simp: flight_ok_def closes_def nth_append split: if_splits) (metis option.distinct(1))
  qed
qed

text \<open>A step of a leader: it keeps its call, and the calls keep their keys and states.\<close>

lemma flight_ok_leader:
  assumes ok: "flight_ok P m h" and g: "P g = Some p" "leads p c" "leads p' c"
    and held: "\<And>k c'. holds_key p' k c' \<Longrightarrow> holds_key p k c'"
    and m: "m' = m \<or> (\<exists>k. holds_key p k c \<and> \<not> holds_key p' k c \<and> m' = m(k := None))"
    and m_held: "m' = m \<Longrightarrow> \<forall>k c'. holds_key p k c' \<longrightarrow> holds_key p' k c'"
    and h: "length h' = length h" "\<And>i. i < length h \<Longrightarrow> cdone (h' ! i) = cdone (h ! i) \<and> ckey (h' ! i) = ckey (h ! i)"
  shows "flight_ok (P(g \<mapsto> p')) m' h'"
proof -
  have only: "c' = c" if "leads p c'" for c'
    using g(2) that by (cases p) auto
  have only': "c' = c" if "leads p' c'" for c'
    using g(3) that by (cases p') auto
  have kh: "key_held P m h" and ol: "open_led P h"
    using ok by (auto simp: flight_ok_def)
  have key: "m k = Some c'" "ckey (h ! c') = k" "c' < length h" if "P g' = Some q" "holds_key q k c'" for g' q k c'
    using kh ol that holds_leads [OF that(2)] unfolding key_held_def open_led_def by simp_all
  have one: "g' = g" if "P g' = Some q" "leads q c" for g' q
    using ok that g unfolding flight_ok_def one_leader_def by blast
  show ?thesis
    unfolding flight_ok_def
  proof (intro conjI)
    show "open_led (P(g \<mapsto> p')) h'"
      unfolding open_led_def
    proof (intro allI impI)
      fix g' q c'
      assume q: "(P(g \<mapsto> p')) g' = Some q" "leads q c'"
      have "\<exists>q0. P g' = Some q0 \<and> leads q0 c'"
      proof (cases "g' = g")
        case True
        with q(1) have "q = p'" by simp
        with q(2) have "c' = c" by (simp add: only')
        with True g show ?thesis by simp
      qed (use q in simp)
      then have "c' < length h \<and> \<not> cdone (h ! c')"
        using ol unfolding open_led_def by blast
      with h show "c' < length h' \<and> \<not> cdone (h' ! c')" by simp
    qed
    show "one_leader (P(g \<mapsto> p'))"
      using ok one only' unfolding flight_ok_def one_leader_def by (auto split: if_splits)
    show "key_held (P(g \<mapsto> p')) m' h'"
      unfolding key_held_def
    proof (intro allI impI)
      fix g' q k c'
      assume q: "(P(g \<mapsto> p')) g' = Some q" "holds_key q k c'"
      have "\<exists>q0. P g' = Some q0 \<and> holds_key q0 k c' \<and> (g' = g \<longrightarrow> q = p' \<and> q0 = p)"
      proof (cases "g' = g")
        case True
        with q have "q = p'" "holds_key p k c'" using held by auto
        with True g(1) show ?thesis by simp
      qed (use q in simp)
      then obtain q0 where q0: "P g' = Some q0" "holds_key q0 k c'" "g' = g \<longrightarrow> q = p' \<and> q0 = p"
        by blast
      have "m' k = Some c'"
      proof (rule ccontr)
        assume "m' k \<noteq> Some c'"
        then have "m' \<noteq> m" "holds_key p k c" "\<not> holds_key p' k c"
          using m key(1) [OF q0(1,2)] by (auto split: if_splits)
        moreover from this have "c' = c"
          using key(1) [OF q0(1,2)] key(1) [OF g(1)] by simp
        ultimately show False
          using one [OF q0(1)] holds_leads [OF q0(2)] q0(3) q by auto
      qed
      moreover have "ckey (h' ! c') = k"
        using key(2,3) [OF q0(1,2)] h by simp
      ultimately show "m' k = Some c' \<and> ckey (h' ! c') = k" by simp
    qed
    show "map_led (P(g \<mapsto> p')) m'"
      unfolding map_led_def
    proof (intro allI impI)
      fix k c'
      assume k: "m' k = Some c'"
      then have mk: "m k = Some c'"
        using m by (auto split: if_splits)
      then obtain g' q where q: "P g' = Some q" "holds_key q k c'"
        using ok unfolding flight_ok_def map_led_def by blast
      show "\<exists>g' q. (P(g \<mapsto> p')) g' = Some q \<and> holds_key q k c'"
      proof (cases "g' = g")
        case True
        then have "holds_key p k c'"
          using q g by simp
        have same: "k0 = k" if "holds_key p k0 c" for k0
          using that \<open>holds_key p k c'\<close> by (cases p) auto
        have "m' = m"
          using m
        proof (elim disjE exE conjE)
          fix k0
          assume "holds_key p k0 c" "m' = m(k0 := None)"
          with same [of k0] k show ?thesis by simp
        qed
        then have "holds_key p' k c'"
          using m_held \<open>holds_key p k c'\<close> by simp
        with True show ?thesis by (intro exI [of _ g] exI [of _ p']) simp
      next
        case False
        with q show ?thesis by (intro exI [of _ g'] exI [of _ q]) simp
      qed
    qed
    show "waits_ok (P(g \<mapsto> p')) h'"
      using ok g(3) h unfolding flight_ok_def waits_ok_def by (auto split: if_splits)
    show "closes (P(g \<mapsto> p')) h'"
      unfolding closes_def
    proof (intro allI impI)
      fix c'
      assume c': "c' < length h'" "\<not> cdone (h' ! c')"
      then obtain g' q where q: "P g' = Some q" "leads q c'"
        using ok h unfolding flight_ok_def closes_def by metis
      show "\<exists>g' q. (P(g \<mapsto> p')) g' = Some q \<and> leads q c'"
      proof (cases "g' = g")
        case True
        with q g(1) have "c' = c" using only by simp
        with g(3) show ?thesis by (intro exI [of _ g] exI [of _ p']) simp
      next
        case False
        with q show ?thesis by (intro exI [of _ g'] exI [of _ q]) simp
      qed
    qed
  qed
qed

lemma flight_ok_close:
  assumes ok: "flight_ok P m h" and g: "P g = Some (Closing c)"
  shows "flight_ok (P(g \<mapsto> Landed c)) m (h[c := (h ! c)\<lparr>cdone := True\<rparr>])"
proof -
  have c: "c < length h"
    using ok g unfolding flight_ok_def open_led_def by fastforce
  have other: "\<not> leads q c" if "P g' = Some q" "g' \<noteq> g" for g' q
    using ok g that unfolding flight_ok_def one_leader_def by (metis leads.simps(3))
  have held: "P g' = Some q \<Longrightarrow> holds_key q k c' \<Longrightarrow> g' \<noteq> g" for g' q k c'
    using g by auto
  show ?thesis
    unfolding flight_ok_def
  proof (intro conjI)
    show "open_led (P(g \<mapsto> Landed c)) (h[c := (h ! c)\<lparr>cdone := True\<rparr>])"
      using ok other unfolding flight_ok_def open_led_def by (auto split: if_splits) (metis nth_list_update_neq)
    show "one_leader (P(g \<mapsto> Landed c))"
      using ok unfolding flight_ok_def one_leader_def by (auto split: if_splits)
    show "key_held (P(g \<mapsto> Landed c)) m (h[c := (h ! c)\<lparr>cdone := True\<rparr>])"
      using ok c unfolding flight_ok_def key_held_def by (auto simp: nth_list_update split: if_splits)
    show "map_led (P(g \<mapsto> Landed c)) m"
      using ok held unfolding flight_ok_def map_led_def by (metis fun_upd_apply)
    show "waits_ok (P(g \<mapsto> Landed c)) (h[c := (h ! c)\<lparr>cdone := True\<rparr>])"
      using ok c unfolding flight_ok_def waits_ok_def by (auto simp: nth_list_update split: if_splits)
    show "closes (P(g \<mapsto> Landed c)) (h[c := (h ! c)\<lparr>cdone := True\<rparr>])"
      using ok g c unfolding flight_ok_def closes_def
      by (auto simp: nth_list_update split: if_splits) (metis leads.simps(3) option.inject)
  qed
qed

lemma flight_ok_leave:
  assumes ok: "flight_ok P m h" and g: "P g = Some (Waiting k c)" and p: "p' = Returned r \<or> p' = CtxEnded"
  shows "flight_ok (P(g \<mapsto> p')) m h"
proof -
  have lead: "P g' = Some q \<Longrightarrow> leads q c' \<Longrightarrow> g' \<noteq> g" for g' q c'
    using g by auto
  have held: "P g' = Some q \<Longrightarrow> holds_key q k c' \<Longrightarrow> g' \<noteq> g" for g' q k c'
    using g by auto
  have p': "\<not> leads p' c'" "\<not> holds_key p' k' c'" "p' \<noteq> Waiting k' c'" for k' c'
    using p by auto
  show ?thesis
    unfolding flight_ok_def
  proof (intro conjI)
    show "open_led (P(g \<mapsto> p')) h" "one_leader (P(g \<mapsto> p'))" "key_held (P(g \<mapsto> p')) m h" "waits_ok (P(g \<mapsto> p')) h"
      using ok p' unfolding flight_ok_def flight_parts by (auto split: if_splits)
    show "map_led (P(g \<mapsto> p')) m"
      using ok held unfolding flight_ok_def map_led_def by (metis fun_upd_apply)
    show "closes (P(g \<mapsto> p')) h"
      using ok lead unfolding flight_ok_def closes_def by (metis fun_upd_apply)
  qed
qed

text \<open>The result of a call plays no part in the invariant.\<close>

lemma flight_ok_same:
  "c < length h \<Longrightarrow> flight_ok P m (h[c := (h ! c)\<lparr>cres := r\<rparr>]) = flight_ok P m h"
proof -
  assume "c < length h"
  then have "cdone (h[c := (h ! c)\<lparr>cres := r\<rparr>] ! i) = cdone (h ! i)" "ckey (h[c := (h ! c)\<lparr>cres := r\<rparr>] ! i) = ckey (h ! i)" for i
    by (cases "i = c"; simp)+
  then show ?thesis
    unfolding flight_ok_def flight_parts by simp
qed

lemma flight_inv_step: "flight_inv f \<Longrightarrow> flight_step f e f' \<Longrightarrow> flight_inv f'"
proof (erule flight_stepE)
  fix key
  assume "flight_inv f" "f' = flight_enter key f"
  then show "flight_inv f'"
    unfolding flight_inv_def
    by (auto simp: flight_enter_def Let_def flight_ok_wait flight_ok_lead split: option.split)
next
  fix g key c res
  assume ok: "flight_inv f" and f': "f' = flight_loaded g key c res f" and p: "pc f g = Some (Leading key c)"
  have "c < length (heap f)"
    using ok p unfolding flight_inv_def flight_ok_def open_led_def by (metis leads.simps(1))
  then show "flight_inv f'"
    using ok p unfolding flight_inv_def f' flight_loaded_def
    by (auto simp: pc_set_pc nth_list_update split: if_splits intro!: flight_ok_leader [of "pc f" "calls f" "heap f" g "Leading key c" c])
next
  fix g key c
  assume ok: "flight_inv f" and f': "f' = flight_delete g key c f" and p: "pc f g = Some (Deleting key c)"
  then have "calls f key = Some c"
    unfolding flight_inv_def flight_ok_def key_held_def by (metis holds_key.simps(2))
  then have "(calls f)(key := None) \<noteq> calls f"
    by (metis fun_upd_same option.distinct(1))
  with ok p show "flight_inv f'"
    unfolding flight_inv_def f' flight_delete_def
    by (auto simp: pc_set_pc intro!: flight_ok_leader [of "pc f" "calls f" "heap f" g "Deleting key c" c])
next
  fix g c
  assume "flight_inv f" "f' = flight_close g c f" "pc f g = Some (Closing c)"
  then show "flight_inv f'"
    by (simp add: flight_inv_def flight_close_def pc_set_pc flight_ok_close)
next
  fix g key c
  assume "flight_inv f" "f' = flight_wake g c f" "pc f g = Some (Waiting key c)"
  then show "flight_inv f'"
    by (simp add: flight_inv_def flight_wake_def pc_set_pc flight_ok_leave)
next
  fix g key c
  assume "flight_inv f" "f' = flight_give_up g f" "pc f g = Some (Waiting key c)"
  then show "flight_inv f'"
    by (simp add: flight_inv_def flight_give_up_def pc_set_pc flight_ok_leave)
next
  fix g c x y
  assume "flight_inv f" "f' = flight_scribble c y f" "c < length (heap f)"
  then show "flight_inv f'"
    unfolding flight_inv_def flight_scribble_def
    by (simp add: flight_ok_same)
qed

interpretation flights: guarded_component flight_init flight_step flight_inv
proof
  show "flight_init f \<Longrightarrow> flight_inv f" for f :: "'a flight"
    by (auto simp: flight_init_def flight0_def flight_inv_def flight_ok_def flight_parts pc_def)
qed (rule flight_inv_step)

text \<open>A goroutine that has joined a call or leads it ends with the call's result, if it waits for it.\<close>

definition follows :: "nat \<Rightarrow> nat \<Rightarrow> 'err flight \<Rightarrow> bool" where
  "follows g c f \<longleftrightarrow>
     (\<exists>p. pc f g = Some p \<and>
        (leads p c \<or> (\<exists>k. p = Waiting k c) \<or> p = CtxEnded \<or>
         (p = Landed c \<or> p = Returned (cres (heap f ! c))) \<and> c < length (heap f) \<and> cdone (heap f ! c)))"

text \<open>A step in which no caller writes to the value it got.\<close>

definition quiet_step :: "'err flight \<Rightarrow> 'err flight_event \<Rightarrow> 'err flight \<Rightarrow> bool" where
  "quiet_step f e f' \<longleftrightarrow> flight_step f e f' \<and> \<not> scribbles e"

lemma flight_run_reachable:
  "reachable init flight_step f \<Longrightarrow> flight_run f es = Some f' \<Longrightarrow> reachable init flight_step f'"
  by (induction es arbitrary: f) (auto split: option.splits simp: flight_next_step intro: reachable_step)

lemma flight_run_quiet:
  "reachable init quiet_step f \<Longrightarrow> flight_run f es = Some f' \<Longrightarrow> list_all (\<lambda>e. \<not> scribbles e) es \<Longrightarrow>
   reachable init quiet_step f'"
proof (induction es arbitrary: f)
  case (Cons e es)
  then obtain f1 where "quiet_step f e f1" "flight_run f1 es = Some f'"
    by (auto split: option.splits simp: flight_next_step quiet_step_def)
  with Cons show ?case by (metis list.pred_inject(2) reachable_step)
qed simp

lemma follows_result: "follows g c f \<Longrightarrow> result f g = Some r \<Longrightarrow> r = cres (heap f ! c)"
  by (auto simp: follows_def result_def split: flight_pc.splits)

definition follow_inv :: "nat \<Rightarrow> nat \<Rightarrow> 'err flight \<Rightarrow> bool" where
  "follow_inv g c f \<longleftrightarrow> flight_inv f \<and> follows g c f"

lemma open_leader: "flight_inv f \<Longrightarrow> pc f g = Some p \<Longrightarrow> leads p c \<Longrightarrow> c < length (heap f) \<and> \<not> cdone (heap f ! c)"
  unfolding flight_inv_def flight_ok_def open_led_def by blast

lemma waiting_call: "flight_inv f \<Longrightarrow> pc f g = Some (Waiting k c) \<Longrightarrow> c < length (heap f) \<and> ckey (heap f ! c) = k"
  unfolding flight_inv_def flight_ok_def waits_ok_def by blast

lemma follows_keep:
  assumes "follows g c f" "pc f' g = pc f g"
    and "cdone (heap f ! c) \<Longrightarrow> c < length (heap f) \<Longrightarrow> c < length (heap f') \<and> cdone (heap f' ! c) \<and> cres (heap f' ! c) = cres (heap f ! c)"
  shows "follows g c f'"
  using assms unfolding follows_def by auto

lemma follows_step:
  assumes inv: "flight_inv f" and fol: "follows g c f" and st: "quiet_step f e f'"
  shows "follows g c f'"
  using st [unfolded quiet_step_def, THEN conjunct1]
proof (rule flight_stepE)
  fix key
  assume f': "f' = flight_enter key f"
  obtain p where "pc f g = Some p"
    using fol by (auto simp: follows_def)
  then have "g \<noteq> length (procs f)" by auto
  then show ?thesis
    unfolding f' flight_enter_def
    by (intro follows_keep [OF fol]) (auto simp: Let_def nth_append split: option.split)
next
  fix g' key c' res
  assume f': "f' = flight_loaded g' key c' res f" and p: "pc f g' = Some (Leading key c')"
  note o = open_leader [OF inv p, of c']
  show ?thesis
  proof (cases "g' = g")
    case True
    then have "leads (Deleting key c' :: 'a flight_pc) c"
      using fol p by (auto simp: follows_def)
    with True p show ?thesis
      unfolding f' flight_loaded_def follows_def by (simp add: pc_set_pc)
  next
    case False
    with p o show ?thesis
      unfolding f' flight_loaded_def
      by (intro follows_keep [OF fol]) (auto simp: pc_set_pc nth_list_update)
  qed
next
  fix g' key c'
  assume f': "f' = flight_delete g' key c' f" and p: "pc f g' = Some (Deleting key c')"
  show ?thesis
  proof (cases "g' = g")
    case True
    then have "leads (Closing c' :: 'a flight_pc) c"
      using fol p by (auto simp: follows_def)
    with True p show ?thesis
      unfolding f' flight_delete_def follows_def by (simp add: pc_set_pc)
  next
    case False
    with p show ?thesis
      unfolding f' flight_delete_def by (intro follows_keep [OF fol]) (auto simp: pc_set_pc)
  qed
next
  fix g' c'
  assume f': "f' = flight_close g' c' f" and p: "pc f g' = Some (Closing c')"
  note o = open_leader [OF inv p, of c']
  show ?thesis
  proof (cases "g' = g")
    case True
    then have "c' = c"
      using fol p by (auto simp: follows_def)
    with True p o show ?thesis
      unfolding f' flight_close_def follows_def by (simp add: pc_set_pc)
  next
    case False
    with p o show ?thesis
      unfolding f' flight_close_def
      by (intro follows_keep [OF fol]) (auto simp: pc_set_pc nth_list_update)
  qed
next
  fix g' key c'
  assume f': "f' = flight_wake g' c' f" and p: "pc f g' = Some (Waiting key c')" and d: "cdone (heap f ! c')"
  show ?thesis
  proof (cases "g' = g")
    case True
    then have "c' = c"
      using fol p by (auto simp: follows_def)
    with True p d waiting_call [OF inv p] show ?thesis
      unfolding f' flight_wake_def follows_def by (simp add: pc_set_pc)
  next
    case False
    with p show ?thesis
      unfolding f' flight_wake_def by (intro follows_keep [OF fol]) (auto simp: pc_set_pc)
  qed
next
  fix g' key c'
  assume f': "f' = flight_give_up g' f" and p: "pc f g' = Some (Waiting key c')"
  show ?thesis
  proof (cases "g' = g")
    case True
    with p show ?thesis
      unfolding f' flight_give_up_def follows_def by (simp add: pc_set_pc)
  next
    case False
    with p show ?thesis
      unfolding f' flight_give_up_def by (intro follows_keep [OF fol]) (auto simp: pc_set_pc)
  qed
next
  fix g' c' x y
  assume "e = FScribble g' y"
  with st show ?thesis by (simp add: quiet_step_def scribbles_def)
qed

interpretation following: guarded_component "follow_inv g c" quiet_step "follow_inv g c" for g c
  by unfold_locales (auto simp: follow_inv_def quiet_step_def intro: flight_inv_step follows_step)

section \<open>Layers as stores\<close>

text \<open>
  What a store holds under a key, if anything: \<open>'w view\<close>. A store may lose an entry at any time (a
  TTL runs out, an entry is evicted), but never changes one by itself.
\<close>

type_synonym 'w view = "'w \<Rightarrow> string \<Rightarrow> bytes option"

definition loses :: "'w view \<Rightarrow> 'w \<Rightarrow> 'w \<Rightarrow> bool" where
  "loses vw w w' \<longleftrightarrow> (\<forall>k. vw w' k = vw w k \<or> vw w' k = None)"

definition writes :: "'w view \<Rightarrow> string \<Rightarrow> bytes option set \<Rightarrow> 'w \<Rightarrow> 'w \<Rightarrow> bool" where
  "writes vw k A w w' \<longleftrightarrow> vw w' k \<in> insert None A \<and> (\<forall>k'. k' \<noteq> k \<longrightarrow> vw w' k' = vw w k' \<or> vw w' k' = None)"

definition apart_from :: "'w view set \<Rightarrow> 'w view \<Rightarrow> 'w \<Rightarrow> 'w \<Rightarrow> bool" where
  "apart_from V vw w w' \<longleftrightarrow> (\<forall>vw' \<in> V - {vw}. loses vw' w w')"

definition layer_ok :: "'w view set \<Rightarrow> 'w view \<Rightarrow> ('w, 'err) layer \<Rightarrow> bool" where
  "layer_ok V vw l \<longleftrightarrow>
     (\<forall>k w w' v hit err. lget l k w = (w', v, hit, err) \<longrightarrow>
        loses vw w w' \<and> apart_from V vw w w' \<and> (err = None \<and> hit \<longrightarrow> vw w k = Some v)) \<and>
     (\<forall>k v t w w' err. lset l k v t w = (w', err) \<longrightarrow>
        writes vw k (if err = None then {Some v} else {Some v, vw w k}) w w' \<and> apart_from V vw w w') \<and>
     (\<forall>k w w' err. ldel l k w = (w', err) \<longrightarrow>
        writes vw k (if err = None then {} else {vw w k}) w w' \<and> apart_from V vw w w')"

text \<open>The documented behaviour of otter and of Redis, for stores seen as \<open>vm\<close> and \<open>vr\<close>.\<close>

definition otter_ok :: "'w view set \<Rightarrow> 'w view \<Rightarrow> 'w otter \<Rightarrow> bool" where
  "otter_ok V vm m \<longleftrightarrow>
     (\<forall>k w w' r. GetIfPresent m k w = (w', r) \<longrightarrow>
        loses vm w w' \<and> apart_from V vm w w' \<and> (\<forall>e. r = Some e \<longrightarrow> vm w k = Some (fst e))) \<and>
     (\<forall>k e w. writes vm k {Some (fst e)} w (oSet m k e w) \<and> apart_from V vm w (oSet m k e w)) \<and>
     (\<forall>k w. writes vm k {} w (Invalidate m k w) \<and> apart_from V vm w (Invalidate m k w))"

definition redis_ok :: "'w view set \<Rightarrow> 'w view \<Rightarrow> ('w, 'err) rclient \<Rightarrow> bool" where
  "redis_ok V vr r \<longleftrightarrow>
     (\<forall>c k w w' rep. rGet r c k w = (w', rep) \<longrightarrow>
        loses vr w w' \<and> apart_from V vr w w' \<and> (\<forall>v. rep = Value v \<longrightarrow> vr w k = Some v)) \<and>
     (\<forall>c k v t w w' err. rSet r c k v t w = (w', err) \<longrightarrow>
        writes vr k (if err = None then {Some v} else {Some v, vr w k}) w w' \<and> apart_from V vr w w') \<and>
     (\<forall>c k w w' err. rDel r c k w = (w', err) \<longrightarrow>
        writes vr k (if err = None then {} else {vr w k}) w w' \<and> apart_from V vr w w')"

lemma memory_layer_ok: "otter_ok V vm m \<Longrightarrow> layer_ok V vm (memory_layer m d)"
  unfolding otter_ok_def layer_ok_def memory_layer_def
  by (auto simp: memory_get_def memory_set_def memory_del_def split: prod.splits option.splits if_splits)

lemma redis_layer_ok: "redis_ok V vr r \<Longrightarrow> layer_ok V vr (redis_layer r d)"
  unfolding redis_ok_def layer_ok_def redis_layer_def
  by (auto simp: redis_get_def redis_set_def redis_del_def split: prod.splits reply.splits if_splits)

text \<open>Every store holds under \<open>k\<close> nothing but what \<open>S\<close> allows.\<close>

definition clean :: "'w view set \<Rightarrow> string \<Rightarrow> bytes set \<Rightarrow> 'w \<Rightarrow> bool" where
  "clean V k S w \<longleftrightarrow> (\<forall>vw \<in> V. \<forall>v. vw w k = Some v \<longrightarrow> v \<in> S)"

lemma clean_loses: "(\<And>vw. vw \<in> V \<Longrightarrow> loses vw w w') \<Longrightarrow> clean V k S w \<Longrightarrow> clean V k S w'"
  unfolding clean_def loses_def by (metis option.distinct(1))

lemma clean_writes:
  assumes "writes vw k' A w w'" "apart_from V vw w w'" "clean V k S w" "k' = k \<Longrightarrow> A \<subseteq> Some ` S \<union> {vw w k, None}"
  shows "clean V k S w'"
  unfolding clean_def
proof (intro ballI allI impI)
  fix vw' v
  assume v: "vw' \<in> V" "vw' w' k = Some v"
  show "v \<in> S"
  proof (cases "vw' = vw")
    case True
    with v assms show ?thesis
      unfolding writes_def clean_def by (cases "k' = k") fastforce+
  next
    case False
    with v assms(2,3) show ?thesis
      unfolding apart_from_def loses_def clean_def by (metis DiffI option.distinct(1) singletonD)
  qed
qed

lemma clean_get:
  assumes "layer_ok V vw l" "vw \<in> V" "clean V k S w" "lget l k' w = (w', v, hit, err)"
  shows "clean V k S w' \<and> (err = None \<and> hit \<and> k' = k \<longrightarrow> v \<in> S)"
proof -
  have l: "loses vw w w'" "apart_from V vw w w'" "err = None \<and> hit \<longrightarrow> vw w k' = Some v"
    using assms(1,4) unfolding layer_ok_def by blast+
  then have "loses vw' w w'" if "vw' \<in> V" for vw'
    using that by (cases "vw' = vw") (auto simp: apart_from_def)
  then have "clean V k S w'"
    using assms(3) by (rule clean_loses)
  moreover have "v \<in> S" if "err = None" "hit" "k' = k"
    using l(3) assms(2,3) that by (simp add: clean_def)
  ultimately show ?thesis by blast
qed

lemma clean_set:
  assumes "layer_ok V vw l" "clean V k S w" "k' = k \<Longrightarrow> v \<in> S"
  shows "clean V k S (fst (lset l k' v t w))"
proof -
  obtain w' err where s: "lset l k' v t w = (w', err)" by force
  then have "writes vw k' (if err = None then {Some v} else {Some v, vw w k'}) w w'" "apart_from V vw w w'"
    using assms(1) unfolding layer_ok_def by blast+
  then have "clean V k S w'"
    using assms(2) by (rule clean_writes) (use assms(3) in auto)
  then show ?thesis
    by (simp add: s)
qed

lemma clean_del:
  assumes "layer_ok V vw l" "clean V k S w"
  shows "clean V k S (fst (ldel l k' w))"
proof -
  obtain w' err where s: "ldel l k' w = (w', err)" by force
  then have "writes vw k' (if err = None then {} else {vw w k'}) w w'" "apart_from V vw w w'"
    using assms(1) unfolding layer_ok_def by blast+
  then have "clean V k S w'"
    using assms(2) by (rule clean_writes) auto
  then show ?thesis
    by (simp add: s)
qed

text \<open>A cache over stores: its layers with their views.\<close>

definition cache_over :: "(('w, 'err) layer \<times> 'w view) list \<Rightarrow> ('w, 'err) Cache \<Rightarrow> bool" where
  "cache_over LV c \<longleftrightarrow>
     layers c = map fst LV \<and> (\<forall>lv \<in> set LV. layer_ok (snd ` set LV) (snd lv) (fst lv)) \<and>
     (\<forall>m. memory c = Some m \<longrightarrow> m \<in> fst ` set LV)"

lemma cache_over_layer:
  "cache_over LV c \<Longrightarrow> l \<in> fst ` set LV \<Longrightarrow> \<exists>vw \<in> snd ` set LV. layer_ok (snd ` set LV) vw l"
  unfolding cache_over_def by auto

lemma get_loop_clean:
  assumes "cache_over LV c" "set ls \<subseteq> fst ` set LV" "clean (snd ` set LV) k S w"
  shows "clean (snd ` set LV) k S (fst (get_loop ctxErr c k' i ls errs w)) \<and>
    (k' = k \<longrightarrow> (\<forall>v. snd (get_loop ctxErr c k' i ls errs w) = Inr (Some v) \<longrightarrow> v \<in> S))"
  using assms(2,3)
proof (induction ls arbitrary: i errs w)
  case (Cons l ls)
  from Cons.prems(1) assms(1) obtain vw where l: "layer_ok (snd ` set LV) vw l" "vw \<in> snd ` set LV"
    using cache_over_layer [of LV c l] by auto
  obtain w1 v hit err where g: "lget l k' w = (w1, v, hit, err)"
    by (metis prod_cases4)
  have c1: "clean (snd ` set LV) k S w1" "err = None \<and> hit \<and> k' = k \<longrightarrow> v \<in> S"
    using clean_get [OF l Cons.prems(2) g] by auto
  have m: "clean (snd ` set LV) k S (fst (lset m k' v 0 w1))" if "memory c = Some m" "k' = k \<longrightarrow> v \<in> S" for m
  proof -
    have "m \<in> fst ` set LV"
      using assms(1) that(1) by (simp add: cache_over_def)
    then obtain vm where "layer_ok (snd ` set LV) vm m"
      using assms(1) cache_over_layer by blast
    then show ?thesis
      using c1(1) by (rule clean_set) (use that in simp)
  qed
  show ?case
  proof (cases "ctxErr w")
    case None
    show ?thesis
    proof (cases "err = None \<and> hit")
      case True
      with None g c1 m show ?thesis
        by (cases "memory c") auto
    next
      case False
      then obtain errs' where "get_loop ctxErr c k' i (l # ls) errs w = get_loop ctxErr c k' (Suc i) ls errs' w1"
        using None g by (cases err) auto
      note loop = this
      have "set ls \<subseteq> fst ` set LV"
        using Cons.prems(1) by simp
      from Cons.IH [OF this c1(1)] show ?thesis
        unfolding loop .
    qed
  qed (use Cons.prems in simp)
qed simp

lemma each_layer_errs: "\<exists>es. snd (each_layer op ls errs w) = errs @ es"
proof (induction ls arbitrary: errs w)
  case (Cons l ls)
  obtain w1 r where r: "op l w = (w1, r)" by force
  show ?case
  proof (cases r)
    case None
    with r Cons.IH [of errs w1] show ?thesis by simp
  next
    case (Some e)
    obtain es where "snd (each_layer op ls (errs @ [e]) w1) = (errs @ [e]) @ es"
      using Cons.IH [of "errs @ [e]" w1] by blast
    with r Some show ?thesis by (intro exI [of _ "e # es"]) simp
  qed
qed simp

lemma each_layer_quiet:
  assumes "each_layer op (l # ls) [] w = (w', [])"
  shows "\<exists>w1. op l w = (w1, None) \<and> each_layer op ls [] w1 = (w', [])"
proof -
  obtain w1 r where r: "op l w = (w1, r)" by force
  show ?thesis
  proof (cases r)
    case None
    with r assms show ?thesis by simp
  next
    case (Some e)
    obtain es where "snd (each_layer op ls [e] w1) = [e] @ es"
      using each_layer_errs [of op ls "[e]" w1] by blast
    with r Some assms show ?thesis by simp
  qed
qed

lemma each_layer_clean:
  assumes "\<And>l w. l \<in> set ls \<Longrightarrow> clean V k S w \<Longrightarrow> clean V k S (fst (op l w))" "clean V k S w"
  shows "clean V k S (fst (each_layer op ls errs w))"
  using assms
proof (induction ls arbitrary: errs w)
  case (Cons l ls)
  obtain w1 r where r: "op l w = (w1, r)" by force
  then have "clean V k S w1"
    using Cons.prems by (metis fst_conv list.set_intros(1))
  with Cons.IH Cons.prems(1) r show ?case
    by (cases r) auto
qed simp

text \<open>After a write that every layer took, no store holds anything else.\<close>

lemma each_layer_written:
  assumes "\<And>l vw w w'. (l, vw) \<in> set LV \<Longrightarrow> op l w = (w', None) \<Longrightarrow>
      writes vw k (Some ` S) w w' \<and> apart_from V vw w w'"
    and "each_layer op (map fst LV) [] w = (w', [])" and "clean D k S w" and "D \<subseteq> V" "snd ` set LV \<subseteq> V"
  shows "clean (D \<union> snd ` set LV) k S w'"
  using assms
proof (induction LV arbitrary: D w)
  case (Cons lv LV)
  obtain l vw where lv: "lv = (l, vw)" by force
  obtain w1 where w1: "op l w = (w1, None)" "each_layer op (map fst LV) [] w1 = (w', [])"
    using each_layer_quiet [of op l "map fst LV" w w'] Cons.prems(2) lv by auto
  have wr: "writes vw k (Some ` S) w w1" "apart_from V vw w w1"
    using Cons.prems(1) w1(1) lv by auto
  have "clean (D \<union> {vw}) k S w1"
    unfolding clean_def
  proof (intro ballI allI impI)
    fix vw' v
    assume v: "vw' \<in> D \<union> {vw}" "vw' w1 k = Some v"
    show "v \<in> S"
    proof (cases "vw' = vw")
      case True
      with v wr(1) show ?thesis by (auto simp: writes_def)
    next
      case False
      with v(1) Cons.prems(4) have d: "vw' \<in> D" "vw' \<in> V - {vw}" by auto
      then have "loses vw' w w1"
        using wr(2) by (simp add: apart_from_def)
      then have "vw' w1 k = vw' w k \<or> vw' w1 k = None"
        by (simp add: loses_def)
      with v(2) have "vw' w k = Some v" by auto
      with d(1) Cons.prems(3) show ?thesis by (simp add: clean_def)
    qed
  qed
  moreover have "D \<union> {vw} \<subseteq> V"
    using Cons.prems(4,5) lv by auto
  moreover have op': "\<And>l vw w w'. (l, vw) \<in> set LV \<Longrightarrow> op l w = (w', None) \<Longrightarrow>
      writes vw k (Some ` S) w w' \<and> apart_from V vw w w'"
    using Cons.prems(1) by (meson list.set_intros(2))
  ultimately have "clean ((D \<union> {vw}) \<union> snd ` set LV) k S w'"
    using Cons.prems(5) by (intro Cons.IH [OF op' w1(2)]) simp_all
  then show ?case
    by (simp add: lv Un_assoc)
qed simp

datatype cache_op = CGet string | CSet string bytes duration | CDelete string

fun cache_run :: "('w \<Rightarrow> 'err option) \<Rightarrow> ('w, 'err) Cache \<Rightarrow> cache_op \<Rightarrow> 'w \<Rightarrow> 'w" where
  "cache_run ctxErr c (CGet k) w = fst (Get ctxErr c k w)"
| "cache_run ctxErr c (CSet k v t) w = fst (Set c k v t w)"
| "cache_run ctxErr c (CDelete k) w = fst (Delete c k w)"

fun sets_key :: "string \<Rightarrow> cache_op \<Rightarrow> bool" where
  "sets_key k (CSet k' v t) = (k' = k)"
| "sets_key k _ = False"

lemma Get_clean:
  assumes "cache_over LV c" "clean (snd ` set LV) k S w"
  shows "clean (snd ` set LV) k S (fst (Get ctxErr c k' w))"
    "snd (Get ctxErr c k w) = Inr (Some v) \<Longrightarrow> v \<in> S"
proof -
  have "set (layers c) \<subseteq> fst ` set LV"
    using assms(1) by (auto simp: cache_over_def)
  from get_loop_clean [OF assms(1) this assms(2)]
  show "clean (snd ` set LV) k S (fst (Get ctxErr c k' w))" "snd (Get ctxErr c k w) = Inr (Some v) \<Longrightarrow> v \<in> S"
    by (simp_all add: Get_def)
qed

lemma cache_run_clean:
  assumes "cache_over LV c" "clean (snd ` set LV) k S w" "\<not> sets_key k op"
  shows "clean (snd ` set LV) k S (cache_run ctxErr c op w)"
proof -
  have l: "\<exists>vw. layer_ok (snd ` set LV) vw l" if "l \<in> set (layers c)" for l
    using assms(1) cache_over_layer [OF assms(1), of l] that by (auto simp: cache_over_def)
  show ?thesis
  proof (cases op)
    case (CGet k')
    with assms Get_clean(1) show ?thesis by auto
  next
    case (CSet k' v t)
    have "clean (snd ` set LV) k S (fst (each_layer (\<lambda>l. lset l k' v t) (layers c) [] w))"
      using assms CSet l by (intro each_layer_clean) (auto intro: clean_set)
    with assms(2) CSet show ?thesis by (simp add: Set_def joined_def)
  next
    case (CDelete k')
    have "clean (snd ` set LV) k S (fst (each_layer (\<lambda>l. ldel l k') (layers c) [] w))"
      using assms l by (intro each_layer_clean) (auto intro: clean_del)
    with CDelete show ?thesis by (simp add: Delete_def joined_def)
  qed
qed

lemma cache_runs_clean:
  assumes "cache_over LV c" "clean (snd ` set LV) k S w" "list_all (\<lambda>op. \<not> sets_key k op) ops"
  shows "clean (snd ` set LV) k S (fold (cache_run ctxErr c) ops w)"
  using assms(2,3) by (induction ops arbitrary: w) (auto intro: cache_run_clean [OF assms(1)])

lemma Set_clean:
  assumes "cache_over LV c" "Set c k v ttl w = (w1, None)"
  shows "clean (snd ` set LV) k {v} w1"
proof -
  have e: "each_layer (\<lambda>l. lset l k v ttl) (map fst LV) [] w = (w1, [])"
    using assms by (auto simp: Set_def joined_def cache_over_def prod_eq_iff split: if_splits)
  have "clean ({} \<union> snd ` set LV) k {v} w1"
  proof (rule each_layer_written [OF _ e])
    fix l vw w w'
    assume "(l, vw) \<in> set LV" "lset l k v ttl w = (w', None)"
    with assms(1) show "writes vw k (Some ` {v}) w w' \<and> apart_from (snd ` set LV) vw w w'"
      unfolding cache_over_def layer_ok_def by fastforce
  qed (simp_all add: clean_def)
  then show ?thesis by simp
qed

lemma Delete_clean:
  assumes "cache_over LV c" "Delete c k w = (w1, None)"
  shows "clean (snd ` set LV) k {} w1"
proof -
  have e: "each_layer (\<lambda>l. ldel l k) (map fst LV) [] w = (w1, [])"
    using assms by (auto simp: Delete_def joined_def cache_over_def prod_eq_iff split: if_splits)
  have "clean ({} \<union> snd ` set LV) k {} w1"
  proof (rule each_layer_written [OF _ e])
    fix l vw w w'
    assume "(l, vw) \<in> set LV" "ldel l k w = (w', None)"
    with assms(1) show "writes vw k (Some ` {}) w w' \<and> apart_from (snd ` set LV) vw w w'"
      unfolding cache_over_def layer_ok_def by fastforce
  qed (simp_all add: clean_def)
  then show ?thesis by simp
qed

definition two_layers :: "'w otter \<Rightarrow> duration \<Rightarrow> ('w, 'err) rclient \<Rightarrow> duration \<Rightarrow> ('w, 'err) Cache" where
  "two_layers m d1 r d2 = \<lparr>layers = [memory_layer m d1, redis_layer r d2], memory = Some (memory_layer m d1)\<rparr>"

lemma two_layers_over:
  assumes "otter_ok {vm, vr} vm m" "redis_ok {vm, vr} vr r"
  shows "cache_over [(memory_layer m d1, vm), (redis_layer r d2, vr)] (two_layers m d1 r d2)"
  using memory_layer_ok [OF assms(1)] redis_layer_ok [OF assms(2)]
  by (simp add: cache_over_def two_layers_def)

lemmas flight_defs = flight_enter_def flight_loaded_def flight_delete_def flight_close_def flight_wake_def
  flight_scribble_def set_pc_def pc_def result_def flight0_def

section \<open>Properties\<close>


text \<open>C26: Loads of one key never run side by side: at any moment at most one goroutine runs the
  load function of a key. A goroutine that waits does so on a call of its own key, which another
  goroutine is still working on, or whose result is there to be taken.\<close>

theorem cache_one_load:
  assumes "reachable flight_init flight_step f"
  shows "(\<forall>g g' k c c'. pc f g = Some (Leading k c) \<and> pc f g' = Some (Leading k c') \<longrightarrow> g = g') \<and>
    (\<forall>g k c. pc f g = Some (Waiting k c) \<longrightarrow>
       ckey (heap f ! c) = k \<and>
       ((\<exists>g' p. pc f g' = Some p \<and> leads p c) \<or> flight_step f (FWake g) (flight_wake g c f)))"
proof (intro conjI allI impI)
  note inv = flights.reachable_inv [OF assms]
  fix g g' k c c'
  assume p: "pc f g = Some (Leading k c) \<and> pc f g' = Some (Leading k c')"
  then have "calls f k = Some c" "calls f k = Some c'"
    using inv unfolding flight_inv_def flight_ok_def key_held_def by (metis holds_key.simps(1))+
  then show "g = g'"
    using p inv unfolding flight_inv_def flight_ok_def one_leader_def by (metis leads.simps(1) option.inject)
next
  note inv = flights.reachable_inv [OF assms]
  fix g k c
  assume p: "pc f g = Some (Waiting k c)"
  note w = waiting_call [OF inv p]
  then show "ckey (heap f ! c) = k" ..
  show "(\<exists>g' p. pc f g' = Some p \<and> leads p c) \<or> flight_step f (FWake g) (flight_wake g c f)"
    using inv p w flight_step.wake [OF p] unfolding flight_inv_def flight_ok_def closes_def by blast
qed

text \<open>The goroutines of a call share its result: of two that lead or wait for one call, those
  that return a result return the same, whichever of them ran the load, as long as no caller
  writes to the value it got; the others gave up because their own context ended.\<close>

theorem cache_load_shared:
  assumes "reachable flight_init flight_step f0"
    and "pc f0 g = Some p" "leads p c \<or> p = Waiting k c"
    and "pc f0 g' = Some p'" "leads p' c \<or> p' = Waiting k' c"
    and "reachable (\<lambda>x. x = f0) quiet_step f"
    and "result f g = Some r" "result f g' = Some r'"
  shows "r = r'"
proof -
  note inv = flights.reachable_inv [OF assms(1)]
  have "follow_inv g c f0" "follow_inv g' c f0"
    using inv assms(2-5) by (auto simp: follow_inv_def follows_def)
  then have "follow_inv g c f" "follow_inv g' c f"
    using following.reachable_from_inv [OF assms(6)] by blast+
  then have "r = cres (heap f ! c)" "r' = cres (heap f ! c)"
    using follows_result assms(7,8) unfolding follow_inv_def by blast+
  then show ?thesis by simp
qed


section \<open>Witnesses\<close>

text \<open>Two stores as maps, without a TTL and without failures.\<close>

type_synonym demo_world = "(string \<rightharpoonup> bytes) \<times> (string \<rightharpoonup> bytes)"

definition demo_otter :: "demo_world otter" where
  "demo_otter = \<lparr>GetIfPresent = (\<lambda>k w. (w, map_option (\<lambda>v. (v, 1)) (fst w k))),
     oSet = (\<lambda>k e w. ((fst w)(k \<mapsto> fst e), snd w)), Invalidate = (\<lambda>k w. ((fst w)(k := None), snd w))\<rparr>"

definition demo_redis :: "(demo_world, string) rclient" where
  "demo_redis = \<lparr>rGet = (\<lambda>c k w. (w, case snd w k of None \<Rightarrow> NoKey | Some v \<Rightarrow> Value v)),
     rSet = (\<lambda>c k v t w. ((fst w, (snd w)(k \<mapsto> v)), None)), rDel = (\<lambda>c k w. ((fst w, (snd w)(k := None)), None))\<rparr>"

lemma demo_stores:
  "otter_ok {fst, snd} (fst :: demo_world view) demo_otter" "redis_ok {fst, snd} (snd :: demo_world view) demo_redis"
  by (auto simp: otter_ok_def redis_ok_def demo_otter_def demo_redis_def loses_def writes_def apart_from_def
           split: option.splits)

abbreviation demo_cache :: "(demo_world, string) Cache" where
  "demo_cache \<equiv> two_layers demo_otter 60 demo_redis 60"


definition demo_flight :: "string flight" where
  "demo_flight = \<lparr>calls = [''k'' \<mapsto> 0], heap = [\<lparr>ckey = ''k'', cdone = False, cres = LoadPanicked\<rparr>],
     procs = [Leading ''k'' 0, Waiting ''k'' 0]\<rparr>"

definition demo_landed :: "string flight" where
  "demo_landed = \<lparr>calls = Map.empty, heap = [\<lparr>ckey = ''k'', cdone = True, cres = Loaded ''v''\<rparr>],
     procs = [Landed 0, Returned (Loaded ''v'')]\<rparr>"

lemma demo_flight_reachable: "reachable flight_init flight_step demo_flight"
proof (rule flight_run_reachable)
  show "reachable flight_init flight_step flight0"
    by (rule reachable_init) (simp add: flight_init_def)
  show "flight_run flight0 [FEnter ''k'', FEnter ''k''] = Some demo_flight"
    by (simp add: flight_defs demo_flight_def)
qed

lemma demo_landed_reachable: "reachable (\<lambda>x. x = demo_flight) quiet_step demo_landed"
proof (rule flight_run_quiet [OF reachable_self])
  show "flight_run demo_flight [FLoaded 0 (Loaded ''v''), FDelete 0, FClose 0, FWake 1] = Some demo_landed"
    by (simp add: flight_defs demo_flight_def demo_landed_def)
qed (simp add: scribbles_def)

theorem cache_one_load_witness:
  "\<exists>g' p. pc demo_flight g' = Some p \<and> leads p 0"
proof -
  have w: "pc demo_flight 1 = Some (Waiting ''k'' 0)"
    by (simp add: demo_flight_def pc_def)
  have "\<not> flight_step demo_flight (FWake 1) (flight_wake 1 0 demo_flight)"
    by (auto elim!: flight_stepE simp: demo_flight_def pc_def)
  with conjunct2 [OF cache_one_load [OF demo_flight_reachable]] w show ?thesis
    by blast
qed

theorem cache_load_shared_witness:
  "result demo_landed 0 = result demo_landed 1"
proof -
  have l: "result demo_landed 0 = Some (Loaded ''v'')" "result demo_landed 1 = Some (Loaded ''v'')"
    by (simp_all add: demo_landed_def result_def pc_def)
  have "pc demo_flight 0 = Some (Leading ''k'' 0)" "pc demo_flight 1 = Some (Waiting ''k'' 0)"
    by (simp_all add: demo_flight_def pc_def)
  from cache_load_shared [OF demo_flight_reachable this(1) _ this(2) _ demo_landed_reachable l] l
  show ?thesis by simp
qed

end
