(* ===== verification/Replay.thy ===== *)
theory Replay
  imports Chok_Prelude
begin

text \<open>
  The replay buffer of the realtime hub (\<^verbatim>\<open>realtime/replay.go\<close>): a ring of the latest
  events with an index from event k to position. The theory gives the ring buffer as the
  code has it, its invariant, its abstraction (the list of events kept), the interface the
  hub relies on as a locale, and the interpretation of that locale by the ring buffer.
\<close>

section \<open>State\<close>

text \<open>\<^verbatim>\<open>realtime/event.go\<close>: an event encoded once for every connection.\<close>

record frame =
  fid :: string
  ftopic :: string
  ftyp :: string
  fjson :: bytes

text \<open>
  Positions are \<^verbatim>\<open>uint64\<close> counts of the events a hub has delivered since it started; they
  are natural numbers here, since no hub delivers \<open>2 ^ 64\<close> events.
  A slot is \<open>None\<close> while it holds Go's \<^verbatim>\<open>nil\<close>.
\<close>

record replay =
  buf :: "frame option list"
  head :: nat
  cnt :: nat
  first :: nat
  pos :: "string \<rightharpoonup> nat"

definition newReplay :: "nat \<Rightarrow> replay" where
  "newReplay sz = \<lparr>buf = replicate sz None, head = 0, cnt = 0, first = 0, pos = Map.empty\<rparr>"

section \<open>Operations\<close>

text \<open>
  An operation that would dereference a \<^verbatim>\<open>nil\<close> slot panics: \<open>None\<close>. A missing key of a Go
  map reads as 0.
\<close>

definition pos_read :: "(string \<rightharpoonup> nat) \<Rightarrow> string \<Rightarrow> nat" where
  "pos_read m k = (case m k of None \<Rightarrow> 0 | Some p \<Rightarrow> p)"

definition evict :: "replay \<Rightarrow> replay option" where
  "evict r =
     (case buf r ! head r of
        None \<Rightarrow> None
      | Some old \<Rightarrow>
          Some (r\<lparr>pos := (if pos_read (pos r) (fid old) = first r
                          then (pos r)(fid old := None) else pos r),
                  buf := (buf r)[head r := None],
                  head := (head r + 1) mod length (buf r),
                  first := first r + 1,
                  cnt := cnt r - 1\<rparr>))"

definition append_frame :: "frame \<Rightarrow> replay \<Rightarrow> replay" where
  "append_frame f r =
     r\<lparr>buf := (buf r)[(head r + cnt r) mod length (buf r) := Some f],
       pos := (pos r)(fid f \<mapsto> first r + cnt r),
       cnt := cnt r + 1\<rparr>"

definition add :: "frame \<Rightarrow> replay \<Rightarrow> replay option" where
  "add f r =
     (if length (buf r) = 0 then Some r
      else if cnt r = length (buf r) then map_option (append_frame f) (evict r)
      else Some (append_frame f r))"

text \<open>The loop of \<^verbatim>\<open>since\<close> from position \<open>q\<close>: \<open>todo\<close> is \<open>first + n - q\<close>.\<close>

fun since_loop :: "replay \<Rightarrow> string list \<Rightarrow> nat \<Rightarrow> nat \<Rightarrow> frame list option" where
  "since_loop r topics q 0 = Some []"
| "since_loop r topics q (Suc todo) =
     (case buf r ! ((head r + (q - first r)) mod length (buf r)) of
        None \<Rightarrow> None
      | Some f \<Rightarrow>
          (case since_loop r topics (q + 1) todo of
             None \<Rightarrow> None
           | Some out \<Rightarrow> Some (if ftopic f \<in> set topics then f # out else out)))"

definition since :: "string \<Rightarrow> string list \<Rightarrow> replay \<Rightarrow> (frame list \<times> bool) option" where
  "since k topics r =
     (case pos r k of
        None \<Rightarrow> Some ([], False)
      | Some p \<Rightarrow>
          map_option (\<lambda>out. (out, True)) (since_loop r topics (p + 1) (first r + cnt r - (p + 1))))"

section \<open>The events kept\<close>

definition slots :: "replay \<Rightarrow> frame option list" where
  "slots r = map (\<lambda>i. buf r ! ((head r + i) mod length (buf r))) [0..<cnt r]"

definition kept :: "replay \<Rightarrow> frame list" where
  "kept r = map the (slots r)"

text \<open>The position of the last event with an id, and the events after it.\<close>

fun last_pos :: "string \<Rightarrow> frame list \<Rightarrow> nat option" where
  "last_pos k [] = None"
| "last_pos k (x # xs) =
     (case last_pos k xs of
        Some i \<Rightarrow> Some (Suc i)
      | None \<Rightarrow> if fid x = k then Some 0 else None)"

definition after_last :: "string \<Rightarrow> frame list \<Rightarrow> frame list" where
  "after_last k xs = rev (takeWhile (\<lambda>f. fid f \<noteq> k) (rev xs))"

definition replay_ok :: "replay \<Rightarrow> bool" where
  "replay_ok r \<longleftrightarrow>
     cnt r \<le> length (buf r) \<and> (buf r \<noteq> [] \<longrightarrow> head r < length (buf r)) \<and>
     None \<notin> set (slots r) \<and>
     pos r = (\<lambda>k. map_option (\<lambda>i. first r + i) (last_pos k (kept r)))"

lemma length_slots [simp]: "length (slots r) = cnt r"
  by (simp add: slots_def)

lemma length_kept [simp]: "length (kept r) = cnt r"
  by (simp add: kept_def)

lemma last_pos_snoc:
  "last_pos k (xs @ [f]) = (if fid f = k then Some (length xs) else last_pos k xs)"
  by (induction xs) (auto split: option.splits)

lemma last_pos_None: "last_pos k xs = None \<longleftrightarrow> k \<notin> fid ` set xs"
  by (induction xs) (auto split: option.splits)

lemma last_pos_less: "last_pos k xs = Some i \<Longrightarrow> i < length xs"
  by (induction xs arbitrary: i) (auto split: option.splits if_splits)

lemma last_pos_tl:
  "map_option (\<lambda>i. Suc (p + i)) (last_pos k xs) =
     (if last_pos k (x # xs) = Some 0 then None
      else map_option (\<lambda>i. p + i) (last_pos k (x # xs)))"
  by (auto split: option.splits)

lemma after_last_snoc:
  "after_last k (xs @ [f]) = (if fid f = k then [] else after_last k xs @ [f])"
  by (simp add: after_last_def)

lemma after_last_drop: "last_pos k xs = Some i \<Longrightarrow> after_last k xs = drop (Suc i) xs"
  by (induction xs arbitrary: i rule: rev_induct)
    (auto simp: last_pos_snoc after_last_snoc split: if_splits dest: last_pos_less)

section \<open>Correctness of the ring buffer\<close>

lemma slot_at: "replay_ok r \<Longrightarrow> i < cnt r \<Longrightarrow>
  buf r ! ((head r + i) mod length (buf r)) = Some (kept r ! i)"
proof -
  assume "replay_ok r" and i: "i < cnt r"
  then have "slots r ! i \<noteq> None" by (metis length_slots nth_mem replay_ok_def)
  then show ?thesis using i by (auto simp: kept_def slots_def)
qed

lemma replay_ok_new: "replay_ok (newReplay sz)"
  by (auto simp: replay_ok_def newReplay_def slots_def kept_def)

lemma length_buf_new [simp]: "length (buf (newReplay sz)) = sz"
  by (simp add: newReplay_def)

lemma kept_new [simp]: "kept (newReplay sz) = []"
  by (simp add: kept_def slots_def newReplay_def)

lemma evict_ok:
  assumes "replay_ok r" and "0 < cnt r"
  obtains r' where "evict r = Some r'" and "replay_ok r'" and "kept r' = tl (kept r)"
    and "length (buf r') = length (buf r)" and "cnt r' = cnt r - 1"
proof -
  let ?L = "length (buf r)"
  have le: "cnt r \<le> ?L" and hd: "head r < ?L" using assms by (auto simp: replay_ok_def)
  have old: "buf r ! head r = Some (kept r ! 0)" using slot_at [OF assms] hd by simp
  obtain x xs where kx: "kept r = x # xs" using assms(2) by (metis length_kept length_0_conv neq_Nil_conv not_less_zero)
  define r' where "r' = r\<lparr>pos := (if pos_read (pos r) (fid x) = first r
                          then (pos r)(fid x := None) else pos r),
                  buf := (buf r)[head r := None], head := (head r + 1) mod ?L,
                  first := first r + 1, cnt := cnt r - 1\<rparr>"
  have ev: "evict r = Some r'" using old kx by (simp add: evict_def r'_def)
  have slot: "buf r' ! ((head r' + i) mod ?L) = Some (kept r ! Suc i)" if "i < cnt r - 1" for i
  proof -
    have "(head r' + i) mod ?L = (head r + Suc i) mod ?L" by (simp add: r'_def mod_simps)
    moreover have "(head r + Suc i) mod ?L \<noteq> head r"
    proof -
      have "Suc i < ?L" and "0 < ?L" using that le hd by linarith+
      from ring_index_eq_iff [OF hd this] hd show ?thesis by simp
    qed
    ultimately show ?thesis using slot_at [OF assms(1), of "Suc i"] that by (simp add: r'_def)
  qed
  have slots: "slots r' = map Some xs"
  proof (rule nth_equalityI)
    show "length (slots r') = length (map Some xs)"
      using kx length_kept [of r] by (simp add: r'_def)
    fix i assume "i < length (slots r')"
    then show "slots r' ! i = map Some xs ! i"
      using slot [of i] kx length_kept [of r] by (simp add: slots_def r'_def)
  qed
  then have kept: "kept r' = xs" by (simp add: kept_def)
  have "pos r' = (\<lambda>k. map_option (\<lambda>i. first r' + i) (last_pos k xs))"
  proof
    fix k
    have pr: "pos r = (\<lambda>k. map_option (\<lambda>i. first r + i) (last_pos k (x # xs)))"
      using assms(1) kx by (simp add: replay_ok_def)
    have px: "pos_read (pos r) (fid x) = first r \<longleftrightarrow> last_pos (fid x) (x # xs) = Some 0"
      by (auto simp: pr pos_read_def split: option.splits)
    show "pos r' k = map_option (\<lambda>i. first r' + i) (last_pos k xs)"
    proof (cases "k = fid x")
      case True
      with px show ?thesis using last_pos_tl [of "first r" k xs x] by (simp add: r'_def pr)
    next
      case False
      then have "last_pos k (x # xs) \<noteq> Some 0" by (auto split: option.splits)
      with False show ?thesis using last_pos_tl [of "first r" k xs x] by (simp add: r'_def pr)
    qed
  qed
  with slots kept have "replay_ok r'"
    using le hd by (auto simp: replay_ok_def r'_def)
  with that [OF ev] kept kx show thesis by (simp add: r'_def)
qed

lemma append_ok:
  assumes "replay_ok r" and "cnt r < length (buf r)"
  shows "replay_ok (append_frame f r)" and "kept (append_frame f r) = kept r @ [f]"
proof -
  let ?L = "length (buf r)" and ?r = "append_frame f r"
  have hd: "head r < ?L" using assms by (auto simp: replay_ok_def)
  have "slots ?r ! i = Some ((kept r @ [f]) ! i)" if "i \<le> cnt r" for i
  proof (cases "i = cnt r")
    case True
    have "(head r + cnt r) mod ?L < ?L" using hd by (intro mod_less_divisor) linarith
    with True show ?thesis by (simp add: slots_def append_frame_def nth_append)
  next
    case False
    with that assms(2) hd have "(head r + cnt r) mod ?L \<noteq> (head r + i) mod ?L"
      by (subst ring_index_eq_iff) auto
    with False that slot_at [OF assms(1), of i] show ?thesis
      by (simp add: slots_def append_frame_def nth_append del: upt_Suc)
  qed
  then have slots: "slots ?r = map Some (kept r @ [f])"
    by (intro nth_equalityI) (auto simp: append_frame_def nth_append)
  then show kept: "kept ?r = kept r @ [f]" by (simp add: kept_def)
  have "pos ?r = (\<lambda>k. map_option (\<lambda>i. first ?r + i) (last_pos k (kept ?r)))"
    unfolding kept using assms(1)
    by (auto simp: fun_eq_iff last_pos_snoc append_frame_def replay_ok_def)
  with slots assms(2) hd show "replay_ok ?r"
    by (auto simp: replay_ok_def append_frame_def)
qed

lemma add_ok:
  assumes "replay_ok r"
  obtains r' where "add f r = Some r'" and "replay_ok r'" and "length (buf r') = length (buf r)"
    and "kept r' = (if buf r = [] then []
                    else (if cnt r = length (buf r) then tl (kept r) else kept r) @ [f])"
proof (cases "buf r = []")
  case True
  with assms have "kept r = []" using length_kept [of r] by (auto simp: replay_ok_def simp del: length_kept)
  with True assms that [of r] show thesis by (simp add: add_def)
next
  case False
  show thesis
  proof (cases "cnt r = length (buf r)")
    case True
    with False have "0 < cnt r" by simp
    then obtain r' where r': "evict r = Some r'" "replay_ok r'" "kept r' = tl (kept r)"
      "length (buf r') = length (buf r)" "cnt r' = cnt r - 1"
      using evict_ok [OF assms] by blast
    have lt: "cnt r' < length (buf r')" using r' True \<open>0 < cnt r\<close> by simp
    have "add f r = Some (append_frame f r')" using False True r' by (simp add: add_def)
    from that [OF this append_ok(1) [OF r'(2) lt]] append_ok(2) [OF r'(2) lt] r' False True
    show thesis by (simp add: append_frame_def)
  next
    case not_full: False
    with assms have lt: "cnt r < length (buf r)" by (simp add: replay_ok_def)
    have "add f r = Some (append_frame f r)" using False not_full by (simp add: add_def)
    from that [OF this append_ok(1) [OF assms lt]] append_ok(2) [OF assms lt] False not_full
    show thesis by (simp add: append_frame_def)
  qed
qed

lemma since_loop_eq:
  "replay_ok r \<Longrightarrow> first r \<le> q \<Longrightarrow> q + todo = first r + cnt r \<Longrightarrow>
   since_loop r topics q todo = Some (filter (\<lambda>f. ftopic f \<in> set topics) (drop (q - first r) (kept r)))"
proof (induction todo arbitrary: q)
  case 0
  then show ?case by simp
next
  case (Suc todo)
  let ?i = "q - first r"
  have i: "?i < cnt r" using Suc.prems by simp
  have "drop ?i (kept r) = kept r ! ?i # drop (q + 1 - first r) (kept r)"
    using i Suc.prems(2) by (simp add: Cons_nth_drop_Suc Suc_diff_le)
  with slot_at [OF Suc.prems(1) i] Suc.IH [of "q + 1"] Suc.prems show ?case by simp
qed

lemma since_eq:
  assumes "replay_ok r"
  shows "since k topics r = Some
    (if k \<in> fid ` set (kept r)
     then (filter (\<lambda>f. ftopic f \<in> set topics) (after_last k (kept r)), True) else ([], False))"
proof (cases "last_pos k (kept r)")
  case None
  with assms show ?thesis by (simp add: since_def replay_ok_def last_pos_None [symmetric])
next
  case (Some i)
  then have "i < cnt r" using last_pos_less by fastforce
  moreover have "pos r k = Some (first r + i)" using assms Some by (simp add: replay_ok_def)
  moreover have "k \<in> fid ` set (kept r)" using Some last_pos_None [of k "kept r"] by simp
  ultimately show ?thesis
    using since_loop_eq [OF assms, of "first r + i + 1" "cnt r - (i + 1)" topics]
    by (simp add: since_def after_last_drop [OF Some])
qed

section \<open>The interface the hub relies on\<close>

text \<open>
  A bounded log of events: adding never fails and keeps the latest \<open>capacity\<close> events in
  order; asking for the events after an id gives those of the wanted topics that came
  after the last event with that id, or says that the id is no longer kept.
\<close>

fun insert_all :: "(frame \<Rightarrow> 'r \<Rightarrow> 'r option) \<Rightarrow> frame list \<Rightarrow> 'r \<Rightarrow> 'r option" where
  "insert_all ins [] r = Some r"
| "insert_all ins (f # fs) r = Option.bind (ins f r) (insert_all ins fs)"

locale event_log =
  fixes empty :: "nat \<Rightarrow> 'r"
    and insert_event :: "frame \<Rightarrow> 'r \<Rightarrow> 'r option"
    and events_since :: "string \<Rightarrow> string list \<Rightarrow> 'r \<Rightarrow> (frame list \<times> bool) option"
    and events :: "'r \<Rightarrow> frame list"
    and capacity :: "'r \<Rightarrow> nat"
    and ok :: "'r \<Rightarrow> bool"
  assumes ok_empty: "ok (empty c)"
    and events_empty: "events (empty c) = []"
    and capacity_empty: "capacity (empty c) = c"
    and bounded: "ok r \<Longrightarrow> length (events r) \<le> capacity r"
    and insert_event: "ok r \<Longrightarrow> \<exists>r'. insert_event f r = Some r' \<and> ok r' \<and> capacity r' = capacity r \<and>
      events r' = drop (Suc (length (events r)) - capacity r) (events r @ [f])"
    and events_since: "ok r \<Longrightarrow> events_since k ts r = Some
      (if k \<in> fid ` set (events r)
       then (filter (\<lambda>f. ftopic f \<in> set ts) (after_last k (events r)), True) else ([], False))"
begin

lemma insert_all:
  "ok r \<Longrightarrow> \<exists>r'. insert_all insert_event fs r = Some r' \<and> ok r' \<and> capacity r' = capacity r \<and>
     events r' = drop (length (events r) + length fs - capacity r) (events r @ fs)"
proof (induction fs arbitrary: r)
  case Nil
  then show ?case using bounded by simp
next
  case (Cons f fs)
  obtain r1 where r1: "insert_event f r = Some r1" "ok r1" "capacity r1 = capacity r"
    "events r1 = drop (Suc (length (events r)) - capacity r) (events r @ [f])"
    using insert_event [OF Cons.prems] by blast
  obtain r2 where r2: "insert_all insert_event fs r1 = Some r2" "ok r2" "capacity r2 = capacity r"
    "events r2 = drop (length (events r1) + length fs - capacity r) (events r1 @ fs)"
    using Cons.IH [OF r1(2)] r1(3) by auto
  let ?d = "Suc (length (events r)) - capacity r"
  have le: "?d \<le> length (events r @ [f])" by simp
  have "events r1 @ fs = drop ?d (events r @ f # fs)"
    using drop_append [of ?d "events r @ [f]" fs] le by (simp add: r1(4))
  then have "events r2 = drop (length (events r1) + length fs - capacity r + ?d) (events r @ f # fs)"
    by (simp only: r2(4) drop_drop)
  moreover have "length (events r1) + length fs - capacity r + ?d
      = length (events r) + length (f # fs) - capacity r"
    using bounded [OF Cons.prems] by (simp add: r1(4))
  ultimately have "events r2 = drop (length (events r) + length (f # fs) - capacity r) (events r @ f # fs)"
    by simp
  then show ?case using r1(1) r2(1-3) by simp
qed

lemma resume_after_publish:
  assumes "ok r" and "fid f = k" and "length fs < capacity r"
    and "k \<notin> fid ` set fs"
  shows "\<exists>r'. insert_all insert_event (f # fs) r = Some r' \<and>
    events_since k ts r' = Some (filter (\<lambda>g. ftopic g \<in> set ts) fs, True)"
proof -
  obtain r' where r': "insert_all insert_event (f # fs) r = Some r'" "ok r'"
    "events r' = drop (length (events r) + length (f # fs) - capacity r) (events r @ f # fs)"
    using insert_all [OF assms(1), of "f # fs"] by blast
  define d where "d = length (events r) + length (f # fs) - capacity r"
  have "d \<le> length (events r)" using assms(3) by (simp add: d_def)
  then have ev: "events r' = drop d (events r) @ f # fs" using r'(3) by (simp add: d_def)
  have "after_last k (xs @ f # fs) = fs" for xs
  proof -
    have "takeWhile (\<lambda>g. fid g \<noteq> k) (rev fs @ f # rev xs) = rev fs"
      using assms(2,4) by (subst takeWhile_append2) (auto simp: image_iff)
    then show ?thesis by (simp add: after_last_def)
  qed
  with ev events_since [OF r'(2), of k ts] r'(1) assms(2) show ?thesis by auto
qed

end

interpretation ring: event_log newReplay add since kept "\<lambda>r. length (buf r)" replay_ok
proof unfold_locales
  fix r f
  assume ok: "replay_ok r"
  then have bound: "length (kept r) \<le> length (buf r)" by (simp add: replay_ok_def)
  then show "length (kept r) \<le> length (buf r)" .
  obtain r' where "add f r = Some r'" "replay_ok r'" "length (buf r') = length (buf r)"
    "kept r' = (if buf r = [] then []
                else (if cnt r = length (buf r) then tl (kept r) else kept r) @ [f])"
    using add_ok [OF ok, of f] by blast
  moreover have "drop (Suc (cnt r) - length (buf r)) (kept r @ [f]) =
    (if buf r = [] then []
     else (if cnt r = length (buf r) then tl (kept r) else kept r) @ [f])"
    using bound
    by (cases "kept r"; cases "buf r")
      (auto simp: Suc_diff_le length_kept [symmetric] simp del: length_kept)
  ultimately show "\<exists>r'. add f r = Some r' \<and> replay_ok r' \<and> length (buf r') = length (buf r) \<and>
      kept r' = drop (Suc (length (kept r)) - length (buf r)) (kept r @ [f])"
    by auto
next
  show "replay_ok (newReplay c)" for c by (rule replay_ok_new)
qed (auto simp: since_eq newReplay_def kept_def slots_def)

section \<open>Properties\<close>

text \<open>Adding any sequence of frames to a new ring of capacity \<open>sz\<close> never fails, and
  the ring then holds exactly the last \<open>sz\<close> of them, in order.\<close>

theorem replay_keeps_latest:
  "\<exists>r. insert_all add fs (newReplay sz) = Some r \<and> kept r = drop (length fs - sz) fs"
  using ring.insert_all [OF replay_ok_new, of fs sz] by auto

text \<open>A client that resumes after a frame gets exactly the frames of its topics
  published since, in order and without loss, when fewer than \<open>sz\<close> frames followed it.\<close>

theorem replay_resume_exact:
  assumes "insert_all add fs (newReplay sz) = Some r"
    and "fid f \<notin> fid ` set gs" and "length gs < sz"
  shows "\<exists>r'. insert_all add (f # gs) r = Some r' \<and>
    since (fid f) topics r' = Some (filter (\<lambda>g. ftopic g \<in> set topics) gs, True)"
proof -
  obtain r0 where r0: "insert_all add fs (newReplay sz) = Some r0" "replay_ok r0"
    "length (buf r0) = length (buf (newReplay sz))"
    using ring.insert_all [OF replay_ok_new, of fs sz] by blast
  then have "replay_ok r" and "length gs < length (buf r)"
    using assms(1,3) by (simp_all add: newReplay_def)
  from ring.resume_after_publish [OF this(1) refl this(2) assms(2)] show ?thesis .
qed

text \<open>\<^verbatim>\<open>since\<close> reports an unknown id exactly when no frame of that id is among the
  last \<open>sz\<close> frames added; nothing is returned then, and the client is told to reset.\<close>

theorem replay_forgotten_reset:
  assumes "insert_all add fs (newReplay sz) = Some r"
  shows "since k topics r = Some ([], False) \<longleftrightarrow> k \<notin> fid ` set (drop (length fs - sz) fs)"
proof -
  obtain r0 where "insert_all add fs (newReplay sz) = Some r0" "replay_ok r0"
    "kept r0 = drop (length fs - sz) fs"
    using ring.insert_all [OF replay_ok_new, of fs sz] by auto
  with assms since_eq [of r k topics] show ?thesis by auto
qed

definition demo_frame :: "string \<Rightarrow> string \<Rightarrow> frame" where
  "demo_frame k t = \<lparr>fid = k, ftopic = t, ftyp = ''note'', fjson = []\<rparr>"

theorem replay_resume_exact_witness:
  "\<exists>r'. insert_all add [demo_frame ''o-2'' ''a'', demo_frame ''o-3'' ''a''] 
     (the (insert_all add [demo_frame ''o-1'' ''a''] (newReplay 2))) = Some r' \<and>
   since ''o-2'' [''a''] r' = Some ([demo_frame ''o-3'' ''a''], True)"
proof -
  obtain r where r: "insert_all add [demo_frame ''o-1'' ''a''] (newReplay 2) = Some r"
    using ring.insert_all [OF replay_ok_new] by blast
  have "\<exists>r'. insert_all add (demo_frame ''o-2'' ''a'' # [demo_frame ''o-3'' ''a'']) r = Some r' \<and>
    since (fid (demo_frame ''o-2'' ''a'')) [''a''] r' =
      Some (filter (\<lambda>g. ftopic g \<in> set [''a'']) [demo_frame ''o-3'' ''a''], True)"
    by (rule replay_resume_exact [OF r]) (simp_all add: demo_frame_def)
  then show ?thesis unfolding r option.sel by (simp add: demo_frame_def)
qed

theorem replay_forgotten_reset_witness:
  "\<exists>r. insert_all add [demo_frame ''o-1'' ''a'', demo_frame ''o-2'' ''a''] (newReplay 1) = Some r \<and>
   since ''o-1'' [''a''] r = Some ([], False)"
proof -
  obtain r where r: "insert_all add [demo_frame ''o-1'' ''a'', demo_frame ''o-2'' ''a''] (newReplay 1) = Some r"
    using ring.insert_all [OF replay_ok_new] by blast
  with replay_forgotten_reset [OF r, of "''o-1''" "[''a'']"] show ?thesis
    by (simp add: demo_frame_def)
qed

end
