(* ===== verification/Go_Strings.thy ===== *)
theory Go_Strings
  imports Main "HOL-Library.Sublist"
begin

text \<open>
  What the sources use of Go's \<^verbatim>\<open>strings\<close> and \<^verbatim>\<open>strconv\<close> packages, on byte strings: a Go
  string is a sequence of bytes, here a list of \<open>char\<close>. White space is Unicode white
  space, as in \<^verbatim>\<open>strings.TrimSpace\<close> and \<^verbatim>\<open>strings.Fields\<close>: the ASCII blanks and the UTF-8
  encodings of the others.
\<close>

section \<open>Prefixes and splitting\<close>

definition has_prefix :: "string \<Rightarrow> string \<Rightarrow> bool" where
  "has_prefix s p \<longleftrightarrow> prefix p s"

definition trim_prefix :: "string \<Rightarrow> string \<Rightarrow> string" where
  "trim_prefix s p = (if prefix p s then drop (length p) s else s)"

definition trim_suffix :: "string \<Rightarrow> string \<Rightarrow> string" where
  "trim_suffix s p = (if suffix p s then take (length s - length p) s else s)"

definition cut_prefix :: "string \<Rightarrow> string \<Rightarrow> string option" where
  "cut_prefix s p = (if prefix p s then Some (drop (length p) s) else None)"

text \<open>\<^verbatim>\<open>strings.Split(s, sep)\<close> for a separator of one byte: always at least one piece.\<close>

fun split_char :: "char \<Rightarrow> string \<Rightarrow> string list" where
  "split_char c [] = [[]]"
| "split_char c (x # xs) =
     (if x = c then [] # split_char c xs
      else (case split_char c xs of [] \<Rightarrow> [[x]] | p # ps \<Rightarrow> (x # p) # ps))"

text \<open>\<^verbatim>\<open>strings.FieldsFunc(s, f)\<close> for a one-byte predicate: the non-empty pieces.\<close>

definition fields_char :: "char \<Rightarrow> string \<Rightarrow> string list" where
  "fields_char c s = filter (\<lambda>p. p \<noteq> []) (split_char c s)"

text \<open>\<^verbatim>\<open>strings.Index(s, c)\<close> and \<^verbatim>\<open>strings.Cut(s, c)\<close> for one byte.\<close>

fun index_char :: "char \<Rightarrow> string \<Rightarrow> nat option" where
  "index_char c [] = None"
| "index_char c (x # xs) = (if x = c then Some 0 else map_option Suc (index_char c xs))"

definition cut_char :: "char \<Rightarrow> string \<Rightarrow> (string \<times> string) option" where
  "cut_char c s = (case index_char c s of None \<Rightarrow> None | Some i \<Rightarrow> Some (take i s, drop (Suc i) s))"

lemma index_char_None: "c \<notin> set s \<Longrightarrow> index_char c s = None"
  by (induction s) auto

lemma index_char_append: "c \<notin> set p \<Longrightarrow> index_char c (p @ c # x) = Some (length p)"
  by (induction p) auto

lemma cut_char_None: "c \<notin> set s \<Longrightarrow> cut_char c s = None"
  by (simp add: cut_char_def index_char_None)

lemma cut_char_append: "c \<notin> set p \<Longrightarrow> cut_char c (p @ c # x) = Some (p, x)"
  by (simp add: cut_char_def index_char_append)

lemma split_char_nonempty [simp]: "split_char c s \<noteq> []"
  by (induction s) (auto split: list.splits)

lemma split_char_pieces: "p \<in> set (split_char c s) \<Longrightarrow> c \<notin> set p"
  by (induction s arbitrary: p) (auto split: list.splits if_splits)

lemma split_char_single: "c \<notin> set s \<Longrightarrow> split_char c s = [s]"
  by (induction s) auto

lemma split_char_append:
  "c \<notin> set p \<Longrightarrow> split_char c (p @ c # s) = p # split_char c s"
  by (induction p) auto

fun join_char :: "char \<Rightarrow> string list \<Rightarrow> string" where
  "join_char c [] = []"
| "join_char c [p] = p"
| "join_char c (p # ps) = p @ c # join_char c ps"

lemma join_split_char [simp]: "join_char c (split_char c s) = s"
proof (induction s)
  case (Cons x s)
  then show ?case
    by (cases "split_char c s"; cases "tl (split_char c s)") auto
qed simp

lemma split_join_char:
  "ps \<noteq> [] \<Longrightarrow> (\<And>p. p \<in> set ps \<Longrightarrow> c \<notin> set p) \<Longrightarrow> split_char c (join_char c ps) = ps"
  by (induction c ps rule: join_char.induct) (auto simp: split_char_single split_char_append)

section \<open>White space\<close>

text \<open>
  The encodings of the white-space runes: tab, line feed, vertical tab, form feed,
  carriage return, space; U+0085, U+00A0; U+1680; U+2000 to U+200A, U+2028, U+2029,
  U+202F, U+205F; U+3000.
\<close>

definition space_runes :: "string list" where
  "space_runes =
     [[CHR 0x09], [CHR 0x0A], [CHR 0x0B], [CHR 0x0C], [CHR 0x0D], [CHR 0x20],
      [CHR 0xC2, CHR 0x85], [CHR 0xC2, CHR 0xA0], [CHR 0xE1, CHR 0x9A, CHR 0x80],
      [CHR 0xE2, CHR 0x80, CHR 0x80], [CHR 0xE2, CHR 0x80, CHR 0x81],
      [CHR 0xE2, CHR 0x80, CHR 0x82], [CHR 0xE2, CHR 0x80, CHR 0x83],
      [CHR 0xE2, CHR 0x80, CHR 0x84], [CHR 0xE2, CHR 0x80, CHR 0x85],
      [CHR 0xE2, CHR 0x80, CHR 0x86], [CHR 0xE2, CHR 0x80, CHR 0x87],
      [CHR 0xE2, CHR 0x80, CHR 0x88], [CHR 0xE2, CHR 0x80, CHR 0x89],
      [CHR 0xE2, CHR 0x80, CHR 0x8A], [CHR 0xE2, CHR 0x80, CHR 0xA8],
      [CHR 0xE2, CHR 0x80, CHR 0xA9], [CHR 0xE2, CHR 0x80, CHR 0xAF],
      [CHR 0xE2, CHR 0x81, CHR 0x9F], [CHR 0xE3, CHR 0x80, CHR 0x80]]"

lemma space_runes_nonempty: "r \<in> set space_runes \<Longrightarrow> r \<noteq> []"
  by (auto simp: space_runes_def)

text \<open>Drop runes of a table from the front; the same on reversed strings for the back.\<close>

function trim_runes :: "string list \<Rightarrow> string \<Rightarrow> string" where
  "trim_runes tab s =
     (case find (\<lambda>r. r \<noteq> [] \<and> prefix r s) tab of
        None \<Rightarrow> s
      | Some r \<Rightarrow> trim_runes tab (drop (length r) s))"
  by pat_completeness auto
termination
proof (relation "measure (\<lambda>(tab, s). length s)")
  fix tab s r
  assume "find (\<lambda>r. r \<noteq> [] \<and> prefix r s) tab = Some r"
  then have "r \<noteq> []" and "prefix r s" by (auto simp: find_Some_iff)
  then have "0 < length r" and "length r \<le> length s" by (auto simp: prefix_length_le)
  then have "length s - length r < length s" by linarith
  then show "((tab, drop (length r) s), (tab, s)) \<in> measure (\<lambda>(tab, s). length s)" by simp
qed simp

declare trim_runes.simps [simp del]

definition trim_left :: "string \<Rightarrow> string" where
  "trim_left = trim_runes space_runes"

definition trim_right :: "string \<Rightarrow> string" where
  "trim_right s = rev (trim_runes (map rev space_runes) (rev s))"

definition trim_space :: "string \<Rightarrow> string" where
  "trim_space s = trim_right (trim_left s)"

lemma trim_runes_suffix: "suffix (trim_runes tab s) s"
proof (induction tab s rule: trim_runes.induct)
  case (1 tab s)
  show ?case
  proof (cases "find (\<lambda>r. r \<noteq> [] \<and> prefix r s) tab")
    case None
    then show ?thesis by (simp add: trim_runes.simps [of tab s])
  next
    case (Some r)
    from 1 [OF Some] have "suffix (trim_runes tab (drop (length r) s)) s"
      by (metis suffix_drop suffix_order.trans)
    with Some show ?thesis by (simp add: trim_runes.simps [of tab s])
  qed
qed

section \<open>Numbers\<close>

definition digit_char :: "nat \<Rightarrow> char" where
  "digit_char d = char_of (48 + d)"

definition is_digit :: "char \<Rightarrow> bool" where
  "is_digit c \<longleftrightarrow> 48 \<le> (of_char c :: nat) \<and> (of_char c :: nat) \<le> 57"

definition digit_val :: "char \<Rightarrow> nat" where
  "digit_val c = of_char c - 48"

text \<open>\<^verbatim>\<open>strconv.FormatUint(n, 10)\<close>.\<close>

fun show_nat :: "nat \<Rightarrow> string" where
  "show_nat n = (if n < 10 then [digit_char n] else show_nat (n div 10) @ [digit_char (n mod 10)])"

declare show_nat.simps [simp del]

definition digits_val :: "string \<Rightarrow> nat" where
  "digits_val s = foldl (\<lambda>n c. 10 * n + digit_val c) 0 s"

text \<open>
  \<^verbatim>\<open>strconv.Atoi\<close>: an optional sign, then one or more decimal digits, in the range of a
  64-bit \<^verbatim>\<open>int\<close>; anything else is an error, \<open>None\<close>.
\<close>

definition atoi :: "string \<Rightarrow> int option" where
  "atoi s =
     (let (neg, ds) = (case s of
            [] \<Rightarrow> (False, [])
          | c # cs \<Rightarrow> if c = CHR ''-'' then (True, cs)
                    else if c = CHR ''+'' then (False, cs) else (False, s))
      in if ds = [] \<or> \<not> list_all is_digit ds then None
         else let n = (if neg then - int (digits_val ds) else int (digits_val ds))
              in if - (2 ^ 63) \<le> n \<and> n < 2 ^ 63 then Some n else None)"

lemma digit_char_props:
  assumes "d < 10"
  shows "is_digit (digit_char d)" and "digit_val (digit_char d) = d"
  using assms by (simp_all add: is_digit_def digit_val_def digit_char_def)

lemma digits_val_snoc: "digits_val (s @ [c]) = 10 * digits_val s + digit_val c"
  by (simp add: digits_val_def)

lemma digits_val_show [simp]: "digits_val (show_nat n) = n"
proof (induction n rule: show_nat.induct)
  case (1 n)
  show ?case
  proof (cases "n < 10")
    case True
    then show ?thesis by (simp add: show_nat.simps [of n] digits_val_def digit_char_props)
  next
    case False
    with 1 show ?thesis
      by (simp add: show_nat.simps [of n] digits_val_snoc digit_char_props)
  qed
qed

lemma show_nat_digits: "list_all is_digit (show_nat n)"
proof (induction n rule: show_nat.induct)
  case (1 n)
  then show ?case by (cases "n < 10") (simp_all add: show_nat.simps [of n] digit_char_props)
qed

lemma show_nat_nonempty [simp]: "show_nat n \<noteq> []"
  by (subst show_nat.simps) simp

lemma show_nat_inject [simp]: "show_nat m = show_nat n \<longleftrightarrow> m = n"
  by (metis digits_val_show)

lemma atoi_show: "n < 2 ^ 63 \<Longrightarrow> atoi (show_nat n) = Some (int n)"
proof -
  assume n: "n < 2 ^ 63"
  obtain c cs where s: "show_nat n = c # cs" by (cases "show_nat n") auto
  have "is_digit c" using show_nat_digits [of n] s by simp
  then have "c \<noteq> CHR ''-''" "c \<noteq> CHR ''+''" by (auto simp: is_digit_def)
  moreover have "int n < 2 ^ 63" using n by (metis of_nat_less_iff of_nat_numeral of_nat_power)
  ultimately show ?thesis
    using show_nat_digits [of n] digits_val_show [of n] s by (simp add: atoi_def Let_def)
qed

section \<open>Case\<close>

text \<open>
  \<^verbatim>\<open>strings.ToLower\<close> as far as an ASCII result shows it: ASCII letters, and the two
  other runes whose lower case is ASCII, U+0130 (to i) and U+212A (to k). The bytes of
  every other rune are kept: its lower case is not ASCII either.
\<close>

fun to_lower :: "string \<Rightarrow> string" where
  "to_lower [] = []"
| "to_lower (c # cs) =
     (if c = CHR 0xC4 \<and> cs \<noteq> [] \<and> hd cs = CHR 0xB0 then CHR ''i'' # to_lower (tl cs)
      else if c = CHR 0xE2 \<and> length cs \<ge> 2 \<and> cs ! 0 = CHR 0x84 \<and> cs ! 1 = CHR 0xAA
        then CHR ''k'' # to_lower (drop 2 cs)
      else (if 65 \<le> (of_char c :: nat) \<and> (of_char c :: nat) \<le> 90
            then char_of ((of_char c :: nat) + 32) else c) # to_lower cs)"

section \<open>Fields with their lengths\<close>

text \<open>A text for several strings, for the concrete codecs the witnesses run on.\<close>

definition put_field :: "string \<Rightarrow> string" where
  "put_field s = replicate (length s) (CHR ''1'') @ CHR ''0'' # s"

definition put_fields :: "string list \<Rightarrow> string" where
  "put_fields ss = concat (map put_field ss)"

definition get_field :: "string \<Rightarrow> (string \<times> string) option" where
  "get_field s =
     (let n = length (takeWhile (\<lambda>c. c = CHR ''1'') s); rest = drop (Suc n) s
      in if n < length s then Some (take n rest, drop n rest) else None)"

lemma get_put_field: "get_field (put_field s @ x) = Some (s, x)"
proof -
  have "takeWhile (\<lambda>c. c = CHR ''1'') (replicate n (CHR ''1'') @ CHR ''0'' # y) = replicate n (CHR ''1'')" for n y
    by (induction n) simp_all
  then show ?thesis by (simp add: get_field_def put_field_def Let_def)
qed

fun get_fields :: "nat \<Rightarrow> string \<Rightarrow> string list option" where
  "get_fields 0 s = (if s = [] then Some [] else None)"
| "get_fields (Suc n) s =
     (if s = [] then Some []
      else (case get_field s of None \<Rightarrow> None | Some (x, rest) \<Rightarrow> map_option ((#) x) (get_fields n rest)))"

lemma get_put_fields: "length ss \<le> n \<Longrightarrow> get_fields n (put_fields ss) = Some ss"
proof (induction ss arbitrary: n)
  case Nil
  then show ?case by (cases n) (simp_all add: put_fields_def)
next
  case (Cons s ss)
  then obtain m where n: "n = Suc m" "length ss \<le> m" by (cases n) auto
  have "put_fields (s # ss) = put_field s @ put_fields ss" by (simp add: put_fields_def)
  moreover have "put_field s \<noteq> []" by (simp add: put_field_def)
  ultimately show ?case using Cons.IH [OF n(2)] by (simp add: n get_put_field)
qed

lemma put_fields_length: "length ss \<le> length (put_fields ss)"
  by (induction ss) (simp_all add: put_fields_def put_field_def)

end
