(* ===== verification/Hub.thy ===== *)
theory Hub
  imports Replay Go_Strings
begin

text \<open>
  The realtime hub (\<^verbatim>\<open>realtime/hub.go\<close>, \<^verbatim>\<open>realtime/conn.go\<close>, the subscription paths of
  \<^verbatim>\<open>realtime/ws.go\<close> and \<^verbatim>\<open>realtime/sse.go\<close>): connections with bounded send queues, the
  topic index, publishing, subscribing with resume, the private \<open>user:\<close> topics, dropping of
  slow consumers and disconnection. Connections are objects in a store, addressed by
  number. Every operation runs under the hub's lock, except the authorization between
  looking for fresh topics and attaching them, which the machine keeps apart.
\<close>

section \<open>Names\<close>

definition name_char :: "char \<Rightarrow> bool" where
  "name_char c \<longleftrightarrow>
     (let n = (of_char c :: nat)
      in (97 \<le> n \<and> n \<le> 122) \<or> (65 \<le> n \<and> n \<le> 90) \<or> (48 \<le> n \<and> n \<le> 57) \<or>
         c = CHR ''_'' \<or> c = CHR ''.'' \<or> c = CHR '':'' \<or> c = CHR ''-'')"

definition validName :: "string \<Rightarrow> bool" where
  "validName s \<longleftrightarrow> \<not> (length s = 0 \<or> length s > 128) \<and> list_all name_char s"

definition reserved :: "string \<Rightarrow> bool" where
  "reserved typ \<longleftrightarrow> typ = ''refused'' \<or> typ = ''reset'' \<or> typ = ''error''"

section \<open>Connections\<close>

text \<open>
  \<open>cap\<close> bounds the whole queue and \<open>limit\<close> the live events in it. The channels \<^verbatim>\<open>wake\<close>
  and \<^verbatim>\<open>done\<close>, the timer and the abort function only wake the transport; \<open>ended\<close> is what
  they report.
\<close>

record conn =
  kind :: string
  userID :: string
  limit :: nat
  cap :: nat
  ctopics :: "string set"
  queue :: "(frame \<times> bool) list"
  live :: nat
  ended :: bool
  code :: int
  reason :: string

datatype push_result = QueuedOK | Full | Gone

definition push :: "frame \<Rightarrow> bool \<Rightarrow> conn \<Rightarrow> push_result \<times> conn" where
  "push f lv c =
     (if ended c then (Gone, c)
      else if lv \<and> live c \<ge> limit c \<or> length (queue c) \<ge> cap c then (Full, c)
      else (QueuedOK, c\<lparr>queue := queue c @ [(f, lv)],
                       live := (if lv then live c + 1 else live c)\<rparr>))"

definition pop :: "conn \<Rightarrow> frame option \<times> conn" where
  "pop c =
     (if ended c then (None, c)
      else case queue c of
             [] \<Rightarrow> (None, c)
           | (f, lv) # q \<Rightarrow>
               (Some f, c\<lparr>queue := q, live := (if lv then live c - 1 else live c)\<rparr>))"

definition end_conn :: "int \<Rightarrow> string \<Rightarrow> conn \<Rightarrow> bool \<times> conn" where
  "end_conn cd rsn c =
     (if ended c then (False, c)
      else (True, c\<lparr>ended := True, code := cd, reason := rsn, queue := []\<rparr>))"

definition closeGoingAway :: int where "closeGoingAway = 1001"
definition closePolicy :: int where "closePolicy = 1008"
definition closeSlow :: int where "closeSlow = 4408"

text \<open>
  The invariant of a connection's queue: bounded, \<open>live\<close> counts its live events (unless the
  connection has ended, when nothing reads \<open>live\<close> any more), and an ended one is empty.
\<close>

definition conn_ok :: "conn \<Rightarrow> bool" where
  "conn_ok c \<longleftrightarrow>
     length (queue c) \<le> cap c \<and>
     (\<not> ended c \<longrightarrow> live c = length (filter snd (queue c)) \<and> live c \<le> limit c) \<and>
     (ended c \<longrightarrow> queue c = [])"

lemma conn_ok_push [chok_inv]: "conn_ok c \<Longrightarrow> conn_ok (snd (push f lv c))"
  by (auto simp: conn_ok_def push_def)

lemma conn_ok_pop [chok_inv]: "conn_ok c \<Longrightarrow> conn_ok (snd (pop c))"
  by (auto simp: conn_ok_def pop_def split: list.splits)

lemma conn_ok_end [chok_inv]: "conn_ok c \<Longrightarrow> conn_ok (snd (end_conn cd rsn c))"
  by (auto simp: conn_ok_def end_conn_def)

lemma push_frame [simp]:
  "userID (snd (push f lv c)) = userID c" "ctopics (snd (push f lv c)) = ctopics c"
  "ended (snd (push f lv c)) = ended c" "cap (snd (push f lv c)) = cap c"
  "limit (snd (push f lv c)) = limit c"
  by (simp_all add: push_def)

lemma end_frame [simp]:
  "userID (snd (end_conn cd rsn c)) = userID c" "ctopics (snd (end_conn cd rsn c)) = ctopics c"
  "ended (snd (end_conn cd rsn c))" "cap (snd (end_conn cd rsn c)) = cap c"
  "limit (snd (end_conn cd rsn c)) = limit c"
  by (simp_all add: end_conn_def)

lemma pop_frame [simp]:
  "userID (snd (pop c)) = userID c" "ctopics (snd (pop c)) = ctopics c"
  "cap (snd (pop c)) = cap c" "limit (snd (pop c)) = limit c"
  by (auto simp: pop_def split: list.splits)

section \<open>The hub\<close>

text \<open>
  \<open>objs\<close> is the store of connection objects, \<open>conns\<close> those registered, \<open>htopics\<close> the
  subscribers of each topic (no entry is the empty set), \<open>users\<close> the connections per user.
  The number of connections of a user is positive, so an absent key is 0 and is never
  stored.
\<close>

record hub =
  sendBuffer :: nat
  replaySize :: nat
  maxSubscriptions :: nat
  origin :: string
  seq :: nat
  objs :: "nat \<Rightarrow> conn"
  conns :: "nat set"
  htopics :: "string \<Rightarrow> nat set"
  users :: "string \<rightharpoonup> nat"
  hreplay :: replay
  closed :: bool
  published :: nat
  delivered :: nat
  dropped :: nat

definition set_obj :: "nat \<Rightarrow> conn \<Rightarrow> hub \<Rightarrow> hub" where
  "set_obj i c h = h\<lparr>objs := (objs h)(i := c)\<rparr>"

definition newConn :: "hub \<Rightarrow> string \<Rightarrow> string \<Rightarrow> conn" where
  "newConn h knd uid =
     \<lparr>kind = knd, userID = uid, limit = sendBuffer h,
      cap = sendBuffer h + replaySize h + 2 * maxSubscriptions h,
      ctopics = {}, queue = [], live = 0, ended = False, code = 0, reason = []\<rparr>"

definition user_count :: "(string \<rightharpoonup> nat) \<Rightarrow> string \<Rightarrow> nat" where
  "user_count m u = (case m u of None \<Rightarrow> 0 | Some n \<Rightarrow> n)"

definition register :: "nat \<Rightarrow> hub \<Rightarrow> bool \<times> hub" where
  "register i h =
     (if closed h then (False, h)
      else let u = userID (objs h i);
               h1 = h\<lparr>conns := insert i (conns h)\<rparr>
           in (True, if u \<noteq> [] then h1\<lparr>users := (users h1)(u \<mapsto> user_count (users h1) u + 1)\<rparr> else h1))"

text \<open>\<open>detachLocked\<close> with a list of topics, and with \<^verbatim>\<open>nil\<close>: every topic of the connection.\<close>

definition detach1 :: "nat \<Rightarrow> string \<Rightarrow> hub \<Rightarrow> hub" where
  "detach1 i t h =
     (let c = objs h i
      in if t \<notin> ctopics c then h
         else set_obj i (c\<lparr>ctopics := ctopics c - {t}\<rparr>)
                (h\<lparr>htopics := (htopics h)(t := htopics h t - {i})\<rparr>))"

definition detach :: "nat \<Rightarrow> string list \<Rightarrow> hub \<Rightarrow> hub" where
  "detach i ts h = fold (detach1 i) ts h"

definition detach_all :: "nat \<Rightarrow> hub \<Rightarrow> hub" where
  "detach_all i h =
     (let c = objs h i
      in set_obj i (c\<lparr>ctopics := {}\<rparr>)
           (h\<lparr>htopics := (\<lambda>t. if t \<in> ctopics c then htopics h t - {i} else htopics h t)\<rparr>))"

definition unregister :: "nat \<Rightarrow> hub \<Rightarrow> hub" where
  "unregister i h =
     (let h1 = detach_all i h;
          h2 = h1\<lparr>conns := conns h1 - {i}\<rparr>;
          u = userID (objs h2 i)
      in if u \<noteq> [] then
           (let n = user_count (users h2) u - 1
            in h2\<lparr>users := (users h2)(u := if n \<le> 0 then None else Some n)\<rparr>)
         else h2)"

definition end_obj :: "int \<Rightarrow> string \<Rightarrow> nat \<Rightarrow> hub \<Rightarrow> hub" where
  "end_obj cd rsn i h = set_obj i (snd (end_conn cd rsn (objs h i))) h"

definition dropLocked :: "nat \<Rightarrow> hub \<Rightarrow> hub" where
  "dropLocked i h =
     end_obj closeSlow ''slow consumer'' i
       ((detach_all i h)\<lparr>dropped := dropped h + 1\<rparr>)"

text \<open>
  \<open>deliverLocked\<close> visits the subscribers of the topic in the order of a Go map iteration,
  which is not specified: \<open>order\<close> is any enumeration of them. It returns the slow ones.
\<close>

definition deliver1 :: "frame \<Rightarrow> nat \<Rightarrow> hub \<times> nat list \<Rightarrow> hub \<times> nat list" where
  "deliver1 f i = (\<lambda>(h, slow).
     (case push f True (objs h i) of
        (QueuedOK, c) \<Rightarrow> ((set_obj i c h)\<lparr>delivered := delivered h + 1\<rparr>, slow)
      | (Full, c) \<Rightarrow> (dropLocked i h, slow @ [i])
      | (Gone, c) \<Rightarrow> (h, slow)))"

definition deliverLocked :: "frame \<Rightarrow> nat list \<Rightarrow> hub \<Rightarrow> hub \<times> nat list" where
  "deliverLocked f order h = fold (deliver1 f) order (h, [])"

text \<open>Events, and the frame each is encoded into; \<open>enc\<close> is the JSON encoder.\<close>

record event =
  eid :: string
  etopic :: string
  etype :: string
  edata :: bytes
  eat :: instant

definition newFrame :: "(event \<Rightarrow> bytes) \<Rightarrow> event \<Rightarrow> frame" where
  "newFrame enc ev = \<lparr>fid = eid ev, ftopic = etopic ev, ftyp = etype ev, fjson = enc ev\<rparr>"

definition ownEvent :: "(event \<Rightarrow> bytes) \<Rightarrow> instant \<Rightarrow> string \<Rightarrow> string \<Rightarrow> bytes \<Rightarrow> frame" where
  "ownEvent enc now topic typ dat =
     newFrame enc \<lparr>eid = [], etopic = topic, etype = typ, edata = dat, eat = now\<rparr>"

datatype publish_error = BadTopic | BadType | BadData

text \<open>
  \<open>insert_frame\<close> is the locked part that \<^verbatim>\<open>Publish\<close> and \<^verbatim>\<open>receive\<close> share: keep the frame for
  replay, then queue it; \<open>None\<close> is a panic in the replay buffer. \<open>data\<close> is the encoded
  value: \<open>None\<close> when it does not encode.
\<close>

definition insert_frame :: "frame \<Rightarrow> nat list \<Rightarrow> hub \<Rightarrow> (hub \<times> nat list) option" where
  "insert_frame f order h =
     map_option (\<lambda>r. deliverLocked f order (h\<lparr>hreplay := r\<rparr>)) (add f (hreplay h))"

definition Publish ::
  "(event \<Rightarrow> bytes) \<Rightarrow> instant \<Rightarrow> nat list \<Rightarrow> string \<Rightarrow> string \<Rightarrow> bytes option \<Rightarrow> hub \<Rightarrow>
   (publish_error + hub \<times> nat list) option" where
  "Publish enc now order topic typ data h =
     (if \<not> validName topic then Some (Inl BadTopic)
      else if \<not> validName typ \<or> reserved typ then Some (Inl BadType)
      else case data of
        None \<Rightarrow> Some (Inl BadData)
      | Some raw \<Rightarrow>
          (let h1 = h\<lparr>seq := seq h + 1\<rparr>;
               f = newFrame enc \<lparr>eid = origin h1 @ ''-'' @ show_nat (seq h1), etopic = topic,
                                 etype = typ, edata = raw, eat = now\<rparr>
           in map_option (\<lambda>(h2, slow). Inr (h2\<lparr>published := published h2 + 1\<rparr>, slow))
                (insert_frame f order h1)))"

definition Send ::
  "(event \<Rightarrow> bytes) \<Rightarrow> instant \<Rightarrow> nat list \<Rightarrow> string \<Rightarrow> string \<Rightarrow> bytes option \<Rightarrow> hub \<Rightarrow>
   (publish_error + hub \<times> nat list) option" where
  "Send enc now order uid typ data h = Publish enc now order (''user:'' @ uid) typ data h"

text \<open>
  \<open>receive\<close>: an event from another replica; \<open>decoded\<close> is the event its payload holds,
  \<open>None\<close> when it does not decode.
\<close>

definition receive :: "(event \<Rightarrow> bytes) \<Rightarrow> nat list \<Rightarrow> event option \<Rightarrow> hub \<Rightarrow> hub option" where
  "receive enc order decoded h =
     (case decoded of
        None \<Rightarrow> Some h
      | Some ev \<Rightarrow>
          (case cut_char (CHR ''-'') (eid ev) of
             None \<Rightarrow> Some h
           | Some (org, sq) \<Rightarrow>
               if org = [] \<or> sq = [] \<or> \<not> validName (eid ev) \<or> \<not> validName (etopic ev) \<or>
                  \<not> validName (etype ev) \<or> reserved (etype ev) then Some h
               else if org = origin h then Some h
               else map_option fst (insert_frame (newFrame enc ev) order h)))"

section \<open>Subscribing\<close>

text \<open>
  \<^verbatim>\<open>chok.Error\<close> as a refused client sees it. The application's \<^verbatim>\<open>Authorize\<close> is a parameter:
  \<open>None\<close> without the option, else a function of the connection's user and the topic; its
  error is a \<^verbatim>\<open>*chok.Error\<close>, a \<^verbatim>\<open>chok.Coder\<close> (whose \<^verbatim>\<open>APIError\<close> may be \<^verbatim>\<open>nil\<close>) or another one.
\<close>

record api_error =
  areason :: string
  amessage :: string

datatype authorize_error = ChokError api_error | CoderError "api_error option" | OtherError

type_synonym authorizer = "(string \<Rightarrow> string \<Rightarrow> authorize_error option) option"

definition errForbidden :: "string \<Rightarrow> api_error" where
  "errForbidden msg = \<lparr>areason = ''Forbidden'', amessage = msg\<rparr>"

definition not_allowed :: "string \<Rightarrow> api_error" where
  "not_allowed topic = errForbidden (''subscribing to '' @ topic @ '' is not allowed'')"

definition allowed :: "authorizer \<Rightarrow> string \<Rightarrow> string \<Rightarrow> api_error option" where
  "allowed auth uid topic =
     (case cut_prefix topic ''user:'' of
        Some i \<Rightarrow>
          if uid \<noteq> [] \<and> i = uid then None
          else Some (errForbidden (topic @ '' is another user's topic''))
      | None \<Rightarrow>
          (case auth of
             None \<Rightarrow> Some (not_allowed topic)
           | Some fn \<Rightarrow>
               (case fn uid topic of
                  None \<Rightarrow> None
                | Some (ChokError e) \<Rightarrow> Some e
                | Some (CoderError (Some e)) \<Rightarrow> Some e
                | Some (CoderError None) \<Rightarrow> Some (not_allowed topic)
                | Some OtherError \<Rightarrow> Some (not_allowed topic))))"

text \<open>\<open>fresh\<close>: the topics without duplicates and without those the connection has; the room left.\<close>

fun fresh_topics :: "string set \<Rightarrow> string list \<Rightarrow> string list \<Rightarrow> string list" where
  "fresh_topics have out [] = out"
| "fresh_topics have out (t # ts) =
     fresh_topics have (if t \<notin> have \<and> t \<notin> set out then out @ [t] else out) ts"

definition fresh :: "nat \<Rightarrow> string list \<Rightarrow> hub \<Rightarrow> string list \<times> int" where
  "fresh i ts h =
     (fresh_topics (ctopics (objs h i)) [] ts,
      int (maxSubscriptions h) - int (card (ctopics (objs h i))))"

type_synonym refusal = "string \<times> api_error"

fun check :: "authorizer \<Rightarrow> string \<Rightarrow> string list \<Rightarrow> string list \<times> refusal list" where
  "check auth uid [] = ([], [])"
| "check auth uid (t # ts) =
     (let (ok, refused) = check auth uid ts
      in case allowed auth uid t of
           Some e \<Rightarrow> (ok, (t, e) # refused)
         | None \<Rightarrow> (t # ok, refused))"

text \<open>
  \<open>queue_own\<close> is the closure \<^verbatim>\<open>queue\<close> of \<^verbatim>\<open>attachLocked\<close> on the connection object and the
  \<^verbatim>\<open>overflow\<close> flag; it reports whether the frame was queued.
\<close>

definition queue_own :: "frame \<Rightarrow> conn \<times> bool \<Rightarrow> bool \<times> conn \<times> bool" where
  "queue_own f = (\<lambda>(c, overflow).
     (case push f False c of
        (Full, c') \<Rightarrow> (False, c', True)
      | (QueuedOK, c') \<Rightarrow> (True, c', overflow)
      | (Gone, c') \<Rightarrow> (False, c', overflow)))"

fun queue_frames :: "frame list \<Rightarrow> conn \<times> bool \<Rightarrow> nat \<times> conn \<times> bool" where
  "queue_frames [] s = (0, s)"
| "queue_frames (f # fs) s =
     (let (ok, s') = queue_own f s; (n, s'') = queue_frames fs s'
      in (if ok then n + 1 else n, s''))"

definition subscribe_all :: "nat \<Rightarrow> string list \<Rightarrow> hub \<Rightarrow> hub" where
  "subscribe_all i ts h =
     set_obj i ((objs h i)\<lparr>ctopics := ctopics (objs h i) \<union> set ts\<rparr>)
       (h\<lparr>htopics := (\<lambda>t. if t \<in> set ts then insert i (htopics h t) else htopics h t)\<rparr>)"

definition attachLocked ::
  "(event \<Rightarrow> bytes) \<Rightarrow> (api_error \<Rightarrow> bytes) \<Rightarrow> instant \<Rightarrow> nat \<Rightarrow> string list \<Rightarrow> refusal list \<Rightarrow>
   string \<Rightarrow> hub \<Rightarrow> (bool \<times> hub) option" where
  "attachLocked enc encr now i ts refused after h =
     (let (_, c1, over1) =
            queue_frames (map (\<lambda>(t, e). ownEvent enc now t ''refused'' (encr e)) refused)
              (objs h i, False);
          h1 = set_obj i c1 h
      in if ts = [] then Some (over1, h1)
         else let h2 = subscribe_all i ts h1
         in if after = [] then Some (over1, h2)
            else case since after ts (hreplay h2) of
              None \<Rightarrow> None
            | Some (frames, keeps) \<Rightarrow>
                if \<not> keeps then
                  (let (_, c3, over3) =
                         queue_frames (map (\<lambda>t. ownEvent enc now t ''reset'' []) ts) (objs h2 i, over1)
                   in Some (over3, set_obj i c3 h2))
                else
                  (let (n, c3, over3) = queue_frames frames (objs h2 i, over1)
                   in Some (over3, (set_obj i c3 h2)\<lparr>delivered := delivered h2 + n\<rparr>)))"

definition attach ::
  "(event \<Rightarrow> bytes) \<Rightarrow> (api_error \<Rightarrow> bytes) \<Rightarrow> instant \<Rightarrow> nat \<Rightarrow> string list \<Rightarrow> refusal list \<Rightarrow>
   string \<Rightarrow> hub \<Rightarrow> hub option" where
  "attach enc encr now i ts refused after h =
     map_option (\<lambda>(overflow, h'). if overflow then dropLocked i h' else h')
       (attachLocked enc encr now i ts refused after h)"

text \<open>
  The checks of \<^verbatim>\<open>wsSubscribe\<close> before the topics are attached: a reason to close, or the
  topics to attach and the refusals. The request of a stream (\<^verbatim>\<open>streamTopics\<close>) makes the same
  checks for a connection without topics.
\<close>

datatype close_reason = ReasonTopic | ReasonTooMany

definition wsSubscribe ::
  "authorizer \<Rightarrow> nat \<Rightarrow> string list \<Rightarrow> hub \<Rightarrow> close_reason + string list \<times> refusal list" where
  "wsSubscribe auth i ts h =
     (if \<not> list_all validName ts then Inl ReasonTopic
      else let (fr, room) = fresh i ts h
           in if int (length fr) > room then Inl ReasonTooMany
              else Inr (check auth (userID (objs h i)) fr))"

section \<open>Ending connections\<close>

definition disconnect1 :: "string \<Rightarrow> nat \<Rightarrow> hub \<Rightarrow> hub" where
  "disconnect1 uid i h =
     (if userID (objs h i) = uid then end_obj closePolicy ''session revoked'' i (detach_all i h) else h)"

definition Disconnect :: "string \<Rightarrow> nat list \<Rightarrow> hub \<Rightarrow> hub" where
  "Disconnect uid order h = (if uid = [] then h else fold (disconnect1 uid) order h)"

definition Close :: "nat list \<Rightarrow> hub \<Rightarrow> hub" where
  "Close order h =
     (if closed h then h
      else fold (end_obj closeGoingAway ''the server is shutting down'') order (h\<lparr>closed := True\<rparr>))"

record stats =
  Connections :: nat
  Users :: nat
  Topics :: nat
  Published :: nat
  Delivered :: nat
  Dropped :: nat
  Backplane :: string

definition Stats :: "string \<Rightarrow> hub \<Rightarrow> stats" where
  "Stats bp_status h =
     \<lparr>Connections = card (conns h), Users = card (dom (users h)),
      Topics = card {t. htopics h t \<noteq> {}}, Published = published h, Delivered = delivered h,
      Dropped = dropped h, Backplane = bp_status\<rparr>"

section \<open>The hub's invariant\<close>

text \<open>
  The topic index and the connections' own topic sets agree; every connection's queue is
  sound, its topics at most \<open>maxSubscriptions\<close> and its \<open>user:\<close> topics its own; the users'
  counts are those of the registered connections; the replay buffer is sound.
\<close>

definition index_ok :: "hub \<Rightarrow> bool" where
  "index_ok h \<longleftrightarrow> (\<forall>t i. i \<in> htopics h t \<longleftrightarrow> t \<in> ctopics (objs h i))"

definition own_topics :: "string \<Rightarrow> string set \<Rightarrow> bool" where
  "own_topics uid T \<longleftrightarrow> (\<forall>u. ''user:'' @ u \<in> T \<longrightarrow> u \<noteq> [] \<and> u = uid)"

definition topics_ok :: "hub \<Rightarrow> nat \<Rightarrow> string set \<Rightarrow> bool" where
  "topics_ok h i T \<longleftrightarrow>
     finite T \<and> card T \<le> maxSubscriptions h \<and> own_topics (userID (objs h i)) T"

definition held_by :: "nat set \<Rightarrow> (nat \<Rightarrow> conn) \<Rightarrow> string \<Rightarrow> nat" where
  "held_by C ob u = card {i \<in> C. userID (ob i) = u}"

definition users_ok :: "hub \<Rightarrow> bool" where
  "users_ok h \<longleftrightarrow> finite (conns h) \<and>
     (\<forall>u. users h u =
        (if u = [] \<or> held_by (conns h) (objs h) u = 0 then None
         else Some (held_by (conns h) (objs h) u)))"

definition hub_ok :: "hub \<Rightarrow> bool" where
  "hub_ok h \<longleftrightarrow> index_ok h \<and> users_ok h \<and> replay_ok (hreplay h) \<and>
     (\<forall>i. conn_ok (objs h i) \<and> topics_ok h i (ctopics (objs h i)))"

lemmas hub_ok_defs = hub_ok_def index_ok_def users_ok_def topics_ok_def own_topics_def

lemma hub_okD:
  assumes "hub_ok h"
  shows "conn_ok (objs h i)" "topics_ok h i (ctopics (objs h i))"
    "i \<in> htopics h t \<longleftrightarrow> t \<in> ctopics (objs h i)" "replay_ok (hreplay h)"
  using assms by (auto simp: hub_ok_def index_ok_def)

lemma users_ok_cong:
  "conns h' = conns h \<Longrightarrow> users h' = users h \<Longrightarrow> (\<And>j. userID (objs h' j) = userID (objs h j)) \<Longrightarrow>
   users_ok h' = users_ok h"
  by (simp add: users_ok_def held_by_def)

lemma topics_ok_mono:
  assumes "topics_ok h i T" and "T' \<subseteq> T" and "maxSubscriptions h' = maxSubscriptions h"
    and "userID (objs h' i) = userID (objs h i)"
  shows "topics_ok h' i T'"
  using assms by (auto simp: topics_ok_def own_topics_def intro: finite_subset order_trans [OF card_mono])

text \<open>
  A step that changes one object only: it keeps the invariant when the new object has the
  same user, a sound queue and sound topics, and the index follows.
\<close>

lemma hub_ok_object:
  assumes "hub_ok h" and "objs h' = (objs h)(i := c)" and "userID c = userID (objs h i)"
    and "conn_ok c" and "topics_ok h i (ctopics c)"
    and "\<And>t. htopics h' t = (if t \<in> ctopics c then insert i (htopics h t) else htopics h t - {i})"
    and "maxSubscriptions h' = maxSubscriptions h" "conns h' = conns h" "users h' = users h"
    "hreplay h' = hreplay h"
  shows "hub_ok h'"
  unfolding hub_ok_def
proof (intro conjI allI)
  have user: "userID (objs h' j) = userID (objs h j)" for j using assms(2,3) by simp
  show "users_ok h'" using assms user users_ok_cong [of h' h] by (simp add: hub_ok_def)
  show "index_ok h'" using assms(1,2,6) by (auto simp: hub_ok_def index_ok_def)
  show "replay_ok (hreplay h')" using assms by (simp add: hub_ok_def)
  fix j
  show "conn_ok (objs h' j)" using assms(1,2,4) by (simp add: hub_ok_def)
  have "topics_ok h j (ctopics (objs h' j))" using assms(1,2,5) by (auto simp: hub_ok_def)
  then show "topics_ok h' j (ctopics (objs h' j))"
    by (rule topics_ok_mono) (simp_all add: assms(7) user)
qed

lemma hub_ok_set_obj:
  assumes "hub_ok h" and "conn_ok c" and "userID c = userID (objs h i)"
    and "ctopics c = ctopics (objs h i)"
  shows "hub_ok (set_obj i c h)"
  by (rule hub_ok_object [OF assms(1)])
    (use assms hub_okD [OF assms(1)] in \<open>auto simp: set_obj_def\<close>)

lemma hub_ok_counters [simp]:
  "hub_ok (h\<lparr>delivered := a\<rparr>) = hub_ok h" "hub_ok (h\<lparr>published := a\<rparr>) = hub_ok h"
  "hub_ok (h\<lparr>dropped := a\<rparr>) = hub_ok h" "hub_ok (h\<lparr>seq := a\<rparr>) = hub_ok h"
  "hub_ok (h\<lparr>closed := b\<rparr>) = hub_ok h"
  by (simp_all add: hub_ok_defs)

lemma hub_ok_end [chok_inv]: "hub_ok h \<Longrightarrow> hub_ok (end_obj cd rsn i h)"
  unfolding end_obj_def
  by (rule hub_ok_set_obj) (auto intro: conn_ok_end simp: hub_okD)

lemma conn_ok_topics [simp]: "conn_ok (c\<lparr>ctopics := T\<rparr>) = conn_ok c"
  by (simp add: conn_ok_def)

lemma hub_ok_detach_all [chok_inv]:
  assumes "hub_ok h"
  shows "hub_ok (detach_all i h)"
proof (rule hub_ok_object [OF assms])
  let ?c = "(objs h i)\<lparr>ctopics := {}\<rparr>"
  show "objs (detach_all i h) = (objs h)(i := ?c)"
    by (simp add: detach_all_def set_obj_def Let_def)
  show "topics_ok h i (ctopics ?c)"
    by (rule topics_ok_mono [OF hub_okD(2) [OF assms]]) auto
qed (use hub_okD [OF assms] in \<open>auto simp: detach_all_def set_obj_def Let_def\<close>)

lemma hub_ok_detach1 [chok_inv]:
  assumes "hub_ok h"
  shows "hub_ok (detach1 i t h)"
proof (cases "t \<in> ctopics (objs h i)")
  case True
  let ?c = "(objs h i)\<lparr>ctopics := ctopics (objs h i) - {t}\<rparr>"
  show ?thesis
  proof (rule hub_ok_object [OF assms])
    show "objs (detach1 i t h) = (objs h)(i := ?c)"
      using True by (simp add: detach1_def set_obj_def Let_def)
    show "topics_ok h i (ctopics ?c)"
      by (rule topics_ok_mono [OF hub_okD(2) [OF assms]]) auto
  qed (use hub_okD [OF assms] True in \<open>auto simp: detach1_def set_obj_def Let_def\<close>)
qed (simp add: detach1_def assms)

lemma hub_ok_detach [chok_inv]: "hub_ok h \<Longrightarrow> hub_ok (detach i ts h)"
  unfolding detach_def by (induction ts arbitrary: h) (simp_all add: hub_ok_detach1)

lemma hub_ok_drop [chok_inv]: "hub_ok h \<Longrightarrow> hub_ok (dropLocked i h)"
  by (simp add: dropLocked_def hub_ok_end hub_ok_detach_all)

lemma hub_ok_deliver1 [chok_inv]: "hub_ok (fst s) \<Longrightarrow> hub_ok (fst (deliver1 f i s))"
proof -
  obtain h slow where s: "s = (h, slow)" by fastforce
  assume "hub_ok (fst s)"
  then have ok: "hub_ok h" by (simp add: s)
  obtain r c where p: "push f True (objs h i) = (r, c)" by fastforce
  have "hub_ok (set_obj i c h)"
    using p conn_ok_push [OF hub_okD(1) [OF ok], of f True i] push_frame [of f True "objs h i"]
    by (intro hub_ok_set_obj [OF ok]) auto
  with ok p s show ?thesis by (auto simp: deliver1_def hub_ok_drop split: push_result.split)
qed

lemma hub_ok_deliver [chok_inv]: "hub_ok h \<Longrightarrow> hub_ok (fst (deliverLocked f order h))"
proof -
  have "hub_ok (fst s) \<Longrightarrow> hub_ok (fst (fold (deliver1 f) order s))" for s
    by (induction order arbitrary: s) (simp_all add: hub_ok_deliver1)
  then show "hub_ok h \<Longrightarrow> ?thesis" by (simp add: deliverLocked_def)
qed

lemma hub_ok_insert_frame [chok_inv]:
  assumes "hub_ok h"
  obtains h' slow where "insert_frame f order h = Some (h', slow)" and "hub_ok h'"
proof -
  obtain r where r: "add f (hreplay h) = Some r" "replay_ok r"
    using add_ok [OF hub_okD(4) [OF assms]] by blast
  have "hub_ok (h\<lparr>hreplay := r\<rparr>)"
    using assms r(2) by (auto simp: hub_ok_defs)
  from hub_ok_deliver [OF this, of f order] that r(1) show thesis
    by (cases "deliverLocked f order (h\<lparr>hreplay := r\<rparr>)") (simp add: insert_frame_def)
qed

lemma queue_own_conn: "fst (snd (queue_own f s)) = snd (push f False (fst s))"
  by (auto simp: queue_own_def split: prod.split push_result.split)

lemma queue_frames_Cons:
  "snd (queue_frames (f # fs) s) = snd (queue_frames fs (snd (queue_own f s)))"
  by (simp add: Let_def split: prod.split)

lemma queue_frames_frame:
  "conn_ok (fst s) \<Longrightarrow>
   conn_ok (fst (snd (queue_frames fs s))) \<and>
   userID (fst (snd (queue_frames fs s))) = userID (fst s) \<and>
   ctopics (fst (snd (queue_frames fs s))) = ctopics (fst s)"
  by (induction fs arbitrary: s)
    (simp_all add: queue_frames_Cons queue_own_conn conn_ok_push del: queue_frames.simps(2))

lemma hub_ok_queue_frames:
  assumes "hub_ok h" and "queue_frames fs (objs h i, over) = (n, c, over')"
  shows "hub_ok (set_obj i c h)"
  using queue_frames_frame [of "(objs h i, over)" fs] hub_okD(1) [OF assms(1)] assms(2)
  by (intro hub_ok_set_obj [OF assms(1)]) auto

lemma hub_ok_subscribe_all:
  assumes "hub_ok h" and "topics_ok h i (ctopics (objs h i) \<union> set ts)"
  shows "hub_ok (subscribe_all i ts h)"
proof (rule hub_ok_object [OF assms(1)])
  show "objs (subscribe_all i ts h) =
      (objs h)(i := (objs h i)\<lparr>ctopics := ctopics (objs h i) \<union> set ts\<rparr>)"
    by (simp add: subscribe_all_def set_obj_def)
  fix t
  show "htopics (subscribe_all i ts h) t =
    (if t \<in> ctopics ((objs h i)\<lparr>ctopics := ctopics (objs h i) \<union> set ts\<rparr>)
     then insert i (htopics h t) else htopics h t - {i})"
    using hub_okD(3) [OF assms(1)] by (auto simp: subscribe_all_def set_obj_def)
qed (use hub_okD [OF assms(1)] assms(2) in \<open>simp_all add: subscribe_all_def set_obj_def\<close>)

lemma hub_ok_attach [chok_inv]:
  assumes ok: "hub_ok h" and tok: "topics_ok h i (ctopics (objs h i) \<union> set ts)"
  obtains h' where "attach enc encr now i ts refused after h = Some h'" and "hub_ok h'"
proof -
  obtain n1 c1 over1 where q1: "queue_frames
      (map (\<lambda>(t, e). ownEvent enc now t ''refused'' (encr e)) refused) (objs h i, False) = (n1, c1, over1)"
    by (metis prod_cases3)
  define h1 where "h1 = set_obj i c1 h"
  have ok1: "hub_ok h1" unfolding h1_def using hub_ok_queue_frames [OF ok q1] .
  have "ctopics c1 = ctopics (objs h i)" "userID c1 = userID (objs h i)"
    using queue_frames_frame hub_okD(1) [OF ok] q1 by (metis fst_conv snd_conv)+
  then have "topics_ok h1 i (ctopics (objs h1 i) \<union> set ts)"
    using tok by (simp add: h1_def set_obj_def topics_ok_def)
  then have ok2: "hub_ok (subscribe_all i ts h1)" by (rule hub_ok_subscribe_all [OF ok1])
  define h2 where "h2 = subscribe_all i ts h1"
  obtain frames keeps where sn: "since after ts (hreplay h2) = Some (frames, keeps)"
    using since_eq [OF hub_okD(4) [OF ok2]] unfolding h2_def by (metis surj_pair)
  have ok3: "hub_ok (set_obj i (fst (snd (queue_frames fs (objs h2 i, over1)))) h2)" for fs
    using hub_ok_queue_frames [OF ok2 [folded h2_def]] by (metis prod.collapse)
  have "\<exists>over h'. attachLocked enc encr now i ts refused after h = Some (over, h') \<and> hub_ok h'"
    using ok1 ok2 ok3 sn
    by (auto simp: attachLocked_def q1 Let_def h1_def [symmetric] h2_def [symmetric]
        split: prod.split) (metis fst_conv snd_conv)+
  then obtain over h' where "attachLocked enc encr now i ts refused after h = Some (over, h')" "hub_ok h'"
    by blast
  with that hub_ok_drop show thesis by (simp add: attach_def)
qed

lemma hub_ok_disconnect [chok_inv]: "hub_ok h \<Longrightarrow> hub_ok (Disconnect uid order h)"
proof -
  have "hub_ok (disconnect1 uid i g)" if "hub_ok g" for i g
    using that by (simp add: disconnect1_def hub_ok_end hub_ok_detach_all)
  then have "hub_ok h \<Longrightarrow> hub_ok (fold (disconnect1 uid) order h)"
    by (induction order arbitrary: h) simp_all
  then show "hub_ok h \<Longrightarrow> ?thesis" by (simp add: Disconnect_def)
qed

lemma hub_ok_close [chok_inv]: "hub_ok h \<Longrightarrow> hub_ok (Close order h)"
proof -
  have "hub_ok g \<Longrightarrow> hub_ok (fold (end_obj cd rsn) order g)" for g cd rsn
    by (induction order arbitrary: g) (simp_all add: hub_ok_end)
  then show "hub_ok h \<Longrightarrow> ?thesis" by (simp add: Close_def)
qed

lemma hub_ok_conns:
  assumes "hub_ok h" and "users_ok (h\<lparr>conns := C, users := U\<rparr>)"
  shows "hub_ok (h\<lparr>conns := C, users := U\<rparr>)"
  using assms by (simp add: hub_ok_def index_ok_def topics_ok_def)

lemma held_by_insert:
  "finite C \<Longrightarrow> i \<notin> C \<Longrightarrow> held_by (insert i C) ob v = held_by C ob v + (if v = userID (ob i) then 1 else 0)"
proof -
  have "{j \<in> insert i C. userID (ob j) = v} =
      (if v = userID (ob i) then insert i {j \<in> C. userID (ob j) = v} else {j \<in> C. userID (ob j) = v})"
    by auto
  then show "finite C \<Longrightarrow> i \<notin> C \<Longrightarrow> ?thesis" by (simp add: held_by_def)
qed

lemma users_ok_register:
  assumes "users_ok h" and "i \<notin> conns h" and "u = userID (objs h i)"
  shows "users_ok (h\<lparr>conns := insert i (conns h),
    users := (if u \<noteq> [] then (users h)(u \<mapsto> user_count (users h) u + 1) else users h)\<rparr>)"
  using assms by (auto simp: users_ok_def user_count_def held_by_insert)

lemma hub_ok_register [chok_inv]:
  assumes "hub_ok h" and "i \<notin> conns h"
  shows "hub_ok (snd (register i h))"
proof (cases "closed h")
  case False
  let ?u = "userID (objs h i)"
  have "snd (register i h) = h\<lparr>conns := insert i (conns h),
    users := (if ?u \<noteq> [] then (users h)(?u \<mapsto> user_count (users h) ?u + 1) else users h)\<rparr>"
    using False by (simp add: register_def Let_def)
  then show ?thesis
    using hub_ok_conns [OF assms(1)] users_ok_register [OF _ assms(2) refl] assms(1)
    by (simp add: hub_ok_def)
qed (simp add: register_def assms)

lemma users_ok_unregister:
  assumes "users_ok h" and "i \<in> conns h" and "u = userID (objs h i)"
  shows "users_ok (h\<lparr>conns := conns h - {i},
    users := (if u \<noteq> [] then (users h)(u := if user_count (users h) u - 1 \<le> 0 then None
        else Some (user_count (users h) u - 1)) else users h)\<rparr>)"
proof -
  have "held_by (conns h) (objs h) v =
      held_by (conns h - {i}) (objs h) v + (if v = u then 1 else 0)" for v
    using held_by_insert [of "conns h - {i}" i "objs h" v] assms
    by (simp add: users_ok_def insert_absorb)
  with assms(1) show ?thesis by (auto simp: users_ok_def user_count_def)
qed

lemma hub_ok_unregister [chok_inv]:
  assumes "hub_ok h" and "i \<in> conns h"
  shows "hub_ok (unregister i h)"
proof -
  let ?h = "detach_all i h"
  let ?u = "userID (objs ?h i)"
  have ok: "hub_ok ?h" by (rule hub_ok_detach_all [OF assms(1)])
  have i: "i \<in> conns ?h" using assms(2) by (simp add: detach_all_def set_obj_def Let_def)
  have "unregister i h = ?h\<lparr>conns := conns ?h - {i},
    users := (if ?u \<noteq> [] then (users ?h)(?u := if user_count (users ?h) ?u - 1 \<le> 0 then None
        else Some (user_count (users ?h) ?u - 1)) else users ?h)\<rparr>"
    by (simp add: unregister_def Let_def)
  then show ?thesis
    using hub_ok_conns [OF ok] users_ok_unregister [OF _ i refl] ok by (simp add: hub_ok_def)
qed

lemma allowed_own: "allowed auth uid t = None \<Longrightarrow> own_topics uid {t}"
  by (auto simp: allowed_def own_topics_def cut_prefix_def split: if_splits)

lemma check_ok: "check auth uid ts = (ok, refused) \<Longrightarrow>
  t \<in> set ok \<Longrightarrow> t \<in> set ts \<and> allowed auth uid t = None"
  by (induction ts arbitrary: ok refused) (auto simp: Let_def split: prod.splits option.splits)

lemma check_length: "check auth uid ts = (ok, refused) \<Longrightarrow> length ok \<le> length ts"
  by (induction ts arbitrary: ok refused)
    (auto simp: Let_def le_SucI split: prod.splits option.splits)

lemma wsSubscribe_topics_ok:
  assumes "hub_ok h" and "wsSubscribe auth i ts h = Inr (ok, refused)"
  shows "topics_ok h i (ctopics (objs h i) \<union> set ok)"
proof -
  let ?c = "objs h i"
  obtain fr room where fr: "fresh i ts h = (fr, room)" "int (length fr) \<le> room"
    "check auth (userID ?c) fr = (ok, refused)"
    using assms(2) by (auto simp: wsSubscribe_def Let_def split: if_splits prod.splits)
  have "card (ctopics ?c) + length fr \<le> maxSubscriptions h"
    using fr(1,2) by (auto simp: fresh_def)
  moreover have "card (set ok) \<le> length fr"
    using check_length [OF fr(3)] card_length [of ok] by linarith
  ultimately have "card (ctopics ?c \<union> set ok) \<le> maxSubscriptions h"
    using card_Un_le [of "ctopics ?c" "set ok"] by linarith
  moreover have "own_topics (userID ?c) (ctopics ?c \<union> set ok)"
    using hub_okD(2) [OF assms(1), of i] allowed_own check_ok [OF fr(3)]
    unfolding topics_ok_def own_topics_def by (metis Un_iff singletonI)
  ultimately show ?thesis
    using hub_okD(2) [OF assms(1), of i] by (simp add: topics_ok_def)
qed

section \<open>The machine\<close>

text \<open>
  \<open>pending\<close> holds the subscriptions between their checks and their attachment: the
  authorization runs outside the lock, so any other operation may come between, except
  another subscription of the same connection, whose frames one goroutine reads.
\<close>

record hub_sys =
  the_hub :: hub
  pending :: "nat \<rightharpoonup> string list \<times> refusal list"

datatype hub_event =
    ENew nat string string | ERegister nat | EUnregister nat
  | ESubscribe nat "string list" | EAttach nat string | EDetach nat "string list"
  | EPublish string string "bytes option" | EReceive "event option" | EPop nat
  | EEnd nat int string | EDisconnect string | EClose

inductive hub_step ::
  "authorizer \<Rightarrow> (event \<Rightarrow> bytes) \<Rightarrow> (api_error \<Rightarrow> bytes) \<Rightarrow> hub_sys \<Rightarrow> hub_event \<Rightarrow> hub_sys \<Rightarrow> bool"
  for auth enc encr where
  new: "i \<notin> conns (the_hub s) \<Longrightarrow> ctopics (objs (the_hub s) i) = {} \<Longrightarrow> pending s i = None \<Longrightarrow>
     hub_step auth enc encr s (ENew i knd uid)
       (s\<lparr>the_hub := set_obj i (newConn (the_hub s) knd uid) (the_hub s)\<rparr>)"
| register: "i \<notin> conns (the_hub s) \<Longrightarrow>
     hub_step auth enc encr s (ERegister i) (s\<lparr>the_hub := snd (register i (the_hub s))\<rparr>)"
| unregister: "i \<in> conns (the_hub s) \<Longrightarrow>
     hub_step auth enc encr s (EUnregister i) (s\<lparr>the_hub := unregister i (the_hub s)\<rparr>)"
| subscribe: "pending s i = None \<Longrightarrow> wsSubscribe auth i ts (the_hub s) = Inr p \<Longrightarrow>
     hub_step auth enc encr s (ESubscribe i ts) (s\<lparr>pending := (pending s)(i \<mapsto> p)\<rparr>)"
| refuse: "pending s i = None \<Longrightarrow> wsSubscribe auth i ts (the_hub s) = Inl r \<Longrightarrow>
     hub_step auth enc encr s (ESubscribe i ts)
       (s\<lparr>the_hub := end_obj closePolicy rsn i (the_hub s)\<rparr>)"
| attach: "pending s i = Some (ok, refused) \<Longrightarrow>
     attach enc encr now i ok refused after (the_hub s) = Some h' \<Longrightarrow>
     hub_step auth enc encr s (EAttach i after)
       (s\<lparr>the_hub := h', pending := (pending s)(i := None)\<rparr>)"
| detach: "hub_step auth enc encr s (EDetach i ts) (s\<lparr>the_hub := detach i ts (the_hub s)\<rparr>)"
| publish: "distinct order \<Longrightarrow> set order = htopics (the_hub s) topic \<Longrightarrow>
     Publish enc now order topic typ data (the_hub s) = Some (Inr (h', slow)) \<Longrightarrow>
     hub_step auth enc encr s (EPublish topic typ data) (s\<lparr>the_hub := h'\<rparr>)"
| receive: "distinct order \<Longrightarrow> receive enc order ev (the_hub s) = Some h' \<Longrightarrow>
     hub_step auth enc encr s (EReceive ev) (s\<lparr>the_hub := h'\<rparr>)"
| pop: "hub_step auth enc encr s (EPop i)
       (s\<lparr>the_hub := set_obj i (snd (pop (objs (the_hub s) i))) (the_hub s)\<rparr>)"
| end_one: "hub_step auth enc encr s (EEnd i cd rsn) (s\<lparr>the_hub := end_obj cd rsn i (the_hub s)\<rparr>)"
| disconnect: "distinct order \<Longrightarrow> set order = conns (the_hub s) \<Longrightarrow>
     hub_step auth enc encr s (EDisconnect uid) (s\<lparr>the_hub := Disconnect uid order (the_hub s)\<rparr>)"
| close: "distinct order \<Longrightarrow> set order = conns (the_hub s) \<Longrightarrow>
     hub_step auth enc encr s EClose (s\<lparr>the_hub := Close order (the_hub s)\<rparr>)"

definition New :: "nat \<Rightarrow> nat \<Rightarrow> nat \<Rightarrow> string \<Rightarrow> hub" where
  "New sb rp ms org =
     \<lparr>sendBuffer = sb, replaySize = rp, maxSubscriptions = ms, origin = org, seq = 0,
      objs = (\<lambda>_. \<lparr>kind = [], userID = [], limit = sb, cap = sb + rp + 2 * ms, ctopics = {},
                   queue = [], live = 0, ended = False, code = 0, reason = []\<rparr>),
      conns = {}, htopics = (\<lambda>_. {}), users = Map.empty,
      hreplay = newReplay rp, closed = False, published = 0, delivered = 0, dropped = 0\<rparr>"

text \<open>
  What the other operations may do to a connection whose subscription is pending: its
  user and the limit stay, its topics can only shrink.
\<close>

definition shrinks :: "nat set \<Rightarrow> hub \<Rightarrow> hub \<Rightarrow> bool" where
  "shrinks X h h' \<longleftrightarrow> maxSubscriptions h' = maxSubscriptions h \<and>
     (\<forall>j. j \<notin> X \<longrightarrow> userID (objs h' j) = userID (objs h j) \<and> ctopics (objs h' j) \<subseteq> ctopics (objs h j))"

lemma shrinks_refl [simp]: "shrinks X h h"
  by (simp add: shrinks_def)

lemma shrinks_trans: "shrinks X h h1 \<Longrightarrow> shrinks X h1 h2 \<Longrightarrow> shrinks X h h2"
  by (auto simp: shrinks_def)

lemma shrinks_fold: "(\<And>x g. shrinks X g (f x g)) \<Longrightarrow> shrinks X h (fold f xs h)"
  by (induction xs arbitrary: h) (auto intro: shrinks_trans)

lemma shrinks_set_obj: "userID c = userID (objs h i) \<Longrightarrow> ctopics c \<subseteq> ctopics (objs h i) \<Longrightarrow>
  shrinks X h (set_obj i c h)"
  by (auto simp: shrinks_def set_obj_def)

lemma shrinks_end: "shrinks X h (end_obj cd rsn i h)"
  by (simp add: end_obj_def shrinks_set_obj)

lemma shrinks_detach_all: "shrinks X h (detach_all i h)"
  by (auto simp: shrinks_def detach_all_def set_obj_def Let_def)

lemma shrinks_detach: "shrinks X h (detach i ts h)"
  unfolding detach_def
  by (rule shrinks_fold) (auto simp: shrinks_def detach1_def set_obj_def Let_def)

lemma shrinks_drop: "shrinks X h (dropLocked i h)"
  unfolding dropLocked_def
  by (rule shrinks_trans [OF _ shrinks_end]) (auto simp: shrinks_def detach_all_def set_obj_def Let_def)

lemma shrinks_deliver1: "shrinks X h (fst s) \<Longrightarrow> shrinks X h (fst (deliver1 f i s))"
proof -
  obtain g slow where s: "s = (g, slow)" by fastforce
  obtain r c where p: "push f True (objs g i) = (r, c)" by fastforce
  have "shrinks X g (set_obj i c g)"
    using push_frame [of f True "objs g i"] p by (intro shrinks_set_obj) auto
  moreover have "shrinks X g (g'\<lparr>delivered := n\<rparr>) = shrinks X g g'" for g' n by (simp add: shrinks_def)
  ultimately have "shrinks X g (fst (deliver1 f i s))"
    using p shrinks_drop [of X g i] by (auto simp: deliver1_def s split: push_result.split)
  then show "shrinks X h (fst s) \<Longrightarrow> ?thesis" using s by (auto intro: shrinks_trans)
qed

lemma shrinks_deliver: "shrinks X h (fst (deliverLocked f order h))"
proof -
  have "shrinks X h (fst s) \<Longrightarrow> shrinks X h (fst (fold (deliver1 f) order s))" for s
    by (induction order arbitrary: s) (simp_all add: shrinks_deliver1)
  from this [of "(h, [])"] show ?thesis by (simp add: deliverLocked_def)
qed

lemma shrinks_insert_frame: "insert_frame f order h = Some (h', slow) \<Longrightarrow> shrinks X h h'"
proof -
  assume "insert_frame f order h = Some (h', slow)"
  then obtain r where "deliverLocked f order (h\<lparr>hreplay := r\<rparr>) = (h', slow)"
    by (auto simp: insert_frame_def)
  then have "shrinks X (h\<lparr>hreplay := r\<rparr>) h'" using shrinks_deliver by (metis fst_conv)
  then show ?thesis by (simp add: shrinks_def)
qed

lemma shrinks_own:
  "shrinks {i} h (set_obj i c g) = shrinks {i} h g"
  "shrinks {i} h (subscribe_all i ts g) = shrinks {i} h g"
  "shrinks {i} h (g\<lparr>delivered := n\<rparr>) = shrinks {i} h g"
  by (simp_all add: shrinks_def set_obj_def subscribe_all_def)

text \<open>The four ways \<open>attachLocked\<close> ends.\<close>

lemma attachLocked_cases:
  assumes "attachLocked enc encr now i ts refused after h = Some (over, g)"
  obtains (none) c1 where "ts = []" "g = set_obj i c1 h"
  | (plain) c1 where "g = subscribe_all i ts (set_obj i c1 h)"
  | (reset) c1 c3 where "g = set_obj i c3 (subscribe_all i ts (set_obj i c1 h))"
  | (resume) c1 c3 n where "g = (set_obj i c3 (subscribe_all i ts (set_obj i c1 h)))\<lparr>delivered := n\<rparr>"
proof -
  obtain n1 c1 over1 where q1: "queue_frames
      (map (\<lambda>(t, e). ownEvent enc now t ''refused'' (encr e)) refused) (objs h i, False) = (n1, c1, over1)"
    by (metis prod_cases3)
  define h2 where "h2 = subscribe_all i ts (set_obj i c1 h)"
  note unf = assms [unfolded attachLocked_def q1, simplified Let_def prod.case, folded h2_def]
  show thesis
  proof (cases "ts = [] \<or> after = []")
    case True
    with unf none plain h2_def show thesis by (auto split: if_splits)
  next
    case False
    with unf obtain frames keeps where sn: "since after ts (hreplay h2) = Some (frames, keeps)"
      by (auto split: option.splits)
    show thesis
    proof (cases keeps)
      case True
      with unf False sn obtain n c3 over3 where "queue_frames frames (objs h2 i, over1) = (n, c3, over3)"
        "g = (set_obj i c3 h2)\<lparr>delivered := delivered h2 + n\<rparr>"
        by (auto split: prod.splits)
      with resume h2_def show thesis by blast
    next
      case False2: False
      with unf False sn obtain n c3 over3 where
        "queue_frames (map (\<lambda>t. ownEvent enc now t ''reset'' []) ts) (objs h2 i, over1) = (n, c3, over3)"
        "g = set_obj i c3 h2"
        by (auto split: prod.splits)
      with reset h2_def show thesis by blast
    qed
  qed
qed

lemma shrinks_attach:
  assumes "attach enc encr now i ts refused after h = Some h'"
  shows "shrinks {i} h h'"
proof -
  obtain over g where g: "attachLocked enc encr now i ts refused after h = Some (over, g)"
    and h': "h' = (if over then dropLocked i g else g)"
    using assms by (auto simp: attach_def)
  have "shrinks {i} h g"
    by (rule attachLocked_cases [OF g]) (simp_all only: shrinks_own shrinks_refl)
  with shrinks_trans [OF this shrinks_drop] show ?thesis by (simp add: h')
qed

text \<open>
  The bounds of every connection are those of the configuration, and no operation
  changes them.
\<close>

definition same_caps :: "hub \<Rightarrow> hub \<Rightarrow> bool" where
  "same_caps h h' \<longleftrightarrow> sendBuffer h' = sendBuffer h \<and> replaySize h' = replaySize h \<and>
     maxSubscriptions h' = maxSubscriptions h \<and>
     (\<forall>j. cap (objs h' j) = cap (objs h j) \<and> limit (objs h' j) = limit (objs h j))"

lemma same_caps_refl [simp]: "same_caps h h"
  by (simp add: same_caps_def)

lemma same_caps_trans: "same_caps h h1 \<Longrightarrow> same_caps h1 h2 \<Longrightarrow> same_caps h h2"
  by (simp add: same_caps_def)

lemma same_caps_fold: "(\<And>x g. same_caps g (f x g)) \<Longrightarrow> same_caps h (fold f xs h)"
  by (induction xs arbitrary: h) (auto intro: same_caps_trans)

lemma same_caps_set_obj: "cap c = cap (objs h i) \<Longrightarrow> limit c = limit (objs h i) \<Longrightarrow>
  same_caps h (set_obj i c h)"
  by (simp add: same_caps_def set_obj_def)

lemma same_caps_end: "same_caps h (end_obj cd rsn i h)"
  by (simp add: end_obj_def same_caps_set_obj)

lemma same_caps_detach_all: "same_caps h (detach_all i h)"
  by (simp add: same_caps_def detach_all_def set_obj_def Let_def)

lemma same_caps_detach: "same_caps h (detach i ts h)"
  unfolding detach_def
  by (rule same_caps_fold) (simp add: same_caps_def detach1_def set_obj_def Let_def)

lemma same_caps_drop: "same_caps h (dropLocked i h)"
  unfolding dropLocked_def
  by (rule same_caps_trans [OF _ same_caps_end]) (simp add: same_caps_def detach_all_def set_obj_def Let_def)

lemma same_caps_deliver1: "same_caps h (fst s) \<Longrightarrow> same_caps h (fst (deliver1 f i s))"
proof -
  obtain g slow where s: "s = (g, slow)" by fastforce
  obtain r c where p: "push f True (objs g i) = (r, c)" by fastforce
  have "same_caps g (set_obj i c g)"
    using push_frame [of f True "objs g i"] p by (intro same_caps_set_obj) auto
  moreover have "same_caps g (g'\<lparr>delivered := n\<rparr>) = same_caps g g'" for g' n by (simp add: same_caps_def)
  ultimately have "same_caps g (fst (deliver1 f i s))"
    using p same_caps_drop [of g i] by (auto simp: deliver1_def s split: push_result.split)
  then show "same_caps h (fst s) \<Longrightarrow> ?thesis" using s by (auto intro: same_caps_trans)
qed

lemma same_caps_insert_frame: "insert_frame f order h = Some (h', slow) \<Longrightarrow> same_caps h h'"
proof -
  assume "insert_frame f order h = Some (h', slow)"
  then obtain r where "fold (deliver1 f) order (h\<lparr>hreplay := r\<rparr>, []) = (h', slow)"
    by (auto simp: insert_frame_def deliverLocked_def)
  moreover have "same_caps g (fst s) \<Longrightarrow> same_caps g (fst (fold (deliver1 f) order s))" for g s
    by (induction order arbitrary: s) (simp_all add: same_caps_deliver1)
  ultimately have "same_caps (h\<lparr>hreplay := r\<rparr>) h'"
    using same_caps_refl by (metis fst_conv)
  then show ?thesis by (simp add: same_caps_def)
qed

lemma queue_frames_caps:
  "cap (fst (snd (queue_frames fs s))) = cap (fst s) \<and>
   limit (fst (snd (queue_frames fs s))) = limit (fst s)"
  by (induction fs arbitrary: s)
    (simp_all add: queue_frames_Cons queue_own_conn del: queue_frames.simps(2))

text \<open>The frames \<open>attachLocked\<close> queues, in order.\<close>

definition refused_frames ::
  "(event \<Rightarrow> bytes) \<Rightarrow> (api_error \<Rightarrow> bytes) \<Rightarrow> instant \<Rightarrow> refusal list \<Rightarrow> frame list" where
  "refused_frames enc encr now refused =
     map (\<lambda>(t, e). ownEvent enc now t ''refused'' (encr e)) refused"

definition resume_frames ::
  "(event \<Rightarrow> bytes) \<Rightarrow> instant \<Rightarrow> string list \<Rightarrow> string \<Rightarrow> frame list \<Rightarrow> frame list" where
  "resume_frames enc now ts after log =
     (if ts = [] \<or> after = [] then []
      else if after \<in> fid ` set log
      then filter (\<lambda>f. ftopic f \<in> set ts) (after_last after log)
      else map (\<lambda>t. ownEvent enc now t ''reset'' []) ts)"

lemma attachLocked_eq:
  assumes "hub_ok h"
  shows "\<exists>n. attachLocked enc encr now i ts refused after h =
    (let s1 = snd (queue_frames (refused_frames enc encr now refused) (objs h i, False));
         h2 = (if ts = [] then set_obj i (fst s1) h else subscribe_all i ts (set_obj i (fst s1) h));
         s3 = snd (queue_frames (resume_frames enc now ts after (kept (hreplay h))) (objs h2 i, snd s1))
     in Some (snd s3, (set_obj i (fst s3) h2)\<lparr>delivered := n\<rparr>))"
proof -
  obtain n1 c1 over1 where q1: "queue_frames (refused_frames enc encr now refused) (objs h i, False) =
      (n1, c1, over1)"
    by (metis prod_cases3)
  have rp: "hreplay (subscribe_all i ts (set_obj i c h)) = hreplay h" for c
    by (simp add: subscribe_all_def set_obj_def)
  have id: "set_obj i (objs g i) g = g" for g by (simp add: set_obj_def)
  have dl: "(set_obj i c h)\<lparr>delivered := delivered h\<rparr> = set_obj i c h"
    "(subscribe_all i ts (set_obj i c h))\<lparr>delivered := delivered h\<rparr> = subscribe_all i ts (set_obj i c h)"
    for c by (cases h; simp add: subscribe_all_def set_obj_def)+
  show ?thesis
  proof (cases "ts = [] \<or> after = []")
    case True
    then show ?thesis
      unfolding attachLocked_def refused_frames_def [symmetric] q1
      by (intro exI [of _ "delivered h"]) (auto simp: Let_def resume_frames_def id dl)
  next
    case False
    define h2 where "h2 = subscribe_all i ts (set_obj i c1 h)"
    define fs where "fs = resume_frames enc now ts after (kept (hreplay h))"
    obtain n3 c3 over3 where q3: "queue_frames fs (objs h2 i, over1) = (n3, c3, over3)"
      by (metis prod_cases3)
    have sn: "since after ts (hreplay h2) = Some
      (if after \<in> fid ` set (kept (hreplay h)) then (fs, True) else ([], False))"
      using since_eq [OF hub_okD(4) [OF assms], of after ts] False
      by (simp add: h2_def rp fs_def resume_frames_def)
    have reset: "after \<notin> fid ` set (kept (hreplay h)) \<Longrightarrow>
        fs = map (\<lambda>t. ownEvent enc now t ''reset'' []) ts"
      using False by (simp add: fs_def resume_frames_def)
    have d3: "(set_obj i c3 h2)\<lparr>delivered := delivered h2\<rparr> = set_obj i c3 h2"
      by (cases h2) (simp add: set_obj_def)
    have "attachLocked enc encr now i ts refused after h =
      Some (over3, (set_obj i c3 h2)\<lparr>delivered :=
        (if after \<in> fid ` set (kept (hreplay h)) then delivered h2 + n3 else delivered h2)\<rparr>)"
      using False sn q3 reset d3
      unfolding attachLocked_def refused_frames_def [symmetric] q1
      by (auto simp: Let_def h2_def [symmetric])
    with False q1 q3 show ?thesis
      by (auto simp: Let_def h2_def [symmetric] fs_def [symmetric])
  qed
qed

lemma same_caps_attach:
  assumes "hub_ok h" and "attach enc encr now i ts refused after h = Some h'"
  shows "same_caps h h'"
proof -
  define s1 where "s1 = snd (queue_frames (refused_frames enc encr now refused) (objs h i, False))"
  define h2 where "h2 = (if ts = [] then set_obj i (fst s1) h else subscribe_all i ts (set_obj i (fst s1) h))"
  define s3 where "s3 = snd (queue_frames (resume_frames enc now ts after (kept (hreplay h))) (objs h2 i, snd s1))"
  obtain n where "attachLocked enc encr now i ts refused after h =
      Some (snd s3, (set_obj i (fst s3) h2)\<lparr>delivered := n\<rparr>)"
    using attachLocked_eq [OF assms(1), of enc encr now i ts refused after]
    by (auto simp: Let_def s1_def [symmetric] h2_def [symmetric] s3_def [symmetric])
  then have h': "h' = (if snd s3 then dropLocked i ((set_obj i (fst s3) h2)\<lparr>delivered := n\<rparr>)
      else (set_obj i (fst s3) h2)\<lparr>delivered := n\<rparr>)"
    using assms(2) by (simp add: attach_def)
  have "same_caps h (set_obj i (fst s1) h)"
    using queue_frames_caps by (intro same_caps_set_obj) (simp_all add: s1_def)
  moreover have "same_caps g (subscribe_all i ts g)" for g
    by (simp add: same_caps_def subscribe_all_def set_obj_def)
  ultimately have "same_caps h h2" unfolding h2_def by (auto intro: same_caps_trans)
  moreover have "same_caps h2 (set_obj i (fst s3) h2)"
    using queue_frames_caps by (intro same_caps_set_obj) (simp_all add: s3_def)
  ultimately have "same_caps h ((set_obj i (fst s3) h2)\<lparr>delivered := n\<rparr>)"
    by (simp add: same_caps_def)
  then show ?thesis using h' same_caps_drop same_caps_trans by (metis (full_types))
qed

definition caps_ok :: "nat \<Rightarrow> nat \<Rightarrow> nat \<Rightarrow> hub \<Rightarrow> bool" where
  "caps_ok sb rp ms h \<longleftrightarrow>
     sendBuffer h = sb \<and> replaySize h = rp \<and> maxSubscriptions h = ms \<and>
     (\<forall>i. cap (objs h i) = sb + rp + 2 * ms \<and> limit (objs h i) = sb)"

lemma caps_ok_same: "caps_ok sb rp ms h \<Longrightarrow> same_caps h h' \<Longrightarrow> caps_ok sb rp ms h'"
  by (simp add: caps_ok_def same_caps_def)

lemma caps_ok_step:
  assumes "caps_ok sb rp ms (the_hub s)" and "hub_ok (the_hub s)" and "hub_step auth enc encr s e s'"
  shows "caps_ok sb rp ms (the_hub s')"
  using assms(3)
proof cases
  case (new i knd uid)
  then show ?thesis using assms(1) by (simp add: caps_ok_def set_obj_def newConn_def)
next
  case (register i)
  then show ?thesis using assms(1) by (simp add: caps_ok_def register_def Let_def)
next
  case (unregister i)
  then show ?thesis
    using caps_ok_same [OF assms(1) same_caps_detach_all, of i]
    by (simp add: caps_ok_def unregister_def Let_def)
next
  case (attach i ok refused now after h')
  with caps_ok_same [OF assms(1) same_caps_attach [OF assms(2)]] show ?thesis by simp
next
  case (publish order topic now ty data h' slow)
  let ?h = "the_hub s"
  obtain f h2 where i: "insert_frame f order (?h\<lparr>seq := seq ?h + 1\<rparr>) = Some (h2, slow)"
    and h': "h' = h2\<lparr>published := published h2 + 1\<rparr>"
    using publish(5) by (auto simp: Publish_def Let_def split: if_splits option.splits)
  with same_caps_insert_frame [OF i] publish assms(1) show ?thesis
    by (simp add: caps_ok_def same_caps_def)
next
  case (receive order ev h')
  have "same_caps (the_hub s) h'"
    using receive(4) by (auto simp: receive_def intro: same_caps_insert_frame
        split: option.splits prod.splits if_splits)
  with caps_ok_same [OF assms(1)] receive show ?thesis by simp
next
  case (disconnect order uid)
  have "same_caps h (disconnect1 uid i h)" for i h
    using same_caps_trans [OF same_caps_detach_all same_caps_end] by (simp add: disconnect1_def)
  then show ?thesis
    using disconnect caps_ok_same [OF assms(1)] by (simp add: Disconnect_def same_caps_fold)
next
  case (close order)
  have "same_caps (the_hub s) (Close order (the_hub s))"
  proof (cases "closed (the_hub s)")
    case False
    have "same_caps ((the_hub s)\<lparr>closed := True\<rparr>) (Close order (the_hub s))"
      using False by (simp add: Close_def same_caps_fold same_caps_end)
    then show ?thesis by (simp add: same_caps_def)
  qed (simp add: Close_def)
  then show ?thesis using close caps_ok_same [OF assms(1)] by simp
qed (use assms(1) in \<open>auto intro!: caps_ok_same [OF assms(1)] same_caps_end same_caps_detach same_caps_set_obj\<close>)

definition sys_ok :: "hub_sys \<Rightarrow> bool" where
  "sys_ok s \<longleftrightarrow> hub_ok (the_hub s) \<and>
     (\<forall>i ok refused. pending s i = Some (ok, refused) \<longrightarrow>
        topics_ok (the_hub s) i (ctopics (objs (the_hub s) i) \<union> set ok))"

lemma sys_ok_shrinks:
  assumes "sys_ok s" and "hub_ok h'" and "shrinks X (the_hub s) h'"
    and "\<And>i. i \<in> X \<Longrightarrow> p i = None" and "p \<subseteq>\<^sub>m pending s"
  shows "sys_ok (s\<lparr>the_hub := h', pending := p\<rparr>)"
  unfolding sys_ok_def
proof (intro conjI allI impI)
  fix i ok refused
  assume "pending (s\<lparr>the_hub := h', pending := p\<rparr>) i = Some (ok, refused)"
  then have p: "p i = Some (ok, refused)" by simp
  then have "pending s i = Some (ok, refused)" and "i \<notin> X"
    using assms(4,5) by (auto simp: map_le_def dom_def)
  then have "topics_ok (the_hub s) i (ctopics (objs (the_hub s) i) \<union> set ok)"
    using assms(1) by (simp add: sys_ok_def)
  then show "topics_ok (the_hub (s\<lparr>the_hub := h', pending := p\<rparr>)) i
      (ctopics (objs (the_hub (s\<lparr>the_hub := h', pending := p\<rparr>)) i) \<union> set ok)"
    by (rule topics_ok_mono) (use assms(3) \<open>i \<notin> X\<close> in \<open>auto simp: shrinks_def\<close>)
qed (simp add: assms(2))

lemma sys_ok_hub:
  "sys_ok s \<Longrightarrow> hub_ok h' \<Longrightarrow> shrinks {} (the_hub s) h' \<Longrightarrow> sys_ok (s\<lparr>the_hub := h'\<rparr>)"
  using sys_ok_shrinks [of s h' "{}" "pending s"] by simp

lemma sys_ok_step:
  assumes "sys_ok s" and "hub_step auth enc encr s e s'"
  shows "sys_ok s'"
proof -
  have hok: "hub_ok (the_hub s)" using assms(1) by (simp add: sys_ok_def)
  show ?thesis
    using assms(2)
proof cases
  case (new i knd uid)
  let ?h = "the_hub s" and ?c = "newConn (the_hub s) knd uid"
  note ok = hok
  have "hub_ok (set_obj i ?c ?h)"
    unfolding hub_ok_def
  proof (intro conjI allI)
    show "index_ok (set_obj i ?c ?h)"
      using ok new(4) by (auto simp: hub_ok_def index_ok_def set_obj_def newConn_def)
    have "held_by (conns ?h) ((objs ?h)(i := ?c)) u = held_by (conns ?h) (objs ?h) u" for u
      using new(3) unfolding held_by_def by (intro arg_cong [where f = card]) auto
    then show "users_ok (set_obj i ?c ?h)"
      using ok by (simp add: hub_ok_def users_ok_def set_obj_def)
  qed (use ok in \<open>auto simp: hub_ok_def set_obj_def newConn_def conn_ok_def topics_ok_def own_topics_def\<close>)
  moreover have "shrinks {i} ?h (set_obj i ?c ?h)" by (simp add: shrinks_own)
  ultimately show ?thesis
    using sys_ok_shrinks [OF assms(1), of _ "{i}" "pending s"] new by simp
next
  case (register i)
  have "shrinks {} (the_hub s) (snd (register i (the_hub s)))"
    by (simp add: shrinks_def register_def Let_def)
  then show ?thesis
    using assms(1) register hub_ok_register hok by (simp add: sys_ok_hub)
next
  case (unregister i)
  have "shrinks {} (the_hub s) (unregister i (the_hub s))"
    using shrinks_detach_all [of "{}" "the_hub s" i] by (simp add: shrinks_def unregister_def Let_def)
  then show ?thesis
    using assms(1) unregister hub_ok_unregister hok by (simp add: sys_ok_hub)
next
  case (subscribe i ts p)
  then show ?thesis
    using assms(1) wsSubscribe_topics_ok [of "the_hub s" auth i ts "fst p" "snd p"]
    by (auto simp: sys_ok_def)
next
  case (attach i ok refused now after h')
  have t: "topics_ok (the_hub s) i (ctopics (objs (the_hub s) i) \<union> set ok)" and "hub_ok (the_hub s)"
    using assms(1) attach(3) by (auto simp: sys_ok_def)
  then have "hub_ok h'" using hub_ok_attach attach(4) by (metis option.inject)
  then show ?thesis
    using sys_ok_shrinks [OF assms(1) _ shrinks_attach [OF attach(4)], of "(pending s)(i := None)"] attach
    by (simp add: map_le_def)
next
  case (publish order topic now ty data h' slow)
  let ?h = "the_hub s"
  obtain f h2 where i: "insert_frame f order (?h\<lparr>seq := seq ?h + 1\<rparr>) = Some (h2, slow)"
    and h': "h' = h2\<lparr>published := published h2 + 1\<rparr>"
    using publish(5) by (auto simp: Publish_def Let_def split: if_splits option.splits)
  have "hub_ok h2"
    using hub_ok_insert_frame [of "?h\<lparr>seq := seq ?h + 1\<rparr>" f order] assms(1) i
    by (auto simp: sys_ok_def)
  moreover have "shrinks {} ?h h'"
    using shrinks_insert_frame [OF i, of "{}"] by (simp add: shrinks_def h')
  ultimately show ?thesis using publish assms(1) h' by (simp add: sys_ok_hub)
next
  case (receive order ev h')
  have "hub_ok h' \<and> shrinks {} (the_hub s) h'"
  proof (cases "h' = the_hub s")
    case False
    then obtain f h2 slow where i: "insert_frame f order (the_hub s) = Some (h2, slow)" "h' = h2"
      using receive(4) by (auto simp: receive_def split: option.splits prod.splits if_splits)
    then show ?thesis
      using hub_ok_insert_frame [of "the_hub s" f order] assms(1) shrinks_insert_frame [OF i(1)]
      by (auto simp: sys_ok_def)
  qed (use assms(1) in \<open>simp add: sys_ok_def\<close>)
  then show ?thesis using receive assms(1) by (simp add: sys_ok_hub)
next
  case (pop i)
  then show ?thesis
    using assms(1) hub_okD(1) [OF hok, of i] hok
    by (simp add: sys_ok_hub shrinks_set_obj hub_ok_set_obj conn_ok_pop)
next
  case (disconnect order uid)
  have "shrinks {} h (disconnect1 uid i h)" for i h
    using shrinks_trans [OF shrinks_detach_all shrinks_end] by (simp add: disconnect1_def)
  then have "shrinks {} (the_hub s) (Disconnect uid order (the_hub s))"
    by (simp add: Disconnect_def shrinks_fold)
  then show ?thesis using disconnect assms(1) hub_ok_disconnect hok by (simp add: sys_ok_hub)
next
  case (close order)
  have "shrinks {} (h\<lparr>closed := True\<rparr>) h' \<Longrightarrow> shrinks {} h h'" for h h' by (simp add: shrinks_def)
  then have "shrinks {} (the_hub s) (Close order (the_hub s))"
    by (simp add: Close_def shrinks_fold shrinks_end)
  then show ?thesis using close assms(1) hub_ok_close hok by (simp add: sys_ok_hub)
qed (use assms(1) hok in \<open>simp_all add: shrinks_end shrinks_detach hub_ok_end hub_ok_detach
      sys_ok_hub\<close>)
qed

definition hub_start :: "nat \<Rightarrow> nat \<Rightarrow> nat \<Rightarrow> string \<Rightarrow> hub_sys \<Rightarrow> bool" where
  "hub_start sb rp ms org s \<longleftrightarrow> the_hub s = New sb rp ms org \<and> pending s = Map.empty"

lemma sys_ok_start: "hub_start sb rp ms org s \<Longrightarrow> sys_ok s"
  by (auto simp: hub_start_def sys_ok_def hub_ok_defs New_def replay_ok_new held_by_def conn_ok_def)

lemma config_step:
  "hub_step auth enc encr s e s' \<Longrightarrow> sys_ok s \<Longrightarrow>
   caps_ok sb rp ms (the_hub s) \<Longrightarrow> caps_ok sb rp ms (the_hub s')"
  using caps_ok_step by (auto simp: sys_ok_def)

interpretation hubs: guarded_component "hub_start sb rp ms org" "hub_step auth enc encr"
  "\<lambda>s. sys_ok s \<and> caps_ok sb rp ms (the_hub s)"
proof unfold_locales
  show "sys_ok s \<and> caps_ok sb rp ms (the_hub s)" if "hub_start sb rp ms org s" for s
    using that sys_ok_start [OF that] by (simp add: hub_start_def caps_ok_def New_def)
  show "sys_ok s' \<and> caps_ok sb rp ms (the_hub s')"
    if "sys_ok s \<and> caps_ok sb rp ms (the_hub s)" and "hub_step auth enc encr s e s'" for s e s'
    using that sys_ok_step config_step by blast
qed

section \<open>Delivery\<close>

text \<open>What delivering a frame does to one subscribed connection.\<close>

definition deliver_conn :: "frame \<Rightarrow> conn \<Rightarrow> conn" where
  "deliver_conn f c =
     (if ended c then c
      else if live c \<ge> limit c \<or> length (queue c) \<ge> cap c
      then c\<lparr>ctopics := {}, ended := True, code := closeSlow, reason := ''slow consumer'', queue := []\<rparr>
      else c\<lparr>queue := queue c @ [(f, True)], live := live c + 1\<rparr>)"

lemma objs_deliver1:
  "objs (fst (deliver1 f i s)) = (objs (fst s))(i := deliver_conn f (objs (fst s) i))"
  by (cases s)
    (auto simp: deliver1_def deliver_conn_def push_def dropLocked_def end_obj_def end_conn_def
      detach_all_def set_obj_def Let_def fun_eq_iff)

lemma objs_fold_deliver:
  "distinct order \<Longrightarrow>
   objs (fst (fold (deliver1 f) order s)) j =
     (if j \<in> set order then deliver_conn f (objs (fst s) j) else objs (fst s) j)"
  by (induction order arbitrary: s) (auto simp: objs_deliver1)

lemma objs_insert_frame:
  assumes "hub_ok h" and "distinct order" and "set order = htopics h (ftopic f)"
    and "insert_frame f order h = Some (h', slow)"
  shows "objs h' j = (if ftopic f \<in> ctopics (objs h j) then deliver_conn f (objs h j) else objs h j)"
proof -
  obtain r where r: "deliverLocked f order (h\<lparr>hreplay := r\<rparr>) = (h', slow)"
    using assms(4) by (auto simp: insert_frame_def)
  have "objs h' j = (if j \<in> set order then deliver_conn f (objs h j) else objs h j)"
    using objs_fold_deliver [OF assms(2), of f "(h\<lparr>hreplay := r\<rparr>, [])" j] r
    by (simp add: deliverLocked_def)
  then show ?thesis using assms(3) hub_okD(3) [OF assms(1)] by simp
qed

text \<open>The replay buffer after a frame is inserted: delivering does not touch it.\<close>

lemma hreplay_deliver1: "hreplay (fst (deliver1 f i s)) = hreplay (fst s)"
  by (cases s)
    (auto simp: deliver1_def dropLocked_def end_obj_def detach_all_def set_obj_def Let_def
      split: prod.split push_result.split)

lemma hreplay_fold_deliver: "hreplay (fst (fold (deliver1 f) order s)) = hreplay (fst s)"
  by (induction order arbitrary: s) (simp_all add: hreplay_deliver1)

section \<open>Resuming without a gap\<close>

text \<open>A sequence of frames inserted one after the other, each with the iteration order it meets.\<close>

fun insert_frames :: "(frame \<times> nat list) list \<Rightarrow> hub \<Rightarrow> hub option" where
  "insert_frames [] h = Some h"
| "insert_frames ((f, order) # fs) h =
     (case insert_frame f order h of None \<Rightarrow> None | Some (h', slow) \<Rightarrow> insert_frames fs h')"

fun orders_ok :: "(frame \<times> nat list) list \<Rightarrow> hub \<Rightarrow> bool" where
  "orders_ok [] h = True"
| "orders_ok ((f, order) # fs) h =
     (distinct order \<and> set order = htopics h (ftopic f) \<and>
      (case insert_frame f order h of None \<Rightarrow> True | Some (h', slow) \<Rightarrow> orders_ok fs h'))"

lemma deliver_conn_ended: "ended c \<Longrightarrow> deliver_conn f c = c"
  by (simp add: deliver_conn_def)

lemma deliver_conn_alive:
  "\<not> ended (deliver_conn f c) \<Longrightarrow> \<not> ended c \<and> ctopics (deliver_conn f c) = ctopics c \<and>
     queue (deliver_conn f c) = queue c @ [(f, True)]"
  by (auto simp: deliver_conn_def split: if_splits)

lemma insert_frames_alive:
  assumes "hub_ok h" and "orders_ok fs h" and "insert_frames fs h = Some h'"
    and "\<not> ended (objs h' i)"
  shows "\<not> ended (objs h i) \<and>
    queue (objs h' i) = queue (objs h i) @
      map (\<lambda>f. (f, True)) (filter (\<lambda>f. ftopic f \<in> ctopics (objs h i)) (map fst fs))"
  using assms
proof (induction fs arbitrary: h)
  case (Cons x fs)
  obtain f order where x: "x = (f, order)" by fastforce
  obtain h1 slow where ins: "insert_frame f order h = Some (h1, slow)"
    using Cons.prems(3) by (auto simp: x split: option.splits)
  have ok1: "hub_ok h1" using hub_ok_insert_frame [OF Cons.prems(1), of f order] ins by auto
  have ord: "distinct order" "set order = htopics h (ftopic f)" "orders_ok fs h1"
    using Cons.prems(2) ins by (simp_all add: x)
  have "insert_frames fs h1 = Some h'" using Cons.prems(3) ins by (simp add: x)
  note IH = Cons.IH [OF ok1 ord(3) this Cons.prems(4)]
  note obj = objs_insert_frame [OF Cons.prems(1) ord(1,2) ins, of i]
  show ?case
  proof (cases "ftopic f \<in> ctopics (objs h i)")
    case True
    then have d: "objs h1 i = deliver_conn f (objs h i)" using obj by simp
    with IH deliver_conn_alive [of f "objs h i"] True show ?thesis by (simp add: x)
  qed (use IH obj in \<open>simp add: x\<close>)
qed simp

lemma queue_own_alive:
  assumes "\<not> snd (snd (queue_own f s))" and "\<not> ended (fst s)"
  shows "\<not> snd s" and "queue (fst (snd (queue_own f s))) = queue (fst s) @ [(f, False)]"
    and "\<not> ended (fst (snd (queue_own f s)))"
  using assms by (auto simp: queue_own_def push_def split: prod.splits if_splits)

lemma queue_frames_alive:
  "\<not> snd (snd (queue_frames fs s)) \<Longrightarrow> \<not> ended (fst s) \<Longrightarrow>
   \<not> snd s \<and> queue (fst (snd (queue_frames fs s))) = queue (fst s) @ map (\<lambda>f. (f, False)) fs \<and>
   \<not> ended (fst (snd (queue_frames fs s)))"
proof (induction fs arbitrary: s)
  case (Cons f fs)
  have e: "ended (fst (snd (queue_own f s))) = ended (fst s)"
    by (simp add: queue_own_conn)
  note IH = Cons.IH [of "snd (queue_own f s)"]
  with Cons.prems e have "\<not> snd (snd (queue_own f s))"
    by (simp add: queue_frames_Cons del: queue_frames.simps)
  with IH Cons.prems e queue_own_alive [of f s] show ?case
    by (simp add: queue_frames_Cons del: queue_frames.simps)
qed simp

lemma queue_frames_ended: "ended (fst (snd (queue_frames fs s))) = ended (fst s)"
  by (induction fs arbitrary: s)
    (simp_all add: queue_frames_Cons queue_own_conn del: queue_frames.simps(2))

lemma attach_alive:
  assumes "hub_ok h" and "attach enc encr now i ts refused after h = Some h'"
    and "\<not> ended (objs h' i)"
  shows "\<not> ended (objs h i) \<and> ctopics (objs h' i) = ctopics (objs h i) \<union> set ts \<and>
    hreplay h' = hreplay h \<and>
    queue (objs h' i) = queue (objs h i) @ map (\<lambda>f. (f, False))
      (refused_frames enc encr now refused @ resume_frames enc now ts after (kept (hreplay h)))"
proof -
  define s1 where "s1 = snd (queue_frames (refused_frames enc encr now refused) (objs h i, False))"
  define h2 where "h2 = (if ts = [] then set_obj i (fst s1) h else subscribe_all i ts (set_obj i (fst s1) h))"
  define s3 where "s3 = snd (queue_frames (resume_frames enc now ts after (kept (hreplay h))) (objs h2 i, snd s1))"
  obtain n where "attachLocked enc encr now i ts refused after h =
      Some (snd s3, (set_obj i (fst s3) h2)\<lparr>delivered := n\<rparr>)"
    using attachLocked_eq [OF assms(1), of enc encr now i ts refused after]
    by (auto simp: Let_def s1_def [symmetric] h2_def [symmetric] s3_def [symmetric])
  then have h': "h' = (if snd s3 then dropLocked i ((set_obj i (fst s3) h2)\<lparr>delivered := n\<rparr>)
      else (set_obj i (fst s3) h2)\<lparr>delivered := n\<rparr>)"
    using assms(2) by (simp add: attach_def)
  have "ended (objs (dropLocked i g) i)" for g by (simp add: dropLocked_def end_obj_def set_obj_def)
  with h' assms(3) have ok: "\<not> snd s3" and o: "objs h' i = fst s3" by (auto simp: set_obj_def)
  have o2: "objs h2 i = (fst s1)\<lparr>ctopics := ctopics (fst s1) \<union> set ts\<rparr>"
    by (simp add: h2_def subscribe_all_def set_obj_def)
  have e3: "ended (fst s3) = ended (fst s1)" unfolding s3_def by (simp add: queue_frames_ended o2)
  have e1: "ended (fst s1) = ended (objs h i)" unfolding s1_def by (simp add: queue_frames_ended)
  have alive: "\<not> ended (objs h i)" using assms(3) o e1 e3 by simp
  have "ended (objs h2 i) = ended (objs h i)" "queue (objs h2 i) = queue (fst s1)"
    by (simp_all add: o2 e1)
  then have q3: "\<not> snd s1 \<and> queue (fst s3) = queue (fst s1) @ map (\<lambda>f. (f, False))
      (resume_frames enc now ts after (kept (hreplay h)))"
    using queue_frames_alive [of "resume_frames enc now ts after (kept (hreplay h))" "(objs h2 i, snd s1)"]
      ok alive by (simp add: s3_def [symmetric])
  then have q1: "queue (fst s1) = queue (objs h i) @ map (\<lambda>f. (f, False)) (refused_frames enc encr now refused)"
    using queue_frames_alive [of "refused_frames enc encr now refused" "(objs h i, False)"] alive
    by (simp add: s1_def [symmetric])
  have c1: "conn_ok (fst s1)" "ctopics (fst s1) = ctopics (objs h i)"
    using queue_frames_frame [of "(objs h i, False)"] hub_okD(1) [OF assms(1), of i] by (simp_all add: s1_def)
  then have "ctopics (fst s3) = ctopics (objs h i) \<union> set ts"
    using queue_frames_frame [of "(objs h2 i, snd s1)"] by (simp add: s3_def o2)
  moreover have "hreplay h' = hreplay h"
    using h' ok by (simp add: h2_def subscribe_all_def set_obj_def)
  ultimately show ?thesis using alive q1 q3 o by simp
qed

section \<open>Properties\<close>

text \<open>In every reachable state, whatever the authorizer allows, only connections of
  the user \<open>u\<close> are subscribed to the private topic \<^verbatim>\<open>user:u\<close>, and no anonymous connection
  is subscribed to a private topic.\<close>

theorem hub_private_topics:
  assumes "reachable (hub_start sb rp ms org) (hub_step auth enc encr) s"
    and "i \<in> htopics (the_hub s) (''user:'' @ u)"
  shows "u \<noteq> [] \<and> userID (objs (the_hub s) i) = u"
proof -
  have ok: "hub_ok (the_hub s)"
    using hubs.reachable_inv [OF assms(1)] by (simp add: sys_ok_def)
  then have "''user:'' @ u \<in> ctopics (objs (the_hub s) i)"
    using hub_okD(3) assms(2) by blast
  with hub_okD(2) [OF ok, of i] show ?thesis by (auto simp: topics_ok_def own_topics_def)
qed

text \<open>In every reachable state a connection's queue stays within
  \<^verbatim>\<open>SendBuffer + ReplaySize + 2*MaxSubscriptions\<close> and the live events in it within
  \<^verbatim>\<open>SendBuffer\<close>, its subscriptions within \<^verbatim>\<open>MaxSubscriptions\<close>, the queue of an ended connection is
  empty, and the user table counts the registered connections of each named user.\<close>

theorem hub_bounds:
  assumes "reachable (hub_start sb rp ms org) (hub_step auth enc encr) s"
  shows "length (queue (objs (the_hub s) i)) \<le> sb + rp + 2 * ms \<and>
    length (filter snd (queue (objs (the_hub s) i))) \<le> sb \<and>
    card (ctopics (objs (the_hub s) i)) \<le> ms \<and>
    (ended (objs (the_hub s) i) \<longrightarrow> queue (objs (the_hub s) i) = []) \<and>
    (\<forall>u. user_count (users (the_hub s)) u =
       (if u = [] then 0 else card {j \<in> conns (the_hub s). userID (objs (the_hub s) j) = u}))"
proof -
  have ok: "hub_ok (the_hub s)" and caps: "caps_ok sb rp ms (the_hub s)"
    using hubs.reachable_inv [OF assms] by (simp_all add: sys_ok_def)
  from ok have "user_count (users (the_hub s)) u =
       (if u = [] then 0 else card {j \<in> conns (the_hub s). userID (objs (the_hub s) j) = u})" for u
    unfolding hub_ok_def users_ok_def user_count_def held_by_def by auto
  moreover have "length (filter snd (queue (objs (the_hub s) i))) \<le> sb"
    using hub_okD(1) [OF ok, of i] caps by (cases "ended (objs (the_hub s) i)") (auto simp: conn_ok_def caps_ok_def)
  ultimately show ?thesis
    using hub_okD(1,2) [OF ok, of i] caps by (auto simp: conn_ok_def topics_ok_def caps_ok_def)
qed

text \<open>Publishing a valid event succeeds with the hub's next id and gives its frame to
  every connection subscribed to the topic and to no other: a live one with room queues it,
  and one that is full is ended as a slow consumer.\<close>

theorem hub_publish_delivers:
  assumes "hub_ok h" and "distinct order" and "set order = htopics h topic"
    and "validName topic" and "validName ty" and "\<not> reserved ty"
  shows "\<exists>h' slow f. Publish enc now order topic ty (Some raw) h = Some (Inr (h', slow)) \<and>
    fid f = origin h @ ''-'' @ show_nat (seq h + 1) \<and> ftopic f = topic \<and> hub_ok h' \<and>
    (\<forall>j. objs h' j = (if topic \<in> ctopics (objs h j) then deliver_conn f (objs h j) else objs h j))"
proof -
  let ?h = "h\<lparr>seq := seq h + 1\<rparr>"
  define f where "f = newFrame enc \<lparr>eid = origin h @ ''-'' @ show_nat (seq h + 1), etopic = topic,
                                 etype = ty, edata = raw, eat = now\<rparr>"
  obtain h2 slow where ins: "insert_frame f order ?h = Some (h2, slow)" "hub_ok h2"
    using hub_ok_insert_frame [of ?h f order] assms(1) by auto
  have "Publish enc now order topic ty (Some raw) h =
      Some (Inr (h2\<lparr>published := published h2 + 1\<rparr>, slow))"
    using assms(4-6) ins(1) by (simp add: Publish_def Let_def f_def)
  moreover have "objs h2 j = (if topic \<in> ctopics (objs h j) then deliver_conn f (objs h j) else objs h j)" for j
    using objs_insert_frame [of ?h order f h2 slow j] assms(1-3) ins by (simp add: f_def newFrame_def)
  ultimately show ?thesis using ins(2)
    by (intro exI [of _ "h2\<lparr>published := published h2 + 1\<rparr>"] exI [of _ slow] exI [of _ f])
      (simp add: f_def newFrame_def)
qed

text \<open>C7: a connection that attaches after an event the ring still holds, and is not
  dropped, has in its queue the refusals of the request, then every kept frame of its topics after
  that event, then every frame published to its topics since: no event is lost, repeated
  or reordered between replay and live delivery.\<close>

theorem hub_resume_no_gap:
  assumes "hub_ok h" and "topics_ok h i (set ts)" and "ctopics (objs h i) = {}"
    and "attach enc encr now i ts refused after h = Some h1"
    and "after \<noteq> []" and "after \<in> fid ` set (kept (hreplay h))"
    and "orders_ok fs h1" and "insert_frames fs h1 = Some h2" and "\<not> ended (objs h2 i)"
  shows "map fst (queue (objs h2 i)) =
    map fst (queue (objs h i)) @ refused_frames enc encr now refused @
    filter (\<lambda>f. ftopic f \<in> set ts) (after_last after (kept (hreplay h)) @ map fst fs)"
proof -
  have "topics_ok h i (ctopics (objs h i) \<union> set ts)" using assms(2,3) by simp
  then have ok1: "hub_ok h1" using hub_ok_attach [OF assms(1)] assms(4) by (metis option.inject)
  note live = insert_frames_alive [OF ok1 assms(7,8,9)]
  have at: "ctopics (objs h1 i) = set ts"
    "queue (objs h1 i) = queue (objs h i) @ map (\<lambda>f. (f, False))
      (refused_frames enc encr now refused @ resume_frames enc now ts after (kept (hreplay h)))"
    using attach_alive [OF assms(1,4)] live assms(3) by simp_all
  have "resume_frames enc now ts after (kept (hreplay h)) =
      filter (\<lambda>f. ftopic f \<in> set ts) (after_last after (kept (hreplay h)))"
    using assms(5,6) by (auto simp: resume_frames_def filter_empty_conv)
  with live at show ?thesis by (simp add: o_def)
qed

text \<open>In every reachable state a subscription that passed its checks can be attached,
  whatever happened to the hub between the authorization and the lock: no index is out of range
  and the subscription is settled.\<close>

theorem hub_attach_never_panics:
  assumes "reachable (hub_start sb rp ms org) (hub_step auth enc encr) s"
    and "pending s i = Some (ok, refused)"
  shows "\<exists>s'. hub_step auth enc encr s (EAttach i after) s' \<and> pending s' i = None"
proof -
  have "sys_ok s" using hubs.reachable_inv [OF assms(1)] by blast
  then have "hub_ok (the_hub s)" "topics_ok (the_hub s) i (ctopics (objs (the_hub s) i) \<union> set ok)"
    using assms(2) by (auto simp: sys_ok_def)
  then obtain h' where "attach enc encr 0 i ok refused after (the_hub s) = Some h'"
    by (rule hub_ok_attach)
  from hub_step.attach [OF assms(2) this] show ?thesis by (intro exI) auto
qed

section \<open>A run of the machine\<close>

text \<open>A connection of the user u1 is created, registered and subscribed to its own topic.\<close>

definition demo_hub :: hub where
  "demo_hub = New 2 4 3 ''o''"

definition demo_conn :: conn where
  "demo_conn = newConn demo_hub ''ws'' ''u1''"

definition demo_joined :: hub where
  "demo_joined = snd (register 0 (set_obj 0 demo_conn demo_hub))"

definition demo_pending :: hub_sys where
  "demo_pending = \<lparr>the_hub = demo_joined, pending = [0 \<mapsto> ([''user:u1''], [])]\<rparr>"

definition demo_subscribed :: hub where
  "demo_subscribed = subscribe_all 0 [''user:u1''] demo_joined"

lemmas demo_hub_defs = demo_hub_def demo_conn_def demo_joined_def demo_pending_def
  demo_subscribed_def New_def newConn_def set_obj_def register_def subscribe_all_def Let_def

abbreviation demo_enc :: "event \<Rightarrow> bytes" where
  "demo_enc \<equiv> \<lambda>_. []"

abbreviation demo_encr :: "api_error \<Rightarrow> bytes" where
  "demo_encr \<equiv> \<lambda>_. []"

lemma demo_names: "validName ''user:u1''" "validName ''note''" "\<not> reserved ''note''"
  by (simp_all add: validName_def name_char_def reserved_def)

lemma demo_pending_reachable:
  "reachable (hub_start 2 4 3 ''o'') (hub_step None demo_enc demo_encr) demo_pending"
proof -
  let ?R = "reachable (hub_start 2 4 3 ''o'') (hub_step None demo_enc demo_encr)"
  let ?s0 = "\<lparr>the_hub = demo_hub, pending = Map.empty\<rparr>"
  let ?s1 = "\<lparr>the_hub = set_obj 0 demo_conn demo_hub, pending = Map.empty\<rparr>"
  let ?s2 = "\<lparr>the_hub = demo_joined, pending = Map.empty\<rparr>"
  have "?R ?s0" by (rule reachable_init) (simp add: hub_start_def demo_hub_def)
  moreover have "hub_step None demo_enc demo_encr ?s0 (ENew 0 ''ws'' ''u1'') ?s1"
    using hub_step.new [of 0 ?s0 None demo_enc demo_encr "''ws''" "''u1''"]
    by (simp add: demo_conn_def) (simp add: demo_hub_def New_def)
  ultimately have "?R ?s1" by (rule reachable_step)
  moreover have "hub_step None demo_enc demo_encr ?s1 (ERegister 0) ?s2"
    using hub_step.register [of 0 ?s1 None demo_enc demo_encr]
    by (simp add: demo_joined_def) (simp add: set_obj_def demo_hub_def New_def)
  ultimately have "?R ?s2" by (rule reachable_step)
  moreover have "wsSubscribe None 0 [''user:u1''] demo_joined = Inr ([''user:u1''], [])"
    by (simp add: wsSubscribe_def fresh_def allowed_def cut_prefix_def demo_names demo_hub_defs)
  then have "hub_step None demo_enc demo_encr ?s2 (ESubscribe 0 [''user:u1'']) demo_pending"
    using hub_step.subscribe [of ?s2 0 None "[''user:u1'']"] by (simp add: demo_pending_def)
  ultimately show ?thesis by (rule reachable_step)
qed

lemma demo_subscribed_reachable:
  "reachable (hub_start 2 4 3 ''o'') (hub_step None demo_enc demo_encr)
     \<lparr>the_hub = demo_subscribed, pending = Map.empty\<rparr>"
proof -
  have "attach demo_enc demo_encr 0 0 [''user:u1''] [] [] demo_joined = Some demo_subscribed"
    by (simp add: attach_def attachLocked_def demo_subscribed_def Let_def set_obj_def)
  then have "hub_step None demo_enc demo_encr demo_pending (EAttach 0 [])
      \<lparr>the_hub = demo_subscribed, pending = Map.empty\<rparr>"
    using hub_step.attach [of demo_pending 0 "[''user:u1'']" "[]" demo_enc demo_encr 0 "[]" demo_subscribed]
    by (simp add: demo_pending_def)
  with demo_pending_reachable show ?thesis by (rule reachable_step)
qed

lemma demo_subscribed_ok: "hub_ok demo_subscribed"
  using hubs.reachable_inv [OF demo_subscribed_reachable] by (simp add: sys_ok_def)

theorem hub_private_topics_witness:
  "0 \<in> htopics demo_subscribed ''user:u1'' \<and> userID (objs demo_subscribed 0) = ''u1''"
proof -
  have "0 \<in> htopics demo_subscribed ''user:u1''" by (simp add: demo_hub_defs)
  with hub_private_topics [OF demo_subscribed_reachable, of 0 "''u1''"] show ?thesis by simp
qed

theorem hub_bounds_witness:
  "card (ctopics (objs demo_subscribed 0)) \<le> 3 \<and> length (queue (objs demo_subscribed 0)) \<le> 2 + 4 + 2 * 3"
  using hub_bounds [OF demo_subscribed_reachable, of 0] by simp

theorem hub_publish_delivers_witness:
  "\<exists>h' slow f. Publish demo_enc 7 [0] ''user:u1'' ''note'' (Some ''1'') demo_subscribed = Some (Inr (h', slow)) \<and>
     fid f = ''o-1'' \<and> map fst (queue (objs h' 0)) = [f]"
proof -
  have "set [0] = htopics demo_subscribed ''user:u1''" by (simp add: demo_hub_defs)
  from hub_publish_delivers [OF demo_subscribed_ok _ this demo_names, of demo_enc 7 "''1''"]
  obtain h' slow f where p: "Publish demo_enc 7 [0] ''user:u1'' ''note'' (Some ''1'') demo_subscribed = Some (Inr (h', slow))"
    "fid f = origin demo_subscribed @ ''-'' @ show_nat (seq demo_subscribed + 1)"
    "objs h' 0 = (if ''user:u1'' \<in> ctopics (objs demo_subscribed 0)
        then deliver_conn f (objs demo_subscribed 0) else objs demo_subscribed 0)"
    by auto
  have "show_nat 1 = ''1''" by code_simp
  then have "fid f = ''o-1''" using p(2) by (simp add: demo_hub_defs)
  moreover have "map fst (queue (objs h' 0)) = [f]"
    unfolding p(3) by (simp add: demo_hub_defs deliver_conn_def)
  ultimately show ?thesis using p(1)
    by (intro exI [of _ h'] exI [of _ slow] exI [of _ f] conjI)
qed

theorem hub_attach_never_panics_witness:
  "\<exists>s'. hub_step None demo_enc demo_encr demo_pending (EAttach 0 ''o-9'') s' \<and> pending s' 0 = None"
  by (rule hub_attach_never_panics [OF demo_pending_reachable, of 0 "[''user:u1'']" "[]"])
    (simp add: demo_pending_def)

theorem hub_resume_no_gap_witness:
  "\<exists>h h1 h2. hub_ok h \<and>
     attach demo_enc demo_encr 0 0 [''a''] [] ''o-1'' h = Some h1 \<and>
     insert_frames [(demo_frame ''o-3'' ''a'', [0])] h1 = Some h2 \<and>
     map fst (queue (objs h2 0)) = [demo_frame ''o-2'' ''a'', demo_frame ''o-3'' ''a'']"
proof -
  let ?f1 = "demo_frame ''o-1'' ''a''" and ?f2 = "demo_frame ''o-2'' ''a''"
    and ?f3 = "demo_frame ''o-3'' ''a''"
  obtain r where r: "replay_ok r" "kept r = [?f1, ?f2]"
    using ring.insert_all [OF replay_ok_new, of "[?f1, ?f2]" 4] by auto
  let ?h = "demo_joined\<lparr>hreplay := r\<rparr>"
  let ?c = "demo_conn\<lparr>ctopics := {''a''}, queue := [(?f2, False)]\<rparr>"
  let ?h1 = "(set_obj 0 ?c (subscribe_all 0 [''a''] ?h))\<lparr>delivered := 1\<rparr>"
  have ok: "hub_ok ?h"
    using hubs.reachable_inv [OF demo_pending_reachable] r(1)
    by (auto simp: sys_ok_def demo_pending_def hub_ok_defs)
  have sn: "since ''o-1'' [''a''] r = Some ([?f2], True)"
    using since_eq [OF r(1), of "''o-1''" "[''a'']"] r(2) by (simp add: demo_frame_def after_last_def)
  have at: "attach demo_enc demo_encr 0 0 [''a''] [] ''o-1'' ?h = Some ?h1"
    by (simp add: attach_def attachLocked_def sn queue_own_def push_def demo_hub_defs fun_eq_iff)
  obtain r3 where r3: "add ?f3 r = Some r3" using add_ok [OF r(1)] by blast
  have sub: "htopics ?h1 ''a'' = {0}" by (simp add: demo_hub_defs)
  let ?h2 = "fst (deliverLocked ?f3 [0] (?h1\<lparr>hreplay := r3\<rparr>))"
  have ins: "insert_frames [(?f3, [0])] ?h1 = Some ?h2"
    using r3 by (simp add: insert_frame_def set_obj_def subscribe_all_def split: prod.split)
  have "objs ?h2 0 = deliver_conn ?f3 ?c"
    using objs_fold_deliver [of "[0]" ?f3 "(?h1\<lparr>hreplay := r3\<rparr>, [])" 0]
    by (simp add: deliverLocked_def set_obj_def)
  then have alive: "\<not> ended (objs ?h2 0)" by (simp add: deliver_conn_def demo_hub_defs)
  have ord: "orders_ok [(?f3, [0])] ?h1"
    using sub by (simp add: demo_frame_def split: option.split)
  have t: "topics_ok ?h 0 (set [''a''])" and c: "ctopics (objs ?h 0) = {}"
    by (simp_all add: topics_ok_def own_topics_def demo_hub_defs)
  have "map fst (queue (objs ?h2 0)) = map fst (queue (objs ?h 0)) @
      refused_frames demo_enc demo_encr 0 [] @
      filter (\<lambda>f. ftopic f \<in> set [''a'']) (after_last ''o-1'' (kept (hreplay ?h)) @ map fst [(?f3, [0])])"
    using hub_resume_no_gap [OF ok t c at _ _ ord ins alive] r(2)
    by (simp add: demo_frame_def)
  then have "map fst (queue (objs ?h2 0)) = [?f2, ?f3]"
    by (simp add: r(2) refused_frames_def demo_frame_def after_last_def demo_hub_defs)
  with ok at ins show ?thesis
    by (intro exI [of _ ?h] exI [of _ ?h1] exI [of _ ?h2] conjI)
qed

end
