(* ===== verification/Sql_Split.thy ===== *)
theory Sql_Split
  imports Chok_Prelude Go_Strings
begin

text \<open>
  The scanner that cuts a migration script into statements (\<^verbatim>\<open>db/sqlsplit.go\<close>). The index
  into the script is the rest of the script still to be read; the two conditions on the
  next byte, \<^verbatim>\<open>i+1 < n\<close> and \<^verbatim>\<open>script[i+1]\<close>, are conditions on the head of that rest. The
  loop is a partial function: a mode that consumed nothing would never return.
\<close>

section \<open>The scanner\<close>

datatype sql_mode =
    modeNormal | modeLineComment | modeBlockComment | modeSingleQuote | modeDoubleQuote
  | modeBacktick | modeDollar

record scanner =
  outp :: "string list"
  buf :: string
  mode :: sql_mode
  tag :: string
  meaningful :: bool

definition flush :: "scanner \<Rightarrow> scanner" where
  "flush st =
     (let stmt = trim_space (buf st)
      in st\<lparr>outp := (if stmt \<noteq> [] \<and> meaningful st then outp st @ [stmt] else outp st),
            buf := [], meaningful := False\<rparr>)"

definition tag_char :: "char \<Rightarrow> bool" where
  "tag_char c \<longleftrightarrow>
     (let n = (of_char c :: nat)
      in c = CHR ''_'' \<or> (97 \<le> n \<and> n \<le> 122) \<or> (65 \<le> n \<and> n \<le> 90) \<or> (48 \<le> n \<and> n \<le> 57))"

fun dollar_loop :: "string \<Rightarrow> string \<Rightarrow> string option" where
  "dollar_loop seen [] = None"
| "dollar_loop seen (c # cs) =
     (if c = CHR ''$'' then Some (seen @ [c])
      else if \<not> tag_char c then None
      else dollar_loop (seen @ [c]) cs)"

definition dollarTagAt :: "string \<Rightarrow> string option" where
  "dollarTagAt s =
     (if length s < 2 \<or> hd s \<noteq> CHR ''$'' then None else dollar_loop [hd s] (tl s))"

abbreviation put :: "string \<Rightarrow> scanner \<Rightarrow> scanner" where
  "put s st \<equiv> st\<lparr>buf := buf st @ s\<rparr>"

definition next_is :: "string \<Rightarrow> char \<Rightarrow> bool" where
  "next_is cs c \<longleftrightarrow> cs \<noteq> [] \<and> hd cs = c"

definition plain_space :: "char \<Rightarrow> bool" where
  "plain_space c \<longleftrightarrow> c = CHR '' '' \<or> c = CHR 0x09 \<or> c = CHR 0x0A \<or> c = CHR 0x0D"

text \<open>
  One turn of the loop at byte \<open>c\<close> with \<open>cs\<close> after it: the new state and the number of
  bytes consumed.
\<close>

definition scan_normal :: "char \<Rightarrow> string \<Rightarrow> scanner \<Rightarrow> scanner \<times> nat" where
  "scan_normal c cs st =
     (if c = CHR ''-'' \<and> next_is cs (CHR ''-'') then ((put [c] st)\<lparr>mode := modeLineComment\<rparr>, 1)
      else if c = CHR ''/'' \<and> next_is cs (CHR ''*'') then ((put [c] st)\<lparr>mode := modeBlockComment\<rparr>, 1)
      else if c = CHR 0x27 then ((put [c] st)\<lparr>mode := modeSingleQuote, meaningful := True\<rparr>, 1)
      else if c = CHR 0x22 then ((put [c] st)\<lparr>mode := modeDoubleQuote, meaningful := True\<rparr>, 1)
      else if c = CHR 0x60 then ((put [c] st)\<lparr>mode := modeBacktick, meaningful := True\<rparr>, 1)
      else if c = CHR ''$'' then
        (case dollarTagAt (c # cs) of
           Some t \<Rightarrow> ((put t st)\<lparr>mode := modeDollar, meaningful := True, tag := t\<rparr>, length t)
         | None \<Rightarrow> ((put [c] st)\<lparr>meaningful := True\<rparr>, 1))
      else if c = CHR '';'' then (flush st, 1)
      else ((put [c] st)\<lparr>meaningful := (if \<not> plain_space c then True else meaningful st)\<rparr>, 1))"

definition scan_single :: "char \<Rightarrow> string \<Rightarrow> scanner \<Rightarrow> scanner \<times> nat" where
  "scan_single c cs st =
     (if c = CHR 0x5C then
        (if cs \<noteq> [] then (put [c, hd cs] st, 2) else (put [c] st, 1))
      else if c = CHR 0x27 then
        (if next_is cs (CHR 0x27) then (put [c, CHR 0x27] st, 2)
         else ((put [c] st)\<lparr>mode := modeNormal\<rparr>, 1))
      else (put [c] st, 1))"

definition scan_char :: "char \<Rightarrow> string \<Rightarrow> scanner \<Rightarrow> scanner \<times> nat" where
  "scan_char c cs st =
     (case mode st of
        modeNormal \<Rightarrow> scan_normal c cs st
      | modeLineComment \<Rightarrow>
          ((put [c] st)\<lparr>mode := (if c = CHR 0x0A then modeNormal else mode st)\<rparr>, 1)
      | modeBlockComment \<Rightarrow>
          (if c = CHR ''*'' \<and> next_is cs (CHR ''/'')
           then ((put [c, CHR ''/''] st)\<lparr>mode := modeNormal\<rparr>, 2)
           else (put [c] st, 1))
      | modeSingleQuote \<Rightarrow> scan_single c cs st
      | modeDoubleQuote \<Rightarrow>
          (if c = CHR 0x22 then
             (if next_is cs (CHR 0x22) then (put [c, CHR 0x22] st, 2)
              else ((put [c] st)\<lparr>mode := modeNormal\<rparr>, 1))
           else (put [c] st, 1))
      | modeBacktick \<Rightarrow>
          ((put [c] st)\<lparr>mode := (if c = CHR 0x60 then modeNormal else mode st)\<rparr>, 1)
      | modeDollar \<Rightarrow>
          (if has_prefix (c # cs) (tag st)
           then ((put (tag st) st)\<lparr>mode := modeNormal\<rparr>, length (tag st))
           else (put [c] st, 1)))"

partial_function (option) scan :: "scanner \<Rightarrow> string \<Rightarrow> scanner option" where
  "scan st s =
     (case s of
        [] \<Rightarrow> Some st
      | c # cs \<Rightarrow> (case scan_char c cs st of (st', k) \<Rightarrow> scan st' (drop k s)))"

definition scan_start :: scanner where
  "scan_start = \<lparr>outp = [], buf = [], mode = modeNormal, tag = [], meaningful = False\<rparr>"

definition splitSQLStatements :: "string \<Rightarrow> string list option" where
  "splitSQLStatements script = map_option (\<lambda>st. outp (flush st)) (scan scan_start script)"

section \<open>The loop returns and loses nothing\<close>

declare scan.simps [code, simp del]

lemma scan_Nil [simp]: "scan st [] = Some st"
  by (subst scan.simps) simp

lemma scan_Cons: "scan st (c # cs) = (case scan_char c cs st of (st', k) \<Rightarrow> scan st' (drop k (c # cs)))"
  by (subst scan.simps) simp

lemma dollar_loop_spec:
  "dollar_loop seen s = Some t \<Longrightarrow> \<exists>u v. t = seen @ u \<and> u \<noteq> [] \<and> s = u @ v"
  by (induction seen s rule: dollar_loop.induct) (auto split: if_splits)

lemma dollarTagAt_spec:
  assumes "dollarTagAt s = Some t"
  shows "prefix t s \<and> 2 \<le> length t"
proof -
  from assms have s: "2 \<le> length s" "dollar_loop [hd s] (tl s) = Some t"
    by (auto simp: dollarTagAt_def split: if_splits)
  from dollar_loop_spec [OF s(2)] obtain u v where u: "t = hd s # u" "u \<noteq> []" "tl s = u @ v" by auto
  have "s = hd s # tl s" using s(1) by (cases s) auto
  with u have "s = t @ v" by simp
  moreover have "2 \<le> length t" using u(1,2) by (cases u) auto
  ultimately show ?thesis by simp
qed

text \<open>
  A turn of the loop consumes at least one byte; it appends what it consumed to the
  buffer, or it consumes one semicolon and flushes.
\<close>

definition scanner_ok :: "scanner \<Rightarrow> bool" where
  "scanner_ok st \<longleftrightarrow> (mode st = modeDollar \<longrightarrow> tag st \<noteq> [])"

lemma scan_char_turn:
  assumes "scanner_ok st" and "scan_char c cs st = (st', k)"
  shows "scanner_ok st' \<and> 0 < k \<and> k \<le> length (c # cs) \<and>
    (outp st' = outp st \<and> buf st' = buf st @ take k (c # cs) \<and> (meaningful st \<longrightarrow> meaningful st') \<or>
     mode st = modeNormal \<and> c = CHR '';'' \<and> st' = flush st \<and> k = 1)"
proof (cases "mode st")
  case modeNormal
  show ?thesis
  proof (cases "dollarTagAt (c # cs)")
    case None
    with assms modeNormal show ?thesis
      by (auto simp: scan_char_def scan_normal_def scanner_ok_def flush_def Let_def split: if_splits)
  next
    case (Some t)
    then obtain v where v: "c # cs = t @ v" and t: "2 \<le> length t"
      using dollarTagAt_spec by (auto simp: prefix_def)
    have tk: "take (length t) (c # cs) = t" "length t \<le> Suc (length cs)"
      using v by (simp, metis length_Cons length_append le_add1)
    have "t \<noteq> []" using t by auto
    from assms modeNormal Some tk t this show ?thesis
      by (auto simp: scan_char_def scan_normal_def scanner_ok_def flush_def Let_def split: if_splits)
  qed
next
  case modeDollar
  show ?thesis
  proof (cases "has_prefix (c # cs) (tag st)")
    case True
    then obtain v where v: "c # cs = tag st @ v" by (auto simp: has_prefix_def prefix_def)
    have "take (length (tag st)) (c # cs) = tag st" "length (tag st) \<le> Suc (length cs)"
      using v by (simp, metis length_Cons length_append le_add1)
    with assms modeDollar True show ?thesis by (auto simp: scan_char_def scanner_ok_def)
  next
    case False
    with assms modeDollar show ?thesis by (auto simp: scan_char_def scanner_ok_def)
  qed
qed (use assms in \<open>cases cs; auto simp: scan_char_def scan_single_def scanner_ok_def next_is_def split: if_splits\<close>)+

text \<open>
  The segments between the separators, with the flag each was flushed with, and the
  statements they give.
\<close>

definition emit :: "string \<times> bool \<Rightarrow> string list" where
  "emit = (\<lambda>(b, m). if trim_space b \<noteq> [] \<and> m then [trim_space b] else [])"

lemma outp_flush: "outp (flush st) = outp st @ emit (buf st, meaningful st)"
  by (simp add: flush_def Let_def emit_def)

lemma scan_segments:
  assumes "scanner_ok st"
  shows "\<exists>st' segs. scan st s = Some st' \<and> segs \<noteq> [] \<and>
    join_char (CHR '';'') (map fst segs) = buf st @ s \<and>
    outp (flush st') = outp st @ concat (map emit segs)"
  using assms
proof (induction s arbitrary: st rule: length_induct)
  case (1 s)
  show ?case
  proof (cases s)
    case Nil
    then show ?thesis
      by (intro exI [of _ st] exI [of _ "[(buf st, meaningful st)]"]) (simp add: outp_flush)
  next
    case (Cons c cs)
    obtain st1 k where turn: "scan_char c cs st = (st1, k)" by (rule prod.exhaust)
    note t = scan_char_turn [OF "1.prems" turn]
    then have "length (drop k s) < length s" by (auto simp: Cons)
    with "1.IH" t obtain st' segs where r: "scan st1 (drop k s) = Some st'" "segs \<noteq> []"
      "join_char (CHR '';'') (map fst segs) = buf st1 @ drop k s"
      "outp (flush st') = outp st1 @ concat (map emit segs)" by blast
    have sc: "scan st s = Some st'" using r(1) turn by (simp add: Cons scan_Cons)
    from t consider (keep) "outp st1 = outp st" "buf st1 = buf st @ take k (c # cs)"
      | (cut) "c = CHR '';''" "st1 = flush st" "k = 1" by blast
    then show ?thesis
    proof cases
      case keep
      with r(3) have "join_char (CHR '';'') (map fst segs) = buf st @ s" by (simp add: Cons)
      with sc r keep show ?thesis by (intro exI [of _ st'] exI [of _ segs]) simp
    next
      case cut
      have "buf st1 = []" by (simp add: cut(2) flush_def Let_def)
      with r(2,3) cut have "join_char (CHR '';'') (map fst ((buf st, meaningful st) # segs)) = buf st @ s"
        by (cases segs) (simp_all add: Cons)
      moreover have "outp (flush st') = outp st @ concat (map emit ((buf st, meaningful st) # segs))"
        using r(4) by (simp add: cut(2) outp_flush)
      ultimately show ?thesis using sc by blast
    qed
  qed
qed

section \<open>Scripts as tokens\<close>

text \<open>
  A reference reading of SQL scripts: a script is a sequence of tokens, and only a \<open>Semi\<close>
  token separates statements. \<open>Single\<close> and \<open>Double\<close> hold their items: one byte, an escape
  of two bytes, or a doubled quote.
\<close>

datatype sql_token =
    Plain char | Semi | Line string | Block string | Single "string list"
  | Double "string list" | Back string | Dollar string string

fun render :: "sql_token \<Rightarrow> string" where
  "render (Plain c) = [c]"
| "render Semi = '';''"
| "render (Line b) = ''--'' @ b @ [CHR 0x0A]"
| "render (Block b) = ''/*'' @ b @ ''*/''"
| "render (Single its) = CHR 0x27 # concat its @ [CHR 0x27]"
| "render (Double its) = CHR 0x22 # concat its @ [CHR 0x22]"
| "render (Back b) = CHR 0x60 # b @ [CHR 0x60]"
| "render (Dollar t b) = t @ b @ t"

fun content :: "sql_token \<Rightarrow> bool" where
  "content (Plain c) = (\<not> plain_space c)"
| "content Semi = False"
| "content (Line b) = False"
| "content (Block b) = False"
| "content _ = True"

fun no_close :: "string \<Rightarrow> bool" where
  "no_close (x # y # s) = (\<not> (x = CHR ''*'' \<and> y = CHR ''/'') \<and> no_close (y # s))"
| "no_close _ = True"

definition single_item :: "string \<Rightarrow> bool" where
  "single_item it \<longleftrightarrow>
     (length it = 1 \<and> hd it \<noteq> CHR 0x27 \<and> hd it \<noteq> CHR 0x5C) \<or>
     (length it = 2 \<and> hd it = CHR 0x5C) \<or> it = [CHR 0x27, CHR 0x27]"

definition double_item :: "string \<Rightarrow> bool" where
  "double_item it \<longleftrightarrow> (length it = 1 \<and> hd it \<noteq> CHR 0x22) \<or> it = [CHR 0x22, CHR 0x22]"

text \<open>A token is well formed before the text \<open>r\<close> that follows it.\<close>

fun wf_token :: "sql_token \<Rightarrow> string \<Rightarrow> bool" where
  "wf_token (Plain c) r \<longleftrightarrow>
     c \<noteq> CHR '';'' \<and> c \<noteq> CHR 0x27 \<and> c \<noteq> CHR 0x22 \<and> c \<noteq> CHR 0x60 \<and>
     \<not> (c = CHR ''-'' \<and> next_is r (CHR ''-'')) \<and> \<not> (c = CHR ''/'' \<and> next_is r (CHR ''*'')) \<and>
     (c = CHR ''$'' \<longrightarrow> dollarTagAt (c # r) = None)"
| "wf_token Semi r = True"
| "wf_token (Line b) r = (CHR 0x0A \<notin> set b)"
| "wf_token (Block b) r = no_close (''*'' @ b @ ''*'')"
| "wf_token (Single its) r = (list_all single_item its \<and> \<not> next_is r (CHR 0x27))"
| "wf_token (Double its) r = (list_all double_item its \<and> \<not> next_is r (CHR 0x22))"
| "wf_token (Back b) r = (CHR 0x60 \<notin> set b)"
| "wf_token (Dollar t b) r = (dollarTagAt t = Some t \<and> (\<forall>i < length b. \<not> prefix t (drop i b @ t)))"

definition render_all :: "sql_token list \<Rightarrow> string" where
  "render_all ts = concat (map render ts)"

fun wf_tokens :: "sql_token list \<Rightarrow> bool" where
  "wf_tokens [] = True"
| "wf_tokens (t # ts) = (wf_token t (render_all ts) \<and> wf_tokens ts)"

fun statements :: "string \<Rightarrow> bool \<Rightarrow> sql_token list \<Rightarrow> string list" where
  "statements b m [] = emit (b, m)"
| "statements b m (t # ts) =
     (if t = Semi then emit (b, m) @ statements [] False ts
      else statements (b @ render t) (m \<or> content t) ts)"

lemma scan_line:
  "mode st = modeLineComment \<Longrightarrow> CHR 0x0A \<notin> set b \<Longrightarrow>
   scan st (b @ CHR 0x0A # r) = scan ((put (b @ [CHR 0x0A]) st)\<lparr>mode := modeNormal\<rparr>) r"
  by (induction b arbitrary: st) (auto simp: scan_Cons scan_char_def)

lemma scan_back:
  "mode st = modeBacktick \<Longrightarrow> CHR 0x60 \<notin> set b \<Longrightarrow>
   scan st (b @ CHR 0x60 # r) = scan ((put (b @ [CHR 0x60]) st)\<lparr>mode := modeNormal\<rparr>) r"
  by (induction b arbitrary: st) (auto simp: scan_Cons scan_char_def)

lemma scan_block:
  "mode st = modeBlockComment \<Longrightarrow> no_close (b @ ''*'') \<Longrightarrow>
   scan st (b @ ''*/'' @ r) = scan ((put (b @ ''*/'') st)\<lparr>mode := modeNormal\<rparr>) r"
proof (induction b arbitrary: st)
  case Nil
  then show ?case by (simp add: scan_Cons scan_char_def next_is_def)
next
  case (Cons c b)
  have nc: "\<not> (c = CHR ''*'' \<and> next_is (b @ ''*/'' @ r) (CHR ''/''))" "no_close (b @ ''*'')"
    using Cons.prems(2) by (cases b; auto simp: next_is_def)+
  have "scan st ((c # b) @ ''*/'' @ r) = scan (put [c] st) (b @ ''*/'' @ r)"
    using nc(1) Cons.prems(1) by (auto simp: scan_Cons scan_char_def)
  with Cons.IH [of "put [c] st"] nc(2) Cons.prems(1) show ?case by simp
qed

lemma scan_single_items:
  "mode st = modeSingleQuote \<Longrightarrow> list_all single_item its \<Longrightarrow> \<not> next_is r (CHR 0x27) \<Longrightarrow>
   scan st (concat its @ CHR 0x27 # r) = scan ((put (concat its @ [CHR 0x27]) st)\<lparr>mode := modeNormal\<rparr>) r"
proof (induction its arbitrary: st)
  case Nil
  then show ?case by (simp add: scan_Cons scan_char_def scan_single_def)
next
  case (Cons it its)
  have "scan st (it @ s) = scan (put it st) s" if "single_item it" for s
    using that Cons.prems(1)
    by (cases it; cases "tl it")
      (auto simp: single_item_def scan_Cons scan_char_def scan_single_def next_is_def numeral_2_eq_2)
  with Cons show ?case by simp
qed

lemma scan_double_items:
  "mode st = modeDoubleQuote \<Longrightarrow> list_all double_item its \<Longrightarrow> \<not> next_is r (CHR 0x22) \<Longrightarrow>
   scan st (concat its @ CHR 0x22 # r) = scan ((put (concat its @ [CHR 0x22]) st)\<lparr>mode := modeNormal\<rparr>) r"
proof (induction its arbitrary: st)
  case Nil
  then show ?case by (simp add: scan_Cons scan_char_def)
next
  case (Cons it its)
  have "scan st (it @ s) = scan (put it st) s" if "double_item it" for s
    using that Cons.prems(1)
    by (cases it; cases "tl it")
      (auto simp: double_item_def scan_Cons scan_char_def next_is_def)
  with Cons show ?case by simp
qed

lemma scan_dollar:
  assumes "mode st = modeDollar" and "tag st = t" and "t \<noteq> []"
    and "\<forall>i < length b. \<not> prefix t (drop i b @ t)"
  shows "scan st (b @ t @ r) = scan ((put (b @ t) st)\<lparr>mode := modeNormal\<rparr>) r"
  using assms
proof (induction b arbitrary: st)
  case Nil
  then obtain c cs where "t = c # cs" by (cases t) auto
  with Nil show ?case by (simp add: scan_Cons scan_char_def has_prefix_def)
next
  case (Cons c b)
  have "\<not> prefix t ((c # b) @ t)" using Cons.prems(4) by (metis drop0 length_Cons zero_less_Suc)
  moreover have "prefix t ((c # b) @ t) \<longleftrightarrow> prefix t ((c # b) @ t @ r)"
  proof -
    have "length t \<le> length ((c # b) @ t)" by simp
    then show ?thesis by (metis append.assoc prefix_append prefix_length_prefix prefixI)
  qed
  ultimately have "scan st ((c # b) @ t @ r) = scan (put [c] st) (b @ t @ r)"
    using Cons.prems(1,2) by (simp add: scan_Cons scan_char_def has_prefix_def)
  moreover have "\<forall>i < length b. \<not> prefix t (drop i b @ t)"
    using Cons.prems(4) by (metis drop_Suc_Cons length_Cons not_less_eq)
  ultimately show ?case using Cons.IH [of "put [c] st"] Cons.prems(1-3) by simp
qed

lemma dollar_loop_append:
  "dollar_loop seen s = Some t \<Longrightarrow> dollar_loop seen (s @ x) = Some t"
  by (induction seen s rule: dollar_loop.induct) (auto split: if_splits)

lemma dollarTagAt_append:
  assumes "dollarTagAt t = Some t"
  shows "dollarTagAt (t @ x) = Some t"
proof -
  obtain c cs where t: "t = c # cs" using assms by (cases t) (auto simp: dollarTagAt_def)
  from assms dollar_loop_append [of "[c]" cs t x] show ?thesis
    by (auto simp: t dollarTagAt_def split: if_splits)
qed

lemma scan_normal_turn:
  assumes "mode st = modeNormal" and "scan_normal c cs st = (st', 1)"
  shows "scan st (c # cs) = scan st' cs"
  using assms by (simp add: scan_Cons scan_char_def)

lemma scan_token:
  assumes "mode st = modeNormal" and "wf_token t r" and "t \<noteq> Semi"
  shows "\<exists>st'. scan st (render t @ r) = scan st' r \<and> mode st' = modeNormal \<and>
    outp st' = outp st \<and> buf st' = buf st @ render t \<and> meaningful st' = (meaningful st \<or> content t)"
proof (cases t)
  case (Plain c)
  have "scan_normal c r st = ((put [c] st)\<lparr>meaningful := (if \<not> plain_space c then True else meaningful st)\<rparr>, 1)"
    using assms(2) by (auto simp: Plain scan_normal_def plain_space_def)
  from scan_normal_turn [OF assms(1) this] show ?thesis
    by (intro exI [of _ "(put [c] st)\<lparr>meaningful := (if \<not> plain_space c then True else meaningful st)\<rparr>"])
      (simp add: Plain assms(1))
next
  case (Line b)
  let ?st = "(put [CHR ''-''] st)\<lparr>mode := modeLineComment\<rparr>"
  have "scan_normal (CHR ''-'') (CHR ''-'' # b @ [CHR 0x0A] @ r) st = (?st, 1)"
    by (simp add: scan_normal_def next_is_def)
  from scan_normal_turn [OF assms(1) this] scan_line [of ?st "CHR ''-'' # b" r] assms(2)
  show ?thesis
    by (intro exI [of _ "(put (''--'' @ b @ [CHR 0x0A]) st)\<lparr>mode := modeNormal\<rparr>"]) (simp add: Line)
next
  case (Block b)
  let ?st = "(put [CHR ''/''] st)\<lparr>mode := modeBlockComment\<rparr>"
  have "scan_normal (CHR ''/'') (CHR ''*'' # b @ ''*/'' @ r) st = (?st, 1)"
    by (simp add: scan_normal_def next_is_def)
  from scan_normal_turn [OF assms(1) this] scan_block [of ?st "CHR ''*'' # b" r] assms(2)
  show ?thesis
    by (intro exI [of _ "(put (''/*'' @ b @ ''*/'') st)\<lparr>mode := modeNormal\<rparr>"]) (simp add: Block)
next
  case (Single its)
  let ?st = "(put [CHR 0x27] st)\<lparr>mode := modeSingleQuote, meaningful := True\<rparr>"
  have "scan_normal (CHR 0x27) (concat its @ [CHR 0x27] @ r) st = (?st, 1)"
    by (simp add: scan_normal_def)
  from scan_normal_turn [OF assms(1) this] scan_single_items [of ?st its r] assms(2)
  show ?thesis
    by (intro exI [of _ "st\<lparr>meaningful := True, buf := buf st @ CHR 0x27 # concat its @ [CHR 0x27], mode := modeNormal\<rparr>"]) (simp add: Single)
next
  case (Double its)
  let ?st = "(put [CHR 0x22] st)\<lparr>mode := modeDoubleQuote, meaningful := True\<rparr>"
  have "scan_normal (CHR 0x22) (concat its @ [CHR 0x22] @ r) st = (?st, 1)"
    by (simp add: scan_normal_def)
  from scan_normal_turn [OF assms(1) this] scan_double_items [of ?st its r] assms(2)
  show ?thesis
    by (intro exI [of _ "st\<lparr>meaningful := True, buf := buf st @ CHR 0x22 # concat its @ [CHR 0x22], mode := modeNormal\<rparr>"]) (simp add: Double)
next
  case (Back b)
  let ?st = "(put [CHR 0x60] st)\<lparr>mode := modeBacktick, meaningful := True\<rparr>"
  have "scan_normal (CHR 0x60) (b @ [CHR 0x60] @ r) st = (?st, 1)"
    by (simp add: scan_normal_def)
  from scan_normal_turn [OF assms(1) this] scan_back [of ?st b r] assms(2)
  show ?thesis
    by (intro exI [of _ "st\<lparr>meaningful := True, buf := buf st @ CHR 0x60 # b @ [CHR 0x60], mode := modeNormal\<rparr>"]) (simp add: Back)
next
  case (Dollar d b)
  let ?st = "(put d st)\<lparr>mode := modeDollar, meaningful := True, tag := d\<rparr>"
  have d: "dollarTagAt d = Some d" using assms(2) by (simp add: Dollar)
  then obtain cs where ds: "d = CHR ''$'' # cs" by (cases d) (auto simp: dollarTagAt_def split: if_splits)
  have "dollarTagAt (CHR ''$'' # cs @ b @ d @ r) = Some d"
    using dollarTagAt_append [OF d, of "b @ d @ r"] by (simp add: ds)
  then have "scan st (d @ b @ d @ r) = scan ?st (b @ d @ r)"
    using assms(1) by (simp add: ds scan_Cons scan_char_def scan_normal_def)
  also have "\<dots> = scan ((put (b @ d) ?st)\<lparr>mode := modeNormal\<rparr>) r"
    by (rule scan_dollar) (use assms(2) in \<open>simp_all add: Dollar ds\<close>)
  finally show ?thesis
    by (intro exI [of _ "(put (b @ d) ?st)\<lparr>mode := modeNormal\<rparr>"]) (simp add: Dollar)
qed (use assms(3) in simp)

lemma scan_tokens:
  assumes "mode st = modeNormal" and "wf_tokens ts"
  shows "\<exists>st'. scan st (render_all ts) = Some st' \<and>
    outp (flush st') = outp st @ statements (buf st) (meaningful st) ts"
  using assms
proof (induction ts arbitrary: st)
  case Nil
  then show ?case by (simp add: render_all_def outp_flush)
next
  case (Cons t ts)
  have all: "render_all (t # ts) = render t @ render_all ts" by (simp add: render_all_def)
  show ?case
  proof (cases "t = Semi")
    case True
    have "scan_normal (CHR '';'') (render_all ts) st = (flush st, 1)" by (simp add: scan_normal_def)
    note turn = scan_normal_turn [OF Cons.prems(1) this]
    have "mode (flush st) = modeNormal" "buf (flush st) = []" "\<not> meaningful (flush st)"
      using Cons.prems(1) by (simp_all add: flush_def Let_def)
    with Cons.IH [of "flush st"] Cons.prems(2) turn show ?thesis
      by (simp add: all True outp_flush) (simp add: render_all_def)
  next
    case False
    from scan_token [OF Cons.prems(1) _ False, of "render_all ts"] Cons.prems(2)
    obtain st' where "scan st (render t @ render_all ts) = scan st' (render_all ts)" "mode st' = modeNormal"
      "outp st' = outp st" "buf st' = buf st @ render t" "meaningful st' = (meaningful st \<or> content t)"
      by auto
    with Cons.IH [of st'] Cons.prems(2) False show ?thesis by (simp add: all)
  qed
qed

section \<open>Properties\<close>

text \<open>C34: a script made of well-formed tokens is cut at its semicolon tokens and nowhere
  else: no semicolon inside a comment, a quoted string or identifier, or a dollar-quoted
  body separates statements, and exactly the segments with content beyond comments and
  blanks become statements, in order, with their surrounding white space trimmed.\<close>

theorem sql_split_tokens:
  assumes "wf_tokens ts"
  shows "splitSQLStatements (render_all ts) = Some (statements [] False ts)"
proof -
  have "mode scan_start = modeNormal" by (simp add: scan_start_def)
  from scan_tokens [OF this assms] show ?thesis
    by (auto simp: splitSQLStatements_def scan_start_def)
qed

text \<open>On every script at all the scanner returns, and it loses no text: the script is
  its segments joined by the semicolons it was cut at, and every statement is one of the
  segments, trimmed; a segment gives at most one statement and never an empty one.\<close>

theorem sql_split_preserves:
  "\<exists>segs. splitSQLStatements script = Some (concat (map emit segs)) \<and>
     join_char (CHR '';'') (map fst segs) = script"
proof -
  have "scanner_ok scan_start" by (simp add: scanner_ok_def scan_start_def)
  from scan_segments [OF this, of script] show ?thesis
    by (auto simp: splitSQLStatements_def scan_start_def)
qed

text \<open>The star that opens a block comment is taken for the start of its end: the
  comment \<^verbatim>\<open>/*/ a; b */\<close> is cut at the semicolon inside it, and the rest of the comment
  becomes part of the statement after it.\<close>

theorem sql_split_comment_star:
  "splitSQLStatements ''/*/ a; b */ SELECT 1'' = Some [''/*/ a'', ''b */ SELECT 1''] \<and>
   splitSQLStatements ''/* / a; b */ SELECT 1'' = Some [''/* / a; b */ SELECT 1'']"
  by code_simp

definition demo_script :: "sql_token list" where
  "demo_script =
     [Block '' a; '', Plain (CHR ''A''), Plain (CHR '' ''), Single ['';'', [CHR 0x27, CHR 0x27]], Semi,
      Line ''x;y'', Semi, Dollar ''$f$'' ''b;$$'', Plain (CHR 0x0A)]"

theorem sql_split_tokens_witness:
  "splitSQLStatements (render_all demo_script) =
     Some [''/* a; */A '' @ [CHR 0x27, CHR '';'', CHR 0x27, CHR 0x27, CHR 0x27], ''$f$b;$$$f$'']"
proof -
  have "wf_tokens demo_script" by code_simp
  moreover have "statements [] False demo_script =
      [''/* a; */A '' @ [CHR 0x27, CHR '';'', CHR 0x27, CHR 0x27, CHR 0x27], ''$f$b;$$$f$'']"
    by code_simp
  ultimately show ?thesis using sql_split_tokens by metis
qed

end
