(* ===== verification/Cron.thy ===== *)
theory Cron
  imports Chok_Prelude Go_Strings "HOL-Library.Word"
begin

text \<open>
  The cron spec parser (\<^verbatim>\<open>jobs/internal/cron/parser.go\<close>, \<^verbatim>\<open>spec.go\<close>, \<^verbatim>\<open>constantdelay.go\<close>).
  A field is a bit set in a 64-bit word with the star bit on top; Go's \<^verbatim>\<open>uint\<close> and
  \<^verbatim>\<open>uint64\<close> are \<open>64 word\<close>, on which shifting by 64 or more gives 0 as in Go. Errors are
  values of \<open>cron_error\<close>; the outer option of an operation with a loop is \<open>None\<close> when the
  loop never ends. The time zone database (\<^verbatim>\<open>time.LoadLocation\<close>) and \<^verbatim>\<open>time.ParseDuration\<close>
  are parameters.
\<close>

unbundle bit_operations_syntax

section \<open>Fields of a string\<close>

text \<open>\<^verbatim>\<open>strings.Fields\<close>: the maximal runs of bytes outside white space.\<close>

definition starts_space :: "string \<Rightarrow> bool" where
  "starts_space s \<longleftrightarrow> list_ex (\<lambda>r. r \<noteq> [] \<and> prefix r s) space_runes"

fun span_word :: "string \<Rightarrow> string \<times> string" where
  "span_word [] = ([], [])"
| "span_word (c # cs) =
     (if starts_space (c # cs) then ([], c # cs)
      else (case span_word cs of (w, r) \<Rightarrow> (c # w, r)))"

lemma span_word_append: "span_word s = (w, r) \<Longrightarrow> s = w @ r"
  by (induction s arbitrary: w r rule: span_word.induct) (auto split: if_splits prod.splits)

lemma trim_left_stops: "\<not> starts_space (trim_left s)"
proof -
  have "find (\<lambda>r. r \<noteq> [] \<and> prefix r (trim_runes tab s)) tab = None" for tab
  proof (induction tab s rule: trim_runes.induct)
    case (1 tab s)
    show ?case
    proof (cases "find (\<lambda>r. r \<noteq> [] \<and> prefix r s) tab")
      case None
      then show ?thesis by (simp add: trim_runes.simps [of tab s])
    next
      case (Some r)
      from 1 [OF Some] Some show ?thesis by (simp add: trim_runes.simps [of tab s])
    qed
  qed
  then show ?thesis
    by (auto simp: starts_space_def trim_left_def list_ex_iff find_None_iff)
qed

function fields_space :: "string \<Rightarrow> string list" where
  "fields_space s =
     (let t = trim_left s
      in if t = [] then []
         else (case span_word t of (w, r) \<Rightarrow> w # fields_space r))"
  by pat_completeness auto
termination
proof (relation "measure length")
  fix s x :: string and y w r :: string
  assume t: "x = trim_left s" "x \<noteq> []" and w: "(w, r) = span_word x"
  obtain c cs where x: "x = c # cs" using t(2) by (cases x) auto
  have "\<not> starts_space (c # cs)" using trim_left_stops [of s] t(1) x by simp
  then have "w \<noteq> []" using w x by (auto split: prod.splits)
  then have "length r < length x" using span_word_append [of x w r] w by auto
  moreover have "length x \<le> length s"
    using trim_runes_suffix [of space_runes s] t(1) by (simp add: trim_left_def suffix_length_le)
  ultimately show "(r, s) \<in> measure length" by simp
qed simp

declare fields_space.simps [simp del]

section \<open>Schedules and bounds\<close>

type_synonym uint = "64 word"

record 'loc SpecSchedule =
  Second :: uint
  Minute :: uint
  Hour :: uint
  Dom :: uint
  Month :: uint
  Dow :: uint
  Location :: 'loc

record bounds =
  bmin :: uint
  bmax :: uint
  names :: "(string \<rightharpoonup> uint) option"

definition seconds :: bounds where "seconds = \<lparr>bmin = 0, bmax = 59, names = None\<rparr>"
definition minutes :: bounds where "minutes = \<lparr>bmin = 0, bmax = 59, names = None\<rparr>"
definition hours :: bounds where "hours = \<lparr>bmin = 0, bmax = 23, names = None\<rparr>"
definition dom :: bounds where "dom = \<lparr>bmin = 1, bmax = 31, names = None\<rparr>"

definition month_names :: "(string \<times> uint) list" where
  "month_names =
     [(''jan'', 1), (''feb'', 2), (''mar'', 3), (''apr'', 4), (''may'', 5), (''jun'', 6),
      (''jul'', 7), (''aug'', 8), (''sep'', 9), (''oct'', 10), (''nov'', 11), (''dec'', 12)]"

definition months :: bounds where
  "months = \<lparr>bmin = 1, bmax = 12, names = Some (map_of month_names)\<rparr>"

definition day_names :: "(string \<times> uint) list" where
  "day_names =
     [(''sun'', 0), (''mon'', 1), (''tue'', 2), (''wed'', 3), (''thu'', 4), (''fri'', 5), (''sat'', 6)]"

definition dow :: bounds where
  "dow = \<lparr>bmin = 0, bmax = 6, names = Some (map_of day_names)\<rparr>"

definition starBit :: uint where
  "starBit = push_bit 63 1"

datatype cron_error =
    EmptySpec | ZoneWithoutSchedule | BadLocation string | NoDescriptors | MultipleOptionals
  | FieldCount int int nat | UnknownOptional | TooManyHyphens string | TooManySlashes string
  | BadInt string | NegativeInt int | BelowMinimum uint | AboveMaximum uint
  | BeyondEnd uint uint | ZeroStep | BadDuration string | UnknownDescriptor string

section \<open>Ranges\<close>

text \<open>The loop of \<^verbatim>\<open>getBits\<close>; \<open>None\<close> when it never ends.\<close>

partial_function (option) bits_loop :: "uint \<Rightarrow> uint \<Rightarrow> uint \<Rightarrow> uint \<Rightarrow> uint option" where
  "bits_loop mx step i bits =
     (if i \<le> mx then bits_loop mx step (i + step) (bits OR push_bit (unat i) 1) else Some bits)"

definition getBits :: "uint \<Rightarrow> uint \<Rightarrow> uint \<Rightarrow> uint option" where
  "getBits mn mx step =
     (if step = 1 then Some (NOT (push_bit (unat (mx + 1)) (- 1)) AND push_bit (unat mn) (- 1))
      else bits_loop mx step mn 0)"

definition all_bits :: "bounds \<Rightarrow> uint option" where
  "all_bits r = map_option (\<lambda>b. b OR starBit) (getBits (bmin r) (bmax r) 1)"

definition mustParseInt :: "string \<Rightarrow> cron_error + uint" where
  "mustParseInt expr =
     (case atoi expr of
        None \<Rightarrow> Inl (BadInt expr)
      | Some num \<Rightarrow> if num < 0 then Inl (NegativeInt num) else Inr (word_of_int num))"

definition parseIntOrName :: "string \<Rightarrow> (string \<rightharpoonup> uint) option \<Rightarrow> cron_error + uint" where
  "parseIntOrName expr nms =
     (case nms of
        Some m \<Rightarrow> (case m (to_lower expr) of Some n \<Rightarrow> Inr n | None \<Rightarrow> mustParseInt expr)
      | None \<Rightarrow> mustParseInt expr)"

text \<open>
  The first switch of \<^verbatim>\<open>getRange\<close> gives \<open>(start, end, extra)\<close>, the second \<open>(step, end, extra)\<close>.
\<close>

definition range_ends :: "string \<Rightarrow> string list \<Rightarrow> bounds \<Rightarrow> cron_error + uint \<times> uint \<times> uint" where
  "range_ends expr lowAndHigh r =
     (if lowAndHigh ! 0 = ''*'' \<or> lowAndHigh ! 0 = ''?'' then Inr (bmin r, bmax r, starBit)
      else case parseIntOrName (lowAndHigh ! 0) (names r) of
        Inl e \<Rightarrow> Inl e
      | Inr start \<Rightarrow>
          if length lowAndHigh = 1 then Inr (start, start, 0)
          else if length lowAndHigh = 2 then
            (case parseIntOrName (lowAndHigh ! 1) (names r) of
               Inl e \<Rightarrow> Inl e
             | Inr en \<Rightarrow> Inr (start, en, 0))
          else Inl (TooManyHyphens expr))"

definition range_step ::
  "string \<Rightarrow> string list \<Rightarrow> bool \<Rightarrow> bounds \<Rightarrow> uint \<Rightarrow> uint \<Rightarrow> cron_error + uint \<times> uint \<times> uint" where
  "range_step expr rangeAndStep singleDigit r en extra =
     (if length rangeAndStep = 1 then Inr (1, en, extra)
      else if length rangeAndStep = 2 then
        (case mustParseInt (rangeAndStep ! 1) of
           Inl e \<Rightarrow> Inl e
         | Inr step \<Rightarrow>
             Inr (step, (if singleDigit then bmax r else en), (if step > 1 then 0 else extra)))
      else Inl (TooManySlashes expr))"

definition getRange :: "string \<Rightarrow> bounds \<Rightarrow> (cron_error + uint) option" where
  "getRange expr r =
     (let rangeAndStep = split_char (CHR ''/'') expr;
          lowAndHigh = split_char (CHR ''-'') (rangeAndStep ! 0)
      in case range_ends expr lowAndHigh r of
        Inl e \<Rightarrow> Some (Inl e)
      | Inr (start, en0, extra0) \<Rightarrow>
          (case range_step expr rangeAndStep (length lowAndHigh = 1) r en0 extra0 of
             Inl e \<Rightarrow> Some (Inl e)
           | Inr (step, en, extra) \<Rightarrow>
               if start < bmin r then Some (Inl (BelowMinimum start))
               else if en > bmax r then Some (Inl (AboveMaximum en))
               else if start > en then Some (Inl (BeyondEnd start en))
               else if step = 0 then Some (Inl ZeroStep)
               else map_option (\<lambda>b. Inr (b OR extra)) (getBits start en step)))"

fun field_loop :: "bounds \<Rightarrow> string list \<Rightarrow> uint \<Rightarrow> (cron_error + uint) option" where
  "field_loop r [] bits = Some (Inr bits)"
| "field_loop r (expr # exprs) bits =
     (case getRange expr r of
        None \<Rightarrow> None
      | Some (Inl e) \<Rightarrow> Some (Inl e)
      | Some (Inr b) \<Rightarrow> field_loop r exprs (bits OR b))"

definition getField :: "string \<Rightarrow> bounds \<Rightarrow> (cron_error + uint) option" where
  "getField field r = field_loop r (fields_char (CHR '','') field) 0"

section \<open>Parsing\<close>

type_synonym ParseOption = "64 word"

definition optSecond :: ParseOption where "optSecond = 1"
definition optSecondOptional :: ParseOption where "optSecondOptional = 2"
definition optMinute :: ParseOption where "optMinute = 4"
definition optHour :: ParseOption where "optHour = 8"
definition optDom :: ParseOption where "optDom = 16"
definition optMonth :: ParseOption where "optMonth = 32"
definition optDow :: ParseOption where "optDow = 64"
definition optDowOptional :: ParseOption where "optDowOptional = 128"
definition optDescriptor :: ParseOption where "optDescriptor = 256"

definition has_opt :: "ParseOption \<Rightarrow> ParseOption \<Rightarrow> bool" where
  "has_opt os p \<longleftrightarrow> os AND p > 0"

definition places :: "ParseOption list" where
  "places = [optSecond, optMinute, optHour, optDom, optMonth, optDow]"

definition defaults :: "string list" where
  "defaults = [''0'', ''0'', ''0'', ''*'', ''*'', ''*'']"

text \<open>\<^verbatim>\<open>NewParser\<close>: \<open>None\<close> is its panic.\<close>

definition NewParser :: "ParseOption \<Rightarrow> ParseOption option" where
  "NewParser os = (if has_opt os optDowOptional \<and> has_opt os optSecondOptional then None else Some os)"

text \<open>The last loop of \<^verbatim>\<open>normalizeFields\<close>; \<open>None\<close> is an index out of range.\<close>

fun expand_fields :: "ParseOption \<Rightarrow> (ParseOption \<times> string) list \<Rightarrow> string list \<Rightarrow> string list option" where
  "expand_fields os [] fs = Some []"
| "expand_fields os ((p, d) # ps) fs =
     (if has_opt os p then
        (case fs of [] \<Rightarrow> None | f # fs' \<Rightarrow> map_option (Cons f) (expand_fields os ps fs'))
      else map_option (Cons d) (expand_fields os ps fs))"

definition normalizeFields :: "string list \<Rightarrow> ParseOption \<Rightarrow> (cron_error + string list) option" where
  "normalizeFields flds options0 =
     (let o1 = (if has_opt options0 optSecondOptional then options0 OR optSecond else options0);
          o2 = (if has_opt o1 optDowOptional then o1 OR optDow else o1);
          optionals = (if has_opt options0 optSecondOptional then 1 else 0) +
                      (if has_opt o1 optDowOptional then 1 else 0 :: int);
          mx = int (length (filter (has_opt o2) places));
          mn = mx - optionals;
          cnt = int (length flds)
      in if optionals > 1 then Some (Inl MultipleOptionals)
         else if cnt < mn \<or> cnt > mx then Some (Inl (FieldCount mn mx (length flds)))
         else if mn < mx \<and> cnt = mn then
           (if has_opt o2 optDowOptional
            then map_option Inr (expand_fields o2 (zip places defaults) (flds @ [defaults ! 5]))
            else if has_opt o2 optSecondOptional
            then map_option Inr (expand_fields o2 (zip places defaults) (defaults ! 0 # flds))
            else Some (Inl UnknownOptional))
         else map_option Inr (expand_fields o2 (zip places defaults) flds))"

datatype 'loc Schedule = SpecSched "'loc SpecSchedule" | ConstantDelay duration

definition Every :: "duration \<Rightarrow> duration" where
  "Every d = (let d1 = (if d < second_ns then second_ns else d) in d1 - d1 mod second_ns)"

definition ConstantDelay_Next :: "duration \<Rightarrow> instant \<Rightarrow> instant" where
  "ConstantDelay_Next delay t = t + (delay - t mod second_ns)"

definition spec_of :: "uint \<Rightarrow> uint \<Rightarrow> uint \<Rightarrow> uint \<Rightarrow> uint \<Rightarrow> uint \<Rightarrow> 'loc \<Rightarrow> 'loc Schedule" where
  "spec_of s m h d mo w loc =
     SpecSched \<lparr>Second = s, Minute = m, Hour = h, Dom = d, Month = mo, Dow = w, Location = loc\<rparr>"

definition one_bit :: "bounds \<Rightarrow> uint" where
  "one_bit r = push_bit (unat (bmin r)) 1"

definition whole :: "bounds \<Rightarrow> uint" where
  "whole r = (NOT (push_bit (unat (bmax r + 1)) (- 1)) AND push_bit (unat (bmin r)) (- 1)) OR starBit"

lemma all_bits_whole: "all_bits r = Some (whole r)"
  by (simp add: all_bits_def getBits_def whole_def)

definition parseDescriptor ::
  "(string \<Rightarrow> duration option) \<Rightarrow> string \<Rightarrow> 'loc \<Rightarrow> cron_error + 'loc Schedule" where
  "parseDescriptor parseDuration d loc =
     (if d = ''@yearly'' \<or> d = ''@annually''
      then Inr (spec_of (one_bit seconds) (one_bit minutes) (one_bit hours) (one_bit dom) (one_bit months) (whole dow) loc)
      else if d = ''@monthly''
      then Inr (spec_of (one_bit seconds) (one_bit minutes) (one_bit hours) (one_bit dom) (whole months) (whole dow) loc)
      else if d = ''@weekly''
      then Inr (spec_of (one_bit seconds) (one_bit minutes) (one_bit hours) (whole dom) (whole months) (one_bit dow) loc)
      else if d = ''@daily'' \<or> d = ''@midnight''
      then Inr (spec_of (one_bit seconds) (one_bit minutes) (one_bit hours) (whole dom) (whole months) (whole dow) loc)
      else if d = ''@hourly''
      then Inr (spec_of (one_bit seconds) (one_bit minutes) (whole hours) (whole dom) (whole months) (whole dow) loc)
      else case cut_prefix d ''@every '' of
        Some rest \<Rightarrow>
          (case parseDuration rest of
             None \<Rightarrow> Inl (BadDuration d)
           | Some dur \<Rightarrow> Inr (ConstantDelay (Every dur)))
      | None \<Rightarrow> Inl (UnknownDescriptor d))"

text \<open>The six calls of \<^verbatim>\<open>field\<close> in \<^verbatim>\<open>Parse\<close>: the first error stops the rest.\<close>

fun parse_fields :: "(string \<times> bounds) list \<Rightarrow> (cron_error + uint list) option" where
  "parse_fields [] = Some (Inr [])"
| "parse_fields ((f, r) # fs) =
     (case getField f r of
        None \<Rightarrow> None
      | Some (Inl e) \<Rightarrow> Some (Inl e)
      | Some (Inr b) \<Rightarrow>
          (case parse_fields fs of
             None \<Rightarrow> None
           | Some (Inl e) \<Rightarrow> Some (Inl e)
           | Some (Inr bs) \<Rightarrow> Some (Inr (b # bs))))"

definition field_bounds :: "bounds list" where
  "field_bounds = [seconds, minutes, hours, dom, months, dow]"

definition parse_spec :: "ParseOption \<Rightarrow> string \<Rightarrow> 'loc \<Rightarrow> (cron_error + 'loc Schedule) option" where
  "parse_spec os spec loc =
     (case normalizeFields (fields_space spec) os of
        None \<Rightarrow> None
      | Some (Inl e) \<Rightarrow> Some (Inl e)
      | Some (Inr fs) \<Rightarrow>
          (case parse_fields (zip fs field_bounds) of
             None \<Rightarrow> None
           | Some (Inl e) \<Rightarrow> Some (Inl e)
           | Some (Inr bs) \<Rightarrow> Some (Inr (spec_of (bs ! 0) (bs ! 1) (bs ! 2) (bs ! 3) (bs ! 4) (bs ! 5) loc))))"

definition parse_in ::
  "(string \<Rightarrow> duration option) \<Rightarrow> ParseOption \<Rightarrow> string \<Rightarrow> 'loc \<Rightarrow> (cron_error + 'loc Schedule) option" where
  "parse_in parseDuration os spec loc =
     (if has_prefix spec ''@'' then
        (if os AND optDescriptor = 0 then Some (Inl NoDescriptors)
         else Some (parseDescriptor parseDuration spec loc))
      else parse_spec os spec loc)"

definition Parse ::
  "(string \<Rightarrow> 'loc option) \<Rightarrow> 'loc \<Rightarrow> (string \<Rightarrow> duration option) \<Rightarrow> ParseOption \<Rightarrow> string \<Rightarrow>
   (cron_error + 'loc Schedule) option" where
  "Parse loadLocation local parseDuration os spec =
     (if spec = [] then Some (Inl EmptySpec)
      else if has_prefix spec ''TZ='' \<or> has_prefix spec ''CRON_TZ='' then
        (case (index_char (CHR '' '') spec, index_char (CHR ''='') spec) of
           (Some i, Some eq) \<Rightarrow>
             (let zone = drop (eq + 1) (take i spec)
              in if eq + 1 > i then None
                 else case loadLocation zone of
                   None \<Rightarrow> Some (Inl (BadLocation zone))
                 | Some loc \<Rightarrow> parse_in parseDuration os (trim_space (drop i spec)) loc)
         | _ \<Rightarrow> Some (Inl ZoneWithoutSchedule))
      else parse_in parseDuration os spec local)"

definition standardParser :: ParseOption where
  "standardParser = optMinute OR optHour OR optDom OR optMonth OR optDow OR optDescriptor"

definition ParseStandard ::
  "(string \<Rightarrow> 'loc option) \<Rightarrow> 'loc \<Rightarrow> (string \<Rightarrow> duration option) \<Rightarrow> string \<Rightarrow>
   (cron_error + 'loc Schedule) option" where
  "ParseStandard loadLocation local parseDuration = Parse loadLocation local parseDuration standardParser"

section \<open>Days\<close>

definition dayMatches :: "'loc SpecSchedule \<Rightarrow> nat \<Rightarrow> nat \<Rightarrow> bool" where
  "dayMatches s day weekday =
     (let domMatch = (push_bit day 1 AND Dom s > 0); dowMatch = (push_bit weekday 1 AND Dow s > 0)
      in if Dom s AND starBit > 0 \<or> Dow s AND starBit > 0 then domMatch \<and> dowMatch
         else domMatch \<or> dowMatch)"

section \<open>The bits of a range\<close>

declare bits_loop.simps [code, simp del]

definition progression :: "nat \<Rightarrow> nat \<Rightarrow> nat \<Rightarrow> nat set" where
  "progression mn mx step = {k. \<exists>j. k = mn + j * step \<and> k \<le> mx}"

lemma progression_step:
  assumes "mn \<le> mx" and "0 < step"
  shows "progression mn mx step = insert mn (progression (mn + step) mx step)"
proof -
  have "k = mn \<or> (\<exists>j. k = mn + step + j * step)" if "k = mn + j * step" for k j
    using that by (cases j) auto
  moreover have "\<exists>j. mn + step + i * step = mn + j * step" for i
    by (rule exI [of _ "Suc i"]) simp
  moreover have "mn = mn + 0 * step" by simp
  ultimately show ?thesis using assms(1) unfolding progression_def by blast
qed

lemma progression_empty: "mx < mn \<Longrightarrow> progression mn mx step = {}"
  by (auto simp: progression_def)

lemma progression_one: "progression mn mx 1 = {mn..mx}"
  by (auto simp: progression_def le_iff_add)

lemma bit_shifted_one: "n < 64 \<Longrightarrow> bit (push_bit n 1 :: uint) k \<longleftrightarrow> k = n"
  unfolding bit_push_bit_iff bit_1_iff by (auto simp: possible_bit_word)

lemma bits_loop_spec:
  assumes "unat mx < 64" and "0 < unat step" and "unat step < 2 ^ 63" and "unat i < 2 ^ 63 + 64"
  shows "\<exists>w. bits_loop mx step i b = Some w \<and>
    (\<forall>k. bit w k \<longleftrightarrow> bit b k \<or> k \<in> progression (unat i) (unat mx) (unat step))"
  using assms(4)
proof (induction "64 - unat i" arbitrary: i b rule: less_induct)
  case less
  show ?case
  proof (cases "i \<le> mx")
    case False
    then have "unat mx < unat i" by (simp add: word_le_nat_alt)
    with False show ?thesis by (subst bits_loop.simps) (simp add: progression_empty)
  next
    case True
    then have le: "unat i \<le> unat mx" by (simp add: word_le_nat_alt)
    have "unat i + unat step < 2 ^ LENGTH(64)" using le assms by simp
    then have add: "unat (i + step) = unat i + unat step" by (simp add: unat_plus_if_size word_size)
    have "64 - unat (i + step) < 64 - unat i" "unat (i + step) < 2 ^ 63 + 64"
      using le assms by (simp_all add: add)
    from less.hyps [OF this, of "b OR push_bit (unat i) 1"] obtain w where
      w: "bits_loop mx step (i + step) (b OR push_bit (unat i) 1) = Some w"
        "\<And>k. bit w k \<longleftrightarrow> bit (b OR push_bit (unat i) 1) k \<or> k \<in> progression (unat (i + step)) (unat mx) (unat step)"
      by blast
    have one: "bit (push_bit (unat i) 1 :: uint) k \<longleftrightarrow> k = unat i" for k
      using le assms(1) by (simp only: bit_shifted_one order_le_less_trans)
    have "bit w k \<longleftrightarrow> bit b k \<or> k \<in> progression (unat i) (unat mx) (unat step)" for k
      using w(2) [of k] one progression_step [OF le assms(2)] by (auto simp: add bit_or_iff)
    with w(1) True show ?thesis by (subst bits_loop.simps) simp
  qed
qed

lemma getBits_spec:
  assumes "unat mx < 63" and "0 < unat step" and "unat step < 2 ^ 63" and "unat mn < 2 ^ 63"
  shows "\<exists>w. getBits mn mx step = Some w \<and>
    (\<forall>k. bit w k \<longleftrightarrow> k \<in> progression (unat mn) (unat mx) (unat step))"
proof (cases "step = 1")
  case True
  have "unat (mx + 1) = unat mx + 1" using assms(1) by (simp add: unat_plus_if_size word_size)
  then have "bit (NOT (push_bit (unat (mx + 1)) (- 1)) AND push_bit (unat mn) (- 1) :: uint) k \<longleftrightarrow>
      unat mn \<le> k \<and> k \<le> unat mx" for k
    using assms(1) by (auto simp: bit_simps)
  with True show ?thesis by (simp add: getBits_def progression_one [unfolded One_nat_def])
next
  case False
  with bits_loop_spec [of mx step mn 0] assms show ?thesis by (simp add: getBits_def)
qed

lemma bit_starBit: "bit starBit k \<longleftrightarrow> k = 63"
  unfolding starBit_def by (rule bit_shifted_one) simp

lemma mustParseInt_bound: "mustParseInt s = Inr n \<Longrightarrow> unat n < 2 ^ 63"
proof -
  assume "mustParseInt s = Inr n"
  then obtain k where k: "atoi s = Some k" "0 \<le> k" "n = word_of_int k"
    by (auto simp: mustParseInt_def split: option.splits if_splits)
  then have "k < 2 ^ 63" by (auto simp: atoi_def Let_def split: prod.splits if_splits)
  with k have "uint n = k" by (simp add: uint_word_of_int)
  with \<open>k < 2 ^ 63\<close> show ?thesis by (simp add: unat_eq_nat_uint)
qed

text \<open>The bounds of the six fields: small, ordered, and no name is a number.\<close>

definition bounds_ok :: "bounds \<Rightarrow> bool" where
  "bounds_ok r \<longleftrightarrow> bmin r \<le> bmax r \<and> unat (bmax r) < 63 \<and>
     (\<forall>m k n. names r = Some m \<longrightarrow> m k = Some n \<longrightarrow> unat n < 63 \<and> \<not> list_all is_digit k)"

lemma field_bounds_ok: "r \<in> set field_bounds \<Longrightarrow> bounds_ok r"
  unfolding field_bounds_def bounds_ok_def seconds_def minutes_def hours_def dom_def months_def dow_def
  by (auto simp: month_names_def day_names_def is_digit_def split: if_splits)

definition field_bits :: "bounds \<Rightarrow> uint \<Rightarrow> bool" where
  "field_bits r w \<longleftrightarrow> (\<forall>k. bit w k \<longrightarrow> k = 63 \<or> unat (bmin r) \<le> k \<and> k \<le> unat (bmax r))"

lemma parseIntOrName_bound:
  assumes "bounds_ok r" and "parseIntOrName s (names r) = Inr n"
  shows "unat n < 2 ^ 63"
proof -
  from assms(2) consider "mustParseInt s = Inr n" | m where "names r = Some m" "m (to_lower s) = Some n"
    by (auto simp: parseIntOrName_def split: option.splits)
  then show ?thesis
  proof cases
    case 2
    with assms(1) have "unat n < 63" unfolding bounds_ok_def by blast
    then show ?thesis by simp
  qed (rule mustParseInt_bound)
qed

lemma range_ends_bound:
  assumes "bounds_ok r" and "range_ends e lh r = Inr (start, en, extra)"
  shows "unat start < 2 ^ 63 \<and> extra \<in> {0, starBit}"
proof -
  have "unat (bmin r) < 2 ^ 63" using assms(1) by (simp add: bounds_ok_def word_le_nat_alt)
  with assms parseIntOrName_bound show ?thesis
    by (auto simp: range_ends_def split: if_splits sum.splits)
qed

lemma range_step_bound:
  assumes "range_step e rs sd r en0 extra0 = Inr (step, en, extra)"
  shows "unat step < 2 ^ 63 \<and> extra \<in> {0, extra0}"
  using assms mustParseInt_bound by (auto simp: range_step_def split: if_splits sum.splits)

lemma getRange_total:
  assumes "bounds_ok r"
  shows "\<exists>res. getRange e r = Some res \<and>
    (\<forall>w. res = Inr w \<longrightarrow> field_bits r w \<and> (\<exists>k. unat (bmin r) \<le> k \<and> k \<le> unat (bmax r) \<and> bit w k))"
proof -
  let ?rs = "split_char (CHR ''/'') e"
  let ?lh = "split_char (CHR ''-'') (?rs ! 0)"
  show ?thesis
  proof (cases "range_ends e ?lh r")
    case (Inl err)
    then show ?thesis by (simp add: getRange_def Let_def)
  next
    case (Inr p)
    obtain start en0 extra0 where p: "p = (start, en0, extra0)" by (rule prod_cases3)
    note re = Inr [unfolded p]
    show ?thesis
    proof (cases "range_step e ?rs (length ?lh = 1) r en0 extra0")
      case (Inl err)
      with re show ?thesis by (simp add: getRange_def Let_def)
    next
      case (Inr q)
      obtain step en extra where q: "q = (step, en, extra)" by (rule prod_cases3)
      note rs = Inr [unfolded q]
      have st: "unat start < 2 ^ 63" "unat step < 2 ^ 63" "extra \<in> {0, starBit}"
        using range_ends_bound [OF assms re] range_step_bound [OF rs] by auto
      show ?thesis
      proof (cases "start < bmin r \<or> en > bmax r \<or> start > en \<or> step = 0")
        case True
        with re rs show ?thesis by (auto simp: getRange_def Let_def)
      next
        case False
        then have le: "unat (bmin r) \<le> unat start" "unat start \<le> unat en" "unat en \<le> unat (bmax r)" "0 < unat step"
          by (auto simp: word_le_nat_alt not_less unat_gt_0)
        then have "unat en < 63" using assms by (simp add: bounds_ok_def)
        from getBits_spec [OF this le(4) st(2,1)] obtain w where
          w: "getBits start en step = Some w" "\<And>k. bit w k \<longleftrightarrow> k \<in> progression (unat start) (unat en) (unat step)"
          by blast
        have "getRange e r = Some (Inr (w OR extra))" using False re rs w(1) by (auto simp: getRange_def Let_def)
        moreover have "field_bits r (w OR extra)"
          using st(3) le w(2) by (auto simp: field_bits_def bit_or_iff bit_starBit progression_def)
        moreover have "bit (w OR extra) (unat start)"
          using w(2) [of "unat start"] le(2) by (auto simp: bit_or_iff progression_def intro: exI [of _ 0])
        ultimately show ?thesis using le by (auto intro: order_trans)
      qed
    qed
  qed
qed

lemma field_loop_total:
  assumes "bounds_ok r" and "field_bits r b"
  shows "\<exists>res. field_loop r es b = Some res \<and> (\<forall>w. res = Inr w \<longrightarrow> field_bits r w)"
  using assms(2)
proof (induction es arbitrary: b)
  case (Cons e es)
  from getRange_total [OF assms(1), of e] obtain res where
    res: "getRange e r = Some res" "\<And>w. res = Inr w \<Longrightarrow> field_bits r w" by blast
  show ?case
  proof (cases res)
    case (Inr w)
    with res Cons.prems have "field_bits r (b OR w)" by (auto simp: field_bits_def bit_or_iff)
    from Cons.IH [OF this] res(1) Inr show ?thesis by simp
  qed (use res in simp)
qed simp

lemma getField_total:
  "bounds_ok r \<Longrightarrow> \<exists>res. getField f r = Some res \<and> (\<forall>w. res = Inr w \<longrightarrow> field_bits r w)"
  unfolding getField_def by (rule field_loop_total) (simp_all add: field_bits_def)

lemma parse_fields_total:
  assumes "\<forall>(f, r) \<in> set frs. bounds_ok r"
  shows "\<exists>res. parse_fields frs = Some res \<and>
    (\<forall>bs. res = Inr bs \<longrightarrow> list_all2 field_bits (map snd frs) bs)"
  using assms
proof (induction frs)
  case (Cons fr frs)
  obtain f r where fr: "fr = (f, r)" by (cases fr)
  from getField_total [of r f] Cons.prems obtain res where
    res: "getField f r = Some res" "\<And>w. res = Inr w \<Longrightarrow> field_bits r w" by (auto simp: fr)
  obtain res' where res': "parse_fields frs = Some res'"
    "\<And>bs. res' = Inr bs \<Longrightarrow> list_all2 field_bits (map snd frs) bs"
    using Cons by fastforce
  show ?case
  proof (cases res)
    case (Inr w)
    with res res' show ?thesis by (cases res') (simp_all add: fr)
  qed (use res in \<open>simp add: fr\<close>)
qed simp

lemma expand_fields_total:
  assumes "length (filter (has_opt os \<circ> fst) ps) \<le> length fs"
  shows "\<exists>out. expand_fields os ps fs = Some out \<and> length out = length ps"
  using assms
proof (induction os ps fs rule: expand_fields.induct)
  case (2 os p d ps fs)
  then show ?case by (cases "has_opt os p"; cases fs) auto
qed simp

lemma filter_places: "length (filter (has_opt os \<circ> fst) (zip places defaults)) = length (filter (has_opt os) places)"
  by (simp add: places_def defaults_def)

lemma expand_places:
  assumes "length (filter (has_opt o2) places) = length gs"
  shows "\<exists>out. expand_fields o2 (zip places defaults) gs = Some out \<and> length out = 6"
proof -
  have "length (zip places defaults) = 6" by (simp add: places_def defaults_def)
  with expand_fields_total [of o2 "zip places defaults" gs] assms filter_places [of o2]
  show ?thesis by (simp del: expand_fields.simps)
qed

lemma normalizeFields_total:
  "\<exists>res. normalizeFields fs os = Some res \<and> (\<forall>out. res = Inr out \<longrightarrow> length out = 6)"
proof -
  define o1 where "o1 = (if has_opt os optSecondOptional then os OR optSecond else os)"
  define o2 where "o2 = (if has_opt o1 optDowOptional then o1 OR optDow else o1)"
  define n :: int where "n = (if has_opt os optSecondOptional then 1 else 0) +
                      (if has_opt o1 optDowOptional then 1 else 0)"
  define mx where "mx = length (filter (has_opt o2) places)"
  have n: "0 \<le> n" by (simp add: n_def)
  have eq: "normalizeFields fs os =
      (if n > 1 then Some (Inl MultipleOptionals)
       else if int (length fs) < int mx - n \<or> int (length fs) > int mx
       then Some (Inl (FieldCount (int mx - n) (int mx) (length fs)))
       else if int mx - n < int mx \<and> int (length fs) = int mx - n then
         (if has_opt o2 optDowOptional
          then map_option Inr (expand_fields o2 (zip places defaults) (fs @ [defaults ! 5]))
          else if has_opt o2 optSecondOptional
          then map_option Inr (expand_fields o2 (zip places defaults) (defaults ! 0 # fs))
          else Some (Inl UnknownOptional))
       else map_option Inr (expand_fields o2 (zip places defaults) fs))"
    by (simp only: normalizeFields_def Let_def o1_def [symmetric] o2_def [symmetric] n_def [symmetric] mx_def [symmetric])
  consider "n > 1 \<or> int (length fs) < int mx - n \<or> int (length fs) > int mx"
    | "n = 1" "Suc (length fs) = mx" | "length fs = mx" "0 \<le> n" "n \<le> 1" using n by linarith
  then show ?thesis
  proof cases
    case 2
    with expand_places [of o2 "fs @ [defaults ! 5]"] expand_places [of o2 "defaults ! 0 # fs"]
    show ?thesis unfolding eq by (auto simp: mx_def simp del: expand_fields.simps)
  next
    case 3
    with expand_places [of o2 fs] show ?thesis unfolding eq by (auto simp: mx_def simp del: expand_fields.simps)
  qed (auto simp: eq)
qed

lemma index_prefix:
  assumes "prefix p s" and "index_char c p = Some i"
  shows "index_char c s = Some i"
proof -
  have "index_char c p = Some i \<Longrightarrow> index_char c (p @ t) = Some i" for t i
    by (induction p arbitrary: i) auto
  with assms show ?thesis by (auto simp: prefix_def)
qed

lemma index_after_prefix:
  assumes "prefix p s" and "index_char c s = Some i" and "c \<notin> set p"
  shows "length p \<le> i"
proof -
  have "c \<notin> set p \<Longrightarrow> index_char c (p @ t) = Some i \<Longrightarrow> length p \<le> i" for t i
    by (induction p arbitrary: i) auto
  with assms show ?thesis by (auto simp: prefix_def)
qed

text \<open>The bits of a parsed schedule lie within the bounds of their fields.\<close>

fun schedule_ok :: "'loc Schedule \<Rightarrow> bool" where
  "schedule_ok (SpecSched s) \<longleftrightarrow>
     field_bits seconds (Second s) \<and> field_bits minutes (Minute s) \<and> field_bits hours (Hour s) \<and>
     field_bits dom (Dom s) \<and> field_bits months (Month s) \<and> field_bits dow (Dow s)"
| "schedule_ok (ConstantDelay d) \<longleftrightarrow> second_ns \<le> d \<and> d mod second_ns = 0"

lemma field_bits_const: "bounds_ok r \<Longrightarrow> field_bits r (one_bit r) \<and> field_bits r (whole r)"
proof -
  assume r: "bounds_ok r"
  then have le: "unat (bmin r) \<le> unat (bmax r)" "unat (bmax r) < 63"
    by (simp_all add: bounds_ok_def word_le_nat_alt)
  obtain w where w: "getBits (bmin r) (bmax r) 1 = Some w"
    "\<And>k. bit w k \<longleftrightarrow> k \<in> progression (unat (bmin r)) (unat (bmax r)) (unat (1 :: uint))"
    using getBits_spec [of "bmax r" 1 "bmin r"] le by auto
  then have "whole r = w OR starBit" by (simp add: whole_def getBits_def)
  then have "field_bits r (whole r)"
    using w(2) by (auto simp: field_bits_def bit_or_iff bit_starBit progression_def)
  moreover have "field_bits r (one_bit r)"
    using le bit_shifted_one [of "unat (bmin r)"] by (simp add: field_bits_def one_bit_def)
  ultimately show ?thesis by simp
qed

lemma Every_ok: "second_ns \<le> Every d \<and> Every d mod second_ns = 0 \<and> Every d \<le> max d second_ns \<and>
    max d second_ns - Every d < second_ns"
proof -
  have *: "x - x mod k = k * (x div k)" "0 \<le> x mod k" "x mod k < k" if "0 < k" for x k :: int
    using that by (simp_all add: minus_mod_eq_mult_div)
  have "k \<le> x \<Longrightarrow> 0 < k \<Longrightarrow> k \<le> k * (x div k)" for x k :: int
    using zdiv_mono1 [of k x k] by simp
  then show ?thesis
    using * [of second_ns] by (auto simp: Every_def Let_def second_ns_def max_def)
qed

lemma field_bits_consts [simp]:
  "field_bits seconds (one_bit seconds)" "field_bits minutes (one_bit minutes)"
  "field_bits hours (one_bit hours)" "field_bits dom (one_bit dom)"
  "field_bits months (one_bit months)" "field_bits dow (one_bit dow)"
  "field_bits hours (whole hours)" "field_bits dom (whole dom)"
  "field_bits months (whole months)" "field_bits dow (whole dow)"
  by (simp_all add: field_bits_const field_bounds_ok field_bounds_def)

lemma schedule_ok_spec_of [simp]:
  "schedule_ok (spec_of s m h d mo w loc) \<longleftrightarrow>
     field_bits seconds s \<and> field_bits minutes m \<and> field_bits hours h \<and>
     field_bits dom d \<and> field_bits months mo \<and> field_bits dow w"
  by (simp add: spec_of_def)

lemma parseDescriptor_ok:
  assumes "parseDescriptor pd d loc = Inr sch"
  shows "schedule_ok sch"
proof (cases "cut_prefix d ''@every ''")
  case None
  with assms show ?thesis
    unfolding parseDescriptor_def by (simp split: if_split_asm) (simp only: schedule_ok_spec_of field_bits_consts | force)+
next
  case (Some rest)
  then show ?thesis
  proof (cases "pd rest")
    case None
    with assms Some show ?thesis
      unfolding parseDescriptor_def by (simp split: if_split_asm) force+
  next
    case (Some dur)
    with assms \<open>cut_prefix d _ = _\<close> show ?thesis
      unfolding parseDescriptor_def by (simp split: if_split_asm) (force simp: Every_ok)+
  qed
qed

lemma list_all2_six:
  assumes "list_all2 P [a, b, c, d, e, f] bs"
  shows "P a (bs ! 0) \<and> P b (bs ! 1) \<and> P c (bs ! 2) \<and> P d (bs ! 3) \<and> P e (bs ! 4) \<and> P f (bs ! 5)"
  using assms by (auto simp: list_all2_Cons1)

lemma parse_in_total:
  "\<exists>res. parse_in pd os spec loc = Some res \<and> (\<forall>sch. res = Inr sch \<longrightarrow> schedule_ok sch)"
proof (cases "has_prefix spec ''@''")
  case True
  then show ?thesis using parseDescriptor_ok by (auto simp: parse_in_def)
next
  case False
  obtain res where res: "normalizeFields (fields_space spec) os = Some res"
    "\<And>out. res = Inr out \<Longrightarrow> length out = 6" using normalizeFields_total by blast
  show ?thesis
  proof (cases res)
    case (Inr out)
    then have len: "length out = 6" using res(2) by simp
    have bok: "\<forall>(f, r) \<in> set (zip out field_bounds). bounds_ok r"
      using field_bounds_ok by (auto dest: set_zip_rightD)
    have "map snd (zip out field_bounds) = field_bounds" using len by (simp add: field_bounds_def)
    with parse_fields_total [OF bok] obtain res' where
      res': "parse_fields (zip out field_bounds) = Some res'"
        "\<And>bs. res' = Inr bs \<Longrightarrow> list_all2 field_bits field_bounds bs" by auto
    have "schedule_ok (spec_of (bs ! 0) (bs ! 1) (bs ! 2) (bs ! 3) (bs ! 4) (bs ! 5) loc)"
      if "res' = Inr bs" for bs
      using list_all2_six [of field_bits] res'(2) [OF that] by (simp add: field_bounds_def spec_of_def)
    with False res(1) Inr res'(1) show ?thesis
      by (cases res') (simp_all add: parse_in_def parse_spec_def)
  qed (use False res in \<open>simp add: parse_in_def parse_spec_def\<close>)
qed

section \<open>What a printed field means\<close>

text \<open>
  The grammar of a field: a list of ranges, each a star, a number or a span with an
  optional step. \<open>range_set\<close> is the set of values a range stands for; \<open>N/step\<close> runs to
  the field's maximum.
\<close>

datatype cron_range = RStar "nat option" | RNum nat "nat option" | RSpan nat nat "nat option"

fun show_step :: "nat option \<Rightarrow> string" where
  "show_step None = []"
| "show_step (Some s) = CHR ''/'' # show_nat s"

fun show_base :: "cron_range \<Rightarrow> string" where
  "show_base (RStar st) = ''*''"
| "show_base (RNum a st) = show_nat a"
| "show_base (RSpan a b st) = show_nat a @ CHR ''-'' # show_nat b"

fun step_of :: "cron_range \<Rightarrow> nat option" where
  "step_of (RStar st) = st"
| "step_of (RNum a st) = st"
| "step_of (RSpan a b st) = st"

definition show_range :: "cron_range \<Rightarrow> string" where
  "show_range g = show_base g @ show_step (step_of g)"

fun range_lo :: "bounds \<Rightarrow> cron_range \<Rightarrow> nat" where
  "range_lo r (RStar st) = unat (bmin r)"
| "range_lo r (RNum a st) = a"
| "range_lo r (RSpan a b st) = a"

fun range_hi :: "bounds \<Rightarrow> cron_range \<Rightarrow> nat" where
  "range_hi r (RStar st) = unat (bmax r)"
| "range_hi r (RNum a st) = (if st = None then a else unat (bmax r))"
| "range_hi r (RSpan a b st) = b"

definition step_val :: "cron_range \<Rightarrow> nat" where
  "step_val g = (case step_of g of None \<Rightarrow> 1 | Some s \<Rightarrow> s)"

definition range_ok :: "bounds \<Rightarrow> cron_range \<Rightarrow> bool" where
  "range_ok r g \<longleftrightarrow> unat (bmin r) \<le> range_lo r g \<and> range_lo r g \<le> range_hi r g \<and>
     range_hi r g \<le> unat (bmax r) \<and> 0 < step_val g \<and> step_val g < 2 ^ 63"

definition range_set :: "bounds \<Rightarrow> cron_range \<Rightarrow> nat set" where
  "range_set r g = progression (range_lo r g) (range_hi r g) (step_val g)"

fun starred :: "cron_range \<Rightarrow> bool" where
  "starred (RStar st) = (st = None \<or> st = Some 1)"
| "starred _ = False"

definition field_set :: "bounds \<Rightarrow> cron_range list \<Rightarrow> nat set" where
  "field_set r gs = (\<Union>g \<in> set gs. range_set r g) \<union> (if \<exists>g \<in> set gs. starred g then {63} else {})"

definition show_field :: "cron_range list \<Rightarrow> string" where
  "show_field gs = join_char (CHR '','') (map show_range gs)"

lemma show_nat_chars: "c \<in> set (show_nat n) \<Longrightarrow> is_digit c"
  using show_nat_digits [of n] by (simp add: list_all_iff)

lemma not_in_show_nat [simp]:
  "CHR ''/'' \<notin> set (show_nat n)" "CHR ''-'' \<notin> set (show_nat n)" "CHR '','' \<notin> set (show_nat n)"
  "CHR ''*'' \<notin> set (show_nat n)" "CHR ''?'' \<notin> set (show_nat n)"
  by (auto dest!: show_nat_chars simp: is_digit_def)

lemma show_nat_ne_star [simp]: "show_nat n \<noteq> ''*''" "show_nat n \<noteq> ''?''"
  using not_in_show_nat(4,5) [of n] by (metis list.set_intros(1))+

lemma to_lower_digits: "list_all is_digit s \<Longrightarrow> to_lower s = s"
  by (induction s) (auto simp: is_digit_def)

lemma parse_number:
  assumes "bounds_ok r" and "n < 2 ^ 63"
  shows "parseIntOrName (show_nat n) (names r) = Inr (of_nat n)" and "mustParseInt (show_nat n) = Inr (of_nat n)"
proof -
  show m: "mustParseInt (show_nat n) = Inr (of_nat n)"
    using assms(2) by (simp add: mustParseInt_def atoi_show)
  have "m (show_nat n) = None" if "names r = Some m" for m
  proof (rule ccontr)
    assume "m (show_nat n) \<noteq> None"
    then obtain v where "m (show_nat n) = Some v" by blast
    with assms(1) that have "\<not> list_all is_digit (show_nat n)" unfolding bounds_ok_def by blast
    then show False using show_nat_digits by simp
  qed
  with m show "parseIntOrName (show_nat n) (names r) = Inr (of_nat n)"
    by (auto simp: parseIntOrName_def to_lower_digits show_nat_digits split: option.splits)
qed

lemma split_range:
  "split_char (CHR ''/'') (show_range g) =
     show_base g # (case step_of g of None \<Rightarrow> [] | Some s \<Rightarrow> [show_nat s])"
proof -
  have "CHR ''/'' \<notin> set (show_base g)" by (cases g) auto
  then show ?thesis
    by (cases "step_of g") (simp_all add: show_range_def split_char_single split_char_append)
qed

lemma split_base:
  "split_char (CHR ''-'') (show_base g) =
     (case g of RStar st \<Rightarrow> [''*''] | RNum a st \<Rightarrow> [show_nat a] | RSpan a b st \<Rightarrow> [show_nat a, show_nat b])"
  by (cases g) (simp_all add: split_char_single split_char_append)

lemma unat_small: "n < 2 ^ 63 \<Longrightarrow> unat (of_nat n :: uint) = n"
  by (simp add: unat_of_nat)

lemma range_ends_show:
  assumes "bounds_ok r" and "range_ok r g"
  shows "\<exists>lo hi. range_ends e (split_char (CHR ''-'') (show_base g)) r =
      Inr (lo, hi, if (\<exists>st. g = RStar st) then starBit else 0) \<and> unat lo = range_lo r g \<and>
      (if \<exists>a st. g = RNum a st then unat hi = range_lo r g else unat hi = range_hi r g)"
proof -
  have "unat (bmax r) < 63" using assms(1) by (simp add: bounds_ok_def)
  with assms(2) have lt: "range_lo r g < 2 ^ 63" "range_hi r g < 2 ^ 63" by (auto simp: range_ok_def)
  show ?thesis
    using lt by (cases g) (auto simp: split_char_single split_char_append range_ends_def parse_number [OF assms(1)] unat_small)
qed

lemma getRange_show:
  assumes "bounds_ok r" and "range_ok r g"
  shows "\<exists>w. getRange (show_range g) r = Some (Inr w) \<and>
    (\<forall>k. bit w k \<longleftrightarrow> k \<in> range_set r g \<or> k = 63 \<and> starred g)"
proof -
  let ?e = "show_range g"
  let ?rs = "split_char (CHR ''/'') ?e"
  let ?lh = "split_char (CHR ''-'') (show_base g)"
  let ?x0 = "if (\<exists>st. g = RStar st) then starBit else 0"
  obtain lo hi where ends: "range_ends ?e ?lh r = Inr (lo, hi, ?x0)" "unat lo = range_lo r g"
    "if \<exists>a st. g = RNum a st then unat hi = range_lo r g else unat hi = range_hi r g"
    using range_ends_show [OF assms] by blast
  have sv: "0 < step_val g" "step_val g < 2 ^ 63" using assms(2) by (simp_all add: range_ok_def)
  have one: "unat (1 :: uint) = 1" by simp
  have gt1: "(of_nat s :: uint) > 1 \<longleftrightarrow> s > 1" if "s < 2 ^ 63" for s
    using that unat_small [OF that] by (metis one word_less_nat_alt)
  have "\<exists>hi'. range_step ?e ?rs (length ?lh = 1) r hi ?x0 =
      Inr (of_nat (step_val g), hi', if starred g then starBit else 0) \<and> unat hi' = range_hi r g"
  proof (cases "step_of g")
    case None
    then show ?thesis using ends(3) by (cases g) (auto simp: range_step_def split_range step_val_def)
  next
    case (Some s)
    then have s: "step_val g = s" by (simp add: step_val_def)
    have rs: "?rs = [show_base g, show_nat s]" by (simp add: split_range Some)
    have "range_step ?e ?rs b r hi ?x0 =
        Inr (of_nat s, if b then bmax r else hi, if s > 1 then 0 else ?x0)" for b
      using sv(2) gt1 [OF sv(2)] by (simp add: range_step_def rs s parse_number(2) [OF assms(1)])
    moreover have "length ?lh = 1 \<longleftrightarrow> (\<forall>a b st. g \<noteq> RSpan a b st)"
      by (cases g) (simp_all add: split_char_single split_char_append)
    moreover have "starred g \<longleftrightarrow> (\<exists>st. g = RStar st) \<and> \<not> s > 1"
      using Some sv(1) s by (cases g) auto
    ultimately show ?thesis using ends(3) Some by (cases g) (auto simp: step_val_def)
  qed
  then obtain hi' where step: "range_step ?e ?rs (length ?lh = 1) r hi ?x0 =
      Inr (of_nat (step_val g), hi', if starred g then starBit else 0)" "unat hi' = range_hi r g" by blast
  have us: "unat (of_nat (step_val g) :: uint) = step_val g" using sv(2) by (rule unat_small)
  have ok: "\<not> lo < bmin r" "\<not> hi' > bmax r" "\<not> lo > hi'" "(of_nat (step_val g) :: uint) \<noteq> 0"
    using assms(2) ends(2) step(2) sv us
    by (auto simp: range_ok_def word_less_nat_alt)
  have "unat hi' < 63" using assms step(2) by (simp add: bounds_ok_def range_ok_def)
  from getBits_spec [OF this, of "of_nat (step_val g)" lo] obtain w where
    w: "getBits lo hi' (of_nat (step_val g)) = Some w" "\<And>k. bit w k \<longleftrightarrow> k \<in> range_set r g"
    using us sv ends(2) step(2) assms by (auto simp: range_set_def range_ok_def bounds_ok_def)
  have "?rs ! 0 = show_base g" by (simp add: split_range)
  with ends(1) step(1) ok w(1)
  have "getRange ?e r = Some (Inr (w OR (if starred g then starBit else 0)))"
    by (simp add: getRange_def Let_def)
  then show ?thesis using w(2) by (auto simp: bit_or_iff bit_starBit)
qed

lemma field_loop_show:
  assumes "bounds_ok r" and "list_all (range_ok r) gs"
  shows "\<exists>w. field_loop r (map show_range gs) b = Some (Inr w) \<and>
    (\<forall>k. bit w k \<longleftrightarrow> bit b k \<or> k \<in> field_set r gs)"
  using assms(2)
proof (induction gs arbitrary: b)
  case (Cons g gs)
  obtain w where w: "getRange (show_range g) r = Some (Inr w)"
    "\<And>k. bit w k \<longleftrightarrow> k \<in> range_set r g \<or> k = 63 \<and> starred g"
    using getRange_show [OF assms(1)] Cons.prems by auto
  obtain v where v: "field_loop r (map show_range gs) (b OR w) = Some (Inr v)"
    "\<And>k. bit v k \<longleftrightarrow> bit (b OR w) k \<or> k \<in> field_set r gs" using Cons by auto
  have "bit v k \<longleftrightarrow> bit b k \<or> k \<in> field_set r (g # gs)" for k
    using v(2) [of k] w(2) [of k] by (auto simp: bit_or_iff field_set_def)
  with v(1) w(1) show ?case by auto
qed (simp add: field_set_def)

lemma show_range_chars:
  assumes "c \<in> set (show_range g)"
  shows "is_digit c \<or> c \<in> {CHR ''*'', CHR ''/'', CHR ''-''}"
proof -
  have "c \<in> set (show_base g) \<Longrightarrow> is_digit c \<or> c \<in> {CHR ''*'', CHR ''-''}"
    by (cases g) (auto dest: show_nat_chars)
  moreover have "c \<in> set (show_step st) \<Longrightarrow> is_digit c \<or> c = CHR ''/''" for st
    by (cases st) (auto dest: show_nat_chars)
  ultimately show ?thesis using assms by (auto simp: show_range_def)
qed

lemma show_range_nonempty [simp]: "show_range g \<noteq> []"
  by (cases g) (simp_all add: show_range_def)

lemma getField_show:
  assumes "bounds_ok r" and "list_all (range_ok r) gs" and "gs \<noteq> []"
  shows "\<exists>w. getField (show_field gs) r = Some (Inr w) \<and> (\<forall>k. bit w k \<longleftrightarrow> k \<in> field_set r gs)"
proof -
  have "CHR '','' \<notin> set (show_range g)" for g
    by (auto dest!: show_range_chars simp: is_digit_def)
  then have "split_char (CHR '','') (show_field gs) = map show_range gs"
    unfolding show_field_def using assms(3) by (intro split_join_char) auto
  then have "fields_char (CHR '','') (show_field gs) = map show_range gs"
    by (simp add: fields_char_def filter_id_conv)
  with field_loop_show [OF assms(1,2), of 0] show ?thesis by (simp add: getField_def)
qed

text \<open>Words without white space, joined by blanks, are the fields of the joined string.\<close>

definition graphic :: "string \<Rightarrow> bool" where
  "graphic w \<longleftrightarrow> w \<noteq> [] \<and> list_all (\<lambda>c. 33 \<le> (of_char c :: nat) \<and> (of_char c :: nat) \<le> 127) w"

lemma not_starts_space:
  assumes "33 \<le> (of_char c :: nat)" and "(of_char c :: nat) \<le> 127"
  shows "\<not> starts_space (c # cs)"
proof
  assume "starts_space (c # cs)"
  then obtain r where "r \<in> set space_runes" "hd r = c"
    unfolding starts_space_def list_ex_iff by (metis list.sel(1) prefix_Cons prefix_code(1) list.exhaust_sel)
  then have "(of_char c :: nat) \<in> {9, 10, 11, 12, 13, 32, 194, 225, 226, 227}"
    by (auto simp: space_runes_def)
  with assms show False by auto
qed

lemma span_word_graphic:
  assumes "list_all (\<lambda>c. 33 \<le> (of_char c :: nat) \<and> (of_char c :: nat) \<le> 127) w"
    and "s = [] \<or> starts_space s"
  shows "span_word (w @ s) = (w, s)"
  using assms(1)
proof (induction w)
  case Nil
  then show ?case using assms(2) by (cases s) auto
next
  case (Cons c w)
  then show ?case by (simp add: not_starts_space)
qed

lemma trim_left_graphic:
  assumes "graphic w"
  shows "trim_left (w @ s) = w @ s" and "trim_left (CHR '' '' # w @ s) = w @ s"
proof -
  have stop: "trim_runes space_runes t = t" if "\<not> starts_space t" for t
  proof -
    have "find (\<lambda>r. r \<noteq> [] \<and> prefix r t) space_runes = None"
      using that by (auto simp: starts_space_def list_ex_iff find_None_iff)
    then show ?thesis by (subst trim_runes.simps) simp
  qed
  obtain c w' where w: "w = c # w'" using assms by (cases w) (auto simp: graphic_def)
  have ns: "\<not> starts_space (w @ s)" using assms not_starts_space by (simp add: graphic_def w)
  then show "trim_left (w @ s) = w @ s" by (simp add: trim_left_def stop)
  have "find (\<lambda>r. r \<noteq> [] \<and> prefix r (CHR '' '' # w @ s)) space_runes = Some [CHR '' '']"
    by (simp add: space_runes_def)
  then show "trim_left (CHR '' '' # w @ s) = w @ s"
    using stop [OF ns] by (subst trim_left_def, subst trim_runes.simps) simp
qed

lemma starts_space_blank: "starts_space (CHR '' '' # s)"
  by (simp add: starts_space_def space_runes_def)

lemma fields_space_join:
  assumes "list_all graphic ws"
  shows "fields_space (join_char (CHR '' '') ws) = ws"
proof -
  have "fields_space (CHR '' '' # join_char (CHR '' '') ws) = ws" if "ws \<noteq> []" "list_all graphic ws" for ws
    using that
  proof (induction ws)
    case (Cons w ws)
    let ?t = "if ws = [] then [] else CHR '' '' # join_char (CHR '' '') ws"
    have j: "join_char (CHR '' '') (w # ws) = w @ ?t" by (cases ws) auto
    have g: "graphic w" using Cons.prems by simp
    have "span_word (w @ ?t) = (w, ?t)"
      by (rule span_word_graphic) (use g in \<open>auto simp: graphic_def starts_space_blank\<close>)
    moreover have "w @ ?t \<noteq> []" using g by (simp add: graphic_def)
    moreover have "fields_space [] = []"
      by (subst fields_space.simps) (simp add: trim_left_def trim_runes.simps space_runes_def)
    ultimately show ?case
      using Cons trim_left_graphic(2) [OF g, of ?t]
      by (subst fields_space.simps) (auto simp: j)
  qed simp
  note blank = this
  show ?thesis
  proof (cases ws)
    case Nil
    then show ?thesis
      by (subst fields_space.simps) (simp add: trim_left_def trim_runes.simps space_runes_def)
  next
    case (Cons w ws')
    then have g: "graphic w" using assms by simp
    then have ne: "join_char (CHR '' '') ws \<noteq> []" by (cases ws') (auto simp: Cons graphic_def)
    have "\<exists>s. join_char (CHR '' '') ws = w @ s" by (cases ws') (auto simp: Cons)
    then obtain s where s: "join_char (CHR '' '') ws = w @ s" by blast
    have "fields_space (w @ s) = fields_space (CHR '' '' # w @ s)"
      using trim_left_graphic [OF g, of s] by (subst (1 2) fields_space.simps) simp
    with blank [of ws] assms s show ?thesis by (simp add: Cons)
  qed
qed

lemma standard_opts:
  "\<not> has_opt standardParser optSecond" "\<not> has_opt standardParser optSecondOptional"
  "has_opt standardParser optMinute" "has_opt standardParser optHour" "has_opt standardParser optDom"
  "has_opt standardParser optMonth" "has_opt standardParser optDow"
  "\<not> has_opt standardParser optDowOptional"
  unfolding has_opt_def standardParser_def optSecond_def optSecondOptional_def optMinute_def optHour_def
    optDom_def optMonth_def optDow_def optDowOptional_def optDescriptor_def
  by simp_all

lemma normalize_standard:
  "normalizeFields [a, b, c, d, e] standardParser = Some (Inr [''0'', a, b, c, d, e])"
  by (simp add: normalizeFields_def Let_def standard_opts places_def defaults_def)

lemma show_field_graphic:
  assumes "gs \<noteq> []"
  shows "graphic (show_field gs)" and "hd (show_field gs) \<in> {c. is_digit c \<or> c = CHR ''*''}"
proof -
  have ch: "is_digit c \<or> c \<in> {CHR ''*'', CHR ''/'', CHR ''-'', CHR '',''}" if "c \<in> set (join_char (CHR '','') (map show_range gs))" for c gs
    using that
  proof (induction gs)
    case (Cons g gs)
    then show ?case by (cases gs) (auto dest: show_range_chars)
  qed simp
  have ne: "show_field gs \<noteq> []"
  proof -
    obtain g gs' where g: "gs = g # gs'" using assms by (cases gs) auto
    then show ?thesis by (cases gs') (simp_all add: show_field_def)
  qed
  have "33 \<le> (of_char c :: nat) \<and> (of_char c :: nat) \<le> 127" if "c \<in> set (show_field gs)" for c
    using ch that unfolding show_field_def is_digit_def by force
  with ne show "graphic (show_field gs)" by (simp add: graphic_def list_all_iff)
  obtain g gs' where g: "gs = g # gs'" using assms by (cases gs) auto
  have "show_base g \<noteq> []" by (cases g) auto
  then have hd: "hd (show_field gs) = hd (show_base g)"
    by (cases gs') (simp_all add: g show_field_def show_range_def)
  have "hd (show_base g) \<in> {c. is_digit c \<or> c = CHR ''*''}"
    using show_nat_chars [OF hd_in_set [OF show_nat_nonempty]] by (cases g) auto
  with hd show "hd (show_field gs) \<in> {c. is_digit c \<or> c = CHR ''*''}" by simp
qed

lemma parse_seconds: "getField ''0'' seconds = Some (Inr 1)"
  by code_simp

lemma parse_fields_show:
  assumes "list_all2 (\<lambda>gs r. bounds_ok r \<and> gs \<noteq> [] \<and> list_all (range_ok r) gs) gss rs"
  shows "\<exists>bs. parse_fields (zip (map show_field gss) rs) = Some (Inr bs) \<and> length bs = length gss \<and>
    (\<forall>i < length gss. \<forall>k. bit (bs ! i) k \<longleftrightarrow> k \<in> field_set (rs ! i) (gss ! i))"
  using assms
proof (induction rule: list_all2_induct)
  case (Cons gs gss r rs)
  obtain w where w: "getField (show_field gs) r = Some (Inr w)" "\<And>k. bit w k \<longleftrightarrow> k \<in> field_set r gs"
    using getField_show Cons.hyps(1) by blast
  obtain bs where bs: "parse_fields (zip (map show_field gss) rs) = Some (Inr bs)" "length bs = length gss"
    "\<And>i k. i < length gss \<Longrightarrow> bit (bs ! i) k \<longleftrightarrow> k \<in> field_set (rs ! i) (gss ! i)"
    using Cons.IH by blast
  have "bit ((w # bs) ! i) k \<longleftrightarrow> k \<in> field_set ((r # rs) ! i) ((gs # gss) ! i)" if "i < length (gs # gss)" for i k
    using that w(2) bs(3) by (cases i) auto
  with w(1) bs(1,2) show ?case by auto
qed simp

section \<open>Properties\<close>

text \<open>C22: a standard spec of five fields, each a list of ranges written with stars,
  numbers, spans and steps, is parsed to the schedule whose bit sets hold exactly the values the
  fields stand for, with the star bit for a field that has an unrestricted star, at second 0 and
  in the local zone.\<close>

theorem cron_standard_meaning:
  assumes "length gss = 5"
    and "list_all2 (\<lambda>gs r. gs \<noteq> [] \<and> list_all (range_ok r) gs) gss [minutes, hours, dom, months, dow]"
  shows "\<exists>s. ParseStandard loadLocation local parseDuration (join_char (CHR '' '') (map show_field gss)) =
      Some (Inr (SpecSched s)) \<and> Second s = 1 \<and> Location s = local \<and>
      (\<forall>k. (bit (Minute s) k \<longleftrightarrow> k \<in> field_set minutes (gss ! 0)) \<and>
           (bit (Hour s) k \<longleftrightarrow> k \<in> field_set hours (gss ! 1)) \<and>
           (bit (Dom s) k \<longleftrightarrow> k \<in> field_set dom (gss ! 2)) \<and>
           (bit (Month s) k \<longleftrightarrow> k \<in> field_set months (gss ! 3)) \<and>
           (bit (Dow s) k \<longleftrightarrow> k \<in> field_set dow (gss ! 4)))"
proof -
  let ?fs = "map show_field gss"
  let ?spec = "join_char (CHR '' '') ?fs"
  obtain a b c d e where gss: "gss = [a, b, c, d, e]" using assms(1)
    by (auto simp: length_Suc_conv numeral_eq_Suc)
  have ne: "list_all (\<lambda>gs. gs \<noteq> []) gss" using assms(2) by (simp add: gss)
  then have "list_all graphic ?fs" using show_field_graphic(1) by (auto simp: list_all_iff)
  then have flds: "fields_space ?spec = ?fs" by (rule fields_space_join)
  have "?spec = show_field a @ CHR '' '' # join_char (CHR '' '') (map show_field [b, c, d, e])"
    by (simp add: gss)
  moreover have "show_field a \<noteq> []" using show_field_graphic(1) [of a] ne by (simp add: gss graphic_def)
  ultimately have hd: "hd ?spec \<in> {c. is_digit c \<or> c = CHR ''*''}" "?spec \<noteq> []"
    using show_field_graphic(2) [of a] ne by (simp_all add: gss)
  then have "\<not> has_prefix ?spec ''TZ=''" "\<not> has_prefix ?spec ''CRON_TZ=''" "\<not> has_prefix ?spec ''@''"
    by (cases ?spec; auto simp: has_prefix_def is_digit_def)+
  then have "ParseStandard loadLocation local parseDuration ?spec = parse_spec standardParser ?spec local"
    using hd(2) by (simp add: ParseStandard_def Parse_def parse_in_def)
  also have "\<dots> = (case parse_fields ((''0'', seconds) # zip ?fs [minutes, hours, dom, months, dow]) of
        None \<Rightarrow> None | Some (Inl e) \<Rightarrow> Some (Inl e)
      | Some (Inr bs) \<Rightarrow> Some (Inr (spec_of (bs ! 0) (bs ! 1) (bs ! 2) (bs ! 3) (bs ! 4) (bs ! 5) local)))"
    unfolding parse_spec_def flds by (simp only: gss list.map normalize_standard) (simp add: field_bounds_def)
  finally have parse: "ParseStandard loadLocation local parseDuration ?spec = \<dots>" .
  have "list_all2 (\<lambda>gs r. bounds_ok r \<and> gs \<noteq> [] \<and> list_all (range_ok r) gs) gss [minutes, hours, dom, months, dow]"
    using assms(2) field_bounds_ok by (simp add: gss field_bounds_def)
  from parse_fields_show [OF this] obtain bs where
    bs: "parse_fields (zip ?fs [minutes, hours, dom, months, dow]) = Some (Inr bs)" "length bs = 5"
      "\<forall>i < 5. \<forall>k. bit (bs ! i) k \<longleftrightarrow> k \<in> field_set ([minutes, hours, dom, months, dow] ! i) (gss ! i)"
    using assms(1) by auto
  let ?s = "\<lparr>Second = 1, Minute = bs ! 0, Hour = bs ! 1, Dom = bs ! 2, Month = bs ! 3, Dow = bs ! 4, Location = local\<rparr>"
  have "ParseStandard loadLocation local parseDuration ?spec = Some (Inr (SpecSched ?s))"
    unfolding parse by (simp add: parse_seconds bs(1) spec_of_def numeral_eq_Suc)
  moreover have "\<forall>k. (bit (bs ! 0) k \<longleftrightarrow> k \<in> field_set minutes (gss ! 0)) \<and>
      (bit (bs ! 1) k \<longleftrightarrow> k \<in> field_set hours (gss ! 1)) \<and> (bit (bs ! 2) k \<longleftrightarrow> k \<in> field_set dom (gss ! 2)) \<and>
      (bit (bs ! 3) k \<longleftrightarrow> k \<in> field_set months (gss ! 3)) \<and> (bit (bs ! 4) k \<longleftrightarrow> k \<in> field_set dow (gss ! 4))"
    using bs(3) by (simp add: numeral_eq_Suc all_conj_distrib less_Suc_eq)
  ultimately show ?thesis by (intro exI [of _ ?s]) simp
qed

text \<open>C35: \<^verbatim>\<open>Parse\<close> returns on every spec whatsoever, with no panic and no endless loop, and
  a schedule it accepts is sound: every bit of a field lies within that field's bounds (or is the star
  bit), and a constant delay is a whole number of seconds, at least one.\<close>

theorem cron_parse_total:
  "\<exists>res. Parse loadLocation local parseDuration os spec = Some res \<and> pred_sum (\<lambda>_. True) schedule_ok res"
proof -
  have total: "\<exists>res. parse_in parseDuration os sp loc = Some res \<and> pred_sum (\<lambda>_. True) schedule_ok res" for sp loc
  proof -
    obtain res where "parse_in parseDuration os sp loc = Some res" "\<And>sch. res = Inr sch \<Longrightarrow> schedule_ok sch"
      using parse_in_total [of parseDuration os sp loc] by auto
    then show ?thesis by (cases res) auto
  qed
  have "eq + 1 \<le> i" if p: "has_prefix spec ''TZ='' \<or> has_prefix spec ''CRON_TZ=''"
    and "index_char (CHR '' '') spec = Some i" "index_char (CHR ''='') spec = Some eq" for i eq
  proof -
    from p obtain q where q: "prefix q spec" "q = ''TZ='' \<or> q = ''CRON_TZ=''" by (auto simp: has_prefix_def)
    then have "index_char (CHR ''='') spec = Some (length q - 1)" by (intro index_prefix [OF q(1)]) auto
    moreover have "length q \<le> i" by (rule index_after_prefix [OF q(1) that(2)]) (use q(2) in auto)
    ultimately show ?thesis using that(3) q(2) by auto
  qed
  note after = this
  show ?thesis
  proof (cases "spec \<noteq> [] \<and> (has_prefix spec ''TZ='' \<or> has_prefix spec ''CRON_TZ='')")
    case False
    then show ?thesis using total [of spec local] by (cases "spec = []") (auto simp: Parse_def)
  next
    case True
    show ?thesis
    proof (cases "\<exists>i eq. index_char (CHR '' '') spec = Some i \<and> index_char (CHR ''='') spec = Some eq")
      case False
      with True show ?thesis by (auto simp: Parse_def split: option.splits)
    next
      case idx: True
      then obtain i eq where i: "index_char (CHR '' '') spec = Some i" "index_char (CHR ''='') spec = Some eq" by blast
      with True after have "eq + 1 \<le> i" by blast
      then show ?thesis using True i total
        by (cases "loadLocation (drop (eq + 1) (take i spec))") (simp_all add: Parse_def Let_def)
    qed
  qed
qed

lemma shifted_and_pos:
  assumes "n < 64"
  shows "push_bit n 1 AND w > 0 \<longleftrightarrow> bit (w :: uint) n"
proof -
  have "push_bit n 1 AND w = 0 \<longleftrightarrow> \<not> bit w n"
  proof
    assume "push_bit n 1 AND w = 0"
    then have "\<not> bit (push_bit n 1 AND w) n" by simp
    then show "\<not> bit w n" using bit_shifted_one [OF assms, of n] by (simp only: bit_and_iff) simp
  next
    assume "\<not> bit w n"
    then show "push_bit n 1 AND w = 0"
      by (intro bit_word_eqI) (simp only: bit_and_iff bit_shifted_one [OF assms] bit_0_eq, auto)
  qed
  then show ?thesis by (metis word_gt_0)
qed

text \<open>The day rule: with an unrestricted star in either day field a day must match both
  fields; when both are restricted it is enough to match one.\<close>

theorem cron_day_rule:
  assumes "\<forall>k. bit (Dom s) k \<longleftrightarrow> k \<in> field_set dom ds" and "\<forall>k. bit (Dow s) k \<longleftrightarrow> k \<in> field_set dow ws"
    and "list_all (range_ok dom) ds" and "list_all (range_ok dow) ws"
    and "day \<le> 31" and "weekday \<le> 6"
  shows "dayMatches s day weekday \<longleftrightarrow>
    (if (\<exists>g \<in> set ds. starred g) \<or> (\<exists>g \<in> set ws. starred g)
     then (\<exists>g \<in> set ds. day \<in> range_set dom g) \<and> (\<exists>g \<in> set ws. weekday \<in> range_set dow g)
     else (\<exists>g \<in> set ds. day \<in> range_set dom g) \<or> (\<exists>g \<in> set ws. weekday \<in> range_set dow g))"
proof -
  have star: "w AND starBit > 0 \<longleftrightarrow> bit w 63" for w :: uint
    using shifted_and_pos [of 63 w] unfolding starBit_def by (simp only: and.commute)
  have no63: "63 \<notin> range_set dom g" if "g \<in> set ds" for g
    using that assms(3) by (auto simp: list_all_iff range_set_def progression_def range_ok_def dom_def)
  have no63': "63 \<notin> range_set dow g" if "g \<in> set ws" for g
    using that assms(4) by (auto simp: list_all_iff range_set_def progression_def range_ok_def dow_def)
  have "push_bit day 1 AND Dom s > 0 \<longleftrightarrow> (\<exists>g \<in> set ds. day \<in> range_set dom g)"
    using shifted_and_pos [of day "Dom s"] assms(1,5) by (auto simp: field_set_def)
  moreover have "push_bit weekday 1 AND Dow s > 0 \<longleftrightarrow> (\<exists>g \<in> set ws. weekday \<in> range_set dow g)"
    using shifted_and_pos [of weekday "Dow s"] assms(2,6) by (auto simp: field_set_def)
  moreover have "Dom s AND starBit > 0 \<longleftrightarrow> (\<exists>g \<in> set ds. starred g)"
    using star [of "Dom s"] assms(1) no63 by (auto simp: field_set_def)
  moreover have "Dow s AND starBit > 0 \<longleftrightarrow> (\<exists>g \<in> set ws. starred g)"
    using star [of "Dow s"] assms(2) no63' by (auto simp: field_set_def)
  ultimately show ?thesis by (simp only: dayMatches_def Let_def)
qed

text \<open>An \<^verbatim>\<open>@every\<close> schedule runs on whole seconds, at least a second apart: its delay
  is the requested duration cut to whole seconds, and never less than one; the next activation is later than
  now and at most the delay away, and activations then follow one another exactly the delay apart.\<close>

theorem cron_every_period:
  "let delay = Every d; t1 = ConstantDelay_Next delay t in
     second_ns \<le> delay \<and> max d second_ns - second_ns < delay \<and> delay \<le> max d second_ns \<and>
     t < t1 \<and> t1 \<le> t + delay \<and> t1 mod second_ns = 0 \<and> ConstantDelay_Next delay t1 = t1 + delay"
proof -
  note e = Every_ok [of d]
  have m: "0 \<le> t mod second_ns" "t mod second_ns < second_ns" by (simp_all add: second_ns_def)
  have "(t + (Every d - t mod second_ns)) mod second_ns = ((t - t mod second_ns) + Every d) mod second_ns"
    by (simp add: algebra_simps)
  also have "\<dots> = 0" using e by (metis add_0 mod_add_eq minus_mod_self2 mod_0 minus_mod_eq_mult_div mod_mult_self1_is_0)
  finally have z: "(t + (Every d - t mod second_ns)) mod second_ns = 0" .
  have "t mod second_ns < Every d" using e m by linarith
  with e m(1) z show ?thesis by (simp add: Let_def ConstantDelay_Next_def)
qed

text \<open>Two malformed fields are accepted: a field of commas alone parses to the
  empty set, so that the schedule never runs, and whatever follows the hyphen after a
  star is ignored.\<close>

theorem cron_accepts_malformed:
  "getField '','' minutes = Some (Inr 0) \<and> getField ''*-x'' minutes = getField ''*'' minutes"
  by code_simp

section \<open>Witnesses\<close>

definition demo_fields :: "cron_range list list" where
  "demo_fields = [[RStar (Some 15)], [RSpan 9 17 None], [RStar None], [RNum 1 None, RNum 6 (Some 3)], [RSpan 1 5 None]]"

lemma demo_fields_ok:
  "length demo_fields = 5"
  "list_all2 (\<lambda>gs r. gs \<noteq> [] \<and> list_all (range_ok r) gs) demo_fields [minutes, hours, dom, months, dow]"
  by (simp_all add: demo_fields_def range_ok_def step_val_def minutes_def hours_def dom_def months_def dow_def)

theorem cron_standard_meaning_witness:
  "\<exists>s. ParseStandard (\<lambda>_. None) () (\<lambda>_. None) ''*/15 9-17 * 1,6/3 1-5'' = Some (Inr (SpecSched s)) \<and>
     bit (Minute s) 45 \<and> \<not> bit (Minute s) 20 \<and> bit (Month s) 9"
proof -
  have printed: "join_char (CHR '' '') (map show_field demo_fields) = ''*/15 9-17 * 1,6/3 1-5''" by code_simp
  have "(45::nat) = 0 + 3 * 15" "(9::nat) = 6 + 1 * 3" by simp_all
  then have sets: "45 \<in> field_set minutes (demo_fields ! 0)" "20 \<notin> field_set minutes (demo_fields ! 0)"
    "9 \<in> field_set months (demo_fields ! 3)"
    unfolding field_set_def range_set_def progression_def
    by (auto simp: demo_fields_def step_val_def minutes_def months_def) presburger+
  from cron_standard_meaning [OF demo_fields_ok, of "\<lambda>_. None" "()" "\<lambda>_. None"] show ?thesis
    unfolding printed using sets by blast
qed

theorem cron_day_rule_witness:
  "dayMatches \<lparr>Second = 1, Minute = 1, Hour = 1, Dom = 2, Month = 2, Dow = 2, Location = ()\<rparr> 1 0 \<and>
   dayMatches \<lparr>Second = 1, Minute = 1, Hour = 1, Dom = 2, Month = 2, Dow = 2, Location = ()\<rparr> 8 1"
proof -
  let ?s = "\<lparr>Second = 1, Minute = 1, Hour = 1, Dom = 2, Month = 2, Dow = 2, Location = ()\<rparr>"
  have two: "bit (2 :: uint) k \<longleftrightarrow> k = 1" for k
    using bit_shifted_one [of 1 k] by simp
  have set: "field_set r [RNum 1 None] = {1}" for r
    by (auto simp: field_set_def range_set_def step_val_def progression_def)
  have "dayMatches ?s day wd \<longleftrightarrow> day = 1 \<or> wd = 1" if "day \<le> 31" "wd \<le> 6" for day wd
    using cron_day_rule [of ?s "[RNum 1 None]" "[RNum 1 None]" day wd] that two set
    by (simp add: range_ok_def step_val_def dom_def dow_def range_set_def progression_def) auto
  from this [of 1 0] this [of 8 1] show ?thesis by simp
qed

end
