(* ===== verification/Jobs_Relay.thy ===== *)
theory Jobs_Relay
  imports Chok_Prelude "HOL-Library.Product_Lexorder"
begin

text \<open>
  The relay that hands enqueued messages to a worker (\<^verbatim>\<open>jobs/relay.go\<close>, \<^verbatim>\<open>jobs/state.go\<close>):
  scanning in the order of creation, the persisted watermark, the revisit of late commits
  behind it, retries with backoff, dead letters and acknowledgements.

  What happens around a sweep is a \<open>world\<close>: the clock, which statements fail, which rows
  other transactions commit meanwhile, when a stop begins and what the handler does, each
  a function of a counter that every statement and handler call advances. A property for
  every world is one for every interleaving.
\<close>

section \<open>Rows\<close>

record message =
  mid :: nat
  createdAt :: instant
  mtopic :: string
  payload :: bytes
  attempts :: int
  retryAt :: "instant option"
  lastError :: string
  completedAt :: "instant option"

record deadRow =
  did :: nat
  dtopic :: string
  dpayload :: bytes
  dcreatedAt :: instant
  parkedAt :: instant
  dattempts :: int
  dlastError :: string

record watermark =
  At :: instant
  ID :: nat
  ok :: bool

text \<open>The zero \<^verbatim>\<open>time.Time\<close> is the origin.\<close>

definition no_watermark :: watermark where
  "no_watermark = \<lparr>At = 0, ID = 0, ok = False\<rparr>"

definition covers :: "watermark \<Rightarrow> instant \<Rightarrow> nat \<Rightarrow> bool" where
  "covers w at i =
     (if \<not> ok w then False else if at < At w then True else at = At w \<and> i \<le> ID w)"

definition after :: "watermark \<Rightarrow> instant \<Rightarrow> nat \<Rightarrow> bool" where
  "after w at i = (\<not> covers w at i)"

section \<open>Retry delay\<close>

fun delay_loop :: "duration \<Rightarrow> nat \<Rightarrow> duration \<Rightarrow> duration" where
  "delay_loop mx 0 d = min d mx"
| "delay_loop mx (Suc k) d =
     (if d < mx then (if d > mx div 2 then mx else delay_loop mx k (wrap64 (d * 2))) else min d mx)"

definition delay :: "duration \<Rightarrow> duration \<Rightarrow> int \<Rightarrow> duration" where
  "delay backoff maxBackoff n = delay_loop maxBackoff (nat (n - 1)) backoff"

section \<open>Error texts\<close>

definition byte_in :: "nat \<Rightarrow> nat \<Rightarrow> char \<Rightarrow> bool" where
  "byte_in lo hi c \<longleftrightarrow> lo \<le> (of_char c :: nat) \<and> (of_char c :: nat) \<le> hi"

text \<open>\<^verbatim>\<open>utf8.ValidString\<close>: the well-formed byte sequences.\<close>

fun valid_utf8 :: "string \<Rightarrow> bool" where
  "valid_utf8 [] = True"
| "valid_utf8 (a # s) =
     (byte_in 0x00 0x7F a \<and> valid_utf8 s \<or>
      (case s of
         [] \<Rightarrow> False
       | b # s1 \<Rightarrow>
           byte_in 0xC2 0xDF a \<and> byte_in 0x80 0xBF b \<and> valid_utf8 s1 \<or>
           (case s1 of
              [] \<Rightarrow> False
            | c # s2 \<Rightarrow>
                (byte_in 0xE0 0xE0 a \<and> byte_in 0xA0 0xBF b \<or>
                 (byte_in 0xE1 0xEC a \<or> byte_in 0xEE 0xEF a) \<and> byte_in 0x80 0xBF b \<or>
                 byte_in 0xED 0xED a \<and> byte_in 0x80 0x9F b) \<and> byte_in 0x80 0xBF c \<and> valid_utf8 s2 \<or>
                (case s2 of
                   [] \<Rightarrow> False
                 | d # s3 \<Rightarrow>
                     (byte_in 0xF0 0xF0 a \<and> byte_in 0x90 0xBF b \<or>
                      byte_in 0xF1 0xF3 a \<and> byte_in 0x80 0xBF b \<or>
                      byte_in 0xF4 0xF4 a \<and> byte_in 0x80 0x8F b) \<and>
                     byte_in 0x80 0xBF c \<and> byte_in 0x80 0xBF d \<and> valid_utf8 s3))))"

definition maxErrorLen :: nat where
  "maxErrorLen = 2000"

function cut_valid :: "string \<Rightarrow> string" where
  "cut_valid s = (if s \<noteq> [] \<and> \<not> valid_utf8 s then cut_valid (butlast s) else s)"
  by pat_completeness auto
termination by (relation "measure length") auto

declare cut_valid.simps [simp del]

definition errorText :: "string \<Rightarrow> string" where
  "errorText s = (if length s \<le> maxErrorLen then s else cut_valid (take maxErrorLen s))"

section \<open>The world and the store\<close>

record herr =
  canceled :: bool
  undecodable :: bool
  etext :: string

datatype handler_result = HNil | HErr herr | HPanic string

record world =
  clockr :: "nat \<Rightarrow> instant"
  dbfail :: "nat \<Rightarrow> bool"
  arrive :: "nat \<Rightarrow> message list"
  stopped :: "nat \<Rightarrow> bool"
  outcome :: "nat \<Rightarrow> handler_result \<times> bool"
  timeout :: string

record headState =
  hattempts :: int
  hnext :: instant

text \<open>\<open>handed\<close> is the history of handler calls: the message's number, and whether the handler took it.\<close>

record store =
  rows :: "message list"
  dead :: "deadRow list"
  marks :: "string \<rightharpoonup> watermark"
  tick :: nat
  delivered :: nat
  parked :: nat
  head :: headState
  handed :: "(nat \<times> bool) list"

record relay =
  topic :: string
  maxAttempts :: int
  backoff :: duration
  maxBackoff :: duration
  settle :: duration
  batch :: nat
  maxPages :: nat

datatype sweep_error = DbError | RetryLater | Stopped | HandlerFailed | SweepRunning

definition settle_db :: "world \<Rightarrow> store \<Rightarrow> store" where
  "settle_db W st = st\<lparr>rows := rows st @ arrive W (tick st), tick := tick st + 1\<rparr>"

definition update_row :: "nat \<Rightarrow> (message \<Rightarrow> message) \<Rightarrow> message list \<Rightarrow> message list" where
  "update_row i f = map (\<lambda>m. if mid m = i then f m else m)"

section \<open>One message\<close>

text \<open>
  \<open>call\<close>: a panic is an error; a handler that outlived its timeout has failed whatever it
  returned, its error wrapped. \<open>tmo\<close> is the timeout as it is printed.
\<close>

definition call :: "string \<Rightarrow> handler_result \<Rightarrow> bool \<Rightarrow> herr option" where
  "call tmo res timedOut =
     (let err = (case res of
          HNil \<Rightarrow> None
        | HErr e \<Rightarrow> Some e
        | HPanic p \<Rightarrow> Some \<lparr>canceled = False, undecodable = False, etext = ''panic: '' @ p\<rparr>)
      in if \<not> timedOut then err
         else case err of
           None \<Rightarrow> Some \<lparr>canceled = False, undecodable = False, etext = ''jobs: the handler ran past handler_timeout ('' @ tmo @ '')''\<rparr>
         | Some e \<Rightarrow> Some (e\<lparr>etext := ''jobs: the handler ran past handler_timeout ('' @ tmo @ ''): '' @ etext e\<rparr>))"

definition complete :: "world \<Rightarrow> nat \<Rightarrow> store \<Rightarrow> sweep_error option \<times> store" where
  "complete W i st =
     (let now = clockr W (tick st); st1 = settle_db W st
      in if dbfail W (tick st) then (Some DbError, st1)
         else (None, st1\<lparr>rows := update_row i
                (\<lambda>m. if completedAt m = None then m\<lparr>completedAt := Some now\<rparr> else m) (rows st1)\<rparr>))"

definition fail :: "world \<Rightarrow> relay \<Rightarrow> message \<Rightarrow> int \<Rightarrow> herr \<Rightarrow> store \<Rightarrow> sweep_error option \<times> store" where
  "fail W r row n e st =
     (let txt = errorText (etext e);
          d = delay (backoff r) (maxBackoff r) n;
          nxt = (if d > 0 then clockr W (tick st) + d else 0);
          st1 = settle_db W st
      in if dbfail W (tick st) then (Some DbError, st1)
         else (Some HandlerFailed,
               st1\<lparr>rows := update_row (mid row)
                     (\<lambda>m. m\<lparr>attempts := n, retryAt := (if d > 0 then Some nxt else None), lastError := txt\<rparr>) (rows st1),
                   head := \<lparr>hattempts = n, hnext = nxt\<rparr>\<rparr>))"

definition dead_of :: "message \<Rightarrow> instant \<Rightarrow> int \<Rightarrow> string \<Rightarrow> deadRow" where
  "dead_of row now n txt =
     \<lparr>did = mid row, dtopic = mtopic row, dpayload = payload row, dcreatedAt = createdAt row,
      parkedAt = now, dattempts = n, dlastError = txt\<rparr>"

definition insert_dead :: "deadRow \<Rightarrow> deadRow list \<Rightarrow> deadRow list" where
  "insert_dead d ds = (if did d \<in> did ` set ds then ds else ds @ [d])"

definition park :: "world \<Rightarrow> message \<Rightarrow> int \<Rightarrow> herr \<Rightarrow> store \<Rightarrow> sweep_error option \<times> store" where
  "park W row n e st =
     (let txt = errorText (etext e); now = clockr W (tick st); st1 = settle_db W st
      in if dbfail W (tick st) then (Some DbError, st1)
         else (None,
               st1\<lparr>dead := insert_dead (dead_of row now n txt) (dead st1),
                   rows := update_row (mid row)
                     (\<lambda>m. m\<lparr>attempts := n, retryAt := None, lastError := txt, completedAt := Some now\<rparr>) (rows st1),
                   parked := parked st1 + 1\<rparr>))"

definition hand_over :: "world \<Rightarrow> message \<Rightarrow> store \<Rightarrow> herr option \<times> store" where
  "hand_over W row st =
     (let e = call (timeout W) (fst (outcome W (tick st))) (snd (outcome W (tick st)))
      in (e, st\<lparr>tick := tick st + 1, handed := handed st @ [(mid row, e = None)]\<rparr>))"

definition not_due :: "world \<Rightarrow> message \<Rightarrow> store \<Rightarrow> bool" where
  "not_due W row st = (case retryAt row of None \<Rightarrow> False | Some t \<Rightarrow> clockr W (tick st) < t)"

definition settle_outcome ::
  "world \<Rightarrow> relay \<Rightarrow> message \<Rightarrow> herr option \<Rightarrow> store \<Rightarrow> sweep_error option \<times> store" where
  "settle_outcome W r row err st =
     (case err of
        None \<Rightarrow>
          (case complete W (mid row) st of
             (Some e, st') \<Rightarrow> (Some e, st')
           | (None, st') \<Rightarrow> (None, st'\<lparr>delivered := delivered st' + 1\<rparr>))
      | Some e \<Rightarrow>
          if stopped W (tick st) \<and> canceled e then (Some Stopped, st)
          else if undecodable e \<or> attempts row + 1 \<ge> maxAttempts r
          then park W row (attempts row + 1) e st
          else fail W r row (attempts row + 1) e st)"

definition attempt :: "world \<Rightarrow> relay \<Rightarrow> message \<Rightarrow> store \<Rightarrow> sweep_error option \<times> store" where
  "attempt W r row st =
     (if not_due W row st
      then (Some RetryLater, st\<lparr>head := \<lparr>hattempts = attempts row, hnext = the (retryAt row)\<rparr>\<rparr>)
      else if stopped W (tick st) then (Some Stopped, st)
      else (case hand_over W row st of (err, st1) \<Rightarrow> settle_outcome W r row err st1))"

fun attempt_all :: "world \<Rightarrow> relay \<Rightarrow> message list \<Rightarrow> store \<Rightarrow> sweep_error option \<times> store" where
  "attempt_all W r [] st = (None, st)"
| "attempt_all W r (m # ms) st =
     (case attempt W r m st of
        (Some e, st') \<Rightarrow> (Some e, st')
      | (None, st') \<Rightarrow> attempt_all W r ms st')"

definition deliver ::
  "world \<Rightarrow> relay \<Rightarrow> instant \<Rightarrow> message \<Rightarrow> watermark \<times> store \<Rightarrow> sweep_error option \<times> watermark \<times> store" where
  "deliver W r cutoff row = (\<lambda>(cand, st).
     (case (if completedAt row = None then attempt W r row st else (None, st)) of
        (Some e, st') \<Rightarrow> (Some e, cand, st')
      | (None, st') \<Rightarrow>
          (None, if createdAt row > cutoff then cand else \<lparr>At = createdAt row, ID = mid row, ok = True\<rparr>, st')))"

fun deliver_all ::
  "world \<Rightarrow> relay \<Rightarrow> instant \<Rightarrow> message list \<Rightarrow> watermark \<times> store \<Rightarrow> sweep_error option \<times> watermark \<times> store" where
  "deliver_all W r cutoff [] cs = (None, cs)"
| "deliver_all W r cutoff (m # ms) cs =
     (case deliver W r cutoff m cs of
        (Some e, cs') \<Rightarrow> (Some e, cs')
      | (None, cs') \<Rightarrow> deliver_all W r cutoff ms cs')"

section \<open>Queries\<close>

definition position :: "message \<Rightarrow> instant \<times> nat" where
  "position m = (createdAt m, mid m)"

definition ordered :: "message list \<Rightarrow> message list" where
  "ordered ms = sort_key position ms"

definition scope :: "relay \<Rightarrow> store \<Rightarrow> message list" where
  "scope r st = filter (\<lambda>m. mtopic m = topic r) (rows st)"

definition q_behind :: "relay \<Rightarrow> watermark \<Rightarrow> store \<Rightarrow> message list" where
  "q_behind r w st = take (batch r) (ordered (filter
     (\<lambda>m. completedAt m = None \<and> (createdAt m < At w \<or> createdAt m = At w \<and> mid m \<le> ID w)) (scope r st)))"

definition q_boundary :: "relay \<Rightarrow> instant \<Rightarrow> nat \<Rightarrow> store \<Rightarrow> message list" where
  "q_boundary r bAt lastID st = take (batch r) (ordered (filter
     (\<lambda>m. createdAt m = bAt \<and> mid m > lastID) (scope r st)))"

record scanPos =
  ts :: instant
  offset :: nat

definition scanForward :: "relay \<Rightarrow> scanPos \<Rightarrow> bool \<Rightarrow> store \<Rightarrow> message list" where
  "scanForward r pos strict st =
     (if strict
      then take (batch r) (ordered (filter (\<lambda>m. createdAt m > ts pos) (scope r st)))
      else take (batch r) (drop (offset pos) (ordered
             (if ts pos \<noteq> 0 then filter (\<lambda>m. createdAt m \<ge> ts pos) (scope r st) else scope r st))))"

fun last_option :: "'a list \<Rightarrow> 'a option" where
  "last_option [] = None"
| "last_option (x # xs) = Some (last (x # xs))"

definition frontier :: "instant \<Rightarrow> store \<Rightarrow> watermark" where
  "frontier cutoff st =
     (case last_option (ordered (filter (\<lambda>m. createdAt m \<le> cutoff) (rows st))) of
        None \<Rightarrow> no_watermark
      | Some m \<Rightarrow> \<lparr>At = createdAt m, ID = mid m, ok = True\<rparr>)"

definition load :: "relay \<Rightarrow> store \<Rightarrow> watermark" where
  "load r st = (case marks st (topic r) of None \<Rightarrow> no_watermark | Some w \<Rightarrow> w\<lparr>ok := True\<rparr>)"

text \<open>\<open>persist\<close> gives the watermark the sweep goes on with; \<open>save\<close> is its statement.\<close>

definition persist :: "world \<Rightarrow> relay \<Rightarrow> watermark \<Rightarrow> watermark \<Rightarrow> store \<Rightarrow> watermark \<times> store" where
  "persist W r w cand st =
     (if \<not> ok cand \<or> \<not> after w (At cand) (ID cand) then (w, st)
      else let st1 = settle_db W st
           in if dbfail W (tick st) then (w, st1)
              else (cand, st1\<lparr>marks := (marks st1)(topic r \<mapsto> cand)\<rparr>))"

section \<open>A sweep\<close>

text \<open>
  The three loops share a budget of pages, which is what is left of \<^verbatim>\<open>maxPages\<close>. Each ends
  with an error, or with the budget that remains.
\<close>

fun lookbehind :: "world \<Rightarrow> relay \<Rightarrow> watermark \<Rightarrow> nat \<Rightarrow> store \<Rightarrow> sweep_error option \<times> nat \<times> store" where
  "lookbehind W r w 0 st = (None, 0, st)"
| "lookbehind W r w (Suc n) st =
     (let st1 = settle_db W st; page = q_behind r w st1
      in if dbfail W (tick st) then (Some DbError, n, st1)
         else if page = [] then (None, Suc n, st1)
         else (case attempt_all W r page st1 of
                 (Some e, st2) \<Rightarrow> (Some e, n, st2)
               | (None, st2) \<Rightarrow> lookbehind W r w n st2))"

record cursor =
  mark :: watermark
  cand :: watermark

definition persist_cursor :: "world \<Rightarrow> relay \<Rightarrow> cursor \<Rightarrow> store \<Rightarrow> cursor \<times> store" where
  "persist_cursor W r c st = (case persist W r (mark c) (cand c) st of (w, st') \<Rightarrow> (c\<lparr>mark := w\<rparr>, st'))"

fun boundary ::
  "world \<Rightarrow> relay \<Rightarrow> instant \<Rightarrow> instant \<Rightarrow> nat \<Rightarrow> nat \<Rightarrow> cursor \<Rightarrow> store \<Rightarrow>
   sweep_error option \<times> nat \<times> cursor \<times> store" where
  "boundary W r cutoff bAt 0 lastID c st = (None, 0, c, st)"
| "boundary W r cutoff bAt (Suc n) lastID c st =
     (if stopped W (tick st) then (Some Stopped, n, persist_cursor W r c st)
      else let st1 = settle_db W st; page = q_boundary r bAt lastID st1
      in if dbfail W (tick st) then (Some DbError, n, persist_cursor W r c st1)
         else (case deliver_all W r cutoff page (cand c, st1) of
                 (Some e, cd, st2) \<Rightarrow> (Some e, n, persist_cursor W r (c\<lparr>cand := cd\<rparr>) st2)
               | (None, cd, st2) \<Rightarrow>
                   (case persist_cursor W r (c\<lparr>cand := cd\<rparr>) st2 of
                      (c', st3) \<Rightarrow>
                        if length page < batch r then (None, n, c', st3)
                        else boundary W r cutoff bAt n (if page = [] then lastID else mid (last page)) c' st3)))"

text \<open>The cursor over ties: how the scan position moves over a row.\<close>

definition advance :: "scanPos \<Rightarrow> message \<Rightarrow> scanPos" where
  "advance pos m =
     (if createdAt m = ts pos then pos\<lparr>offset := offset pos + 1\<rparr> else \<lparr>ts = createdAt m, offset = 1\<rparr>)"

fun forward ::
  "world \<Rightarrow> relay \<Rightarrow> instant \<Rightarrow> nat \<Rightarrow> scanPos \<Rightarrow> bool \<Rightarrow> cursor \<Rightarrow> store \<Rightarrow>
   sweep_error option \<times> bool \<times> cursor \<times> store" where
  "forward W r cutoff 0 pos strict c st = (None, False, c, st)"
| "forward W r cutoff (Suc n) pos strict c st =
     (if stopped W (tick st) then (Some Stopped, False, persist_cursor W r c st)
      else let st1 = settle_db W st; page = scanForward r pos strict st1
      in if dbfail W (tick st) then (Some DbError, False, persist_cursor W r c st1)
         else if page = [] then (None, True, c, st1)
         else (case deliver_all W r cutoff page (cand c, st1) of
                 (Some e, cd, st2) \<Rightarrow> (Some e, False, persist_cursor W r (c\<lparr>cand := cd\<rparr>) st2)
               | (None, cd, st2) \<Rightarrow>
                   (case persist_cursor W r (c\<lparr>cand := cd\<rparr>) st2 of
                      (c', st3) \<Rightarrow>
                        if length page < batch r then (None, True, c', st3)
                        else forward W r cutoff n (fold (\<lambda>m p. advance p m) page pos) False c' st3)))"

definition finish :: "world \<Rightarrow> relay \<Rightarrow> instant \<Rightarrow> bool \<Rightarrow> cursor \<Rightarrow> store \<Rightarrow> cursor \<times> store" where
  "finish W r cutoff drained c st =
     (if drained then
        (let st1 = settle_db W st; f = frontier cutoff st1
         in if dbfail W (tick st) then persist_cursor W r c st1
            else if ok f \<and> after (cand c) (At f) (ID f) then persist_cursor W r (c\<lparr>cand := f\<rparr>) st1
            else persist_cursor W r c st1)
      else persist_cursor W r c st)"

definition sweep_beyond ::
  "world \<Rightarrow> relay \<Rightarrow> instant \<Rightarrow> bool \<Rightarrow> nat \<Rightarrow> cursor \<Rightarrow> store \<Rightarrow> sweep_error option \<times> store" where
  "sweep_beyond W r cutoff had n c st =
     (case forward W r cutoff n \<lparr>ts = At (mark c), offset = 0\<rparr> had c st of
        (Some e, _, _, st') \<Rightarrow> (Some e, st')
      | (None, drained, c', st') \<Rightarrow> (None, snd (finish W r cutoff drained c' st')))"

definition sweep :: "world \<Rightarrow> relay \<Rightarrow> store \<Rightarrow> sweep_error option \<times> store" where
  "sweep W r st0 =
     (let st = settle_db W st0
      in if dbfail W (tick st0) then (Some DbError, st)
         else
           let w = load r st; cutoff = clockr W (tick st) - settle r; c = \<lparr>mark = w, cand = w\<rparr>
           in if \<not> ok w then sweep_beyond W r cutoff False (maxPages r) c st
              else (case lookbehind W r w (maxPages r) st of
                      (Some e, _, st1) \<Rightarrow> (Some e, st1)
                    | (None, n, st1) \<Rightarrow>
                        (case boundary W r cutoff (At w) n (ID w) c st1 of
                           (Some e, _, _, st2) \<Rightarrow> (Some e, st2)
                         | (None, n', c', st2) \<Rightarrow> sweep_beyond W r cutoff True n' c' st2)))"

text \<open>\<open>run\<close>: \<open>busy\<close> is a sweep of the same worker in flight; the backlog is counted after it.\<close>

record backlogState =
  pending :: nat
  oldest :: instant

definition no_head :: headState where
  "no_head = \<lparr>hattempts = 0, hnext = 0\<rparr>"

definition countBacklog :: "world \<Rightarrow> relay \<Rightarrow> store \<Rightarrow> backlogState option \<times> store" where
  "countBacklog W r st =
     (if stopped W (tick st) then (None, st)
      else let st1 = settle_db W st;
               ps = filter (\<lambda>m. completedAt m = None) (scope r st1)
           in if dbfail W (tick st) then (None, st1)
              else (Some \<lparr>pending = length ps,
                          oldest = (if ps = [] then 0 else Min (createdAt ` set ps))\<rparr>, st1))"

definition run ::
  "world \<Rightarrow> relay \<Rightarrow> bool \<Rightarrow> backlogState \<Rightarrow> store \<Rightarrow> sweep_error option \<times> backlogState \<times> store" where
  "run W r busy bl st =
     (if busy then (Some SweepRunning, bl, st)
      else (case sweep W r (st\<lparr>head := no_head\<rparr>) of
              (err, st1) \<Rightarrow>
                (case countBacklog W r st1 of
                   (None, st2) \<Rightarrow> (err, bl, st2)
                 | (Some b, st2) \<Rightarrow> (err, b, st2))))"

section \<open>What a sweep is made of\<close>

text \<open>
  The numbers of the rows, present and to come, are distinct: they are the table's primary
  key. Rows that arrive are messages just enqueued.
\<close>

definition ids_ok :: "world \<Rightarrow> store \<Rightarrow> bool" where
  "ids_ok W st \<longleftrightarrow>
     (\<forall>N. distinct (map mid (rows st) @ concat (map (\<lambda>k. map mid (arrive W k)) [tick st..<N]))) \<and>
     (\<forall>k. \<forall>m \<in> set (arrive W k). completedAt m = None)"

lemma ids_ok_distinct: "ids_ok W st \<Longrightarrow> distinct (map mid (rows st))"
  by (auto simp: ids_ok_def)

lemma ids_ok_arrive: "ids_ok W st \<Longrightarrow> \<forall>m \<in> set (arrive W k). completedAt m = None"
  unfolding ids_ok_def by blast

lemma ids_ok_same:
  assumes "ids_ok W st" and "map mid (rows st') = map mid (rows st)" and "tick st \<le> tick st'"
  shows "ids_ok W st'"
proof -
  have "distinct (map mid (rows st') @ concat (map (\<lambda>k. map mid (arrive W k)) [tick st'..<N]))" for N
  proof (cases "tick st' \<le> N")
    case True
    then have "[tick st..<N] = [tick st..<tick st'] @ [tick st'..<N]"
      using assms(3) upt_add_eq_append [of "tick st" "tick st'" "N - tick st'"] by simp
    with assms(1,2) show ?thesis unfolding ids_ok_def by (fastforce dest!: spec [of _ N])
  next
    case False
    with ids_ok_distinct [OF assms(1)] assms(2) show ?thesis by simp
  qed
  with assms(1) show ?thesis by (simp add: ids_ok_def)
qed

lemma ids_ok_settle: "ids_ok W st \<Longrightarrow> ids_ok W (settle_db W st)"
proof -
  assume ok: "ids_ok W st"
  have "distinct (map mid (rows (settle_db W st)) @
      concat (map (\<lambda>k. map mid (arrive W k)) [tick (settle_db W st)..<N]))" for N
  proof (cases "tick st < N")
    case True
    then have "map mid (rows (settle_db W st)) @
        concat (map (\<lambda>k. map mid (arrive W k)) [tick (settle_db W st)..<N]) =
        map mid (rows st) @ concat (map (\<lambda>k. map mid (arrive W k)) [tick st..<N])"
      by (simp add: settle_db_def upt_conv_Cons)
    moreover have "distinct (map mid (rows st) @ concat (map (\<lambda>k. map mid (arrive W k)) [tick st..<N]))"
      using ok unfolding ids_ok_def by blast
    ultimately show ?thesis by (simp only:)
  next
    case False
    have "distinct (map mid (rows st) @ concat (map (\<lambda>k. map mid (arrive W k)) [tick st..<Suc (tick st)]))"
      using ok unfolding ids_ok_def by blast
    with False show ?thesis by (simp add: settle_db_def)
  qed
  with ok show ?thesis by (simp add: ids_ok_def)
qed

lemma mids_update_row: "(\<And>m. mid (f m) = mid m) \<Longrightarrow> map mid (update_row i f ms) = map mid ms"
  by (induction ms) (auto simp: update_row_def)

lemma keys_update_row:
  "(\<And>m. position (f m) = position m \<and> mtopic (f m) = mtopic m) \<Longrightarrow>
   map (\<lambda>m. (position m, mtopic m)) (update_row i f ms) = map (\<lambda>m. (position m, mtopic m)) ms"
  by (induction ms) (auto simp: update_row_def)

lemma set_update_row:
  assumes "distinct (map mid ms)" and "row \<in> set ms"
  shows "set (update_row (mid row) f ms) = insert (f row) (set ms - {row})"
proof -
  have "m = row" if "m \<in> set ms" "mid m = mid row" for m
    using that assms by (metis distinct_map inj_on_eq_iff)
  then have "update_row (mid row) f ms = map (\<lambda>m. if m = row then f row else m) ms"
    by (auto simp: update_row_def)
  then show ?thesis using assms(2) by auto
qed

lemma in_settle [simp]: "m \<in> set (rows st) \<Longrightarrow> m \<in> set (rows (settle_db W st))"
  "tick (settle_db W st) = Suc (tick st)" "dead (settle_db W st) = dead st"
  "handed (settle_db W st) = handed st" "marks (settle_db W st) = marks st"
  "rows (settle_db W st) = rows st @ arrive W (tick st)"
  "delivered (settle_db W st) = delivered st" "parked (settle_db W st) = parked st"
  by (simp_all add: settle_db_def)

text \<open>
  The effect of an attempt that succeeds: the handler was called once with the row; the
  row, and no other, is completed, by the handler taking it or with a dead letter.
\<close>

definition settled_row :: "message \<Rightarrow> message \<Rightarrow> bool" where
  "settled_row row row' \<longleftrightarrow> mid row' = mid row \<and> createdAt row' = createdAt row \<and>
     mtopic row' = mtopic row \<and> payload row' = payload row \<and> completedAt row' \<noteq> None"

lemma attempt_done:
  assumes "attempt W r row st = (None, st')" and "ids_ok W st" and "row \<in> set (rows st)"
    and "completedAt row = None"
  obtains took row' where "settled_row row row'" "handed st' = handed st @ [(mid row, took)]"
    "set (rows st') = insert row' (set (rows st) - {row}) \<union> set (arrive W (Suc (tick st)))"
    "map mid (rows st') = map mid (rows st @ arrive W (Suc (tick st)))"
    "map (\<lambda>m. (position m, mtopic m)) (rows st') = map (\<lambda>m. (position m, mtopic m)) (rows st @ arrive W (Suc (tick st)))"
    "tick st' = Suc (Suc (tick st))" "marks st' = marks st"
    "if took then dead st' = dead st \<and> row' = row\<lparr>completedAt := completedAt row'\<rparr>
     else did ` set (dead st') = insert (mid row) (did ` set (dead st)) \<and> set (dead st) \<subseteq> set (dead st')"
proof -
  define err where "err = fst (hand_over W row st)"
  define st1 where "st1 = snd (hand_over W row st)"
  have h: "hand_over W row st = (err, st1)" by (simp add: err_def st1_def)
  have st1: "rows st1 = rows st" "tick st1 = Suc (tick st)" "dead st1 = dead st" "marks st1 = marks st"
    "handed st1 = handed st @ [(mid row, err = None)]"
    using h by (auto simp: hand_over_def Let_def)
  have so: "settle_outcome W r row err st1 = (None, st')"
    using assms(1) h by (simp add: attempt_def split: if_splits)
  have dist: "distinct (map mid (rows (settle_db W st1)))"
  proof (rule ids_ok_distinct [OF ids_ok_settle [OF ids_ok_same [OF assms(2)]]])
    show "map mid (rows st1) = map mid (rows st)" "tick st \<le> tick st1" by (simp_all add: st1)
  qed
  have row: "row \<in> set (rows (settle_db W st1))" using assms(3) st1 by simp
  have new: "row \<notin> set (arrive W (tick st1))"
    using dist assms(3) st1(1) by (auto simp: distinct_map)
  show thesis
  proof (cases err)
    case None
    let ?f = "\<lambda>m. if completedAt m = None then m\<lparr>completedAt := Some (clockr W (tick st1))\<rparr> else m"
    have st': "st' = (settle_db W st1)\<lparr>rows := update_row (mid row) ?f (rows (settle_db W st1)), delivered := delivered st1 + 1\<rparr>"
      using so None by (auto simp: settle_outcome_def complete_def Let_def split: if_splits)
    show thesis
      by (rule that [of "?f row" True])
        (use assms(4) st1 None new set_update_row [OF dist row, of ?f] mids_update_row [of ?f] keys_update_row [of ?f] in
          \<open>auto simp: st' settled_row_def position_def\<close>)
  next
    case (Some e)
    let ?n = "attempts row + 1" and ?now = "clockr W (tick st1)"
    let ?f = "\<lambda>m. m\<lparr>attempts := ?n, retryAt := None, lastError := errorText (etext e), completedAt := Some ?now\<rparr>"
    have "park W row ?n e st1 = (None, st')"
      using so Some by (auto simp: settle_outcome_def fail_def Let_def split: if_splits)
    then have st': "st' = (settle_db W st1)\<lparr>dead := insert_dead (dead_of row ?now ?n (errorText (etext e))) (dead st1),
        rows := update_row (mid row) ?f (rows (settle_db W st1)), parked := parked st1 + 1\<rparr>"
      by (auto simp: park_def Let_def split: if_splits)
    show thesis
      by (rule that [of "?f row" False])
        (use assms(4) st1 Some new set_update_row [OF dist row, of ?f] mids_update_row [of ?f] keys_update_row [of ?f] in
          \<open>auto simp: st' settled_row_def insert_dead_def dead_of_def image_iff position_def\<close>)
  qed
qed

text \<open>
  An attempt that ends the sweep: the row stays without an acknowledgement, every other row
  is as it was, and the handler was called at most once, with that row.
\<close>

lemma attempt_ends:
  assumes "attempt W r row st = (Some e, st')" and "ids_ok W st" and "row \<in> set (rows st)"
    and "completedAt row = None"
  obtains calls row' n where "handed st' = handed st @ calls" "set calls \<subseteq> {(mid row, True), (mid row, False)}"
    "length calls \<le> 1" "mid row' = mid row" "completedAt row' = None" "createdAt row' = createdAt row"
    "mtopic row' = mtopic row" "payload row' = payload row"
    "set (rows st') = insert row' (set (rows st) - {row}) \<union> n"
    "\<forall>m \<in> n. completedAt m = None \<and> mid m \<notin> mid ` set (rows st)" "ids_ok W st'"
    "dead st' = dead st" "marks st' = marks st"
proof -
  define err where "err = fst (hand_over W row st)"
  define st1 where "st1 = snd (hand_over W row st)"
  have h: "hand_over W row st = (err, st1)" by (simp add: err_def st1_def)
  have st1: "rows st1 = rows st" "tick st1 = Suc (tick st)" "dead st1 = dead st" "marks st1 = marks st"
    "handed st1 = handed st @ [(mid row, err = None)]"
    using h by (auto simp: hand_over_def Let_def)
  have ok1: "ids_ok W st1" by (rule ids_ok_same [OF assms(2)]) (simp_all add: st1)
  note ok2 = ids_ok_settle [OF ok1]
  have self: "set (rows st) = insert row (set (rows st) - {row}) \<union> {}" using assms(3) by auto
  have arr: "\<forall>m \<in> set (arrive W (tick st1)). completedAt m = None \<and> mid m \<notin> mid ` set (rows st)"
    using ids_ok_distinct [OF ok2] ok1 st1(1) by (auto simp: ids_ok_def)
  have row: "row \<in> set (rows (settle_db W st1))" using assms(3) st1 by simp
  have new: "row \<notin> set (arrive W (tick st1))" using arr assms(3) by auto
  consider (early) "st' = st\<lparr>head := head st'\<rparr>" | (stop) "st' = st1" | (db) "st' = settle_db W st1"
    | (failed) er where "err = Some er" "fail W r row (attempts row + 1) er st1 = (Some HandlerFailed, st')"
  proof -
    show thesis
    proof (cases "not_due W row st \<or> stopped W (tick st)")
      case True
      then show thesis using assms(1) early by (auto simp: attempt_def split: if_splits)
    next
      case False
      then have so: "settle_outcome W r row err st1 = (Some e, st')" using assms(1) h by (simp add: attempt_def)
      show thesis
      proof (cases err)
        case None
        with so show thesis using db by (auto simp: settle_outcome_def complete_def Let_def split: if_splits)
      next
        case (Some er)
        with so stop db failed [OF Some] show thesis
          by (auto simp: settle_outcome_def park_def fail_def Let_def split: if_splits)
      qed
    qed
  qed
  then show thesis
  proof cases
    case early
    then have st': "rows st' = rows st" "tick st' = tick st" "handed st' = handed st" "dead st' = dead st" "marks st' = marks st"
      by (metis select_convs surjective update_convs store.ext_inject store.surjective store.update_convs)+
    show thesis
      by (rule that [of "[]" row "{}"]) (use assms st' self ids_ok_same [OF assms(2)] in auto)
  next
    case stop
    show thesis
      by (rule that [of "[(mid row, err = None)]" row "{}"]) (use assms(4) self stop st1 ok1 in auto)
  next
    case db
    show thesis
      by (rule that [of "[(mid row, err = None)]" row "set (arrive W (tick st1))"])
        (use assms(3,4) db st1 ok2 arr in auto)
  next
    case failed
    let ?d = "delay (backoff r) (maxBackoff r) (attempts row + 1)"
    let ?nxt = "if ?d > 0 then clockr W (tick st1) + ?d else 0"
    let ?f = "\<lambda>m. m\<lparr>attempts := attempts row + 1, retryAt := (if ?d > 0 then Some ?nxt else None),
      lastError := errorText (etext er)\<rparr>"
    have st': "rows st' = update_row (mid row) ?f (rows (settle_db W st1))" "handed st' = handed st1"
      "tick st' = tick (settle_db W st1)" "dead st' = dead st" "marks st' = marks st"
      using failed(2) st1 by (auto simp: fail_def Let_def split: if_splits)
    have "ids_ok W st'"
      by (rule ids_ok_same [OF ok2]) (use st' mids_update_row [of ?f] in simp_all)
    moreover have "set (rows st') = insert (?f row) (set (rows st) - {row}) \<union> set (arrive W (tick st1))"
      using set_update_row [OF ids_ok_distinct [OF ok2] row, of ?f] st1 new by (auto simp: st')
    ultimately show thesis
      by (intro that [of "[(mid row, err = None)]" "?f row" "set (arrive W (tick st1))"])
        (use assms(4) st1 st' arr in auto)
  qed
qed

lemma ids_ok_attempt_done:
  assumes "attempt W r row st = (None, st')" and "ids_ok W st" and "row \<in> set (rows st)"
    and "completedAt row = None"
  shows "ids_ok W st'"
  using assms
proof (rule attempt_done)
  fix took row'
  assume st': "map mid (rows st') = map mid (rows st @ arrive W (Suc (tick st)))" "tick st' = Suc (Suc (tick st))"
  have "ids_ok W (settle_db W (st\<lparr>tick := Suc (tick st)\<rparr>))"
    by (rule ids_ok_settle, rule ids_ok_same [OF assms(2)]) simp_all
  then show "ids_ok W st'" by (rule ids_ok_same) (simp_all add: st')
qed

text \<open>
  A page read from the table: rows of the topic, each without an acknowledgement still in
  the table as it was read.
\<close>

definition page_ok :: "relay \<Rightarrow> message list \<Rightarrow> store \<Rightarrow> bool" where
  "page_ok r page st \<longleftrightarrow> distinct (map mid page) \<and>
     (\<forall>m \<in> set page. mtopic m = topic r \<and> (completedAt m = None \<longrightarrow> m \<in> set (rows st)))"

lemma page_ok_done:
  assumes "page_ok r (row # page) st" and "attempt W r row st = (None, st')" and "ids_ok W st"
    and "completedAt row = None"
  shows "page_ok r page st'"
proof -
  have row: "row \<in> set (rows st)" using assms(1,4) by (simp add: page_ok_def)
  obtain took row' where "set (rows st') = insert row' (set (rows st) - {row}) \<union> set (arrive W (Suc (tick st)))"
    by (rule attempt_done [OF assms(2,3) row assms(4)]) blast
  with assms(1) show ?thesis by (auto simp: page_ok_def)
qed

lemma page_ok_query:
  assumes "ids_ok W st"
  shows "page_ok r (q_behind r w st) st" and "page_ok r (q_boundary r bAt i st) st"
    and "page_ok r (scanForward r pos strict st) st"
proof -
  have d: "distinct (map mid (ordered (filter P (rows st))))" for P
  proof -
    have "distinct (map mid (filter P (rows st)))"
      using ids_ok_distinct [OF assms] by (rule distinct_map_filter)
    moreover have "mset (map mid (ordered (filter P (rows st)))) = mset (map mid (filter P (rows st)))"
      by (simp add: ordered_def)
    ultimately show ?thesis by (metis mset_eq_imp_distinct_iff)
  qed
  have f: "filter Q (scope r st) = filter (\<lambda>m. mtopic m = topic r \<and> Q m) (rows st)" for Q
    by (simp add: scope_def conj_commute)
  have s: "scope r st = filter (\<lambda>m. mtopic m = topic r) (rows st)" by (simp add: scope_def)
  have td: "distinct (map mid (take n (drop k ms)))" if "distinct (map mid ms)" for n k and ms :: "message list"
    using that by (metis distinct_drop distinct_take drop_map take_map)
  have sub: "m \<in> set (take n (drop k ms)) \<Longrightarrow> m \<in> set ms" for n k m and ms :: "message list"
    by (meson in_set_dropD in_set_takeD)
  have page: "page_ok r (take n (drop k (ordered (filter P (rows st))))) st" if "\<And>m. P m \<Longrightarrow> mtopic m = topic r" for n k P
    using that td [OF d, of n k P] by (auto simp: page_ok_def ordered_def dest!: sub)
  show "page_ok r (q_behind r w st) st"
    unfolding q_behind_def f by (rule page [where k = 0, unfolded drop_0]) blast
  show "page_ok r (q_boundary r bAt i st) st"
    unfolding q_boundary_def f by (rule page [where k = 0, unfolded drop_0]) blast
  show "page_ok r (scanForward r pos strict st) st"
    unfolding scanForward_def f s by (simp, intro conjI impI page page [where k = 0, unfolded drop_0]) blast+
qed

section \<open>Relations a sweep preserves\<close>

text \<open>
  A sweep is a sequence of attempts that succeed, of statements that read, and of
  watermark updates; at most one attempt that ends it; and then at most the last watermark
  update. A relation between stores that holds over each of those steps holds over the
  parts before and after the ending attempt.
\<close>

definition ending :: "world \<Rightarrow> relay \<Rightarrow> store \<Rightarrow> store \<Rightarrow> bool" where
  "ending W r a b \<longleftrightarrow> (\<exists>row e. ids_ok W a \<and> row \<in> set (rows a) \<and> completedAt row = None \<and>
     mtopic row = topic r \<and> attempt W r row a = (Some e, b))"

definition swept :: "world \<Rightarrow> relay \<Rightarrow> (store \<Rightarrow> store \<Rightarrow> bool) \<Rightarrow> store \<Rightarrow> store \<Rightarrow> bool" where
  "swept W r R st st' \<longleftrightarrow> R st st' \<or>
     (\<exists>a b c. R st a \<and> ending W r a b \<and> (st' = b \<or> st' = snd (persist_cursor W r c b)))"

lemma ids_ok_ending: "ending W r a b \<Longrightarrow> ids_ok W b"
  unfolding ending_def by (blast elim: attempt_ends)

locale sweep_relation =
  fixes W :: world and r :: relay and R :: "store \<Rightarrow> store \<Rightarrow> bool"
  assumes R_refl: "ids_ok W a \<Longrightarrow> R a a"
    and R_trans: "R a b \<Longrightarrow> R b c \<Longrightarrow> R a c"
    and R_db: "ids_ok W a \<Longrightarrow> R a (settle_db W a)"
    and R_mark: "ids_ok W a \<Longrightarrow> R a (a\<lparr>marks := m\<rparr>)"
    and R_attempt: "ids_ok W a \<Longrightarrow> row \<in> set (rows a) \<Longrightarrow> completedAt row = None \<Longrightarrow>
      mtopic row = topic r \<Longrightarrow> attempt W r row a = (None, b) \<Longrightarrow> R a b"
begin

lemma attempt_all_done:
  assumes "attempt_all W r page st = (None, st')" and "page_ok r page st" and "ids_ok W st"
    and "list_all (\<lambda>m. completedAt m = None) page"
  shows "R st st' \<and> ids_ok W st'"
  using assms
proof (induction page arbitrary: st)
  case Nil
  then show ?case using R_refl by simp
next
  case (Cons m page)
  from Cons.prems(1) obtain st1 where a: "attempt W r m st = (None, st1)" "attempt_all W r page st1 = (None, st')"
    by (auto split: prod.splits option.splits)
  have m: "m \<in> set (rows st)" "mtopic m = topic r" "completedAt m = None"
    using Cons.prems(2,4) by (auto simp: page_ok_def)
  have "R st1 st' \<and> ids_ok W st'"
    by (rule Cons.IH [OF a(2) page_ok_done [OF Cons.prems(2) a(1) Cons.prems(3) m(3)]
          ids_ok_attempt_done [OF a(1) Cons.prems(3) m(1,3)]]) (use Cons.prems(4) in simp)
  with R_attempt [OF Cons.prems(3) m(1,3,2) a(1)] show ?case using R_trans by blast
qed

lemma attempt_all_ends:
  assumes "attempt_all W r page st = (Some e, st')" and "page_ok r page st" and "ids_ok W st"
    and "list_all (\<lambda>m. completedAt m = None) page"
  shows "\<exists>a. R st a \<and> ending W r a st'"
  using assms
proof (induction page arbitrary: st)
  case (Cons m page)
  have m: "m \<in> set (rows st)" "mtopic m = topic r" "completedAt m = None"
    using Cons.prems(2,4) by (auto simp: page_ok_def)
  show ?case
  proof (cases "fst (attempt W r m st)")
    case None
    then obtain st1 where a: "attempt W r m st = (None, st1)" by (metis prod.collapse)
    then have a2: "attempt_all W r page st1 = (Some e, st')" using Cons.prems(1) by simp
    have "\<exists>a. R st1 a \<and> ending W r a st'"
      by (rule Cons.IH [OF a2 page_ok_done [OF Cons.prems(2) a Cons.prems(3) m(3)]
          ids_ok_attempt_done [OF a Cons.prems(3) m(1,3)]]) (use Cons.prems(4) in simp)
    with R_attempt [OF Cons.prems(3) m(1,3,2) a] show ?thesis using R_trans by blast
  next
    case (Some e')
    then have "attempt W r m st = (Some e', st')" using Cons.prems(1)
      by (cases "attempt W r m st") (auto split: option.splits)
    then have "ending W r st st'" using m Cons.prems(3) by (auto simp: ending_def)
    then show ?thesis using R_refl Cons.prems(3) by blast
  qed
qed simp

lemma deliver_all_done:
  assumes "deliver_all W r cutoff page (cd, st) = (None, cd', st')" and "page_ok r page st" and "ids_ok W st"
  shows "R st st' \<and> ids_ok W st'"
  using assms
proof (induction page arbitrary: cd st)
  case Nil
  then show ?case using R_refl by simp
next
  case (Cons m page)
  obtain cd1 st1 where d: "deliver W r cutoff m (cd, st) = (None, cd1, st1)"
    "deliver_all W r cutoff page (cd1, st1) = (None, cd', st')"
    using Cons.prems(1) by (auto split: prod.splits option.splits)
  show ?case
  proof (cases "completedAt m")
    case None
    then have a: "attempt W r m st = (None, st1)"
      using d(1) by (auto simp: deliver_def split: prod.splits option.splits)
    have m: "m \<in> set (rows st)" "mtopic m = topic r" using Cons.prems(2) None by (auto simp: page_ok_def)
    have "R st1 st' \<and> ids_ok W st'"
      by (rule Cons.IH [OF d(2) page_ok_done [OF Cons.prems(2) a Cons.prems(3) None]
          ids_ok_attempt_done [OF a Cons.prems(3) m(1) None]])
    with R_attempt [OF Cons.prems(3) m(1) None m(2) a] show ?thesis using R_trans by blast
  next
    case (Some t)
    then have "st1 = st" using d(1) by (auto simp: deliver_def)
    with Cons.IH [OF d(2)] Cons.prems(2,3) show ?thesis by (simp add: page_ok_def)
  qed
qed

lemma deliver_all_ends:
  assumes "deliver_all W r cutoff page (cd, st) = (Some e, cd', st')" and "page_ok r page st" and "ids_ok W st"
  shows "\<exists>a. R st a \<and> ending W r a st'"
  using assms
proof (induction page arbitrary: cd st)
  case (Cons m page)
  show ?case
  proof (cases "completedAt m")
    case None
    have m: "m \<in> set (rows st)" "mtopic m = topic r" using Cons.prems(2) None by (auto simp: page_ok_def)
    show ?thesis
    proof (cases "fst (attempt W r m st)")
      case none: None
      then obtain st1 where a: "attempt W r m st = (None, st1)" by (metis prod.collapse)
      obtain cd1 where d: "deliver_all W r cutoff page (cd1, st1) = (Some e, cd', st')"
        using Cons.prems(1) None a by (auto simp: deliver_def)
      have "\<exists>a. R st1 a \<and> ending W r a st'"
        by (rule Cons.IH [OF d page_ok_done [OF Cons.prems(2) a Cons.prems(3) None]
            ids_ok_attempt_done [OF a Cons.prems(3) m(1) None]])
      with R_attempt [OF Cons.prems(3) m(1) None m(2) a] show ?thesis using R_trans by blast
    next
      case (Some e')
      then have "attempt W r m st = (Some e', st')" using Cons.prems(1) None
        by (cases "attempt W r m st") (auto simp: deliver_def split: option.splits)
      then have "ending W r st st'" using m Cons.prems(3) None by (auto simp: ending_def)
      then show ?thesis using R_refl Cons.prems(3) by blast
    qed
  next
    case (Some t)
    then obtain cd1 where "deliver_all W r cutoff page (cd1, st) = (Some e, cd', st')"
      using Cons.prems(1) by (auto simp: deliver_def)
    from Cons.IH [OF this] Cons.prems(2,3) show ?thesis by (simp add: page_ok_def)
  qed
qed simp

lemma persist_cursor_R:
  assumes "ids_ok W st"
  shows "R st (snd (persist_cursor W r c st)) \<and> ids_ok W (snd (persist_cursor W r c st))"
proof -
  have mk: "ids_ok W ((settle_db W st)\<lparr>marks := m\<rparr>)" for m
    by (rule ids_ok_same [OF ids_ok_settle [OF assms]]) simp_all
  note ok = ids_ok_settle [OF assms]
  show ?thesis
  proof (cases "\<not> ok (cand c) \<or> \<not> after (mark c) (At (cand c)) (ID (cand c))")
    case True
    then have "snd (persist_cursor W r c st) = st" by (simp add: persist_cursor_def persist_def)
    then show ?thesis using assms R_refl by simp
  next
    case False
    then have "snd (persist_cursor W r c st) = (if dbfail W (tick st) then settle_db W st
        else (settle_db W st)\<lparr>marks := (marks (settle_db W st))(topic r \<mapsto> cand c)\<rparr>)"
      by (simp add: persist_cursor_def persist_def Let_def)
    then show ?thesis
      using mk ok R_db [OF assms] R_trans [OF R_db [OF assms] R_mark [OF ok]] by simp
  qed
qed

lemma swept_R: "R st st' \<Longrightarrow> ids_ok W st \<Longrightarrow> swept W r R st st'"
  by (simp add: swept_def)

lemma swept_before: "R st st1 \<Longrightarrow> swept W r R st1 st' \<Longrightarrow> swept W r R st st'"
  unfolding swept_def using R_trans by blast

lemma swept_after: "R st a \<Longrightarrow> ending W r a b \<Longrightarrow> swept W r R st (snd (persist_cursor W r c b))"
  unfolding swept_def by blast

lemma swept_end: "R st a \<Longrightarrow> ending W r a b \<Longrightarrow> swept W r R st b"
  unfolding swept_def by blast

lemma q_behind_pending: "list_all (\<lambda>m. completedAt m = None) (q_behind r w st)"
  by (auto simp: q_behind_def ordered_def list_all_iff dest: in_set_takeD)

lemma lookbehind_done:
  "lookbehind W r w n st = (None, n', st') \<Longrightarrow> ids_ok W st \<Longrightarrow> R st st' \<and> ids_ok W st'"
proof (induction n arbitrary: st)
  case 0
  then show ?case using R_refl by simp
next
  case (Suc n)
  let ?st1 = "settle_db W st"
  have ok: "ids_ok W ?st1" and R1: "R st ?st1" using Suc.prems(2) ids_ok_settle R_db by blast+
  have nf: "\<not> dbfail W (tick st)" using Suc.prems(1) by (auto simp: Let_def)
  show ?case
  proof (cases "q_behind r w ?st1 = []")
    case True
    with Suc.prems(1) nf ok R1 show ?thesis by (simp add: Let_def)
  next
    case False
    obtain st2 where a: "attempt_all W r (q_behind r w ?st1) ?st1 = (None, st2)" "lookbehind W r w n st2 = (None, n', st')"
      using Suc.prems(1) nf False by (auto simp: Let_def split: prod.splits option.splits)
    from attempt_all_done [OF a(1) page_ok_query(1) [OF ok] ok q_behind_pending]
    have "R ?st1 st2" "ids_ok W st2" by blast+
    with Suc.IH [OF a(2)] R1 show ?thesis using R_trans by blast
  qed
qed

lemma lookbehind_ends:
  "lookbehind W r w n st = (Some e, n', st') \<Longrightarrow> ids_ok W st \<Longrightarrow> swept W r R st st'"
proof (induction n arbitrary: st)
  case (Suc n)
  let ?st1 = "settle_db W st" and ?pg = "q_behind r w (settle_db W st)"
  have ok: "ids_ok W ?st1" and R1: "R st ?st1" using Suc.prems(2) ids_ok_settle R_db by blast+
  show ?case
  proof (cases "dbfail W (tick st)")
    case True
    with Suc.prems R1 swept_R show ?thesis by (simp add: Let_def)
  next
    case False
    then have ne: "?pg \<noteq> []" using Suc.prems(1) by (auto simp: Let_def)
    obtain x st2 where a: "attempt_all W r ?pg ?st1 = (x, st2)" by fastforce
    show ?thesis
    proof (cases x)
      case None
      from attempt_all_done [OF a [unfolded None] page_ok_query(1) [OF ok] ok q_behind_pending]
      have st2: "R ?st1 st2" "ids_ok W st2" by blast+
      moreover have "lookbehind W r w n st2 = (Some e, n', st')"
        using Suc.prems(1) False ne a None by (simp add: Let_def)
      ultimately show ?thesis using Suc.IH R1 R_trans swept_before by blast
    next
      case (Some e')
      have "st' = st2" using Suc.prems(1) False ne a Some by (simp add: Let_def)
      with attempt_all_ends [OF a [unfolded Some] page_ok_query(1) [OF ok] ok q_behind_pending] R1
      show ?thesis using swept_end R_trans by blast
    qed
  qed
qed simp

lemma boundary_done:
  "boundary W r cutoff bAt n i c st = (None, n', c', st') \<Longrightarrow> ids_ok W st \<Longrightarrow> R st st' \<and> ids_ok W st'"
proof (induction n arbitrary: i c st)
  case 0
  then show ?case using R_refl by simp
next
  case (Suc n)
  let ?st1 = "settle_db W st" and ?pg = "q_boundary r bAt i (settle_db W st)"
  have ok: "ids_ok W ?st1" and R1: "R st ?st1" using Suc.prems(2) ids_ok_settle R_db by blast+
  have nf: "\<not> stopped W (tick st)" "\<not> dbfail W (tick st)"
    using Suc.prems(1) by (auto simp: Let_def split: if_splits)
  obtain cd st2 where d: "deliver_all W r cutoff ?pg (cand c, ?st1) = (None, cd, st2)"
    using Suc.prems(1) nf by (auto simp: Let_def split: prod.splits option.splits)
  obtain c1 st3 where pc: "persist_cursor W r (c\<lparr>cand := cd\<rparr>) st2 = (c1, st3)" by fastforce
  have R2: "R st st2" "ids_ok W st2"
    using deliver_all_done [OF d page_ok_query(2) [OF ok] ok] R1 R_trans by blast+
  have R3: "R st st3" "ids_ok W st3"
    using persist_cursor_R [OF R2(2), of "c\<lparr>cand := cd\<rparr>"] pc R2(1) R_trans by auto
  show ?case
  proof (cases "length ?pg < batch r")
    case True
    with Suc.prems(1) nf d pc R3 show ?thesis by (simp add: Let_def)
  next
    case False
    then have "boundary W r cutoff bAt n (if ?pg = [] then i else mid (last ?pg)) c1 st3 = (None, n', c', st')"
      using Suc.prems(1) nf d pc by (simp add: Let_def)
    from Suc.IH [OF this R3(2)] R3(1) show ?thesis using R_trans by blast
  qed
qed

lemma boundary_ends:
  "boundary W r cutoff bAt n i c st = (Some e, n', c', st') \<Longrightarrow> ids_ok W st \<Longrightarrow> swept W r R st st'"
proof (induction n arbitrary: i c st)
  case (Suc n)
  let ?st1 = "settle_db W st" and ?pg = "q_boundary r bAt i (settle_db W st)"
  have ok: "ids_ok W ?st1" and R1: "R st ?st1" using Suc.prems(2) ids_ok_settle R_db by blast+
  show ?case
  proof (cases "stopped W (tick st) \<or> dbfail W (tick st)")
    case True
    then have "st' = snd (persist_cursor W r c st) \<or> st' = snd (persist_cursor W r c ?st1)"
      using Suc.prems(1) by (auto simp: Let_def split: if_splits)
    with persist_cursor_R [OF ok, of c] persist_cursor_R [OF Suc.prems(2), of c] R1 Suc.prems(2)
    show ?thesis using R_trans swept_R by blast
  next
    case False
    obtain x cd st2 where d: "deliver_all W r cutoff ?pg (cand c, ?st1) = (x, cd, st2)" by (metis prod_cases3)
    obtain c1 st3 where pc: "persist_cursor W r (c\<lparr>cand := cd\<rparr>) st2 = (c1, st3)" by fastforce
    show ?thesis
    proof (cases x)
      case None
      have R2: "R st st2" "ids_ok W st2"
        using deliver_all_done [OF d [unfolded None] page_ok_query(2) [OF ok] ok] R1 R_trans by blast+
      have R3: "R st st3" "ids_ok W st3"
        using persist_cursor_R [OF R2(2), of "c\<lparr>cand := cd\<rparr>"] pc R2(1) R_trans by auto
      have "boundary W r cutoff bAt n (if ?pg = [] then i else mid (last ?pg)) c1 st3 = (Some e, n', c', st')"
        using Suc.prems(1) False d pc None by (simp add: Let_def split: if_splits)
      from Suc.IH [OF this R3(2)] R3(1) show ?thesis using swept_before by blast
    next
      case (Some e')
      from deliver_all_ends [OF d [unfolded Some] page_ok_query(2) [OF ok] ok] R1
      obtain a where "R st a" "ending W r a st2" using R_trans by blast
      moreover have "st' = snd (persist_cursor W r (c\<lparr>cand := cd\<rparr>) st2)"
        using Suc.prems(1) False d pc Some by (simp add: Let_def)
      ultimately show ?thesis using swept_after by blast
    qed
  qed
qed simp

lemma forward_done:
  "forward W r cutoff n pos strict c st = (None, dr, c', st') \<Longrightarrow> ids_ok W st \<Longrightarrow> R st st' \<and> ids_ok W st'"
proof (induction n arbitrary: pos strict c st)
  case 0
  then show ?case using R_refl by simp
next
  case (Suc n)
  let ?st1 = "settle_db W st" and ?pg = "scanForward r pos strict (settle_db W st)"
  have ok: "ids_ok W ?st1" and R1: "R st ?st1" using Suc.prems(2) ids_ok_settle R_db by blast+
  have nf: "\<not> stopped W (tick st)" "\<not> dbfail W (tick st)"
    using Suc.prems(1) by (auto simp: Let_def split: if_splits)
  show ?case
  proof (cases "?pg = []")
    case True
    with Suc.prems(1) nf ok R1 show ?thesis by (simp add: Let_def)
  next
    case False
    obtain cd st2 where d: "deliver_all W r cutoff ?pg (cand c, ?st1) = (None, cd, st2)"
      using Suc.prems(1) nf False by (auto simp: Let_def split: prod.splits option.splits)
    obtain c1 st3 where pc: "persist_cursor W r (c\<lparr>cand := cd\<rparr>) st2 = (c1, st3)" by fastforce
    have R2: "R st st2" "ids_ok W st2"
      using deliver_all_done [OF d page_ok_query(3) [OF ok] ok] R1 R_trans by blast+
    have R3: "R st st3" "ids_ok W st3"
      using persist_cursor_R [OF R2(2), of "c\<lparr>cand := cd\<rparr>"] pc R2(1) R_trans by auto
    show ?thesis
    proof (cases "length ?pg < batch r")
      case True
      with Suc.prems(1) nf d pc R3 False show ?thesis by (simp add: Let_def)
    next
      case ge: False
      then have "forward W r cutoff n (fold (\<lambda>m p. advance p m) ?pg pos) False c1 st3 = (None, dr, c', st')"
        using Suc.prems(1) nf d pc False by (simp add: Let_def)
      from Suc.IH [OF this R3(2)] R3(1) show ?thesis using R_trans by blast
    qed
  qed
qed

lemma forward_ends:
  "forward W r cutoff n pos strict c st = (Some e, dr, c', st') \<Longrightarrow> ids_ok W st \<Longrightarrow> swept W r R st st'"
proof (induction n arbitrary: pos strict c st)
  case (Suc n)
  let ?st1 = "settle_db W st" and ?pg = "scanForward r pos strict (settle_db W st)"
  have ok: "ids_ok W ?st1" and R1: "R st ?st1" using Suc.prems(2) ids_ok_settle R_db by blast+
  show ?case
  proof (cases "stopped W (tick st) \<or> dbfail W (tick st)")
    case True
    then have "st' = snd (persist_cursor W r c st) \<or> st' = snd (persist_cursor W r c ?st1)"
      using Suc.prems(1) by (auto simp: Let_def split: if_splits)
    with persist_cursor_R [OF ok, of c] persist_cursor_R [OF Suc.prems(2), of c] R1 Suc.prems(2)
    show ?thesis using R_trans swept_R by blast
  next
    case False
    then have ne: "?pg \<noteq> []" using Suc.prems(1) by (auto simp: Let_def)
    obtain x cd st2 where d: "deliver_all W r cutoff ?pg (cand c, ?st1) = (x, cd, st2)" by (metis prod_cases3)
    obtain c1 st3 where pc: "persist_cursor W r (c\<lparr>cand := cd\<rparr>) st2 = (c1, st3)" by fastforce
    show ?thesis
    proof (cases x)
      case None
      have R2: "R st st2" "ids_ok W st2"
        using deliver_all_done [OF d [unfolded None] page_ok_query(3) [OF ok] ok] R1 R_trans by blast+
      have R3: "R st st3" "ids_ok W st3"
        using persist_cursor_R [OF R2(2), of "c\<lparr>cand := cd\<rparr>"] pc R2(1) R_trans by auto
      have "forward W r cutoff n (fold (\<lambda>m p. advance p m) ?pg pos) False c1 st3 = (Some e, dr, c', st')"
        using Suc.prems(1) False ne d pc None by (simp add: Let_def split: if_splits)
      from Suc.IH [OF this R3(2)] R3(1) show ?thesis using swept_before by blast
    next
      case (Some e')
      from deliver_all_ends [OF d [unfolded Some] page_ok_query(3) [OF ok] ok] R1
      obtain a where "R st a" "ending W r a st2" using R_trans by blast
      moreover have "st' = snd (persist_cursor W r (c\<lparr>cand := cd\<rparr>) st2)"
        using Suc.prems(1) False ne d pc Some by (simp add: Let_def)
      ultimately show ?thesis using swept_after by blast
    qed
  qed
qed simp

lemma finish_R:
  assumes "ids_ok W st"
  shows "R st (snd (finish W r cutoff drained c st))"
proof -
  have "\<exists>c'. finish W r cutoff drained c st = persist_cursor W r c' st \<or>
      finish W r cutoff drained c st = persist_cursor W r c' (settle_db W st)"
    by (auto simp: finish_def Let_def)
  then show ?thesis
    using persist_cursor_R [OF assms] persist_cursor_R [OF ids_ok_settle [OF assms]] R_db [OF assms] R_trans
    by metis
qed

lemma sweep_beyond_swept:
  assumes "ids_ok W st" and "sweep_beyond W r cutoff had n c st = (x, st')"
  shows "swept W r R st st'"
proof -
  let ?f = "forward W r cutoff n \<lparr>ts = At (mark c), offset = 0\<rparr> had c st"
  obtain y dr c' st1 where f: "?f = (y, dr, c', st1)" by (metis prod_cases4)
  show ?thesis
  proof (cases y)
    case None
    from forward_done [OF f [unfolded None] assms(1)] have "R st st1" "ids_ok W st1" by blast+
    moreover have "st' = snd (finish W r cutoff dr c' st1)"
      using assms(2) f None by (simp add: sweep_beyond_def)
    ultimately show ?thesis using finish_R swept_R assms(1) R_trans by blast
  next
    case (Some e)
    with assms(2) f have "st' = st1" by (simp add: sweep_beyond_def)
    with forward_ends [OF f [unfolded Some] assms(1)] show ?thesis by simp
  qed
qed

theorem sweep_swept:
  assumes "ids_ok W st" and "sweep W r st = (x, st')"
  shows "swept W r R st st'"
proof -
  let ?st = "settle_db W st"
  have ok: "ids_ok W ?st" and R1: "R st ?st" using assms(1) ids_ok_settle R_db by blast+
  let ?w = "load r ?st" and ?cut = "clockr W (tick ?st) - settle r"
  let ?c = "\<lparr>mark = ?w, cand = ?w\<rparr>"
  show ?thesis
  proof (cases "dbfail W (tick st) \<or> \<not> ok ?w")
    case True
    then show ?thesis
      using assms R1 swept_R sweep_beyond_swept [OF ok] swept_before
      by (auto simp: sweep_def Let_def split: if_splits)
  next
    case False
    obtain y n st1 where l: "lookbehind W r ?w (maxPages r) ?st = (y, n, st1)" by (metis prod_cases3)
    show ?thesis
    proof (cases y)
      case (Some e)
      with False l assms(2) have "st' = st1" by (simp add: sweep_def Let_def)
      with lookbehind_ends [OF l [unfolded Some] ok] R1 show ?thesis using swept_before by blast
    next
      case None
      from lookbehind_done [OF l [unfolded None] ok] have st1: "R ?st st1" "ids_ok W st1" by blast+
      obtain z n' c' st2 where b: "boundary W r ?cut (At ?w) n (ID ?w) ?c st1 = (z, n', c', st2)"
        by (metis prod_cases4)
      show ?thesis
      proof (cases z)
        case some: (Some e)
        with None False l b assms(2) have "st' = st2" by (simp add: sweep_def Let_def)
        with boundary_ends [OF b [unfolded some] st1(2)] st1 R1 show ?thesis using swept_before R_trans by blast
      next
        case none: None
        from boundary_done [OF b [unfolded none] st1(2)] have st2: "R st1 st2" "ids_ok W st2" by blast+
        have "sweep_beyond W r ?cut True n' c' st2 = (x, st')"
          using None none False l b assms(2) by (simp add: sweep_def Let_def)
        from sweep_beyond_swept [OF st2(2) this] st2(1) st1(1) R1 show ?thesis
          using swept_before R_trans by blast
      qed
    qed
  qed
qed

end

section \<open>Acknowledgements and head-of-line order\<close>

text \<open>
  What the steps of a sweep keep: no row disappears, an acknowledged row is never touched
  again, and a row is acknowledged only after the handler took it or with a dead letter.
  \<open>calls_of\<close> are the handler calls made.
\<close>

definition carries :: "message \<Rightarrow> message \<Rightarrow> bool" where
  "carries m m' \<longleftrightarrow> mid m' = mid m \<and> createdAt m' = createdAt m \<and> mtopic m' = mtopic m \<and>
     payload m' = payload m \<and> (completedAt m \<noteq> None \<longrightarrow> m' = m)"

definition evidence :: "store \<Rightarrow> message \<Rightarrow> bool" where
  "evidence st m \<longleftrightarrow> (mid m, True) \<in> set (handed st) \<or> mid m \<in> did ` set (dead st)"

definition keeps :: "world \<Rightarrow> store \<Rightarrow> store \<Rightarrow> bool" where
  "keeps W st st' \<longleftrightarrow> ids_ok W st' \<and>
     (\<forall>m \<in> set (rows st). \<exists>m' \<in> set (rows st'). carries m m') \<and>
     set (handed st) \<subseteq> set (handed st') \<and> set (dead st) \<subseteq> set (dead st') \<and>
     (\<forall>m' \<in> set (rows st'). completedAt m' \<noteq> None \<longrightarrow> m' \<in> set (rows st) \<or> evidence st' m')"

lemma carries_refl [simp]: "carries m m"
  by (simp add: carries_def)

lemma carries_trans: "carries a b \<Longrightarrow> carries b c \<Longrightarrow> carries a c"
  by (auto simp: carries_def)

lemma evidence_mono:
  "evidence a m \<Longrightarrow> set (handed a) \<subseteq> set (handed b) \<Longrightarrow> set (dead a) \<subseteq> set (dead b) \<Longrightarrow> evidence b m"
  by (auto simp: evidence_def)

lemma keeps_trans: "keeps W a b \<Longrightarrow> keeps W b c \<Longrightarrow> keeps W a c"
  unfolding keeps_def using carries_trans evidence_mono by (meson subset_trans)

lemma keeps_same:
  assumes "ids_ok W b" and "rows b = rows a @ new" and "\<forall>m \<in> set new. completedAt m = None"
    and "handed b = handed a" and "dead b = dead a"
  shows "keeps W a b"
  unfolding keeps_def using assms carries_refl by (metis Un_iff order_refl set_append)

lemma keeps_swap:
  assumes "ids_ok W b" and "carries row row'" and "set (rows b) = insert row' (set (rows a) - {row}) \<union> new"
    and "\<forall>m \<in> new. completedAt m = None" and "set (handed a) \<subseteq> set (handed b)"
    and "set (dead a) \<subseteq> set (dead b)" and "completedAt row' \<noteq> None \<longrightarrow> evidence b row'"
  shows "keeps W a b"
proof -
  have "\<exists>m' \<in> set (rows b). carries m m'" if "m \<in> set (rows a)" for m
  proof (cases "m = row")
    case False
    with that assms(3) show ?thesis by (intro bexI [of _ m]) auto
  qed (use assms(2,3) in auto)
  moreover have "m' \<in> set (rows a) \<or> evidence b m'" if "m' \<in> set (rows b)" "completedAt m' \<noteq> None" for m'
    using that assms(3,4,7) by auto
  ultimately show ?thesis using assms(1,5,6) by (simp add: keeps_def)
qed

lemma keeps_attempt:
  assumes "ids_ok W a" and "row \<in> set (rows a)" and "completedAt row = None" and "attempt W r row a = (None, b)"
  shows "keeps W a b"
proof (rule attempt_done [OF assms(4,1-3)])
  fix took row'
  assume *: "settled_row row row'" "handed b = handed a @ [(mid row, took)]"
    "set (rows b) = insert row' (set (rows a) - {row}) \<union> set (arrive W (Suc (tick a)))"
    "if took then dead b = dead a \<and> row' = row\<lparr>completedAt := completedAt row'\<rparr>
     else did ` set (dead b) = insert (mid row) (did ` set (dead a)) \<and> set (dead a) \<subseteq> set (dead b)"
  have "carries row row'" "mid row' = mid row" using *(1) assms(3) by (simp_all add: settled_row_def carries_def)
  moreover have "evidence b row'" using *(2,4) \<open>mid row' = mid row\<close> by (cases took) (simp_all add: evidence_def)
  moreover have "\<forall>m \<in> set (arrive W (Suc (tick a))). completedAt m = None"
    using assms(1) by (rule ids_ok_arrive)
  moreover have "set (dead a) \<subseteq> set (dead b)" using *(4) by (cases took) auto
  ultimately show ?thesis
    by (intro keeps_swap [OF ids_ok_attempt_done [OF assms(4,1-3)], where row' = row']) (use *(2,3) in auto)
qed

lemma keeps_ending: "ending W r a b \<Longrightarrow> keeps W a b"
proof -
  assume "ending W r a b"
  then obtain row e where *: "ids_ok W a" "row \<in> set (rows a)" "completedAt row = None" "attempt W r row a = (Some e, b)"
    unfolding ending_def by blast
  show ?thesis
  proof (rule attempt_ends [OF *(4,1-3)])
    fix calls row' n
    assume "handed b = handed a @ calls" "mid row' = mid row" "completedAt row' = None" "createdAt row' = createdAt row"
      "mtopic row' = mtopic row" "payload row' = payload row" "ids_ok W b" "dead b = dead a"
      and rows: "set (rows b) = insert row' (set (rows a) - {row}) \<union> n" "\<forall>m \<in> n. completedAt m = None \<and> mid m \<notin> mid ` set (rows a)"
    then show "keeps W a b"
      using *(3) by (intro keeps_swap [OF _ _ rows(1)]) (auto simp: carries_def)
  qed
qed

interpretation keeping: sweep_relation W r "keeps W" for W r
proof unfold_locales
  fix a b row m
  show "ids_ok W a \<Longrightarrow> keeps W a a" by (rule keeps_same [where new = "[]"]) simp_all
  show "ids_ok W a \<Longrightarrow> keeps W a (settle_db W a)"
    by (rule keeps_same [OF ids_ok_settle]) (auto dest: ids_ok_arrive)
  show "ids_ok W a \<Longrightarrow> keeps W a (a\<lparr>marks := m\<rparr>)"
    by (rule keeps_same [where new = "[]"]) (auto elim: ids_ok_same)
  show "ids_ok W a \<Longrightarrow> row \<in> set (rows a) \<Longrightarrow> completedAt row = None \<Longrightarrow>
      mtopic row = topic r \<Longrightarrow> attempt W r row a = (None, b) \<Longrightarrow> keeps W a b"
    by (rule keeps_attempt)
qed (rule keeps_trans)

text \<open>
  The handler calls of the steps before the end: each with a pending row, which is then
  acknowledged.
\<close>

definition unacked :: "store \<Rightarrow> nat \<Rightarrow> bool" where
  "unacked st i \<longleftrightarrow> (\<forall>m \<in> set (rows st). mid m = i \<longrightarrow> completedAt m = None)"

definition acked :: "store \<Rightarrow> nat \<Rightarrow> bool" where
  "acked st i \<longleftrightarrow> (\<exists>m \<in> set (rows st). mid m = i \<and> completedAt m \<noteq> None)"

lemma unacked_iff: "unacked st i \<longleftrightarrow> \<not> acked st i"
  by (auto simp: unacked_def acked_def)

definition settles :: "world \<Rightarrow> store \<Rightarrow> store \<Rightarrow> bool" where
  "settles W st st' \<longleftrightarrow> keeps W st st' \<and>
     (\<exists>calls. handed st' = handed st @ calls \<and> distinct (map fst calls) \<and>
        (\<forall>i \<in> fst ` set calls. unacked st i \<and> acked st' i))"

lemma acked_keeps:
  assumes "keeps W b c" and "acked b i"
  shows "acked c i"
proof -
  obtain m where m: "m \<in> set (rows b)" "mid m = i" "completedAt m \<noteq> None" using assms(2) unfolding acked_def by blast
  then obtain m' where "m' \<in> set (rows c)" "carries m m'" using assms(1) unfolding keeps_def by blast
  with m show ?thesis by (auto simp: carries_def acked_def)
qed

lemma settles_trans:
  assumes "settles W a b" and "settles W b c"
  shows "settles W a c"
proof -
  obtain x where x: "handed b = handed a @ x" "distinct (map fst x)" "\<forall>i \<in> fst ` set x. unacked a i \<and> acked b i"
    using assms(1) unfolding settles_def by blast
  obtain y where y: "handed c = handed b @ y" "distinct (map fst y)" "\<forall>i \<in> fst ` set y. unacked b i \<and> acked c i"
    using assms(2) unfolding settles_def by blast
  have k: "keeps W a b" "keeps W b c" using assms by (simp_all add: settles_def)
  have "fst ` set x \<inter> fst ` set y = {}" using x(3) y(3) unfolding unacked_iff by blast
  then have "distinct (map fst (x @ y))" using x(2) y(2) by simp
  moreover have "\<forall>i \<in> fst ` set (x @ y). unacked a i \<and> acked c i"
    using x(3) y(3) acked_keeps [OF k(1)] acked_keeps [OF k(2)] unfolding unacked_iff set_append image_Un by blast
  ultimately show ?thesis
    unfolding settles_def using keeps_trans [OF k] x(1) y(1) by (intro conjI exI [of _ "x @ y"]) simp_all
qed

lemma settles_quiet: "keeps W a b \<Longrightarrow> handed b = handed a \<Longrightarrow> settles W a b"
  unfolding settles_def by (intro conjI exI [of _ "[]"]) simp_all

lemma unacked_row:
  assumes "ids_ok W a" and "row \<in> set (rows a)" and "completedAt row = None"
  shows "unacked a (mid row)"
proof -
  have "m = row" if "m \<in> set (rows a)" "mid m = mid row" for m
    using that assms(2) ids_ok_distinct [OF assms(1)] by (metis distinct_map inj_on_eq_iff)
  with assms(3) show ?thesis by (auto simp: unacked_def)
qed

lemma settles_attempt:
  assumes "ids_ok W a" and "row \<in> set (rows a)" and "completedAt row = None" and "attempt W r row a = (None, b)"
  shows "settles W a b"
proof (rule attempt_done [OF assms(4,1-3)])
  fix took row'
  assume *: "settled_row row row'" "handed b = handed a @ [(mid row, took)]"
    "set (rows b) = insert row' (set (rows a) - {row}) \<union> set (arrive W (Suc (tick a)))"
  have "unacked a (mid row)" by (rule unacked_row [OF assms(1-3)])
  moreover have "acked b (mid row)"
    unfolding acked_def using *(1,3) by (intro bexI [of _ row']) (auto simp: settled_row_def)
  ultimately show ?thesis
    using keeps_attempt [OF assms] *(2) unfolding settles_def by (intro conjI exI [of _ "[(mid row, took)]"]) simp_all
qed

interpretation settling: sweep_relation W r "settles W" for W r
proof unfold_locales
  fix a b row m
  show "ids_ok W a \<Longrightarrow> settles W a a" using keeping.R_refl by (rule settles_quiet) simp_all
  show "ids_ok W a \<Longrightarrow> settles W a (settle_db W a)" using keeping.R_db by (rule settles_quiet) simp_all
  show "ids_ok W a \<Longrightarrow> settles W a (a\<lparr>marks := m\<rparr>)" using keeping.R_mark by (rule settles_quiet) simp_all
  show "ids_ok W a \<Longrightarrow> row \<in> set (rows a) \<Longrightarrow> completedAt row = None \<Longrightarrow>
      mtopic row = topic r \<Longrightarrow> attempt W r row a = (None, b) \<Longrightarrow> settles W a b"
    by (rule settles_attempt)
qed (rule settles_trans)

lemma sweep_keeps:
  assumes "ids_ok W st" and "sweep W r st = (x, st')"
  shows "keeps W st st'"
proof -
  from keeping.sweep_swept [OF assms] consider "keeps W st st'"
    | a b c where "keeps W st a" "ending W r a b" "st' = b \<or> st' = snd (persist_cursor W r c b)"
    unfolding swept_def by blast
  then show ?thesis
  proof cases
    case 2
    have "keeps W b st'" using 2(3) keeping.R_refl keeping.persist_cursor_R ids_ok_ending [OF 2(2)] by blast
    with 2(1) keeps_ending [OF 2(2)] show ?thesis using keeps_trans by blast
  qed
qed

section \<open>Properties\<close>

text \<open>C12: no message is lost: whatever fails, arrives late or is interrupted in a sweep,
  every row is still there afterwards with its payload and place; a row acknowledged
  before is untouched; and a row is acknowledged only if the handler took it or it is in
  the dead letters.\<close>

theorem relay_never_loses:
  assumes "ids_ok W st" and "sweep W r st = (x, st')"
  shows "(\<forall>m \<in> set (rows st). \<exists>m' \<in> set (rows st'). mid m' = mid m \<and> createdAt m' = createdAt m \<and>
      mtopic m' = mtopic m \<and> payload m' = payload m \<and> (completedAt m \<noteq> None \<longrightarrow> m' = m)) \<and>
    (\<forall>m' \<in> set (rows st'). completedAt m' \<noteq> None \<longrightarrow>
       m' \<in> set (rows st) \<or> (mid m', True) \<in> set (handed st') \<or> mid m' \<in> did ` set (dead st'))"
  using sweep_keeps [OF assms] unfolding keeps_def carries_def evidence_def by blast

text \<open>C18: a worker works head of line: in one sweep the handler gets no message twice and
  none that was acknowledged before, a parked one included; and every message handed over before
  the last was taken or parked, so that the sweep went no further than its first failure.\<close>

theorem relay_head_of_line:
  assumes "ids_ok W st" and "sweep W r st = (x, st')"
  shows "\<exists>calls. handed st' = handed st @ calls \<and> distinct (map fst calls) \<and>
    (\<forall>i \<in> fst ` set calls. unacked st i) \<and> (\<forall>i \<in> fst ` set (butlast calls). acked st' i)"
proof -
  from settling.sweep_swept [OF assms] consider "settles W st st'"
    | a b c where "settles W st a" "ending W r a b" "st' = b \<or> st' = snd (persist_cursor W r c b)"
    unfolding swept_def by blast
  then show ?thesis
  proof cases
    case 1
    then obtain x where x: "handed st' = handed st @ x" "distinct (map fst x)" "\<forall>i \<in> fst ` set x. unacked st i \<and> acked st' i"
      unfolding settles_def by blast
    then show ?thesis by (intro exI [of _ x]) (auto dest: in_set_butlastD)
  next
    case 2
    obtain x where x: "handed a = handed st @ x" "distinct (map fst x)" "\<forall>i \<in> fst ` set x. unacked st i \<and> acked a i"
      using 2(1) unfolding settles_def by blast
    from 2(2) obtain row e where row: "ids_ok W a" "row \<in> set (rows a)" "completedAt row = None"
      "attempt W r row a = (Some e, b)" unfolding ending_def by blast
    obtain y where y: "handed b = handed a @ y" "set y \<subseteq> {(mid row, True), (mid row, False)}" "length y \<le> 1"
      by (rule attempt_ends [OF row(4,1-3)]) blast
    have k: "keeps W st a" using 2(1) by (simp add: settles_def)
    have "keeps W b st'" using 2(3) keeping.R_refl keeping.persist_cursor_R ids_ok_ending [OF 2(2)] by blast
    then have kas: "keeps W a st'" using keeps_ending [OF 2(2)] keeps_trans by blast
    have un: "unacked a (mid row)" by (rule unacked_row [OF row(1-3)])
    then have "mid row \<notin> fst ` set x" using x(3) by (auto simp: unacked_iff)
    moreover have ys: "fst ` set y \<subseteq> {mid row}" using y(2) by auto
    ultimately have "fst ` set x \<inter> fst ` set y = {}" by (rule disjoint_singleton)
    moreover have "distinct (map fst y)" using y(3) by (cases y) auto
    ultimately have d: "distinct (map fst (x @ y))" using x(2) by simp
    have "handed st' = handed b"
      using 2(3) by (auto simp: persist_cursor_def persist_def Let_def split: prod.splits if_splits)
    then have h: "handed st' = handed st @ (x @ y)" using x(1) y(1) by simp
    have "unacked st (mid row)" using un acked_keeps [OF k] by (auto simp: unacked_iff)
    moreover have "i \<in> fst ` set x \<or> i = mid row" if "i \<in> fst ` set (x @ y)" for i
      using that ys by (auto simp: image_Un)
    ultimately have pend: "\<forall>i \<in> fst ` set (x @ y). unacked st i" using x(3) by metis
    have "set (butlast (x @ y)) \<subseteq> set x" using y(3) by (cases y) (auto dest: in_set_butlastD)
    then have "i \<in> fst ` set x" if "i \<in> fst ` set (butlast (x @ y))" for i using that by (meson image_mono subsetD)
    then have "\<forall>i \<in> fst ` set (butlast (x @ y)). acked st' i" using x(3) acked_keeps [OF kas] by metis
    then show ?thesis using h d pend by (intro exI [of _ "x @ y"] conjI)
  qed
qed

text \<open>The wait after the \<open>n\<close>-th failure is the configured backoff doubled \<open>n - 1\<close> times,
  at most the maximum: the doubling on 64-bit durations never overflows.\<close>

theorem relay_delay_doubles:
  assumes "1 \<le> n" and "0 \<le> b" and "0 \<le> mx" and "mx \<le> max_duration"
  shows "delay b mx n = min (b * 2 ^ nat (n - 1)) mx"
proof -
  have "delay_loop mx k d = min (d * 2 ^ k) mx" if "0 \<le> d" for k d
    using that
  proof (induction k arbitrary: d)
    case (Suc k)
    show ?case
    proof (cases "d < mx")
      case lt: True
      show ?thesis
      proof (cases "d > mx div 2")
        case True
        then have "mx < d * 2" by linarith
        also have "d * 2 \<le> d * 2 ^ Suc k" using Suc.prems by (simp add: mult_left_mono)
        finally show ?thesis using lt True by simp
      next
        case False
        then have "d * 2 \<le> mx" by linarith
        then have "wrap64 (d * 2) = d * 2"
          using Suc.prems assms(4) by (simp add: wrap64_def max_duration_def)
        with Suc.IH [of "d * 2"] Suc.prems lt False show ?thesis by (simp add: mult.assoc)
      qed
    next
      case False
      have "d * 1 \<le> d * 2 ^ Suc k" using one_le_power [of "2::int" "Suc k"] Suc.prems
        by (intro mult_left_mono) simp_all
      with False show ?thesis by simp
    qed
  qed simp
  with assms(2) show ?thesis by (simp add: delay_def)
qed

section \<open>Witnesses\<close>

definition demo_row :: "nat \<Rightarrow> instant \<Rightarrow> message" where
  "demo_row i t = \<lparr>mid = i, createdAt = t, mtopic = ''mail'', payload = ''x'', attempts = 0, retryAt = None,
     lastError = [], completedAt = None\<rparr>"

text \<open>The handler fails on its second call; a row commits while the first is being completed.\<close>

definition demo_world :: world where
  "demo_world = \<lparr>clockr = (\<lambda>k. 1000), dbfail = (\<lambda>k. False), arrive = (\<lambda>k. if k = 3 then [demo_row 4 5] else []),
     stopped = (\<lambda>k. False),
     outcome = (\<lambda>k. (if k = 4 then HErr \<lparr>canceled = False, undecodable = False, etext = ''no''\<rparr> else HNil, False)), timeout = ''5m0s''\<rparr>"

definition demo_relay :: relay where
  "demo_relay = \<lparr>topic = ''mail'', maxAttempts = 3, backoff = 5, maxBackoff = 60, settle = 1, batch = 2, maxPages = 9\<rparr>"

definition demo_store :: "message list \<Rightarrow> store" where
  "demo_store ms = \<lparr>rows = ms, dead = [], marks = Map.empty, tick = 0, delivered = 0, parked = 0,
     head = \<lparr>hattempts = 0, hnext = 0\<rparr>, handed = []\<rparr>"

abbreviation demo_rows :: "message list" where
  "demo_rows \<equiv> [demo_row 1 10, demo_row 2 10, demo_row 3 20]"

lemma concat_once: "concat (map (\<lambda>k. if k = c then xs else []) [a..<N]) = (if a \<le> c \<and> c < N then xs else [])"
  by (induction N) auto

lemma demo_ids: "ids_ok demo_world (demo_store demo_rows)"
proof -
  have "map mid (arrive demo_world k) = (if k = 3 then [4] else [])" for k
    by (simp add: demo_world_def demo_row_def)
  then show ?thesis by (simp add: ids_ok_def demo_store_def concat_once demo_row_def) (simp add: demo_world_def demo_row_def)
qed

abbreviation demo_after :: store where
  "demo_after \<equiv> snd (sweep demo_world demo_relay (demo_store demo_rows))"

lemma demo_sweep:
  "fst (sweep demo_world demo_relay (demo_store demo_rows)) = Some HandlerFailed"
  "map mid (rows demo_after) = [1, 2, 3, 4]"
  "map completedAt (rows demo_after) = [Some 1000, None, None, None]"
  "handed demo_after = [(1, True), (2, False)]"
  by code_simp+

theorem relay_never_loses_witness:
  "list_all (\<lambda>m. list_ex (\<lambda>m'. mid m' = mid m \<and> payload m' = payload m) (rows demo_after)) demo_rows \<and>
   map completedAt (rows demo_after) = [Some 1000, None, None, None]"
proof -
  have "rows (demo_store demo_rows) = demo_rows" by (simp add: demo_store_def)
  with relay_never_loses [OF demo_ids prod.collapse [symmetric], of demo_relay]
  have "\<forall>m \<in> set demo_rows. \<exists>m' \<in> set (rows demo_after). mid m' = mid m \<and> payload m' = payload m" by metis
  then show ?thesis unfolding list_all_iff list_ex_iff using demo_sweep(3) by blast
qed

theorem relay_head_of_line_witness:
  "handed demo_after = [(1, True), (2, False)] \<and> acked demo_after 1"
proof -
  have "handed (demo_store demo_rows) = []" by (simp add: demo_store_def)
  with relay_head_of_line [OF demo_ids prod.collapse [symmetric], of demo_relay]
  obtain calls where "handed demo_after = calls" "\<forall>i \<in> fst ` set (butlast calls). acked demo_after i"
    by (metis append_Nil)
  moreover from this(1) have "calls = [(1, True), (2, False)]" using demo_sweep(4) by (simp only:)
  ultimately show ?thesis using demo_sweep(4) by simp
qed

theorem relay_delay_doubles_witness:
  "delay 1000000000 900000000000 4 = 8000000000 \<and> delay 1000000000 900000000000 100 = 900000000000"
proof -
  have mx: "(900000000000 :: int) \<le> max_duration" by (simp add: max_duration_def)
  have "(1000000000 :: int) * 2 ^ 99 \<ge> 900000000000" by simp
  then show ?thesis
    using relay_delay_doubles [OF _ _ _ mx, of 4 1000000000] relay_delay_doubles [OF _ _ _ mx, of 100 1000000000] by simp
qed

end
