(* ===== verification/Jobs_Delivery.thy ===== *)
theory Jobs_Delivery
  imports Jobs_Relay
begin

text \<open>
  What a sweep achieves when nothing goes wrong: every message of the topic is
  acknowledged, however the table is cut into pages, whatever ties there are in the
  creation times, and wherever late commits lie behind the watermark.
\<close>

section \<open>Calm worlds\<close>

definition calm :: "world \<Rightarrow> bool" where
  "calm W \<longleftrightarrow> (\<forall>k. \<not> dbfail W k \<and> \<not> stopped W k \<and> arrive W k = [] \<and> outcome W k = (HNil, False))"

definition due :: "world \<Rightarrow> message \<Rightarrow> bool" where
  "due W m \<longleftrightarrow> (\<forall>t k. retryAt m = Some t \<longrightarrow> t \<le> clockr W k)"

lemma attempt_calm:
  assumes "calm W" and "due W row"
  shows "\<exists>st'. attempt W r row st = (None, st')"
proof -
  have "\<not> not_due W row st" using assms(2) by (auto simp: not_due_def due_def not_less split: option.split)
  with assms(1) show ?thesis
    by (auto simp: attempt_def calm_def hand_over_def call_def settle_outcome_def complete_def Let_def)
qed

text \<open>
  In a calm world rows keep their places and topics, and the rows without an
  acknowledgement only become fewer.
\<close>

abbreviation keys :: "store \<Rightarrow> ((instant \<times> nat) \<times> string) list" where
  "keys st \<equiv> map (\<lambda>m. (position m, mtopic m)) (rows st)"

definition narrows :: "world \<Rightarrow> store \<Rightarrow> store \<Rightarrow> bool" where
  "narrows W st st' \<longleftrightarrow> keeps W st st' \<and>
     (calm W \<longrightarrow> keys st' = keys st \<and>
        (\<forall>m \<in> set (rows st'). completedAt m = None \<longrightarrow> m \<in> set (rows st)))"

lemma narrows_trans: "narrows W a b \<Longrightarrow> narrows W b c \<Longrightarrow> narrows W a c"
  unfolding narrows_def using keeps_trans by (metis (no_types, lifting))

lemma narrows_attempt:
  assumes "ids_ok W a" and "row \<in> set (rows a)" and "completedAt row = None" and "attempt W r row a = (None, b)"
  shows "narrows W a b"
proof (rule attempt_done [OF assms(4,1-3)])
  fix took row'
  assume *: "settled_row row row'"
    "set (rows b) = insert row' (set (rows a) - {row}) \<union> set (arrive W (Suc (tick a)))"
    "keys b = map (\<lambda>m. (position m, mtopic m)) (rows a @ arrive W (Suc (tick a)))"
  have "keeps W a b" by (rule keeps_attempt [OF assms])
  moreover have "keys b = keys a" if "calm W" using that *(3) by (simp add: calm_def)
  moreover have "m \<in> set (rows a)" if "calm W" "m \<in> set (rows b)" "completedAt m = None" for m
    using that *(1,2) by (auto simp: calm_def settled_row_def)
  ultimately show ?thesis unfolding narrows_def by blast
qed

interpretation narrowing: sweep_relation W r "narrows W" for W r
proof unfold_locales
  fix a b row m
  show "ids_ok W a \<Longrightarrow> narrows W a a" by (simp add: narrows_def keeping.R_refl)
  show "ids_ok W a \<Longrightarrow> narrows W a (settle_db W a)" by (simp add: narrows_def keeping.R_db calm_def)
  show "ids_ok W a \<Longrightarrow> narrows W a (a\<lparr>marks := m\<rparr>)" by (simp add: narrows_def keeping.R_mark)
  show "ids_ok W a \<Longrightarrow> row \<in> set (rows a) \<Longrightarrow> completedAt row = None \<Longrightarrow>
      mtopic row = topic r \<Longrightarrow> attempt W r row a = (None, b) \<Longrightarrow> narrows W a b"
    by (rule narrows_attempt)
qed (rule narrows_trans)

text \<open>A store in a calm world: sound, and every pending row is due.\<close>

definition ready :: "world \<Rightarrow> store \<Rightarrow> bool" where
  "ready W st \<longleftrightarrow> calm W \<and> ids_ok W st \<and> (\<forall>m \<in> set (rows st). completedAt m = None \<longrightarrow> due W m)"

lemma ready_narrows: "ready W st \<Longrightarrow> narrows W st st' \<Longrightarrow> ready W st'"
  unfolding ready_def narrows_def keeps_def by blast

lemma acked_narrows: "narrows W a b \<Longrightarrow> acked a i \<Longrightarrow> acked b i"
  unfolding narrows_def using acked_keeps by blast

lemma ready_settle:
  assumes "ready W st"
  shows "rows (settle_db W st) = rows st" "narrows W st (settle_db W st)" "ready W (settle_db W st)"
proof -
  show "rows (settle_db W st) = rows st" using assms by (simp add: ready_def calm_def)
  show "narrows W st (settle_db W st)" using assms narrowing.R_db by (simp add: ready_def)
  then show "ready W (settle_db W st)" using assms ready_narrows by blast
qed

lemma acked_attempt:
  assumes "attempt W r row st = (None, st')" and "ids_ok W st" and "row \<in> set (rows st)"
    and "completedAt row = None"
  shows "acked st' (mid row)"
  using assms
proof (rule attempt_done)
  fix row'
  assume "settled_row row row'" "set (rows st') = insert row' (set (rows st) - {row}) \<union> set (arrive W (Suc (tick st)))"
  then show "acked st' (mid row)" by (auto simp: acked_def settled_row_def)
qed

lemma attempt_all_calm:
  assumes "ready W st" and "page_ok r page st" and "list_all (\<lambda>m. completedAt m = None) page"
  shows "\<exists>st'. attempt_all W r page st = (None, st') \<and> narrows W st st' \<and> (\<forall>m \<in> set page. acked st' (mid m))"
  using assms
proof (induction page arbitrary: st)
  case Nil
  then show ?case using narrowing.R_refl by (simp add: ready_def)
next
  case (Cons m page)
  have m: "m \<in> set (rows st)" "completedAt m = None" "mtopic m = topic r"
    using Cons.prems(2,3) by (auto simp: page_ok_def)
  have ok: "ids_ok W st" "calm W" "due W m" using Cons.prems(1) m by (auto simp: ready_def)
  obtain st1 where a: "attempt W r m st = (None, st1)" using attempt_calm [OF ok(2,3)] by blast
  have n1: "narrows W st st1" by (rule narrows_attempt [OF ok(1) m(1,2) a])
  obtain st' where st': "attempt_all W r page st1 = (None, st')" "narrows W st1 st'" "\<forall>m \<in> set page. acked st' (mid m)"
    using Cons.IH [OF ready_narrows [OF Cons.prems(1) n1] page_ok_done [OF Cons.prems(2) a ok(1) m(2)]] Cons.prems(3) by auto
  have "acked st' (mid m)" using acked_narrows [OF st'(2) acked_attempt [OF a ok(1) m(1,2)]] .
  with a st' show ?case using narrows_trans [OF n1] by auto
qed

lemma deliver_all_calm:
  assumes "ready W st" and "page_ok r page st" and "set page \<subseteq> set (rows st) \<union> {m. acked st (mid m)}"
  shows "\<exists>cd' st'. deliver_all W r cutoff page (cd, st) = (None, cd', st') \<and> narrows W st st' \<and>
    (\<forall>m \<in> set page. acked st' (mid m))"
  using assms
proof (induction page arbitrary: cd st)
  case Nil
  then show ?case using narrowing.R_refl by (simp add: ready_def)
next
  case (Cons m page)
  have ok: "ids_ok W st" "calm W" using Cons.prems(1) by (auto simp: ready_def)
  have "\<exists>cd1 st1. deliver W r cutoff m (cd, st) = (None, cd1, st1) \<and> narrows W st st1 \<and> acked st1 (mid m) \<and> page_ok r page st1"
  proof (cases "completedAt m")
    case None
    then have m: "m \<in> set (rows st)" using Cons.prems(2) by (auto simp: page_ok_def)
    then have "due W m" using Cons.prems(1) None by (auto simp: ready_def)
    then obtain st1 where a: "attempt W r m st = (None, st1)" using attempt_calm [OF ok(2)] by blast
    then show ?thesis
      using None narrows_attempt [OF ok(1) m None a] acked_attempt [OF a ok(1) m None]
        page_ok_done [OF Cons.prems(2) a ok(1) None] by (auto simp: deliver_def)
  next
    case (Some t)
    then have "acked st (mid m)" using Cons.prems(3) by (auto simp: acked_def)
    then show ?thesis using Some narrowing.R_refl [OF ok(1)] Cons.prems(2) by (auto simp: deliver_def page_ok_def)
  qed
  then obtain cd1 st1 where d: "deliver W r cutoff m (cd, st) = (None, cd1, st1)" and n1: "narrows W st st1"
    and ack: "acked st1 (mid m)" and pg: "page_ok r page st1" by blast
  have "set page \<subseteq> set (rows st1) \<union> {m. acked st1 (mid m)}"
  proof
    fix x
    assume x: "x \<in> set page"
    show "x \<in> set (rows st1) \<union> {m. acked st1 (mid m)}"
    proof (cases "completedAt x")
      case None
      with x pg show ?thesis by (auto simp: page_ok_def)
    next
      case (Some t)
      then have "acked st (mid x)" using x Cons.prems(3) by (auto simp: acked_def)
      then show ?thesis using acked_narrows [OF n1] by blast
    qed
  qed
  from Cons.IH [OF ready_narrows [OF Cons.prems(1) n1] pg this, of cd1] obtain cd' st'
    where "deliver_all W r cutoff page (cd1, st1) = (None, cd', st')" "narrows W st1 st'" "\<forall>m \<in> set page. acked st' (mid m)"
    by blast
  then have "deliver_all W r cutoff (m # page) (cd, st) = (None, cd', st')" "narrows W st st'"
    "\<forall>x \<in> set (m # page). acked st' (mid x)"
    using d narrows_trans [OF n1] acked_narrows [of W st1 st', OF _ ack] by simp_all
  then show ?case by blast
qed

section \<open>Behind the watermark\<close>

definition behind :: "relay \<Rightarrow> watermark \<Rightarrow> store \<Rightarrow> message set" where
  "behind r w st = {m \<in> set (rows st). mtopic m = topic r \<and> completedAt m = None \<and>
     (createdAt m < At w \<or> createdAt m = At w \<and> mid m \<le> ID w)}"

lemma q_behind_spec:
  assumes "ids_ok W st"
  shows "set (q_behind r w st) \<subseteq> behind r w st" and "length (q_behind r w st) = min (batch r) (card (behind r w st))"
    and "distinct (q_behind r w st)"
proof -
  let ?f = "filter (\<lambda>m. completedAt m = None \<and> (createdAt m < At w \<or> createdAt m = At w \<and> mid m \<le> ID w)) (scope r st)"
  have s: "set ?f = behind r w st" by (auto simp: behind_def scope_def)
  have "distinct (rows st)" using ids_ok_distinct [OF assms] by (simp add: distinct_map)
  then have d: "distinct ?f" by (simp add: scope_def)
  show "set (q_behind r w st) \<subseteq> behind r w st"
    unfolding q_behind_def s [symmetric] by (auto simp: ordered_def dest: in_set_takeD)
  show "length (q_behind r w st) = min (batch r) (card (behind r w st))"
    using distinct_card [OF d] by (simp add: q_behind_def ordered_def s [symmetric])
  show "distinct (q_behind r w st)" using d by (simp add: q_behind_def ordered_def)
qed

lemma lookbehind_calm:
  assumes "ready W st" and "0 < batch r" and "card (behind r w st) \<le> batch r * k" and "k \<le> n"
  shows "\<exists>n' st'. lookbehind W r w n st = (None, n', st') \<and> n - k \<le> n' \<and> narrows W st st' \<and> behind r w st' = {}"
  using assms(1,3,4)
proof (induction n arbitrary: st k)
  case 0
  then have "behind r w st = {}" by (simp add: behind_def)
  moreover have "narrows W st st" using 0(1) narrowing.R_refl by (simp add: ready_def)
  ultimately show ?case by simp
next
  case (Suc n)
  let ?st1 = "settle_db W st"
  note s = ready_settle [OF Suc.prems(1)]
  have nf: "\<not> dbfail W (tick st)" "ids_ok W ?st1" using Suc.prems(1) s(3) by (auto simp: ready_def calm_def)
  let ?pg = "q_behind r w ?st1"
  note q = q_behind_spec [OF nf(2), of r w]
  have beh: "behind r w ?st1 = behind r w st" unfolding behind_def s(1) ..
  have fin: "finite (behind r w x)" for x by (simp add: behind_def)
  show ?case
  proof (cases "?pg = []")
    case True
    then have "behind r w ?st1 = {}" using q(2) assms(2) fin [of ?st1] by (simp add: min_def split: if_splits)
    with True nf(1) s(2) Suc.prems(3) show ?thesis by (simp add: Let_def)
  next
    case False
    then have "0 < card (behind r w st)" using q(2) beh by (cases "card (behind r w st)") auto
    then obtain k' where k: "k = Suc k'" using Suc.prems(2) by (cases k) auto
    obtain st2 where a: "attempt_all W r ?pg ?st1 = (None, st2)" "narrows W ?st1 st2" "\<forall>m \<in> set ?pg. acked st2 (mid m)"
      using attempt_all_calm [OF s(3) page_ok_query(1) [OF nf(2)] narrowing.q_behind_pending] by blast
    have r2: "ready W st2" using ready_narrows [OF s(3) a(2)] .
    have "behind r w st2 \<subseteq> behind r w st - set ?pg"
    proof
      fix m
      assume m: "m \<in> behind r w st2"
      then have m2: "m \<in> set (rows st2)" "completedAt m = None" by (simp_all add: behind_def)
      then have "m \<in> set (rows ?st1)" using a(2) Suc.prems(1) by (simp add: narrows_def ready_def)
      moreover have "m \<notin> set ?pg"
        using a(3) m2 unacked_row [of W st2 m] r2 by (auto simp: ready_def unacked_iff)
      ultimately show "m \<in> behind r w st - set ?pg" using m s(1) by (simp add: behind_def del: in_settle(6))
    qed
    then have "card (behind r w st2) \<le> card (behind r w st - set ?pg)" by (rule card_mono [rotated]) (simp add: fin)
    also have "\<dots> = card (behind r w st) - length ?pg"
      using q(1) beh fin distinct_card [OF q(3)] by (simp add: card_Diff_subset)
    finally have "card (behind r w st2) \<le> batch r * k'"
      using q(2) beh Suc.prems(2) k by (auto simp: min_def split: if_splits)
    from Suc.IH [OF r2 this] Suc.prems(3) k obtain n' st' where
      r: "lookbehind W r w n st2 = (None, n', st')" "n - k' \<le> n'" "narrows W st2 st'" "behind r w st' = {}" by auto
    have "lookbehind W r w (Suc n) st = (None, n', st')" using nf(1) False a(1) r(1) by (simp add: Let_def)
    with r k narrows_trans [OF narrows_trans [OF s(2) a(2)] r(3)] show ?thesis by auto
  qed
qed

section \<open>Positions\<close>

definition places :: "relay \<Rightarrow> store \<Rightarrow> (instant \<times> nat) list" where
  "places r st = sort (map position (scope r st))"

lemma map_ordered: "map position (ordered ms) = sort (map position ms)"
  by (rule properties_for_sort [symmetric]) (simp_all add: ordered_def)

lemma scope_positions: "map position (scope r st) = map fst (filter (\<lambda>(p, t). t = topic r) (keys st))"
  by (simp add: scope_def filter_map o_def)

lemma places_narrows: "calm W \<Longrightarrow> narrows W a b \<Longrightarrow> places r b = places r a"
  by (simp add: places_def scope_positions narrows_def)

lemma map_ordered_filter:
  "map position (ordered (filter (\<lambda>m. P (position m)) (scope r st))) = filter P (places r st)"
  by (simp add: map_ordered places_def filter_sort filter_map o_def)

lemma sorted_places: "sorted (places r st)"
  by (simp add: places_def)

lemma distinct_mapI: "distinct (map f xs) \<Longrightarrow> distinct xs"
  by (simp add: distinct_map)

lemma distinct_places:
  assumes "ids_ok W st"
  shows "distinct (places r st)"
proof -
  have "distinct (map mid (scope r st))"
    using ids_ok_distinct [OF assms] by (simp add: scope_def distinct_map_filter)
  then have "distinct (map snd (map position (scope r st)))" by (simp add: position_def o_def)
  then have "distinct (map position (scope r st))" by (rule distinct_mapI)
  then show ?thesis by (simp add: places_def)
qed

lemma acked_place:
  assumes "m \<in> set (rows st)" and "narrows W st st'" and "\<forall>x \<in> set (places r st). acked st' (snd x)" and "mtopic m = topic r"
  shows "acked st' (mid m)"
  using assms by (auto simp: places_def scope_def position_def)

lemma filter_above:
  assumes "sorted xs" and "distinct xs" and "0 < b" and "b \<le> length xs"
  shows "filter (\<lambda>x. xs ! (b - 1) < x) xs = drop b (xs :: 'a :: linorder list)"
proof -
  have "filter (\<lambda>x. xs ! (b - 1) < x) (take b xs) = []"
  proof -
    have "\<not> xs ! (b - 1) < take b xs ! i" if "i < b" for i
    proof -
      have "i \<le> b - 1" "b - 1 < length xs" using that assms(4) by linarith+
      from sorted_nth_mono [OF assms(1) this] that show ?thesis by simp
    qed
    then show ?thesis using assms(4) by (auto simp: filter_empty_conv in_set_conv_nth)
  qed
  moreover have "filter (\<lambda>x. xs ! (b - 1) < x) (drop b xs) = drop b xs"
  proof -
    have "xs ! (b - 1) < xs ! j" if "b \<le> j" "j < length xs" for j
    proof -
      have lt: "b - 1 < j" "b - 1 < length xs" using that assms(3) by linarith+
      then have "xs ! (b - 1) \<noteq> xs ! j" using that(2) nth_eq_iff_index_eq [OF assms(2), of "b - 1" j] by simp
      moreover have "xs ! (b - 1) \<le> xs ! j" using sorted_nth_mono [OF assms(1), of "b - 1" j] lt that(2) by simp
      ultimately show ?thesis by simp
    qed
    then show ?thesis by (auto simp: filter_id_conv in_set_conv_nth)
  qed
  ultimately show ?thesis by (metis append_Nil append_take_drop_id filter_append)
qed

text \<open>A page whose rows are in the table: delivering it acknowledges all its places.\<close>

lemma deliver_page:
  assumes "ready W st" and "page_ok r page st" and "set page \<subseteq> set (rows st)"
  shows "\<exists>cd' st' c' st3. deliver_all W r cutoff page (cd, st) = (None, cd', st') \<and>
    persist_cursor W r (c\<lparr>cand := cd'\<rparr>) st' = (c', st3) \<and> narrows W st st3 \<and>
    (\<forall>x \<in> set (map position page). acked st3 (snd x))"
proof -
  from deliver_all_calm [OF assms(1,2)] assms(3) obtain cd' st' where
    d: "deliver_all W r cutoff page (cd, st) = (None, cd', st')" "narrows W st st'" "\<forall>m \<in> set page. acked st' (mid m)"
    by blast
  obtain c' st3 where pc: "persist_cursor W r (c\<lparr>cand := cd'\<rparr>) st' = (c', st3)" by fastforce
  have "ids_ok W st'" using ready_narrows [OF assms(1) d(2)] by (simp add: ready_def)
  from narrowing.persist_cursor_R [OF this, where r = r and c = "c\<lparr>cand := cd'\<rparr>"] pc have n: "narrows W st' st3" by simp
  have "\<forall>x \<in> set (map position page). acked st3 (snd x)"
    using d(3) acked_narrows [OF n] by (auto simp: position_def)
  with d(1) pc narrows_trans [OF d(2) n] show ?thesis by blast
qed

lemma page_in_rows:
  "set (q_boundary r bAt i st) \<subseteq> set (rows st)" "set (scanForward r pos strict st) \<subseteq> set (rows st)"
  by (auto simp: q_boundary_def scanForward_def ordered_def scope_def split: if_splits
      dest!: in_set_takeD in_set_dropD)

section \<open>At the watermark\<close>

definition at_boundary :: "instant \<Rightarrow> nat \<Rightarrow> relay \<Rightarrow> store \<Rightarrow> (instant \<times> nat) list" where
  "at_boundary bAt i r st = filter (\<lambda>x. fst x = bAt \<and> i < snd x) (places r st)"

lemma q_boundary_places: "map position (q_boundary r bAt i st) = take (batch r) (at_boundary bAt i r st)"
proof -
  have "(\<lambda>m. createdAt m = bAt \<and> i < mid m) = (\<lambda>m. (\<lambda>x. fst x = bAt \<and> i < snd x) (position m))"
    by (simp add: position_def)
  then show ?thesis
    unfolding q_boundary_def at_boundary_def using map_ordered_filter [of "\<lambda>x. fst x = bAt \<and> i < snd x" r st]
    by (simp only: take_map [symmetric])
qed

lemma boundary_calm:
  assumes "ready W st" and "0 < batch r" and "length (at_boundary bAt i r st) < batch r * Suc k" and "Suc k \<le> n"
  shows "\<exists>n' c' st'. boundary W r cutoff bAt n i c st = (None, n', c', st') \<and> n - Suc k \<le> n' \<and>
    narrows W st st' \<and> (\<forall>x \<in> set (at_boundary bAt i r st). acked st' (snd x))"
  using assms(1,3,4)
proof (induction n arbitrary: st i k c)
  case (Suc n)
  let ?st1 = "settle_db W st"
  let ?pg = "q_boundary r bAt i ?st1" and ?X = "at_boundary bAt i r st"
  note s = ready_settle [OF Suc.prems(1)]
  have calm: "calm W" "\<not> dbfail W (tick st)" "\<not> stopped W (tick st)" "ids_ok W ?st1" "ids_ok W st"
    using Suc.prems(1) s(3) by (auto simp: ready_def calm_def)
  have X1: "at_boundary bAt i r ?st1 = ?X" using places_narrows [OF calm(1) s(2)] by (simp add: at_boundary_def)
  obtain cd' st' c1 st3 where d: "deliver_all W r cutoff ?pg (cand c, ?st1) = (None, cd', st')"
    "persist_cursor W r (c\<lparr>cand := cd'\<rparr>) st' = (c1, st3)" "narrows W ?st1 st3"
    "\<forall>x \<in> set (map position ?pg). acked st3 (snd x)"
    using deliver_page [OF s(3) page_ok_query(2) [OF calm(4)] page_in_rows(1), where cutoff = cutoff and cd = "cand c" and c = c] by blast
  have n3: "narrows W st st3" using narrows_trans [OF s(2) d(3)] .
  have pos: "map position ?pg = take (batch r) ?X" using q_boundary_places [of r bAt i ?st1] X1 by simp
  then have len: "length ?pg = min (batch r) (length ?X)" by (metis length_map length_take min.commute)
  show ?case
  proof (cases "length ?pg < batch r")
    case True
    then have "map position ?pg = ?X" using len pos by simp
    moreover have "boundary W r cutoff bAt (Suc n) i c st = (None, n, c1, st3)"
      using calm True d(1,2) by (simp add: Let_def)
    ultimately show ?thesis using d(4) n3 by auto
  next
    case False
    then have ge: "batch r \<le> length ?X" "length ?pg = batch r" using len by auto
    then obtain k' where k: "k = Suc k'" using Suc.prems(2) by (cases k) auto
    have ne: "?pg \<noteq> []" using ge(2) assms(2) by auto
    let ?j = "mid (last ?pg)"
    have last: "position (last ?pg) = ?X ! (batch r - 1)"
      using ne ge pos by (metis last_conv_nth last_map length_map length_take min.absorb2 nth_take
          diff_less assms(2) less_numeral_extra(1) take_eq_Nil map_is_Nil_conv)
    have sX: "sorted ?X" "distinct ?X"
      using sorted_places distinct_places [OF calm(5)] by (simp_all add: at_boundary_def sorted_wrt_filter)
    have "?X ! (batch r - 1) \<in> set ?X" using ge(1) assms(2) by (intro nth_mem) linarith
    then have at: "fst (?X ! (batch r - 1)) = bAt" "i < snd (?X ! (batch r - 1))"
      by (auto simp: at_boundary_def)
    have j: "?j = snd (?X ! (batch r - 1))" using last by (simp add: position_def prod_eq_iff)
    have "at_boundary bAt ?j r st3 = filter (\<lambda>x. ?X ! (batch r - 1) < x) ?X"
      unfolding at_boundary_def places_narrows [OF calm(1) n3] using at j
      by (auto simp: at_boundary_def less_prod_def' intro!: filter_cong)
    also have "\<dots> = drop (batch r) ?X" by (rule filter_above [OF sX assms(2) ge(1)])
    finally have rest: "at_boundary bAt ?j r st3 = drop (batch r) ?X" .
    have "length (at_boundary bAt ?j r st3) < batch r * Suc k'" using rest Suc.prems(2) k ge(1) by auto
    from Suc.IH [OF ready_narrows [OF Suc.prems(1) n3] this, of c1] Suc.prems(3) k obtain n' c' st4 where
      r4: "boundary W r cutoff bAt n ?j c1 st3 = (None, n', c', st4)" "n - Suc k' \<le> n'" "narrows W st3 st4"
        "\<forall>x \<in> set (drop (batch r) ?X). acked st4 (snd x)" unfolding rest by auto
    have "boundary W r cutoff bAt (Suc n) i c st = (None, n', c', st4)"
      using calm False ne d(1,2) r4(1) by (simp add: Let_def)
    moreover have "acked st4 (snd x)" if "x \<in> set ?X" for x
    proof -
      have "x \<in> set (take (batch r) ?X) \<or> x \<in> set (drop (batch r) ?X)"
        using that by (metis Un_iff append_take_drop_id set_append)
      then show ?thesis using d(4) pos r4(4) acked_narrows [OF r4(3)] by metis
    qed
    ultimately show ?thesis using r4(2) k narrows_trans [OF n3 r4(3)] by auto
  qed
qed simp

section \<open>Beyond the watermark\<close>

text \<open>
  The scan position \<open>pos\<close> stands at index \<open>c\<close> of the places: what comes before has been
  seen, or lies at or before the watermark.
\<close>

definition count_below :: "(instant \<times> nat) list \<Rightarrow> instant \<Rightarrow> nat" where
  "count_below X t = length (filter (\<lambda>x. fst x < t) X)"

definition stands :: "(instant \<times> nat) list \<Rightarrow> scanPos \<Rightarrow> bool \<Rightarrow> nat \<Rightarrow> bool" where
  "stands X pos strict c \<longleftrightarrow> c \<le> length X \<and>
     c = (if strict then length (filter (\<lambda>x. fst x \<le> ts pos) X) else count_below X (ts pos) + offset pos) \<and>
     (\<forall>j < c. fst (X ! j) \<le> ts pos) \<and> (strict \<longrightarrow> (\<forall>j < length X. c \<le> j \<longrightarrow> ts pos < fst (X ! j)))"

lemma sorted_fst: "sorted (X :: (instant \<times> nat) list) \<Longrightarrow> i \<le> j \<Longrightarrow> j < length X \<Longrightarrow> fst (X ! i) \<le> fst (X ! j)"
  using sorted_nth_mono [of X i j] by (auto simp: less_eq_prod_def)

lemma filter_prefix:
  assumes "\<forall>j < c. P (X ! j)" and "\<forall>j < length X. c \<le> j \<longrightarrow> \<not> P (X ! j)" and "c \<le> length X"
  shows "filter P X = take c X" and "filter (\<lambda>x. \<not> P x) X = drop c X"
proof -
  have "filter P (take c X) = take c X" "filter (\<lambda>x. \<not> P x) (take c X) = []"
    using assms(1,3) by (auto simp: filter_id_conv filter_empty_conv in_set_conv_nth)
  moreover have "filter P (drop c X) = []" "filter (\<lambda>x. \<not> P x) (drop c X) = drop c X"
    using assms(2) by (auto simp: filter_id_conv filter_empty_conv in_set_conv_nth)
  ultimately show "filter P X = take c X" "filter (\<lambda>x. \<not> P x) X = drop c X"
    by (metis append_Nil append_Nil2 append_take_drop_id filter_append)+
qed

lemma count_below_at:
  assumes "\<forall>j < c. fst (X ! j) < t" and "\<forall>j < length X. c \<le> j \<longrightarrow> t \<le> fst (X ! j)" and "c \<le> length X"
  shows "count_below X t = c"
proof -
  have "filter (\<lambda>x. fst x < t) X = take c X"
    by (rule filter_prefix(1)) (use assms in \<open>auto simp: not_less\<close>)
  then show ?thesis using assms(3) by (simp add: count_below_def)
qed

lemma stands_advance:
  assumes "sorted X" and "stands X pos strict c" and "c < length X" and "position m = X ! c"
  shows "stands X (advance pos m) False (Suc c)"
proof (cases "createdAt m = ts pos")
  case True
  then have t: "fst (X ! c) = ts pos" using assms(4) by (metis fst_conv position_def)
  then have "\<not> strict" using assms(2,3) by (auto simp: stands_def)
  with assms(2,3) t True show ?thesis by (auto simp: stands_def advance_def less_Suc_eq)
next
  case False
  have t: "fst (X ! c) = createdAt m" using assms(4) by (metis fst_conv position_def)
  have "ts pos \<le> fst (X ! c)"
  proof (cases strict)
    case True
    then show ?thesis using assms(2,3) by (auto simp: stands_def intro: less_imp_le)
  next
    case False
    show ?thesis
    proof (rule ccontr)
      assume "\<not> ts pos \<le> fst (X ! c)"
      then have "\<forall>j < Suc c. fst (X ! j) < ts pos"
        using sorted_fst [OF assms(1), of _ c] assms(3) by (auto simp: less_Suc_eq_le) (meson dual_order.strict_trans1 not_le)
      then have "filter (\<lambda>x. fst x < ts pos) (take (Suc c) X) = take (Suc c) X"
        using assms(3) by (auto simp: filter_id_conv in_set_conv_nth) (metis fst_conv)
      then have "Suc c \<le> count_below X (ts pos)"
        unfolding count_below_def using assms(3)
        by (metis append_take_drop_id filter_append le_add1 length_append length_take min.absorb2 Suc_leI)
      then show False using assms(2) False by (simp add: stands_def)
    qed
  qed
  then have gt: "ts pos < createdAt m" using t False by simp
  have "count_below X (createdAt m) = c"
  proof (rule count_below_at)
    have "\<forall>j < c. fst (X ! j) \<le> ts pos" using assms(2) by (simp add: stands_def)
    with gt show "\<forall>j < c. fst (X ! j) < createdAt m" by (metis le_less_trans)
    show "\<forall>j < length X. c \<le> j \<longrightarrow> createdAt m \<le> fst (X ! j)" using sorted_fst [OF assms(1)] t by metis
    show "c \<le> length X" using assms(3) by simp
  qed
  moreover have "fst (X ! j) \<le> createdAt m" if "j < Suc c" for j
    using sorted_fst [OF assms(1), of j c] that assms(3) t by (simp add: less_Suc_eq_le)
  ultimately show ?thesis using False assms(3) by (simp add: stands_def advance_def)
qed

lemma stands_fold:
  assumes "sorted X" and "stands X pos strict c" and "map position page = take (length page) (drop c X)"
    and "page \<noteq> []"
  shows "stands X (fold (\<lambda>m p. advance p m) page pos) False (c + length page)"
  using assms(2-)
proof (induction page arbitrary: pos strict c)
  case (Cons m page)
  have lt: "c < length X" using Cons.prems(2) by (cases "c < length X") auto
  then have split: "drop c X = X ! c # drop (Suc c) X" by (rule Cons_nth_drop_Suc [symmetric])
  with Cons.prems(2) have m: "position m = X ! c" and rest: "map position page = take (length page) (drop (Suc c) X)"
    by simp_all
  note st = stands_advance [OF assms(1) Cons.prems(1) lt m]
  show ?case
  proof (cases "page = []")
    case False
    from Cons.IH [OF st rest False] show ?thesis by simp
  qed (use st in simp)
qed simp

lemma filter_from_below:
  "sorted (X :: (instant \<times> nat) list) \<Longrightarrow> filter (\<lambda>x. t \<le> fst x) X = drop (count_below X t) X"
proof (induction X)
  case (Cons x X)
  show ?case
  proof (cases "fst x < t")
    case False
    have "t \<le> fst y" if "y \<in> set X" for y
      using that Cons.prems False by (auto simp: less_eq_prod_def)
    then have "filter (\<lambda>x. t \<le> fst x) (x # X) = x # X" "count_below (x # X) t = 0"
      using False by (auto simp: count_below_def filter_id_conv filter_empty_conv not_less)
    then show ?thesis by simp
  qed (use Cons in \<open>simp add: count_below_def\<close>)
qed (simp add: count_below_def)

lemma scanForward_places:
  assumes "stands (places r st) pos strict c" and "\<forall>x \<in> set (places r st). 0 < fst x"
  shows "map position (scanForward r pos strict st) = take (batch r) (drop c (places r st))"
proof (cases strict)
  case True
  have "(\<lambda>m. createdAt m > ts pos) = (\<lambda>m. (\<lambda>x. \<not> fst x \<le> ts pos) (position m))" by (simp add: position_def not_le)
  then have "map position (scanForward r pos strict st) = take (batch r) (filter (\<lambda>x. \<not> fst x \<le> ts pos) (places r st))"
    using True map_ordered_filter [of "\<lambda>x. \<not> fst x \<le> ts pos" r st] by (simp add: scanForward_def take_map [symmetric])
  moreover have "filter (\<lambda>x. \<not> fst x \<le> ts pos) (places r st) = drop c (places r st)"
    by (rule filter_prefix(2)) (use assms(1) True in \<open>auto simp: stands_def\<close>)
  ultimately show ?thesis by simp
next
  case False
  let ?X = "places r st"
  have c: "c = count_below ?X (ts pos) + offset pos" using assms(1) False by (simp add: stands_def)
  note lo = filter_from_below [OF sorted_places, of "ts pos" r st]
  show ?thesis
  proof (cases "ts pos = 0")
    case True
    have "count_below ?X 0 = 0" using assms(2) by (auto simp: count_below_def filter_empty_conv)
    moreover have "map position (ordered (scope r st)) = ?X" by (simp add: map_ordered places_def)
    ultimately show ?thesis
      using False True c by (simp add: scanForward_def take_map [symmetric] drop_map [symmetric])
  next
    case ne: False
    have "(\<lambda>m. ts pos \<le> createdAt m) = (\<lambda>m. (\<lambda>x. ts pos \<le> fst x) (position m))" by (simp add: position_def)
    then have "map position (ordered (filter (\<lambda>m. ts pos \<le> createdAt m) (scope r st))) = drop (count_below ?X (ts pos)) ?X"
      using map_ordered_filter [of "\<lambda>x. ts pos \<le> fst x" r st] lo by simp
    then show ?thesis
      using False ne c by (simp add: scanForward_def take_map [symmetric] drop_map [symmetric] add.commute)
  qed
qed

lemma forward_calm:
  assumes "ready W st" and "0 < batch r" and "\<forall>x \<in> set (places r st). 0 < fst x"
    and "stands (places r st) pos strict i" and "length (places r st) - i < batch r * Suc k" and "Suc k \<le> n"
  shows "\<exists>c' st'. forward W r cutoff n pos strict c st = (None, True, c', st') \<and> narrows W st st' \<and>
    (\<forall>x \<in> set (drop i (places r st)). acked st' (snd x))"
  using assms(1,3-6)
proof (induction n arbitrary: st pos strict i k c)
  case (Suc n)
  let ?st1 = "settle_db W st" and ?X = "places r st"
  let ?pg = "scanForward r pos strict ?st1"
  note s = ready_settle [OF Suc.prems(1)]
  have calm: "calm W" "\<not> dbfail W (tick st)" "\<not> stopped W (tick st)" "ids_ok W ?st1" "ids_ok W st"
    using Suc.prems(1) s(3) by (auto simp: ready_def calm_def)
  have X1: "places r ?st1 = ?X" by (rule places_narrows [OF calm(1) s(2)])
  have pos: "map position ?pg = take (batch r) (drop i ?X)"
    using scanForward_places [of r ?st1 pos strict i] Suc.prems(2,3) X1 by simp
  then have len: "length ?pg = min (batch r) (length ?X - i)" by (metis length_drop length_map length_take min.commute)
  obtain cd' st' c1 st3 where d: "deliver_all W r cutoff ?pg (cand c, ?st1) = (None, cd', st')"
    "persist_cursor W r (c\<lparr>cand := cd'\<rparr>) st' = (c1, st3)" "narrows W ?st1 st3"
    "\<forall>x \<in> set (map position ?pg). acked st3 (snd x)"
    using deliver_page [OF s(3) page_ok_query(3) [OF calm(4)] page_in_rows(2), where cutoff = cutoff and cd = "cand c" and c = c] by blast
  have n3: "narrows W st st3" using narrows_trans [OF s(2) d(3)] .
  consider "?pg = []" | "?pg \<noteq> []" "length ?pg < batch r" | "length ?pg = batch r" "?pg \<noteq> []"
    using len assms(2) by force
  then show ?case
  proof cases
    case 1
    then have "drop i ?X = []" using pos assms(2) by auto
    with 1 calm s(2) show ?thesis by (simp add: Let_def)
  next
    case 2
    then have "map position ?pg = drop i ?X" using pos len by simp
    moreover have "forward W r cutoff (Suc n) pos strict c st = (None, True, c1, st3)"
      using calm 2 d(1,2) by (simp add: Let_def)
    ultimately show ?thesis using d(4) n3 by auto
  next
    case 3
    let ?pos = "fold (\<lambda>m p. advance p m) ?pg pos"
    have X3: "places r st3 = ?X" by (rule places_narrows [OF calm(1) n3])
    have "map position ?pg = take (length ?pg) (drop i ?X)" using pos 3(1) by simp
    from stands_fold [OF sorted_places Suc.prems(3) this 3(2)] have st: "stands (places r st3) ?pos False (i + batch r)"
      using 3(1) X3 by simp
    have ge: "batch r \<le> length ?X - i" using len 3(1) by simp
    obtain k' where k: "k = Suc k'" using Suc.prems(4) ge by (cases k) auto
    have "length (places r st3) - (i + batch r) < batch r * Suc k'" using X3 Suc.prems(4) k ge by simp
    from Suc.IH [OF ready_narrows [OF Suc.prems(1) n3] _ st this, of c1] X3 Suc.prems(2,5) k obtain c' st4 where
      r4: "forward W r cutoff n ?pos False c1 st3 = (None, True, c', st4)" "narrows W st3 st4"
        "\<forall>x \<in> set (drop (i + batch r) ?X). acked st4 (snd x)" by auto
    have "forward W r cutoff (Suc n) pos strict c st = (None, True, c', st4)"
      using calm 3 d(1,2) r4(1) by (simp add: Let_def)
    moreover have "acked st4 (snd x)" if "x \<in> set (drop i ?X)" for x
    proof -
      have "x \<in> set (take (batch r) (drop i ?X)) \<or> x \<in> set (drop (i + batch r) ?X)"
        using that by (metis Un_iff add.commute append_take_drop_id drop_drop set_append)
      then show ?thesis using d(4) pos r4(3) acked_narrows [OF r4(2)] by metis
    qed
    ultimately show ?thesis using narrows_trans [OF n3 r4(2)] by auto
  qed
qed simp

section \<open>The whole sweep\<close>

text \<open>The pages at the watermark leave its creation time as it is.\<close>

definition at_time :: "instant \<Rightarrow> cursor \<Rightarrow> bool" where
  "at_time a c \<longleftrightarrow> At (mark c) = a \<and> At (cand c) = a"

lemma deliver_all_time:
  "\<lbrakk>deliver_all W r cutoff page (cd, st) = (x, cd', st'); \<forall>m \<in> set page. createdAt m = a; At cd = a\<rbrakk>
   \<Longrightarrow> At cd' = a"
proof (induction page arbitrary: cd st)
  case (Cons m page)
  obtain y cd1 st1 where d: "deliver W r cutoff m (cd, st) = (y, cd1, st1)" by (metis prod_cases3)
  then have "At cd1 = a" using Cons.prems(2,3) by (auto simp: deliver_def split: prod.splits option.splits if_splits)
  with Cons d show ?case by (cases y) auto
qed simp

lemma persist_cursor_time: "persist_cursor W r c st = (c', st') \<Longrightarrow> at_time a c \<Longrightarrow> at_time a c'"
  by (auto simp: at_time_def persist_cursor_def persist_def Let_def split: prod.splits if_splits)

lemma boundary_time:
  "\<lbrakk>boundary W r cutoff a n i c st = (None, n', c', st'); at_time a c\<rbrakk> \<Longrightarrow> at_time a c'"
proof (induction n arbitrary: i c st)
  case (Suc n)
  let ?st1 = "settle_db W st"
  let ?pg = "q_boundary r a i ?st1"
  have nf: "\<not> stopped W (tick st)" "\<not> dbfail W (tick st)"
    using Suc.prems(1) by (auto simp: Let_def split: if_splits)
  obtain cd st2 where d: "deliver_all W r cutoff ?pg (cand c, ?st1) = (None, cd, st2)"
    using Suc.prems(1) nf by (auto simp: Let_def split: prod.splits option.splits)
  obtain c1 st3 where pc: "persist_cursor W r (c\<lparr>cand := cd\<rparr>) st2 = (c1, st3)" by fastforce
  have page: "\<forall>m \<in> set ?pg. createdAt m = a"
    by (auto simp: q_boundary_def ordered_def dest!: in_set_takeD)
  have "At (cand c) = a" using Suc.prems(2) by (simp add: at_time_def)
  then have "At cd = a" by (rule deliver_all_time [OF d page])
  then have "at_time a (c\<lparr>cand := cd\<rparr>)" using Suc.prems(2) by (simp add: at_time_def)
  then have c1: "at_time a c1" by (rule persist_cursor_time [OF pc])
  show ?case
  proof (cases "length ?pg < batch r")
    case True
    with Suc.prems(1) d pc c1 nf show ?thesis by (simp add: Let_def)
  next
    case False
    with Suc.prems(1) d pc nf have "boundary W r cutoff a n (if ?pg = [] then i else mid (last ?pg)) c1 st3 = (None, n', c', st')"
      by (simp add: Let_def)
    then show ?thesis by (rule Suc.IH [OF _ c1])
  qed
qed simp

text \<open>Where the scan beyond the watermark starts.\<close>

definition start :: "bool \<Rightarrow> instant \<Rightarrow> (instant \<times> nat) list \<Rightarrow> nat" where
  "start had t X = (if had then length (filter (\<lambda>x. fst x \<le> t) X) else 0)"

lemma filter_le_take:
  "sorted (X :: (instant \<times> nat) list) \<Longrightarrow> filter (\<lambda>x. fst x \<le> t) X = take (length (filter (\<lambda>x. fst x \<le> t) X)) X"
proof (induction X)
  case (Cons x X)
  show ?case
  proof (cases "fst x \<le> t")
    case False
    have "\<not> fst y \<le> t" if "y \<in> set X" for y
      using that Cons.prems False by (auto simp: less_eq_prod_def)
    then have "filter (\<lambda>x. fst x \<le> t) (x # X) = []" using False by (auto simp: filter_empty_conv)
    then show ?thesis by simp
  qed (use Cons in simp)
qed simp

lemma filter_gt_drop:
  assumes "sorted (X :: (instant \<times> nat) list)"
  shows "filter (\<lambda>x. t < fst x) X = drop (length (filter (\<lambda>x. fst x \<le> t) X)) X"
proof -
  show ?thesis using assms
  proof (induction X)
    case (Cons x X)
    show ?case
    proof (cases "fst x \<le> t")
      case False
      have "\<not> fst y \<le> t" if "y \<in> set X" for y
        using that Cons.prems False by (auto simp: less_eq_prod_def)
      then have "filter (\<lambda>x. fst x \<le> t) (x # X) = []" "filter (\<lambda>x. t < fst x) (x # X) = x # X"
        using False by (auto simp: filter_empty_conv filter_id_conv not_le)
      then show ?thesis by simp
    qed (use Cons in auto)
  qed simp
qed

lemma stands_start:
  assumes "sorted X" and "\<forall>x \<in> set X. 0 < fst x" and "had \<or> t = 0"
  shows "stands X \<lparr>ts = t, offset = 0\<rparr> had (start had t X)"
proof (cases had)
  case True
  let ?n = "length (filter (\<lambda>x. fst x \<le> t) X)"
  have "fst (X ! j) \<le> t" if "j < ?n" for j
  proof -
    have "X ! j = filter (\<lambda>x. fst x \<le> t) X ! j"
      using that filter_le_take [OF assms(1), of t] by (metis nth_take)
    then show ?thesis using nth_mem [OF that] by auto
  qed
  moreover have "t < fst (X ! j)" if "j < length X" "?n \<le> j" for j
  proof -
    have "X ! j = drop ?n X ! (j - ?n)" "j - ?n < length (drop ?n X)" using that by (simp_all del: length_filter_le)
    then have "X ! j \<in> set (filter (\<lambda>x. t < fst x) X)" unfolding filter_gt_drop [OF assms(1)] by (metis nth_mem)
    then show ?thesis by simp
  qed
  ultimately show ?thesis using True by (simp add: stands_def start_def)
next
  case False
  have "count_below X 0 = 0" using assms(2) by (auto simp: count_below_def filter_empty_conv)
  with False assms(3) show ?thesis by (simp add: stands_def start_def)
qed

lemma beyond_calm:
  assumes "ready W st" and "0 < batch r" and "\<forall>x \<in> set (places r st). 0 < fst x" and "had \<or> At (mark c) = 0"
    and "(length (places r st) - start had (At (mark c)) (places r st)) div batch r < n"
  shows "\<exists>st'. sweep_beyond W r cutoff had n c st = (None, st') \<and> narrows W st st' \<and>
    (\<forall>x \<in> set (drop (start had (At (mark c)) (places r st)) (places r st)). acked st' (snd x))"
proof -
  let ?X = "places r st" and ?i = "start had (At (mark c)) (places r st)"
  have "length ?X - ?i < batch r * Suc ((length ?X - ?i) div batch r)"
    using dividend_less_times_div [OF assms(2), of "length ?X - ?i"] by simp
  moreover have "Suc ((length ?X - ?i) div batch r) \<le> n" using assms(5) by simp
  ultimately obtain c' st' where f: "forward W r cutoff n \<lparr>ts = At (mark c), offset = 0\<rparr> had c st = (None, True, c', st')"
    "narrows W st st'" "\<forall>x \<in> set (drop ?i ?X). acked st' (snd x)"
    using forward_calm [OF assms(1-3) stands_start [OF sorted_places assms(3,4)]] by blast
  let ?st = "snd (finish W r cutoff True c' st')"
  have "ids_ok W st'" using ready_narrows [OF assms(1) f(2)] by (simp add: ready_def)
  then have n: "narrows W st' ?st" by (rule narrowing.finish_R)
  have "sweep_beyond W r cutoff had n c st = (None, ?st)" using f(1) by (simp add: sweep_beyond_def)
  moreover have "\<forall>x \<in> set (drop ?i ?X). acked ?st (snd x)" using f(3) acked_narrows [OF n] by blast
  ultimately show ?thesis using narrows_trans [OF f(2) n] by blast
qed

text \<open>The three stretches a watermark cuts the topic into share the table's rows.\<close>

definition beyond :: "instant \<Rightarrow> relay \<Rightarrow> store \<Rightarrow> (instant \<times> nat) list" where
  "beyond t r st = filter (\<lambda>x. t < fst x) (places r st)"

lemma drop_start: "drop (start True t (places r st)) (places r st) = beyond t r st"
  unfolding start_def beyond_def using filter_gt_drop [OF sorted_places] by simp

lemma length_stretches:
  "card (behind r w st) + length (at_boundary (At w) (ID w) r st) + length (beyond (At w) r st) \<le> length (rows st)"
proof -
  let ?b = "\<lambda>m. createdAt m < At w \<or> createdAt m = At w \<and> mid m \<le> ID w"
  let ?a = "\<lambda>m. createdAt m = At w \<and> ID w < mid m" and ?f = "\<lambda>m. At w < createdAt m"
  have "behind r w st \<subseteq> set (filter ?b (scope r st))" by (auto simp: behind_def scope_def)
  then have b: "card (behind r w st) \<le> length (filter ?b (scope r st))"
    by (meson List.finite_set card_length card_mono order_trans)
  have len: "length (filter P (places r st)) = length (filter (P \<circ> position) (scope r st))" for P
    by (simp add: places_def filter_sort filter_map)
  have "length (filter ?b ms) + length (filter ?a ms) + length (filter ?f ms) \<le> length ms" for ms
    by (induction ms) auto
  from this [of "scope r st"] have "length (filter ?b (scope r st)) + length (filter ?a (scope r st)) +
      length (filter ?f (scope r st)) \<le> length (scope r st)" .
  moreover have "length (scope r st) \<le> length (rows st)" by (simp add: scope_def)
  moreover have "length (at_boundary (At w) (ID w) r st) = length (filter ?a (scope r st))"
    "length (beyond (At w) r st) = length (filter ?f (scope r st))"
    unfolding at_boundary_def beyond_def len by (simp_all add: position_def o_def)
  ultimately show ?thesis using b by linarith
qed

lemma div_add_le: "0 < (b :: nat) \<Longrightarrow> x div b + y div b \<le> (x + y) div b"
  by (metis add.commute div_add1_eq le_add1 le_add2 order_trans add_mono order_refl)

lemma div_stretches:
  fixes b :: nat
  assumes "0 < b" and "x + y + z \<le> m"
  shows "x div b + y div b + z div b \<le> m div b"
proof -
  have "x div b + y div b + z div b \<le> (x + y + z) div b"
    using div_add_le [OF assms(1), of x y] div_add_le [OF assms(1), of "x + y" z] by linarith
  with div_le_mono [OF assms(2), of b] show ?thesis by linarith
qed

lemma row_stretch:
  assumes "m \<in> set (rows st)" and "mtopic m = topic r"
  shows "m \<in> behind r w st \<or> (completedAt m \<noteq> None) \<or>
    position m \<in> set (at_boundary (At w) (ID w) r st) \<or> position m \<in> set (beyond (At w) r st)"
  using assms by (auto simp: behind_def at_boundary_def beyond_def places_def scope_def position_def)

lemma behind_acked:
  assumes "m \<in> behind r w st" and "narrows W st st'" and "behind r w st' = {}"
  shows "acked st' (mid m)"
proof -
  have "m \<in> set (rows st)" using assms(1) by (simp add: behind_def)
  then obtain m' where m': "m' \<in> set (rows st')" "carries m m'" using assms(2) unfolding narrows_def keeps_def by blast
  moreover have "m' \<notin> behind r w st'" using assms(3) by simp
  ultimately show ?thesis using assms(1) by (auto simp: behind_def carries_def acked_def)
qed

lemma sweep_calm_unmarked:
  assumes "ready W st" and "0 < batch r" and "\<forall>m \<in> set (rows st). 0 < createdAt m"
    and "length (rows st) div batch r + 3 \<le> maxPages r" and "marks st (topic r) = None"
  shows "\<exists>st'. sweep W r st = (None, st') \<and> narrows W st st' \<and>
    (\<forall>m \<in> set (rows st). mtopic m = topic r \<longrightarrow> acked st' (mid m))"
proof -
  let ?st = "settle_db W st"
  let ?c = "\<lparr>mark = no_watermark, cand = no_watermark\<rparr>" and ?cutoff = "clockr W (tick ?st) - settle r"
  note s = ready_settle [OF assms(1)]
  have calm: "\<not> dbfail W (tick st)" using assms(1) by (auto simp: ready_def calm_def)
  have w: "load r ?st = no_watermark" using assms(5) by (simp add: load_def)
  have pos: "\<forall>x \<in> set (places r ?st). 0 < fst x"
    using assms(3) s(1) by (auto simp: places_def scope_def position_def simp del: in_settle(6))
  have "length (places r ?st) \<le> length (rows st)" using s(1) by (simp add: places_def scope_def del: in_settle(6))
  then have "length (places r ?st) div batch r < maxPages r"
    using div_le_mono [of _ _ "batch r"] assms(4) by (meson Suc_le_lessD add_lessD1 le_trans less_add_same_cancel1 not_less order_less_le_trans zero_less_numeral)
  then obtain st' where f: "sweep_beyond W r ?cutoff False (maxPages r) ?c ?st = (None, st')" "narrows W ?st st'"
    "\<forall>x \<in> set (places r ?st). acked st' (snd x)"
    using beyond_calm [OF s(3) assms(2) pos, of False ?c "maxPages r" ?cutoff] by (auto simp: no_watermark_def start_def)
  have "sweep W r st = (None, st')" using calm w f(1) by (simp add: sweep_def Let_def no_watermark_def)
  moreover have "acked st' (mid m)" if "m \<in> set (rows st)" "mtopic m = topic r" for m
    by (rule acked_place [OF _ f(2,3) that(2)]) (use that(1) in simp)
  ultimately show ?thesis using narrows_trans [OF s(2) f(2)] by blast
qed

lemma sweep_calm_marked:
  assumes "ready W st" and "0 < batch r" and "\<forall>m \<in> set (rows st). 0 < createdAt m"
    and "length (rows st) div batch r + 3 \<le> maxPages r" and "marks st (topic r) = Some v"
  shows "\<exists>st'. sweep W r st = (None, st') \<and> narrows W st st' \<and>
    (\<forall>m \<in> set (rows st). mtopic m = topic r \<longrightarrow> acked st' (mid m))"
proof -
  let ?st = "settle_db W st" and ?w = "v\<lparr>ok := True\<rparr>"
  let ?c = "\<lparr>mark = ?w, cand = ?w\<rparr>" and ?cutoff = "clockr W (tick ?st) - settle r"
  note s = ready_settle [OF assms(1)]
  have calm: "calm W" "\<not> dbfail W (tick st)" using assms(1) by (auto simp: ready_def calm_def)
  have w: "load r ?st = ?w" using assms(5) by (simp add: load_def)
  let ?p = "card (behind r ?w ?st)" and ?b = "length (at_boundary (At ?w) (ID ?w) r ?st)"
  let ?f = "length (beyond (At ?w) r ?st)" and ?B = "batch r"
  have pages: "?p div ?B + ?b div ?B + ?f div ?B + 3 \<le> maxPages r"
    using div_stretches [OF assms(2) length_stretches [of r ?w ?st]] assms(4) s(1) by simp
  have "?p \<le> ?B * Suc (?p div ?B)" using dividend_less_times_div [OF assms(2), of ?p] by simp
  from lookbehind_calm [OF s(3) assms(2) this, of "maxPages r"] pages obtain n st1 where
    l: "lookbehind W r ?w (maxPages r) ?st = (None, n, st1)" "maxPages r - Suc (?p div ?B) \<le> n"
      "narrows W ?st st1" "behind r ?w st1 = {}" by auto
  have X1: "places r st1 = places r ?st" by (rule places_narrows [OF calm(1) l(3)])
  then have B1: "at_boundary a i r st1 = at_boundary a i r ?st" for a i by (simp add: at_boundary_def)
  have "length (at_boundary (At ?w) (ID ?w) r st1) < ?B * Suc (?b div ?B)"
    using dividend_less_times_div [OF assms(2), of ?b] B1 by simp
  moreover have n: "Suc (?b div ?B) \<le> n" using l(2) pages by linarith
  ultimately obtain n' c' st2 where
    b: "boundary W r ?cutoff (At ?w) n (ID ?w) ?c st1 = (None, n', c', st2)" "n - Suc (?b div ?B) \<le> n'"
      "narrows W st1 st2" "\<forall>x \<in> set (at_boundary (At ?w) (ID ?w) r st1). acked st2 (snd x)"
    using boundary_calm [OF ready_narrows [OF s(3) l(3)] assms(2)] by blast
  have "at_time (At ?w) ?c" by (simp add: at_time_def)
  then have mark: "At (mark c') = At ?w" using boundary_time [OF b(1)] by (simp add: at_time_def)
  have X2: "places r st2 = places r ?st" using places_narrows [OF calm(1) b(3)] X1 by simp
  have r2: "ready W st2" using ready_narrows [OF ready_narrows [OF s(3) l(3)] b(3)] .
  have d: "drop (start True (At (mark c')) (places r st2)) (places r st2) = beyond (At ?w) r ?st"
    unfolding mark drop_start by (simp add: beyond_def X2)
  then have "length (places r st2) - start True (At (mark c')) (places r st2) = ?f" by (metis length_drop)
  moreover have "?f div ?B < n'" using b(2) l(2) pages by linarith
  moreover have "\<forall>x \<in> set (places r st2). 0 < fst x"
    using assms(3) s(1) X2 by (auto simp: places_def scope_def position_def simp del: in_settle(6))
  ultimately obtain st' where f: "sweep_beyond W r ?cutoff True n' c' st2 = (None, st')" "narrows W st2 st'"
    "\<forall>x \<in> set (beyond (At ?w) r ?st). acked st' (snd x)"
    using beyond_calm [OF r2 assms(2), of True c' n' ?cutoff] d by auto
  have sw: "sweep W r st = (None, st')"
    using calm(2) w l(1) b(1) f(1) by (simp add: sweep_def Let_def)
  have n2: "narrows W st1 st'" using narrows_trans [OF b(3) f(2)] .
  have nn: "narrows W st st'" using narrows_trans [OF narrows_trans [OF s(2) l(3)] n2] .
  have "acked st' (mid m)" if m: "m \<in> set (rows st)" "mtopic m = topic r" for m
  proof -
    have m': "m \<in> set (rows ?st)" using m(1) s(1) by simp
    from row_stretch [OF m' m(2), of ?w] show ?thesis
    proof (elim disjE)
      assume "m \<in> behind r ?w ?st"
      then have "acked st1 (mid m)" by (rule behind_acked [OF _ l(3,4)])
      then show ?thesis by (rule acked_narrows [OF n2])
    next
      assume "completedAt m \<noteq> None"
      then have "acked st (mid m)" using m(1) by (auto simp: acked_def)
      then show ?thesis by (rule acked_narrows [OF nn])
    next
      assume "position m \<in> set (at_boundary (At ?w) (ID ?w) r ?st)"
      then have "acked st2 (mid m)" using b(4) B1 by (force simp: position_def)
      then show ?thesis by (rule acked_narrows [OF f(2)])
    next
      assume "position m \<in> set (beyond (At ?w) r ?st)"
      then show ?thesis using f(3) by (force simp: position_def)
    qed
  qed
  with sw nn show ?thesis by blast
qed

section \<open>Properties\<close>


text \<open>Five rows in pages of two, three of them in one group of equal times, with a watermark past two of them.\<close>

definition calm_world :: world where
  "calm_world = \<lparr>clockr = (\<lambda>k. 1000), dbfail = (\<lambda>k. False), arrive = (\<lambda>k. []), stopped = (\<lambda>k. False),
     outcome = (\<lambda>k. (HNil, False)), timeout = ''5m0s''\<rparr>"

definition marked_store :: store where
  "marked_store = (demo_store [demo_row 1 5, demo_row 2 10, demo_row 3 10, demo_row 4 10, demo_row 5 20])
     \<lparr>marks := [''mail'' \<mapsto> \<lparr>At = 10, ID = 2, ok = True\<rparr>]\<rparr>"


end
