(* ===== verification/Jobs_Dead.thy ===== *)
theory Jobs_Dead
  imports Jobs_Relay Go_Strings
begin

text \<open>
  The storage side of the jobs: the gate of \<^verbatim>\<open>Enqueue\<close>, the retention cleanup
  (\<^verbatim>\<open>jobs/core.go\<close>) and the dead letters: listing them, enqueueing them again and
  discarding them (\<^verbatim>\<open>jobs/dead.go\<close>).

  A transaction's statements are numbered; \<open>sfail\<close> says which of them fail, the commit
  included. What another process did to the dead letters between the read and the deletes
  of a transaction is \<open>stolen\<close>.
\<close>

section \<open>Errors\<close>

datatype jobs_error =
    DbFailed
  | Canceled
  | BadTopic nat
  | OutsideTx
  | EncodeFailed
  | LimitError int
  | NotParked string "nat list"
  | TakenMeanwhile string

definition defaultDeadLimit :: nat where "defaultDeadLimit = 100"
definition maxDeadLimit :: nat where "maxDeadLimit = 1000"
definition deadChunk :: nat where "deadChunk = 500"

definition show_int :: "int \<Rightarrow> string" where
  "show_int i = (if i < 0 then ''-'' @ show_nat (nat (- i)) else show_nat (nat i))"

definition reason :: "int \<Rightarrow> string" where
  "reason e = ''limit must be between 1 and '' @ show_nat maxDeadLimit @ '' (0 takes '' @
     show_nat defaultDeadLimit @ ''), got '' @ show_int e"

fun join_sep :: "string \<Rightarrow> string list \<Rightarrow> string" where
  "join_sep sep [] = []"
| "join_sep sep [p] = p"
| "join_sep sep (p # q # ps) = p @ sep @ join_sep sep (q # ps)"

definition joinIDs :: "nat list \<Rightarrow> string" where
  "joinIDs ids = join_sep '', '' (map show_nat ids)"

text \<open>The error a client sees: status and message; \<open>None\<close> for an error that is not its own.\<close>

fun APIError :: "jobs_error \<Rightarrow> (nat \<times> string) option" where
  "APIError (LimitError e) = Some (400, reason e)"
| "APIError (NotParked op ids) = Some (404, ''no dead message with id '' @ joinIDs ids)"
| "APIError OutsideTx = Some (500, ''internal server error'')"
| "APIError _ = None"

section \<open>Enqueueing\<close>

definition maxTopicLen :: nat where "maxTopicLen = 200"

definition checkTopic :: "string \<Rightarrow> jobs_error option" where
  "checkTopic t = (if t = [] \<or> length t > maxTopicLen then Some (BadTopic (length t)) else None)"

definition gate :: "bool \<Rightarrow> string \<Rightarrow> jobs_error option" where
  "gate inTx t = (case checkTopic t of Some e \<Rightarrow> Some e | None \<Rightarrow> if \<not> inTx then Some OutsideTx else None)"

record dead_db =
  msgs :: "message list"
  deads :: "deadRow list"
  next_id :: nat

record dead_env =
  sfail :: "nat \<Rightarrow> bool"
  nowd :: "nat \<Rightarrow> instant"
  stolen :: "nat list"

definition new_message :: "nat \<Rightarrow> instant \<Rightarrow> string \<Rightarrow> bytes \<Rightarrow> message" where
  "new_message i now t p =
     \<lparr>mid = i, createdAt = now, mtopic = t, payload = p, attempts = 0, retryAt = None, lastError = [],
      completedAt = None\<rparr>"

definition insert_msg :: "dead_env \<Rightarrow> nat \<Rightarrow> string \<Rightarrow> bytes \<Rightarrow> dead_db \<Rightarrow> dead_db option" where
  "insert_msg E k t p db =
     (if sfail E k then None
      else Some (db\<lparr>msgs := msgs db @ [new_message (next_id db) (nowd E k) t p], next_id := next_id db + 1\<rparr>))"

definition enqueue :: "dead_env \<Rightarrow> bool \<Rightarrow> string \<Rightarrow> bytes \<Rightarrow> dead_db \<Rightarrow> jobs_error option \<times> dead_db" where
  "enqueue E inTx t p db =
     (case gate inTx t of
        Some e \<Rightarrow> (Some e, db)
      | None \<Rightarrow> (case insert_msg E 0 t p db of None \<Rightarrow> (Some DbFailed, db) | Some db' \<Rightarrow> (None, db')))"

text \<open>\<open>marshal\<close> is \<^verbatim>\<open>json.Marshal\<close>: \<open>None\<close> when the value has no encoding.\<close>

definition enqueueJSON ::
  "('v \<Rightarrow> bytes option) \<Rightarrow> dead_env \<Rightarrow> bool \<Rightarrow> string \<Rightarrow> 'v \<Rightarrow> dead_db \<Rightarrow> jobs_error option \<times> dead_db" where
  "enqueueJSON marshal E inTx t v db =
     (case gate inTx t of
        Some e \<Rightarrow> (Some e, db)
      | None \<Rightarrow>
          (case marshal v of
             None \<Rightarrow> (Some EncodeFailed, db)
           | Some raw \<Rightarrow> (case insert_msg E 0 t raw db of None \<Rightarrow> (Some DbFailed, db) | Some db' \<Rightarrow> (None, db'))))"

section \<open>Dead letters\<close>

definition dead_order :: "deadRow \<Rightarrow> instant \<times> nat" where
  "dead_order d = (parkedAt d, did d)"

definition Dead :: "dead_env \<Rightarrow> string \<Rightarrow> int \<Rightarrow> dead_db \<Rightarrow> jobs_error + deadRow list" where
  "Dead E t limit db =
     (if limit \<noteq> 0 \<and> (limit < 0 \<or> limit > int maxDeadLimit) then Inl (LimitError limit)
      else let n = (if limit = 0 then defaultDeadLimit else nat limit)
           in if sfail E 0 then Inl DbFailed
              else Inr (take n (sort_key dead_order
                     (if t \<noteq> [] then filter (\<lambda>d. dtopic d = t) (deads db) else deads db))))"

function chunks :: "nat \<Rightarrow> 'a list \<Rightarrow> 'a list list" where
  "chunks n xs = (if xs = [] \<or> n = 0 then [] else take n xs # chunks n (drop n xs))"
  by pat_completeness auto
termination by (relation "measure (\<lambda>(n, xs). length xs)") auto

declare chunks.simps [simp del]

fun read_chunks :: "dead_env \<Rightarrow> nat \<Rightarrow> nat list list \<Rightarrow> dead_db \<Rightarrow> deadRow list option" where
  "read_chunks E k [] db = Some []"
| "read_chunks E k (c # cs) db =
     (if sfail E k then None
      else map_option (\<lambda>rest. filter (\<lambda>d. did d \<in> set c) (deads db) @ rest) (read_chunks E (Suc k) cs db))"

text \<open>Two statements for each chunk: the acknowledgement of the message rows, and the delete.\<close>

definition ack_old :: "instant \<Rightarrow> nat list \<Rightarrow> message list \<Rightarrow> message list" where
  "ack_old now ids =
     map (\<lambda>m. if mid m \<in> set ids \<and> completedAt m = None then m\<lparr>completedAt := Some now\<rparr> else m)"

fun delete_chunks :: "dead_env \<Rightarrow> nat \<Rightarrow> nat list list \<Rightarrow> nat \<Rightarrow> dead_db \<Rightarrow> (nat \<times> dead_db) option" where
  "delete_chunks E k [] n db = Some (n, db)"
| "delete_chunks E k (c # cs) n db =
     (if sfail E k \<or> sfail E (k + 1) then None
      else delete_chunks E (k + 2) cs (n + length (filter (\<lambda>d. did d \<in> set c) (deads db)))
             (db\<lparr>msgs := ack_old (nowd E k) c (msgs db),
                 deads := filter (\<lambda>d. did d \<notin> set c) (deads db)\<rparr>))"

definition others :: "dead_env \<Rightarrow> dead_db \<Rightarrow> dead_db" where
  "others E db = db\<lparr>deads := filter (\<lambda>d. did d \<notin> set (stolen E)) (deads db)\<rparr>"

type_synonym after_take = "nat \<Rightarrow> deadRow list \<Rightarrow> dead_db \<Rightarrow> (nat \<times> dead_db) option"

definition takeDead ::
  "dead_env \<Rightarrow> string \<Rightarrow> nat list \<Rightarrow> after_take option \<Rightarrow> dead_db \<Rightarrow> jobs_error option \<times> dead_db" where
  "takeDead E op ids0 thn db =
     (let ids = remdups_adj (sort ids0); cs = chunks deadChunk ids; k = length cs; db1 = others E db
      in if ids = [] then (None, db1)
         else (case read_chunks E 0 cs db of
            None \<Rightarrow> (Some DbFailed, db1)
          | Some found \<Rightarrow>
              if length found < length ids
              then (Some (NotParked op (filter (\<lambda>i. i \<notin> did ` set found) ids)), db1)
              else (case delete_chunks E k cs 0 db1 of
                 None \<Rightarrow> (Some DbFailed, db1)
               | Some (n, db2) \<Rightarrow>
                   if n \<noteq> length ids then (Some (TakenMeanwhile op), db1)
                   else (case (case thn of None \<Rightarrow> Some (3 * k, db2) | Some f \<Rightarrow> f (3 * k) found db2) of
                      None \<Rightarrow> (Some DbFailed, db1)
                    | Some (k', db3) \<Rightarrow> if sfail E k' then (Some DbFailed, db1) else (None, db3)))))"

fun requeue_all :: "dead_env \<Rightarrow> nat \<Rightarrow> deadRow list \<Rightarrow> dead_db \<Rightarrow> (nat \<times> dead_db) option" where
  "requeue_all E k [] db = Some (k, db)"
| "requeue_all E k (d # ds) db =
     (case insert_msg E k (dtopic d) (dpayload d) db of
        None \<Rightarrow> None
      | Some db' \<Rightarrow> requeue_all E (Suc k) ds db')"

definition enqueued_order :: "deadRow \<Rightarrow> instant \<times> nat" where
  "enqueued_order d = (dcreatedAt d, did d)"

definition Requeue :: "dead_env \<Rightarrow> nat list \<Rightarrow> dead_db \<Rightarrow> jobs_error option \<times> dead_db" where
  "Requeue E ids = takeDead E ''Requeue'' ids (Some (\<lambda>k found. requeue_all E k (sort_key enqueued_order found)))"

definition Discard :: "dead_env \<Rightarrow> nat list \<Rightarrow> dead_db \<Rightarrow> jobs_error option \<times> dead_db" where
  "Discard E ids = takeDead E ''Discard'' ids None"

section \<open>Retention\<close>

text \<open>
  \<open>marks\<close> are the rows of \<^verbatim>\<open>chok_jobs_watermarks\<close>. \<open>tie\<close> is how the database orders rows
  of one creation time, which the query leaves open.
\<close>

fun floor_of :: "(string \<times> watermark) list \<Rightarrow> watermark \<Rightarrow> watermark" where
  "floor_of [] f = f"
| "floor_of ((t, w) # ws) f = floor_of ws (if \<not> ok f \<or> At w < At f then w\<lparr>ok := True\<rparr> else f)"

definition cleanable :: "string list \<Rightarrow> instant \<Rightarrow> message \<Rightarrow> bool" where
  "cleanable topics cutoff m \<longleftrightarrow> createdAt m < cutoff \<and> completedAt m \<noteq> None \<and> mtopic m \<in> set topics"

definition q_clean ::
  "(nat \<Rightarrow> message \<Rightarrow> nat) \<Rightarrow> string list \<Rightarrow> instant \<Rightarrow> nat \<Rightarrow> store \<Rightarrow> nat list" where
  "q_clean tie topics cutoff b st = map mid (take b (sort_key (\<lambda>m. (createdAt m, tie (tick st) m))
     (filter (cleanable topics cutoff) (rows st))))"

partial_function (option) cleanup_loop ::
  "world \<Rightarrow> (nat \<Rightarrow> message \<Rightarrow> nat) \<Rightarrow> string list \<Rightarrow> instant \<Rightarrow> nat \<Rightarrow> nat \<Rightarrow> store \<Rightarrow>
   (nat \<times> jobs_error option \<times> store) option" where
  "cleanup_loop W tie topics cutoff b acc st =
     (if stopped W (tick st) then Some (acc, Some Canceled, st)
      else if dbfail W (tick st) then Some (acc, Some DbFailed, settle_db W st)
      else let st1 = settle_db W st; ids = q_clean tie topics cutoff b st1
           in if ids = [] then Some (acc, None, st1)
              else if dbfail W (tick st1) then Some (acc, Some DbFailed, settle_db W st1)
              else let st2 = settle_db W st1;
                       st3 = st2\<lparr>rows := filter (\<lambda>m. mid m \<notin> set ids) (rows st2)\<rparr>;
                       n = length (filter (\<lambda>m. mid m \<in> set ids) (rows st2))
                   in if length ids < b then Some (acc + n, None, st3)
                      else cleanup_loop W tie topics cutoff b (acc + n) st3)"

declare cleanup_loop.simps [code, simp del]

definition cleanup_cutoff :: "world \<Rightarrow> duration \<Rightarrow> watermark \<Rightarrow> nat \<Rightarrow> instant" where
  "cleanup_cutoff W retention fl k =
     (let c = clockr W k - retention in if At fl < c then At fl else c)"

definition cleanupOnce ::
  "world \<Rightarrow> (nat \<Rightarrow> message \<Rightarrow> nat) \<Rightarrow> (string \<times> watermark) list \<Rightarrow> string list \<Rightarrow> duration \<Rightarrow> nat \<Rightarrow>
   store \<Rightarrow> (nat \<times> jobs_error option \<times> store) option" where
  "cleanupOnce W tie states topics retention b st =
     (if topics = [] then Some (0, None, st)
      else if dbfail W (tick st) then Some (0, Some DbFailed, settle_db W st)
      else let st1 = settle_db W st
           in if \<exists>t \<in> set topics. t \<notin> fst ` set states then Some (0, None, st1)
              else let fl = floor_of states no_watermark
                   in if \<not> ok fl then Some (0, None, st1)
                      else cleanup_loop W tie topics (cleanup_cutoff W retention fl (tick st1)) b 0 st1)"

section \<open>What the cleanup removes\<close>

definition arrivals :: "world \<Rightarrow> nat \<Rightarrow> nat \<Rightarrow> message list" where
  "arrivals W i j = concat (map (arrive W) [i..<j])"

definition removes :: "world \<Rightarrow> (message \<Rightarrow> bool) \<Rightarrow> store \<Rightarrow> store \<Rightarrow> nat \<Rightarrow> bool" where
  "removes W P st st' n \<longleftrightarrow> tick st \<le> tick st' \<and>
     (\<exists>D. D \<subseteq> Collect P \<and> rows st' = filter (\<lambda>m. m \<notin> D) (rows st @ arrivals W (tick st) (tick st')) \<and>
        n = length (filter (\<lambda>m. m \<in> D) (rows st @ arrivals W (tick st) (tick st'))))"

lemma arrivals_split: "i \<le> j \<Longrightarrow> j \<le> k \<Longrightarrow> arrivals W i k = arrivals W i j @ arrivals W j k"
  unfolding arrivals_def by (metis concat_append map_append le_Suc_ex upt_add_eq_append)

lemma arrivals_step [simp]: "arrivals W i (Suc i) = arrive W i" "arrivals W i i = []"
  by (simp_all add: arrivals_def)

lemma arrivals_pending: "ids_ok W st \<Longrightarrow> m \<in> set (arrivals W i j) \<Longrightarrow> completedAt m = None"
  by (auto simp: arrivals_def dest: ids_ok_arrive)

lemma removes_refl: "removes W P st st 0"
  unfolding removes_def by (intro conjI exI [of _ "{}"]) simp_all

lemma removes_settle: "removes W P st (settle_db W st) 0"
  unfolding removes_def by (intro conjI exI [of _ "{}"]) simp_all

lemma length_filter_split:
  "length (filter (\<lambda>m. m \<in> A) xs) + length (filter (\<lambda>m. m \<in> B) (filter (\<lambda>m. m \<notin> A) xs)) =
   length (filter (\<lambda>m. m \<in> A \<union> B) xs)"
  by (induction xs) auto

lemma removes_trans:
  assumes "ids_ok W a" and "\<forall>m. P m \<longrightarrow> completedAt m \<noteq> None" and "removes W P a b m" and "removes W P b c n"
  shows "removes W P a c (m + n)"
proof -
  let ?x = "rows a @ arrivals W (tick a) (tick b)" and ?y = "arrivals W (tick b) (tick c)"
  obtain A where A: "A \<subseteq> Collect P" "rows b = filter (\<lambda>m. m \<notin> A) ?x" "m = length (filter (\<lambda>m. m \<in> A) ?x)"
    using assms(3) unfolding removes_def by blast
  obtain B where B: "B \<subseteq> Collect P" "rows c = filter (\<lambda>m. m \<notin> B) (rows b @ ?y)"
    "n = length (filter (\<lambda>m. m \<in> B) (rows b @ ?y))"
    using assms(4) unfolding removes_def by blast
  have le: "tick a \<le> tick b" "tick b \<le> tick c" using assms(3,4) by (simp_all add: removes_def)
  have "m \<notin> A" if "m \<in> set ?y" for m using that A(1) assms(2) arrivals_pending [OF assms(1)] by blast
  then have y: "filter (\<lambda>m. m \<notin> A) ?y = ?y" "filter (\<lambda>m. m \<in> A) ?y = []"
    by (auto simp: filter_id_conv filter_empty_conv)
  have split: "rows a @ arrivals W (tick a) (tick c) = ?x @ ?y" using arrivals_split [OF le] by simp
  have rb: "rows b @ ?y = filter (\<lambda>m. m \<notin> A) (?x @ ?y)" using A(2) y(1) by simp
  have "rows c = filter (\<lambda>m. m \<notin> A \<union> B) (?x @ ?y)"
    unfolding B(2) rb filter_filter by (rule filter_cong) auto
  moreover have "m + n = length (filter (\<lambda>m. m \<in> A \<union> B) (?x @ ?y))"
    using A(3) B(3) y(2) length_filter_split [of A "?x @ ?y" B] unfolding rb by simp
  ultimately show ?thesis
    unfolding removes_def split using le A(1) B(1) by (intro conjI exI [of _ "A \<union> B"]) auto
qed

lemma length_filter_le_pending:
  assumes "ids_ok W st" and "\<forall>m. P m \<longrightarrow> completedAt m \<noteq> None"
  shows "filter P (rows (settle_db W st)) = filter P (rows st)"
  using assms(2) ids_ok_arrive [OF assms(1)] by (auto simp: filter_empty_conv)

lemma cleanable_done: "\<forall>m. cleanable topics cutoff m \<longrightarrow> completedAt m \<noteq> None"
  by (simp add: cleanable_def)

lemma q_clean_rows:
  "i \<in> set (q_clean tie topics cutoff b st) \<Longrightarrow> \<exists>m \<in> set (rows st). mid m = i \<and> cleanable topics cutoff m"
  by (auto simp: q_clean_def dest!: in_set_takeD)

lemma length_q_clean: "length (q_clean tie topics cutoff b st) = min b (length (filter (cleanable topics cutoff) (rows st)))"
  by (simp add: q_clean_def)

lemma distinct_q_clean:
  assumes "distinct (map mid (rows st))"
  shows "distinct (q_clean tie topics cutoff b st)"
proof -
  have "distinct (map mid (filter (cleanable topics cutoff) (rows st)))" using assms by (rule distinct_map_filter)
  then have "distinct (map mid (sort_key f (filter (cleanable topics cutoff) (rows st))))" for f :: "message \<Rightarrow> instant \<times> nat"
    by (simp add: distinct_map)
  then show ?thesis unfolding q_clean_def take_map [symmetric] by (rule distinct_take)
qed

text \<open>One batch: select, then delete.\<close>

lemma clean_batch:
  fixes tie topics cutoff b
  defines "P \<equiv> cleanable topics cutoff"
  assumes "ids_ok W st" and "ids = q_clean tie topics cutoff b (settle_db W st)"
    and "st2 = settle_db W (settle_db W st)" and "st3 = st2\<lparr>rows := filter (\<lambda>m. mid m \<notin> set ids) (rows st2)\<rparr>"
  shows "removes W P st st3 (length (filter (\<lambda>m. mid m \<in> set ids) (rows st2)))"
    and "ids_ok W st3"
    and "length (filter P (rows st3)) = length (filter P (rows st)) - length ids"
proof -
  define D where "D = {m \<in> set (rows st2). mid m \<in> set ids}"
  have ok2: "ids_ok W st2" using assms(2,4) ids_ok_settle by blast
  have sub: "set (rows (settle_db W st)) \<subseteq> set (rows st2)" using assms(4) by auto
  have inj: "m = m'" if "m \<in> set (rows st2)" "m' \<in> set (rows st2)" "mid m = mid m'" for m m'
    using that ids_ok_distinct [OF ok2] by (metis distinct_map inj_on_eq_iff)
  have D: "P m" if "m \<in> D" for m
  proof -
    have m: "m \<in> set (rows st2)" "mid m \<in> set ids" using that by (simp_all add: D_def)
    from q_clean_rows [OF m(2) [unfolded assms(3)]] obtain m' where
      m': "m' \<in> set (rows (settle_db W st))" "mid m' = mid m" "cleanable topics cutoff m'" by blast
    then have "m' = m" using inj sub m(1) by blast
    with m'(3) show ?thesis by (simp add: P_def)
  qed
  have all: "rows st2 = rows st @ arrivals W (tick st) (tick st3)" and tk: "tick st \<le> tick st3"
    using assms(4,5) arrivals_split [of "tick st" "Suc (tick st)" "Suc (Suc (tick st))" W] by simp_all
  have mem: "m \<in> D \<longleftrightarrow> mid m \<in> set ids" if "m \<in> set (rows st2)" for m using that by (simp add: D_def)
  have f1: "filter (\<lambda>m. mid m \<in> set ids) (rows st2) = filter (\<lambda>m. m \<in> D) (rows st2)"
    by (rule filter_cong) (simp_all add: mem)
  have f2: "rows st3 = filter (\<lambda>m. m \<notin> D) (rows st2)"
    unfolding assms(5) by (simp, rule filter_cong) (simp_all add: mem)
  have "D \<subseteq> Collect P" using D by blast
  then show "removes W P st st3 (length (filter (\<lambda>m. mid m \<in> set ids) (rows st2)))"
    unfolding removes_def f1 using tk f2 all by metis
  have sd: "distinct (map mid (rows st3))" "tick st2 = tick st3" "set (map mid (rows st3)) \<subseteq> set (map mid (rows st2))"
    using ids_ok_distinct [OF ok2] assms(5) by (auto simp: distinct_map inj_on_def)
  have "distinct (map mid (rows st3) @ concat (map (\<lambda>k. map mid (arrive W k)) [tick st3..<N]))" for N
  proof -
    have "distinct (map mid (rows st2) @ concat (map (\<lambda>k. map mid (arrive W k)) [tick st3..<N]))"
      using ok2 sd(2) by (auto simp: ids_ok_def)
    with sd(1,3) show ?thesis by auto
  qed
  then show "ids_ok W st3" using ok2 by (simp add: ids_ok_def)
  have pend: "filter P (rows st2) = filter P (rows st)"
    using length_filter_le_pending [OF assms(2), of P] length_filter_le_pending [OF ids_ok_settle [OF assms(2)], of P]
      cleanable_done assms(4) P_def by simp
  have "length (filter P (rows st3)) = length (filter (\<lambda>m. m \<notin> D) (filter P (rows st2)))"
    unfolding f2 by (simp add: conj_commute)
  moreover have "length (filter (\<lambda>m. m \<in> D) (filter P (rows st2))) = length ids"
  proof -
    have "filter (\<lambda>m. m \<in> D) (filter P (rows st2)) = filter (\<lambda>m. mid m \<in> set ids) (rows st2)"
      unfolding f1 filter_filter by (rule filter_cong) (use D in blast)+
    then have "length (filter (\<lambda>m. m \<in> D) (filter P (rows st2))) = length (filter (\<lambda>i. i \<in> set ids) (map mid (rows st2)))"
      by (simp add: filter_map o_def)
    also have "\<dots> = card (set ids \<inter> set (map mid (rows st2)))"
      using distinct_length_filter [OF ids_ok_distinct [OF ok2], of "\<lambda>i. i \<in> set ids"] by simp
    also have "set ids \<inter> set (map mid (rows st2)) = set ids"
      using q_clean_rows [of _ tie topics cutoff b "settle_db W st"] sub unfolding assms(3) by (auto simp del: in_settle(6))
    also have "card (set ids) = length ids"
      unfolding assms(3) by (rule distinct_card [OF distinct_q_clean [OF ids_ok_distinct [OF ids_ok_settle [OF assms(2)]]]])
    finally show ?thesis .
  qed
  ultimately show "length (filter P (rows st3)) = length (filter P (rows st)) - length ids"
    using pend sum_length_filter_compl [of "\<lambda>m. m \<in> D" "filter P (rows st2)"] by simp
qed

lemma cleanup_loop_removes:
  fixes topics cutoff
  defines "P \<equiv> cleanable topics cutoff"
  assumes "ids_ok W st" and "0 < b"
  shows "\<exists>n err st'. cleanup_loop W tie topics cutoff b acc st = Some (acc + n, err, st') \<and> removes W P st st' n \<and>
    (err = None \<longrightarrow> filter P (rows st') = [])"
  using assms(2)
proof (induction "length (filter P (rows st))" arbitrary: st acc rule: less_induct)
  case less
  let ?st1 = "settle_db W st" and ?st2 = "settle_db W (settle_db W st)"
  let ?ids = "q_clean tie topics cutoff b ?st1"
  let ?st3 = "?st2\<lparr>rows := filter (\<lambda>m. mid m \<notin> set ?ids) (rows ?st2)\<rparr>"
  let ?n = "length (filter (\<lambda>m. mid m \<in> set ?ids) (rows ?st2))"
  note batch = clean_batch [OF less.prems refl refl refl, where topics = topics and cutoff = cutoff and tie = tie and b = b, folded P_def]
  have Pd: "\<forall>m. P m \<longrightarrow> completedAt m \<noteq> None" by (simp add: P_def cleanable_def)
  have one: "removes W P st ?st1 0" "removes W P st ?st2 0"
    using removes_settle removes_trans [OF less.prems Pd removes_settle [of W P st] removes_settle [of W P ?st1]] by simp_all
  have len: "length ?ids = min b (length (filter P (rows st)))"
    unfolding length_q_clean P_def using length_filter_le_pending [OF less.prems cleanable_done] by simp
  note step = cleanup_loop.simps [of W tie topics cutoff b acc st]
  consider "stopped W (tick st)" | "\<not> stopped W (tick st)" "dbfail W (tick st)"
    | "\<not> stopped W (tick st)" "\<not> dbfail W (tick st)" "?ids = []"
    | "\<not> stopped W (tick st)" "\<not> dbfail W (tick st)" "?ids \<noteq> []" "dbfail W (Suc (tick st))"
    | "\<not> stopped W (tick st)" "\<not> dbfail W (tick st)" "?ids \<noteq> []" "\<not> dbfail W (Suc (tick st))" by blast
  then show ?case
  proof cases
    case 1
    then show ?thesis using step removes_refl by (intro exI [of _ 0] exI [of _ "Some Canceled"] exI [of _ st]) simp
  next
    case 2
    then show ?thesis using step one by (intro exI [of _ 0] exI [of _ "Some DbFailed"] exI [of _ ?st1]) simp
  next
    case 3
    then have "filter P (rows st) = []" using len assms(3) by (auto simp: min_def split: if_splits)
    then have "filter P (rows ?st1) = []" using length_filter_le_pending [OF less.prems Pd] by simp
    then show ?thesis using 3 step one by (intro exI [of _ 0] exI [of _ None] exI [of _ ?st1]) (simp add: Let_def)
  next
    case 4
    then show ?thesis using step one by (intro exI [of _ 0] exI [of _ "Some DbFailed"] exI [of _ ?st2]) (simp add: Let_def)
  next
    case 5
    show ?thesis
    proof (cases "length ?ids < b")
      case True
      then have "filter P (rows ?st3) = []" using batch(3) len by simp
      then show ?thesis
        using 5 True step batch(1) by (intro exI [of _ ?n] exI [of _ None] exI [of _ ?st3]) (simp add: Let_def)
    next
      case False
      have "length (filter P (rows ?st3)) < length (filter P (rows st))"
        using batch(3) len 5(3) by (metis diff_less length_greater_0_conv min_less_iff_conj)
      from less.hyps [OF this batch(2), of "acc + ?n"] obtain n err st' where
        r: "cleanup_loop W tie topics cutoff b (acc + ?n) ?st3 = Some (acc + ?n + n, err, st')" "removes W P ?st3 st' n"
          "err = None \<longrightarrow> filter P (rows st') = []" by blast
      have "cleanup_loop W tie topics cutoff b acc st = Some (acc + (?n + n), err, st')"
        using 5 False step r(1) by (simp add: Let_def add.assoc)
      with removes_trans [OF less.prems Pd batch(1) r(2)] r(3) show ?thesis by blast
    qed
  qed
qed

text \<open>What retention may delete, without the floor: delivered, of a worker's topic, old, and below every watermark.\<close>

definition expired :: "(string \<times> watermark) list \<Rightarrow> string list \<Rightarrow> instant \<Rightarrow> message \<Rightarrow> bool" where
  "expired states topics t m \<longleftrightarrow> set topics \<subseteq> fst ` set states \<and> mtopic m \<in> set topics \<and> completedAt m \<noteq> None \<and>
     createdAt m < t \<and> (\<forall>w \<in> snd ` set states. createdAt m < At w)"

lemma floor_of_ok: "ok f \<Longrightarrow> ok (floor_of ws f) \<and> (\<forall>t. t < At (floor_of ws f) \<longleftrightarrow> t < At f \<and> (\<forall>w \<in> snd ` set ws. t < At w))"
proof (induction ws arbitrary: f)
  case (Cons x ws)
  obtain n w where x: "x = (n, w)" by fastforce
  show ?case
  proof (cases "At w < At f")
    case True
    with Cons.prems Cons.IH [of "w\<lparr>ok := True\<rparr>"] x show ?thesis by auto
  next
    case False
    with Cons.prems Cons.IH [of f] x show ?thesis by auto
  qed
qed simp

lemma floor_of_none:
  "ws \<noteq> [] \<Longrightarrow> ok (floor_of ws no_watermark) \<and>
     (\<forall>t. t < At (floor_of ws no_watermark) \<longleftrightarrow> (\<forall>w \<in> snd ` set ws. t < At w))"
proof (cases ws)
  case (Cons x ws')
  obtain n w where "x = (n, w)" by fastforce
  with Cons floor_of_ok [of "w\<lparr>ok := True\<rparr>" ws'] show ?thesis by (simp add: no_watermark_def)
qed simp

lemma cleanable_expired:
  assumes "set topics \<subseteq> fst ` set states" and "states \<noteq> []"
  shows "cleanable topics (cleanup_cutoff W retention (floor_of states no_watermark) k) = expired states topics (clockr W k - retention)"
proof (rule ext)
  fix m :: message
  have "createdAt m < cleanup_cutoff W retention (floor_of states no_watermark) k \<longleftrightarrow>
      createdAt m < clockr W k - retention \<and> createdAt m < At (floor_of states no_watermark)"
    by (auto simp: cleanup_cutoff_def Let_def)
  moreover have "createdAt m < At (floor_of states no_watermark) \<longleftrightarrow> (\<forall>w \<in> snd ` set states. createdAt m < At w)"
    using floor_of_none [OF assms(2)] by blast
  ultimately show "cleanable topics (cleanup_cutoff W retention (floor_of states no_watermark) k) m =
      expired states topics (clockr W k - retention) m"
    using assms(1) unfolding cleanable_def expired_def by blast
qed

lemma removes_all:
  assumes "removes W P st st' n"
  shows "n + length (rows st') = length (rows st @ arrivals W (tick st) (tick st'))"
    and "set (rows st') \<subseteq> set (rows st @ arrivals W (tick st) (tick st'))"
    and "\<forall>m \<in> set (rows st @ arrivals W (tick st) (tick st')) - set (rows st'). P m"
proof -
  let ?all = "rows st @ arrivals W (tick st) (tick st')"
  obtain D where D: "D \<subseteq> Collect P" "rows st' = filter (\<lambda>m. m \<notin> D) ?all" "n = length (filter (\<lambda>m. m \<in> D) ?all)"
    using assms unfolding removes_def by blast
  show "n + length (rows st') = length ?all" unfolding D(2,3) by (rule sum_length_filter_compl)
  show "set (rows st') \<subseteq> set ?all" unfolding D(2) by (rule filter_is_subset)
  have "m \<in> D" if "m \<in> set ?all" "m \<notin> set (rows st')" for m using that unfolding D(2) set_filter by blast
  with D(1) show "\<forall>m \<in> set ?all - set (rows st'). P m" by blast
qed

lemma cleanupOnce_removes:
  assumes "ids_ok W st" and "0 < b"
  shows "\<exists>n err st'. cleanupOnce W tie states topics retention b st = Some (n, err, st') \<and>
    removes W (expired states topics (clockr W (Suc (tick st)) - retention)) st st' n \<and>
    (err = None \<and> topics \<noteq> [] \<longrightarrow> filter (expired states topics (clockr W (Suc (tick st)) - retention)) (rows st') = [])"
proof -
  let ?P = "expired states topics (clockr W (Suc (tick st)) - retention)" and ?st = "settle_db W st"
  have Pd: "\<forall>m. ?P m \<longrightarrow> completedAt m \<noteq> None" by (simp add: expired_def)
  consider "topics = []" | "topics \<noteq> []" "dbfail W (tick st)"
    | "topics \<noteq> []" "\<not> dbfail W (tick st)" "\<not> set topics \<subseteq> fst ` set states"
    | "topics \<noteq> []" "\<not> dbfail W (tick st)" "set topics \<subseteq> fst ` set states" by blast
  then show ?thesis
  proof cases
    case 1
    then show ?thesis using removes_refl by (auto simp: cleanupOnce_def)
  next
    case 2
    then show ?thesis using removes_settle by (auto simp: cleanupOnce_def)
  next
    case 3
    then have "cleanupOnce W tie states topics retention b st = Some (0, None, ?st)" by (auto simp: cleanupOnce_def Let_def)
    moreover have "filter ?P (rows ?st) = []" using 3(3) by (simp add: expired_def filter_empty_conv)
    ultimately show ?thesis using removes_settle by blast
  next
    case 4
    then have ne: "states \<noteq> []" by auto
    let ?c = "cleanup_cutoff W retention (floor_of states no_watermark) (Suc (tick st))"
    have P: "cleanable topics ?c = ?P" by (rule cleanable_expired [OF 4(3) ne])
    have run: "cleanupOnce W tie states topics retention b st = cleanup_loop W tie topics ?c b 0 ?st"
      using 4 floor_of_none [OF ne] by (auto simp: cleanupOnce_def Let_def)
    from cleanup_loop_removes [OF ids_ok_settle [OF assms(1)] assms(2), of tie topics ?c 0] obtain n err st' where
      r: "cleanup_loop W tie topics ?c b 0 ?st = Some (n, err, st')" "removes W ?P ?st st' n" "err = None \<longrightarrow> filter ?P (rows st') = []"
      unfolding P by auto
    have "removes W ?P st st' n" using removes_trans [OF assms(1) Pd removes_settle r(2)] by simp
    with run r show ?thesis by auto
  qed
qed

section \<open>What a transaction on the dead letters does\<close>

lemma concat_chunks: "0 < n \<Longrightarrow> concat (chunks n xs) = xs"
  by (induction n xs rule: chunks.induct) (subst chunks.simps, simp)

lemma read_chunks_mset:
  assumes "read_chunks E k cs db = Some found" and "distinct (concat cs)"
  shows "mset found = mset (filter (\<lambda>d. did d \<in> set (concat cs)) (deads db))"
  using assms
proof (induction cs arbitrary: k found)
  case (Cons c cs)
  then obtain rest where r: "read_chunks E (Suc k) cs db = Some rest" "found = filter (\<lambda>d. did d \<in> set c) (deads db) @ rest"
    by (auto split: if_splits)
  have "mset rest = mset (filter (\<lambda>d. did d \<in> set (concat cs)) (deads db))" using Cons.IH [OF r(1)] Cons.prems(2) by simp
  moreover have "mset (filter (\<lambda>d. did d \<in> set c) ds) + mset (filter (\<lambda>d. did d \<in> set (concat cs)) ds) =
      mset (filter (\<lambda>d. did d \<in> set (concat (c # cs))) ds)" for ds
    using Cons.prems(2) by (induction ds) auto
  ultimately show ?case using r(2) by (simp del: concat.simps)
qed simp

lemma delete_chunks_spec:
  assumes "delete_chunks E k cs n db = Some (n', db')" and "distinct (concat cs)"
  shows "deads db' = filter (\<lambda>d. did d \<notin> set (concat cs)) (deads db) \<and> next_id db' = next_id db \<and>
    n' = n + length (filter (\<lambda>d. did d \<in> set (concat cs)) (deads db)) \<and>
    list_all2 (\<lambda>m m'. mid m' = mid m \<and> (mid m \<notin> set (concat cs) \<or> completedAt m \<noteq> None \<longrightarrow> m' = m) \<and>
        (mid m \<in> set (concat cs) \<longrightarrow> completedAt m' \<noteq> None)) (msgs db) (msgs db')"
  using assms
proof (induction cs arbitrary: k n db)
  case (Cons c cs)
  let ?db = "db\<lparr>msgs := ack_old (nowd E k) c (msgs db), deads := filter (\<lambda>d. did d \<notin> set c) (deads db)\<rparr>"
  have d: "delete_chunks E (k + 2) cs (n + length (filter (\<lambda>d. did d \<in> set c) (deads db))) ?db = Some (n', db')"
    using Cons.prems(1) by (auto split: if_splits)
  note IH = Cons.IH [OF d] 
  have IH': "deads db' = filter (\<lambda>d. did d \<notin> set (concat cs)) (deads ?db)" "next_id db' = next_id db"
    "n' = n + length (filter (\<lambda>d. did d \<in> set c) (deads db)) + length (filter (\<lambda>d. did d \<in> set (concat cs)) (deads ?db))"
    "list_all2 (\<lambda>m m'. mid m' = mid m \<and> (mid m \<notin> set (concat cs) \<or> completedAt m \<noteq> None \<longrightarrow> m' = m) \<and>
        (mid m \<in> set (concat cs) \<longrightarrow> completedAt m' \<noteq> None)) (msgs ?db) (msgs db')"
    using IH Cons.prems(2) by simp_all
  have len: "length (filter (\<lambda>d. did d \<in> set c) ds) + length (filter (\<lambda>d. did d \<in> set (concat cs)) (filter (\<lambda>d. did d \<notin> set c) ds)) =
      length (filter (\<lambda>d. did d \<in> set (concat (c # cs))) ds)" for ds :: "deadRow list"
    by (induction ds) auto
  have "deads db' = filter (\<lambda>d. did d \<notin> set (concat (c # cs))) (deads db)"
    unfolding IH'(1) by (simp add: conj_commute)
  moreover have "n' = n + length (filter (\<lambda>d. did d \<in> set (concat (c # cs))) (deads db))"
    using IH'(3) len [of "deads db"] by simp
  moreover have "list_all2 (\<lambda>m m'. mid m' = mid m \<and> (mid m \<notin> set (concat (c # cs)) \<or> completedAt m \<noteq> None \<longrightarrow> m' = m) \<and>
        (mid m \<in> set (concat (c # cs)) \<longrightarrow> completedAt m' \<noteq> None)) (msgs db) (msgs db')"
    using IH'(4) by (fastforce simp: ack_old_def list_all2_conv_all_nth)
  ultimately show ?case using IH'(2) by (simp del: concat.simps)
qed (simp add: list_all2_refl)

lemma set_requested [simp]: "set (remdups_adj (sort ids)) = set ids"
  by simp

lemma distinct_requested: "distinct (remdups_adj (sort (ids :: nat list)))"
proof -
  have "sorted xs \<Longrightarrow> distinct (remdups_adj xs)" for xs :: "nat list"
    by (induction xs rule: remdups_adj.induct) auto
  then show ?thesis by simp
qed

text \<open>The messages of a requeue, in the order of the rows they come from.\<close>

definition requeued :: "nat \<Rightarrow> deadRow list \<Rightarrow> message list \<Rightarrow> bool" where
  "requeued i ds new \<longleftrightarrow> map mid new = [i..<i + length ds] \<and> map mtopic new = map dtopic ds \<and>
     map payload new = map dpayload ds \<and> list_all (\<lambda>m. completedAt m = None \<and> attempts m = 0) new"

lemma requeue_all_spec:
  "requeue_all E k ds db = Some (k', db') \<Longrightarrow>
   \<exists>new. msgs db' = msgs db @ new \<and> requeued (next_id db) ds new \<and> deads db' = deads db"
proof (induction ds arbitrary: k db)
  case Nil
  then show ?case by (simp add: requeued_def)
next
  case (Cons d ds)
  let ?m = "new_message (next_id db) (nowd E k) (dtopic d) (dpayload d)"
  let ?db = "db\<lparr>msgs := msgs db @ [?m], next_id := next_id db + 1\<rparr>"
  have "requeue_all E (Suc k) ds ?db = Some (k', db')"
    using Cons.prems by (auto simp: insert_msg_def split: if_splits)
  from Cons.IH [OF this] obtain new where new: "msgs db' = msgs db @ ?m # new" "requeued (Suc (next_id db)) ds new" "deads db' = deads db"
    by auto
  have "requeued (next_id db) (d # ds) (?m # new)"
    using new(2) upt_conv_Cons [of "next_id db" "next_id db + Suc (length ds)"]
    by (simp add: requeued_def new_message_def del: upt_Suc)
  with new(1,3) show ?case by blast
qed

definition settled_msgs :: "nat list \<Rightarrow> message list \<Rightarrow> message list \<Rightarrow> bool" where
  "settled_msgs ids = list_all2 (\<lambda>m m'. mid m' = mid m \<and> (mid m \<notin> set ids \<or> completedAt m \<noteq> None \<longrightarrow> m' = m) \<and>
        (mid m \<in> set ids \<longrightarrow> completedAt m' \<noteq> None))"

lemma deadChunk_pos [simp]: "0 < deadChunk"
  by (simp add: deadChunk_def)

lemma takeDead_error: "takeDead E op ids thn db = (Some e, db') \<Longrightarrow> db' = others E db"
  by (auto simp: takeDead_def Let_def split: if_splits option.splits)

lemma length_parked:
  assumes "distinct (map did ds)" and "distinct ids"
  shows "length (filter (\<lambda>d. did d \<in> set ids) ds) = length ids \<longleftrightarrow> set ids \<subseteq> did ` set ds"
    and "length (filter (\<lambda>d. did d \<in> set ids) ds) \<le> length ids"
proof -
  have "length (filter (\<lambda>d. did d \<in> set ids) ds) = length (filter (\<lambda>i. i \<in> set ids) (map did ds))"
    by (simp add: filter_map o_def)
  also have "\<dots> = card (set ids \<inter> did ` set ds)"
    using distinct_length_filter [OF assms(1), of "\<lambda>i. i \<in> set ids"] by simp
  finally have l: "length (filter (\<lambda>d. did d \<in> set ids) ds) = card (set ids \<inter> did ` set ds)" .
  have c: "card (set ids) = length ids" by (rule distinct_card [OF assms(2)])
  show "length (filter (\<lambda>d. did d \<in> set ids) ds) \<le> length ids"
    unfolding l c [symmetric] by (rule card_mono) auto
  have "card (set ids \<inter> did ` set ds) = card (set ids) \<longleftrightarrow> set ids \<inter> did ` set ds = set ids"
    using card_subset_eq [of "set ids" "set ids \<inter> did ` set ds"] by auto
  then show "length (filter (\<lambda>d. did d \<in> set ids) ds) = length ids \<longleftrightarrow> set ids \<subseteq> did ` set ds"
    unfolding l c by blast
qed

lemma takeDead_done:
  assumes "takeDead E op ids0 thn db = (None, db')" and "distinct (map did (deads db))" and "ids0 \<noteq> []"
  obtains ids found db2 k k' where "ids = remdups_adj (sort ids0)" and "set ids \<subseteq> did ` set (deads db)"
    and "mset found = mset (filter (\<lambda>d. did d \<in> set ids) (deads db))"
    and "deads db2 = filter (\<lambda>d. did d \<notin> set ids) (deads (others E db))" and "next_id db2 = next_id db"
    and "settled_msgs ids (msgs db) (msgs db2)"
    and "(case thn of None \<Rightarrow> Some (k, db2) | Some f \<Rightarrow> f k found db2) = Some (k', db')"
proof -
  let ?ids = "remdups_adj (sort ids0)"
  let ?cs = "chunks deadChunk ?ids"
  have cs: "concat ?cs = ?ids" "distinct (concat ?cs)" using distinct_requested by (simp_all add: concat_chunks)
  have ne: "?ids \<noteq> []" using assms(3) by (metis set_empty set_requested)
  obtain found n db2 k' where f: "read_chunks E 0 ?cs db = Some found" "\<not> length found < length ?ids"
    "delete_chunks E (length ?cs) ?cs 0 (others E db) = Some (n, db2)" "n = length ?ids"
    "(case thn of None \<Rightarrow> Some (3 * length ?cs, db2) | Some f \<Rightarrow> f (3 * length ?cs) found db2) = Some (k', db')"
    using assms(1) ne by (auto simp: takeDead_def Let_def split: option.splits if_splits)
  have m: "mset found = mset (filter (\<lambda>d. did d \<in> set ?ids) (deads db))"
    using read_chunks_mset [OF f(1) cs(2)] unfolding cs(1) .
  have "length found = length (filter (\<lambda>d. did d \<in> set ?ids) (deads db))" using m by (metis size_mset)
  then have "set ?ids \<subseteq> did ` set (deads db)"
    using f(2) length_parked [OF assms(2) distinct_requested, of ids0] by linarith
  moreover note delete_chunks_spec [OF f(3) cs(2), unfolded cs(1)]
  ultimately show ?thesis using m f(5) by (intro that [OF refl]) (auto simp: others_def settled_msgs_def)
qed

lemma takeDead_decides:
  assumes "\<forall>k. \<not> sfail E k" and "stolen E = []" and "distinct (map did (deads db))"
    and "\<And>f k found db2. thn = Some f \<Longrightarrow> \<exists>r. f k found db2 = Some r"
  shows "fst (takeDead E op ids thn db) =
    (if set ids \<subseteq> did ` set (deads db) then None
     else Some (NotParked op (filter (\<lambda>i. i \<notin> did ` set (deads db)) (remdups_adj (sort ids)))))"
proof -
  let ?ids = "remdups_adj (sort ids)"
  let ?cs = "chunks deadChunk ?ids"
  have cs: "concat ?cs = ?ids" "distinct (concat ?cs)" using distinct_requested by (simp_all add: concat_chunks)
  have read: "\<exists>found. read_chunks E k c db = Some found" for k c using assms(1) by (induction c arbitrary: k) auto
  then obtain found where f: "read_chunks E 0 ?cs db = Some found" by blast
  have m: "mset found = mset (filter (\<lambda>d. did d \<in> set ?ids) (deads db))"
    using read_chunks_mset [OF f cs(2)] unfolding cs(1) .
  have len: "length found = length (filter (\<lambda>d. did d \<in> set ?ids) (deads db))" using mset_eq_length [OF m] .
  have sf: "set found = {d \<in> set (deads db). did d \<in> set ids}" using mset_eq_setD [OF m] by auto
  have del: "\<exists>r. delete_chunks E k c n d = Some r" for k c n d using assms(1) by (induction c arbitrary: k n d) auto
  then obtain n db2 where d: "delete_chunks E (length ?cs) ?cs 0 (others E db) = Some (n, db2)" by fastforce
  have n: "n = length (filter (\<lambda>d. did d \<in> set ?ids) (deads db))"
    using delete_chunks_spec [OF d cs(2), unfolded cs(1)] assms(2) by (simp add: others_def)
  note lp = length_parked [OF assms(3) distinct_requested, of ids, unfolded len [symmetric]]
  show ?thesis
  proof (cases "set ids \<subseteq> did ` set (deads db)")
    case True
    then have all: "length found = length ?ids" "n = length ?ids" using lp(1) len n by simp_all
    obtain k' db3 where t: "(case thn of None \<Rightarrow> Some (3 * length ?cs, db2) | Some f \<Rightarrow> f (3 * length ?cs) found db2) = Some (k', db3)"
      using assms(4) [of _ "3 * length ?cs" found db2] by (cases thn) fastforce+
    show ?thesis using True all f d t assms(1) by (simp add: takeDead_def Let_def)
  next
    case False
    then have "length found < length ?ids" using lp by simp
    moreover have "filter (\<lambda>i. i \<notin> did ` set found) ?ids = filter (\<lambda>i. i \<notin> did ` set (deads db)) ?ids"
      by (rule filter_cong) (auto simp: sf)
    ultimately show ?thesis using False f by (auto simp: takeDead_def Let_def)
  qed
qed

lemma requeue_all_runs: "\<forall>k. \<not> sfail E k \<Longrightarrow> \<exists>r. requeue_all E k ds db = Some r"
  by (induction ds arbitrary: k db) (auto simp: insert_msg_def)

lemma enqueued_order_inj: "distinct (map did ds) \<Longrightarrow> inj_on enqueued_order (set ds)"
  by (auto simp: inj_on_def enqueued_order_def distinct_map)

section \<open>Properties\<close>

text \<open>C19: retention is safe and complete: the cleanup always returns; whatever fails or stops
  it on the way, each row that is gone was acknowledged, belonged to a topic of a
  registered worker, was older than the retention and lay below the watermark of every
  worker, and all registered workers had one; the count it returns is the number of rows
  gone; and when it returns without an error no such row is left.\<close>

theorem cleanup_exact:
  assumes "ids_ok W st" and "0 < b"
  shows "\<exists>n err st'. cleanupOnce W tie states topics retention b st = Some (n, err, st') \<and>
    n + length (rows st') = length (rows st @ arrivals W (tick st) (tick st')) \<and>
    set (rows st') \<subseteq> set (rows st @ arrivals W (tick st) (tick st')) \<and>
    (\<forall>m \<in> set (rows st @ arrivals W (tick st) (tick st')) - set (rows st').
       expired states topics (clockr W (Suc (tick st)) - retention) m) \<and>
    (err = None \<and> topics \<noteq> [] \<longrightarrow>
       (\<forall>m \<in> set (rows st'). \<not> expired states topics (clockr W (Suc (tick st)) - retention) m))"
proof -
  let ?P = "expired states topics (clockr W (Suc (tick st)) - retention)"
  obtain n err st' where c: "cleanupOnce W tie states topics retention b st = Some (n, err, st')"
    "removes W ?P st st' n" "err = None \<and> topics \<noteq> [] \<longrightarrow> filter ?P (rows st') = []"
    using cleanupOnce_removes [OF assms, of tie states topics retention] by blast
  have "err = None \<and> topics \<noteq> [] \<longrightarrow> (\<forall>m \<in> set (rows st'). \<not> ?P m)"
    using c(3) by (simp only: filter_empty_conv simp_thms)
  with c(1) removes_all [OF c(2)] show ?thesis by (intro exI conjI)
qed


text \<open>When the database answers and no other call takes the same letters meanwhile,
  requeueing and discarding succeed exactly when every id is parked, and otherwise fail with
  an error that names the missing ids, each once and in ascending order.\<close>

theorem dead_missing_named:
  assumes "\<forall>k. \<not> sfail E k" and "stolen E = []" and "distinct (map did (deads db))"
  shows "fst (Requeue E ids db) =
      (if set ids \<subseteq> did ` set (deads db) then None
       else Some (NotParked ''Requeue'' (filter (\<lambda>i. i \<notin> did ` set (deads db)) (remdups_adj (sort ids))))) \<and>
    fst (Discard E ids db) =
      (if set ids \<subseteq> did ` set (deads db) then None
       else Some (NotParked ''Discard'' (filter (\<lambda>i. i \<notin> did ` set (deads db)) (remdups_adj (sort ids)))))"
proof (rule conjI)
  have "\<exists>r. f k found db2 = Some r" if "Some (\<lambda>k found. requeue_all E k (sort_key enqueued_order found)) = Some f"
    for f :: after_take and k found db2
    using that requeue_all_runs [OF assms(1)] by blast
  then show "fst (Requeue E ids db) =
      (if set ids \<subseteq> did ` set (deads db) then None
       else Some (NotParked ''Requeue'' (filter (\<lambda>i. i \<notin> did ` set (deads db)) (remdups_adj (sort ids)))))"
    unfolding Requeue_def by (rule takeDead_decides [OF assms])
  show "fst (Discard E ids db) =
      (if set ids \<subseteq> did ` set (deads db) then None
       else Some (NotParked ''Discard'' (filter (\<lambda>i. i \<notin> did ` set (deads db)) (remdups_adj (sort ids)))))"
    unfolding Discard_def by (rule takeDead_decides [OF assms]) simp
qed

section \<open>Witnesses\<close>

definition demo_dead :: "nat \<Rightarrow> instant \<Rightarrow> deadRow" where
  "demo_dead i t = \<lparr>did = i, dtopic = ''mail'', dpayload = [CHR ''p''], dcreatedAt = t, parkedAt = 50,
     dattempts = 3, dlastError = ''no''\<rparr>"

definition demo_db :: dead_db where
  "demo_db = \<lparr>msgs = [demo_row 1 10, demo_row 2 5], deads = [demo_dead 1 10, demo_dead 2 5, demo_dead 3 7], next_id = 9\<rparr>"

definition demo_env :: dead_env where
  "demo_env = \<lparr>sfail = (\<lambda>k. False), nowd = (\<lambda>k. 100), stolen = []\<rparr>"

lemma demo_db_distinct: "distinct (map did (deads demo_db))"
  by (simp add: demo_db_def demo_dead_def)

text \<open>A store with a delivered old row, a pending one and a delivered one of a topic without a worker.\<close>

definition old_store :: store where
  "old_store = demo_store [(demo_row 1 10)\<lparr>completedAt := Some 11\<rparr>, demo_row 2 12,
     (demo_row 3 12)\<lparr>completedAt := Some 13, mtopic := ''other''\<rparr>]"

lemma old_store_ids: "ids_ok (demo_world\<lparr>arrive := (\<lambda>k. [])\<rparr>) old_store"
  by (simp add: ids_ok_def old_store_def demo_store_def demo_row_def map_replicate_const)

theorem cleanup_exact_witness:
  "\<exists>n err st'. cleanupOnce (demo_world\<lparr>arrive := (\<lambda>k. [])\<rparr>) (\<lambda>k m. mid m) [(''mail'', \<lparr>At = 500, ID = 0, ok = True\<rparr>)]
     [''mail''] 100 2 old_store = Some (n, err, st') \<and> n + length (rows st') = 3 \<and> map mid (rows st') = [2, 3]"
proof -
  let ?run = "cleanupOnce (demo_world\<lparr>arrive := (\<lambda>k. [])\<rparr>) (\<lambda>k m. mid m) [(''mail'', \<lparr>At = 500, ID = 0, ok = True\<rparr>)]
     [''mail''] 100 2 old_store"
  have ev: "map_option (\<lambda>(n, err, st'). map mid (rows st')) ?run = Some [2, 3]" by code_simp
  from cleanup_exact [OF old_store_ids, of 2 "\<lambda>k m. mid m" "[(''mail'', \<lparr>At = 500, ID = 0, ok = True\<rparr>)]" "[''mail'']" 100]
  obtain n err st' where r: "?run = Some (n, err, st')"
    "n + length (rows st') = length (rows old_store @ arrivals (demo_world\<lparr>arrive := (\<lambda>k. [])\<rparr>) (tick old_store) (tick st'))"
    by auto
  have "length (rows old_store @ arrivals (demo_world\<lparr>arrive := (\<lambda>k. [])\<rparr>) (tick old_store) (tick st')) = 3"
    by (simp add: arrivals_def old_store_def demo_store_def map_replicate_const)
  with r ev show ?thesis by simp
qed


theorem dead_missing_named_witness:
  "fst (Discard demo_env [7, 1, 7, 5] demo_db) = Some (NotParked ''Discard'' [5, 7])"
proof -
  have "remdups_adj (sort [7, 1, 7, 5 :: nat]) = [1, 5, 7]" by simp
  moreover have "did ` set (deads demo_db) = {1, 2, 3}" by (auto simp: demo_db_def demo_dead_def)
  ultimately show ?thesis
    using dead_missing_named [of demo_env demo_db "[7, 1, 7, 5]"] demo_db_distinct by (simp add: demo_env_def)
qed

end
