(* ===== verification/Jobs_Scheduler.thy ===== *)
theory Jobs_Scheduler
  imports Jobs_Dead Cron "HOL-Library.Char_ord" "HOL-Library.List_Lexorder"
begin

text \<open>
  The scheduler of the jobs and their life cycle: \<^verbatim>\<open>jobs/scheduler.go\<close>, \<^verbatim>\<open>jobs/jobs.go\<close> and
  \<^verbatim>\<open>jobs/config.go\<close>.

  An entry is a periodic job, a worker's sweep or the cleanup. Every section of code under the
  entry's lock is one definition; the step relation \<open>sched_step\<close> interleaves the loop's triggers
  with the goroutines of the runs. A time of zero is Go's zero \<^verbatim>\<open>time.Time\<close>. Log lines are
  left out but for their level, and so are the observers, whose panics cannot reach a run.
\<close>

section \<open>Entries\<close>

type_synonym Overlap = int

definition OverlapSkip :: Overlap where "OverlapSkip = 0"
definition OverlapQueue :: Overlap where "OverlapQueue = 1"
definition OverlapAllow :: Overlap where "OverlapAllow = 2"

lemmas overlap_defs = OverlapSkip_def OverlapQueue_def OverlapAllow_def

datatype entry_type = TypePeriodic | TypeWorker | TypeCleanup

record JobStats =
  sname :: string
  sspec :: string
  snext :: instant
  LastStart :: instant
  LastEnd :: instant
  LastError :: string
  Runs :: nat
  Failures :: nat
  Skipped :: nat
  AvgDuration :: duration
  Messages :: nat
  Parked :: nat
  HeadAttempts :: int
  NextRetry :: instant
  Pending :: nat
  OldestPending :: instant

record entry =
  etyp :: entry_type
  overlap :: Overlap
  quiet :: bool
  busy :: bool
  queued :: bool
  running :: nat
  tot :: duration
  stats :: JobStats
  lastInfo :: instant
  faltered :: bool

definition no_stats :: "string \<Rightarrow> string \<Rightarrow> JobStats" where
  "no_stats name spec = \<lparr>sname = name, sspec = spec, snext = 0, LastStart = 0, LastEnd = 0, LastError = [],
     Runs = 0, Failures = 0, Skipped = 0, AvgDuration = 0, Messages = 0, Parked = 0, HeadAttempts = 0,
     NextRetry = 0, Pending = 0, OldestPending = 0\<rparr>"

definition newEntry :: "entry_type \<Rightarrow> string \<Rightarrow> string \<Rightarrow> Overlap \<Rightarrow> bool \<Rightarrow> entry" where
  "newEntry t name spec ov q = \<lparr>etyp = t, overlap = ov, quiet = q, busy = False, queued = False, running = 0,
     tot = 0, stats = no_stats name spec, lastInfo = 0, faltered = False\<rparr>"

definition setNext :: "instant \<Rightarrow> entry \<Rightarrow> entry" where
  "setNext t e = e\<lparr>stats := (stats e)\<lparr>snext := t\<rparr>\<rparr>"

definition snapshot :: "entry \<Rightarrow> JobStats" where
  "snapshot e = (if Runs (stats e) > 0 then (stats e)\<lparr>AvgDuration := sgn (tot e) * (\<bar>tot e\<bar> div int (Runs (stats e)))\<rparr> else stats e)"

definition inFlight :: "entry list \<Rightarrow> string list" where
  "inFlight es = sort (map (\<lambda>e. sname (stats e)) (filter (\<lambda>e. running e > 0) es))"

definition every :: "duration \<Rightarrow> instant \<Rightarrow> instant" where
  "every d t = t + d"

section \<open>Triggers and runs\<close>

datatype trigger_result = TStart | TFolded | TQueued

definition skip1 :: "entry \<Rightarrow> entry" where
  "skip1 e = e\<lparr>stats := (stats e)\<lparr>Skipped := Skipped (stats e) + 1\<rparr>\<rparr>"

definition trigger :: "entry \<Rightarrow> trigger_result \<times> entry" where
  "trigger e =
     (if overlap e = OverlapAllow then (TStart, e)
      else if overlap e = OverlapQueue then
        (if busy e then
           (if queued e then (TFolded, (skip1 e)\<lparr>queued := True\<rparr>) else (TQueued, e\<lparr>queued := True\<rparr>))
         else (TStart, e\<lparr>busy := True\<rparr>))
      else if busy e then (TFolded, skip1 e)
      else (TStart, e\<lparr>busy := True\<rparr>))"

text \<open>
  What the function of a run returned: nothing, an error (which may be the error of the stopped
  context, the wait for a retry, or one the worker has logged), or a panic.
\<close>

record run_err =
  isCtxErr :: bool
  isRetryLater :: bool
  isLogged :: bool
  rtext :: string

datatype run_result = RNil | RErr run_err | RPanic string

datatype level = LDebug | LInfo | LWarn

definition run_error :: "run_result \<Rightarrow> run_err option" where
  "run_error res =
     (case res of
        RNil \<Rightarrow> None
      | RErr e \<Rightarrow> Some e
      | RPanic p \<Rightarrow> Some \<lparr>isCtxErr = False, isRetryLater = False, isLogged = False, rtext = ''panic: '' @ p\<rparr>)"

definition begin_run :: "entry \<Rightarrow> entry" where
  "begin_run e = e\<lparr>running := running e + 1\<rparr>"

definition infoHeartbeat :: duration where
  "infoHeartbeat = 3600 * second_ns"

definition count_run :: "instant \<Rightarrow> duration \<Rightarrow> run_err option \<Rightarrow> bool \<Rightarrow> JobStats \<Rightarrow> JobStats" where
  "count_run start dur err waiting st =
     st\<lparr>LastStart := start, LastEnd := start + dur, Runs := Runs st + 1,
        Failures := (if err \<noteq> None then Failures st + 1 else Failures st),
        LastError := (case err of Some x \<Rightarrow> rtext x | None \<Rightarrow> if waiting then LastError st else [])\<rparr>"

text \<open>Which successes are news, worth a line at Info.\<close>

definition note_run :: "bool \<Rightarrow> instant \<Rightarrow> entry \<Rightarrow> bool \<times> entry" where
  "note_run bad at e =
     (if quiet e then (False, e)
      else if bad then (False, e\<lparr>faltered := True\<rparr>)
      else let news = (lastInfo e = 0 \<or> faltered e \<or> at - lastInfo e \<ge> infoHeartbeat)
           in (news, e\<lparr>lastInfo := (if news then at else lastInfo e), faltered := False\<rparr>))"

text \<open>The end of \<^verbatim>\<open>execute\<close>: the error the run counts with, the level of its log line, the entry.\<close>

definition finish_run ::
  "bool \<Rightarrow> instant \<Rightarrow> duration \<Rightarrow> run_result \<Rightarrow> entry \<Rightarrow> run_err option \<times> level \<times> entry" where
  "finish_run ctxDone start dur res e =
     (let err0 = run_error res;
          stopped = (case err0 of None \<Rightarrow> False | Some x \<Rightarrow> ctxDone \<and> isCtxErr x);
          waiting = (case err0 of None \<Rightarrow> False | Some x \<Rightarrow> isRetryLater x);
          err = (if stopped \<or> waiting then None else err0);
          e1 = e\<lparr>running := running e - 1, tot := tot e + dur, stats := count_run start dur err waiting (stats e)\<rparr>
      in case note_run (err \<noteq> None \<or> stopped) (start + dur) e1 of
           (news, e2) \<Rightarrow>
             (err,
              case err of
                Some x \<Rightarrow> if isLogged x then LDebug else LWarn
              | None \<Rightarrow> if stopped then LDebug else if news then LInfo else LDebug,
              e2))"

text \<open>\<open>runs\<close>, after a run: whether to run once more.\<close>

definition after_run :: "bool \<Rightarrow> entry \<Rightarrow> bool \<times> entry" where
  "after_run ctxDone e =
     (if overlap e = OverlapAllow then (False, e)
      else if queued e \<and> \<not> ctxDone then (True, e\<lparr>queued := False\<rparr>)
      else (False, e\<lparr>busy := False, queued := False\<rparr>))"

text \<open>
  The system of one entry: \<open>waiting\<close> goroutines are about to run it, \<open>active\<close> are the start times of the
  runs in their function, \<open>ended\<close> goroutines are between a run and the decision to run again.
  \<open>fired\<close>, \<open>begun\<close> and \<open>dropped\<close> are ghosts: the triggers, the runs begun, the queued triggers a stop dropped.
\<close>

record sched =
  ent :: entry
  waiting :: nat
  active :: "instant list"
  ended :: nat
  ctxDone :: bool
  fired :: nat
  begun :: nat
  dropped :: nat

datatype sched_event = ETrigger | EBegin instant | EFinish nat duration run_result | ENext | EStop

definition on_trigger :: "sched \<Rightarrow> sched" where
  "on_trigger s =
     (case trigger (ent s) of
        (TStart, e) \<Rightarrow> s\<lparr>ent := e, waiting := waiting s + 1, fired := fired s + 1\<rparr>
      | (_, e) \<Rightarrow> s\<lparr>ent := e, fired := fired s + 1\<rparr>)"

definition on_next :: "sched \<Rightarrow> sched" where
  "on_next s =
     (case after_run (ctxDone s) (ent s) of
        (True, e) \<Rightarrow> s\<lparr>ent := e, waiting := waiting s + 1, ended := ended s - 1\<rparr>
      | (False, e) \<Rightarrow> s\<lparr>ent := e, ended := ended s - 1,
            dropped := (if queued (ent s) \<and> \<not> queued e then dropped s + 1 else dropped s)\<rparr>)"

inductive sched_step :: "sched \<Rightarrow> sched_event \<Rightarrow> sched \<Rightarrow> bool" where
  trig: "sched_step s ETrigger (on_trigger s)"
| start: "0 < waiting s \<Longrightarrow>
    sched_step s (EBegin t) (s\<lparr>ent := begin_run (ent s), waiting := waiting s - 1, active := active s @ [t], begun := begun s + 1\<rparr>)"
| finish: "i < length (active s) \<Longrightarrow>
    sched_step s (EFinish i d res)
      (s\<lparr>ent := snd (snd (finish_run (ctxDone s) (active s ! i) d res (ent s))),
         active := take i (active s) @ drop (Suc i) (active s), ended := ended s + 1\<rparr>)"
| decide: "0 < ended s \<Longrightarrow> sched_step s ENext (on_next s)"
| halt: "sched_step s EStop (s\<lparr>ctxDone := True\<rparr>)"

definition sched_init :: "entry_type \<Rightarrow> string \<Rightarrow> string \<Rightarrow> Overlap \<Rightarrow> bool \<Rightarrow> sched \<Rightarrow> bool" where
  "sched_init t name spec ov q s \<longleftrightarrow>
     s = \<lparr>ent = newEntry t name spec ov q, waiting = 0, active = [], ended = 0, ctxDone = False,
          fired = 0, begun = 0, dropped = 0\<rparr>"

section \<open>Configuration\<close>

record Config =
  Enabled :: bool
  PollInterval :: duration
  BatchSize :: int
  SettleWindow :: duration
  MaxAttempts :: int
  RetryBackoff :: duration
  MaxBackoff :: duration
  Retention :: duration
  CleanupInterval :: duration
  StopBudget :: duration
  HandlerTimeout :: duration

definition or_default :: "int \<Rightarrow> int \<Rightarrow> int" where
  "or_default v def = (if v = 0 then def else v)"

definition maxBatchSize :: int where
  "maxBatchSize = 10000"

definition withDefaults :: "Config \<Rightarrow> Config" where
  "withDefaults c = c\<lparr>
     PollInterval := or_default (PollInterval c) second_ns,
     BatchSize := or_default (BatchSize c) 100,
     SettleWindow := or_default (SettleWindow c) (30 * second_ns),
     MaxAttempts := or_default (MaxAttempts c) 10,
     RetryBackoff := or_default (RetryBackoff c) second_ns,
     MaxBackoff := or_default (MaxBackoff c) (5 * 60 * second_ns),
     CleanupInterval := or_default (CleanupInterval c) (3600 * second_ns),
     StopBudget := or_default (StopBudget c) (15 * second_ns),
     HandlerTimeout := or_default (HandlerTimeout c) (10 * 60 * second_ns)\<rparr>"

datatype config_problem =
    NotPositive string duration
  | BatchRange int
  | NegativeRetention duration
  | NegativeAttempts int
  | NegativeBackoff duration
  | NegativeMaxBackoff duration
  | BackoffOrder duration duration
  | NegativeTimeout duration

definition problem_if :: "bool \<Rightarrow> 'p \<Rightarrow> 'p list" where
  "problem_if b p = (if b then [p] else [])"

text \<open>The problems of \<^verbatim>\<open>Validate\<close>; the code renders them, sorts the texts and joins them.\<close>

definition Validate :: "Config \<Rightarrow> config_problem list" where
  "Validate c =
     (if \<not> Enabled c then []
      else problem_if (PollInterval c \<le> 0) (NotPositive ''poll_interval'' (PollInterval c)) @
           problem_if (SettleWindow c \<le> 0) (NotPositive ''settle_window'' (SettleWindow c)) @
           problem_if (CleanupInterval c \<le> 0) (NotPositive ''cleanup_interval'' (CleanupInterval c)) @
           problem_if (StopBudget c \<le> 0) (NotPositive ''stop_budget'' (StopBudget c)) @
           problem_if (BatchSize c < 1 \<or> BatchSize c > maxBatchSize) (BatchRange (BatchSize c)) @
           problem_if (Retention c < 0) (NegativeRetention (Retention c)) @
           problem_if (MaxAttempts c < 0) (NegativeAttempts (MaxAttempts c)) @
           (if RetryBackoff c < 0 then [NegativeBackoff (RetryBackoff c)]
            else if MaxBackoff c < 0 then [NegativeMaxBackoff (MaxBackoff c)]
            else let d = withDefaults c
                 in problem_if (RetryBackoff d > MaxBackoff d) (BackoffOrder (RetryBackoff d) (MaxBackoff d))))"

text \<open>\<^verbatim>\<open>conf.Check\<close>: the tag of \<^verbatim>\<open>HandlerTimeout\<close>, then \<^verbatim>\<open>Validate\<close>.\<close>

definition check_config :: "Config \<Rightarrow> config_problem list" where
  "check_config c = problem_if (HandlerTimeout c < 0) (NegativeTimeout (HandlerTimeout c)) @ Validate c"

section \<open>Building the jobs\<close>

record periodicOption =
  pname :: string
  pspec :: string
  pfn :: bool
  poverlap :: Overlap

record workerOption =
  wtopic :: string
  wfn :: bool

datatype new_error =
    NilDb
  | ConfigProblems "config_problem list"
  | NilObserver
  | NoName
  | TwoNamed string
  | NilFunction string
  | BadOverlap string Overlap
  | BadSpec string string cron_error
  | BadWorkerTopic string jobs_error
  | TwoWorkers string
  | SchemaFailed

record Jobs =
  jcfg :: Config
  periodic :: "entry list"
  workers :: "entry list"
  relays :: "relay list"
  cleanup :: "entry option"
  jdeleted :: nat
  started :: bool
  closed :: bool
  cancelled :: bool
  deadline :: instant

definition specParser :: ParseOption where
  "specParser = optSecondOptional OR optMinute OR optHour OR optDom OR optMonth OR optDow OR optDescriptor"

text \<open>\<open>parse\<close> is \<^verbatim>\<open>specParser.Parse\<close>; \<open>None\<close> would be a panic.\<close>

type_synonym spec_parse = "string \<Rightarrow> (cron_error + string Schedule) option"

fun check_periodic ::
  "spec_parse \<Rightarrow> string set \<Rightarrow> periodicOption list \<Rightarrow> (new_error + entry list) option" where
  "check_periodic parse ns [] = Some (Inr [])"
| "check_periodic parse ns (p # ps) =
     (if pname p = [] then Some (Inl NoName)
      else if pname p \<in> ns then Some (Inl (TwoNamed (pname p)))
      else if \<not> pfn p then Some (Inl (NilFunction (pname p)))
      else if poverlap p < OverlapSkip \<or> poverlap p > OverlapAllow then Some (Inl (BadOverlap (pname p) (poverlap p)))
      else (case parse (pspec p) of
              None \<Rightarrow> None
            | Some (Inl e) \<Rightarrow> Some (Inl (BadSpec (pname p) (pspec p) e))
            | Some (Inr _) \<Rightarrow>
                map_option (map_sum (\<lambda>e. e) (\<lambda>es. newEntry TypePeriodic (pname p) (pspec p) (poverlap p) False # es))
                  (check_periodic parse (insert (pname p) ns) ps)))"

fun check_workers :: "string set \<Rightarrow> workerOption list \<Rightarrow> new_error option" where
  "check_workers topics [] = None"
| "check_workers topics (w # ws) =
     (case checkTopic (wtopic w) of
        Some e \<Rightarrow> Some (BadWorkerTopic (wtopic w) e)
      | None \<Rightarrow>
          if wtopic w \<in> topics then Some (TwoWorkers (wtopic w))
          else if \<not> wfn w then Some (NilFunction (wtopic w))
          else check_workers (insert (wtopic w) topics) ws)"

definition maxSweepPages :: nat where
  "maxSweepPages = 100"

definition newRelay :: "Config \<Rightarrow> string \<Rightarrow> relay" where
  "newRelay c t = \<lparr>topic = t, maxAttempts = MaxAttempts c, backoff = RetryBackoff c, maxBackoff = MaxBackoff c,
     settle = SettleWindow c, batch = nat (BatchSize c), maxPages = maxSweepPages\<rparr>"

text \<open>\<open>showDuration\<close> is \<^verbatim>\<open>Duration.String\<close>, \<open>observers\<close> says which of the observers are not nil.\<close>

definition New ::
  "(duration \<Rightarrow> string) \<Rightarrow> spec_parse \<Rightarrow> bool \<Rightarrow> bool \<Rightarrow> Config \<Rightarrow> bool list \<Rightarrow> periodicOption list \<Rightarrow> workerOption list \<Rightarrow>
   (new_error + Jobs) option" where
  "New showDuration parse hasDb schemaOk cfg0 observers ps ws =
     (if \<not> hasDb then Some (Inl NilDb)
      else let cfg = withDefaults cfg0
           in if check_config cfg \<noteq> [] then Some (Inl (ConfigProblems (check_config cfg)))
              else if \<not> list_all (\<lambda>b. b) observers then Some (Inl NilObserver)
              else (case check_periodic parse {} ps of
                      None \<Rightarrow> None
                    | Some (Inl e) \<Rightarrow> Some (Inl e)
                    | Some (Inr es) \<Rightarrow>
                        (case check_workers {} ws of
                           Some e \<Rightarrow> Some (Inl e)
                         | None \<Rightarrow>
                             if \<not> schemaOk then Some (Inl SchemaFailed)
                             else let sweep = ''@every '' @ showDuration (PollInterval cfg)
                                  in Some (Inr \<lparr>jcfg = cfg, periodic = es,
                                       workers = map (\<lambda>w. newEntry TypeWorker (wtopic w) sweep OverlapSkip True) ws,
                                       relays = map (\<lambda>w. newRelay cfg (wtopic w)) ws,
                                       cleanup = (if Retention cfg > 0
                                         then Some (newEntry TypeCleanup ''cleanup'' (''@every '' @ showDuration (CleanupInterval cfg)) OverlapSkip True)
                                         else None),
                                       jdeleted = 0, started = False, closed = False, cancelled = False, deadline = 0\<rparr>))))"

definition entries :: "Jobs \<Rightarrow> entry list" where
  "entries j = periodic j @ workers j @ (case cleanup j of None \<Rightarrow> [] | Some e \<Rightarrow> [e])"

text \<open>\<^verbatim>\<open>Stats\<close>: the snapshots, with what each worker's relay counted (\<open>st\<close>) and its backlog (\<open>b\<close>).\<close>

definition worker_stats :: "entry \<Rightarrow> store \<Rightarrow> backlogState \<Rightarrow> JobStats" where
  "worker_stats e st b = (snapshot e)\<lparr>Messages := delivered st, Parked := parked st,
     HeadAttempts := hattempts (head st), NextRetry := hnext (head st),
     Pending := pending b, OldestPending := oldest b\<rparr>"

definition Stats :: "(store \<times> backlogState) list \<Rightarrow> Jobs \<Rightarrow> JobStats list \<times> JobStats list \<times> JobStats" where
  "Stats ss j = (map snapshot (periodic j), map2 (\<lambda>e (st, b). worker_stats e st b) (workers j) ss,
     case cleanup j of None \<Rightarrow> no_stats [] [] | Some e \<Rightarrow> (snapshot e)\<lparr>Messages := jdeleted j\<rparr>)"

section \<open>Starting and stopping\<close>

datatype start_result = Disabled | StartAfterClose | StartTwice | Launched

definition Start :: "Jobs \<Rightarrow> start_result \<times> Jobs" where
  "Start j =
     (if \<not> Enabled (jcfg j) then (Disabled, j)
      else if closed j then (StartAfterClose, j)
      else if started j then (StartTwice, j)
      else (Launched, j\<lparr>started := True\<rparr>))"

definition Close :: "Jobs \<Rightarrow> Jobs" where
  "Close j = j\<lparr>closed := True\<rparr>"

text \<open>The locked part of \<open>stop\<close>: the deadline until which the caller waits, unless nothing was started.\<close>

definition stop :: "instant \<Rightarrow> Jobs \<Rightarrow> instant option \<times> Jobs" where
  "stop now j =
     (if \<not> started j then (None, j)
      else let j1 = (if deadline j = 0 then j\<lparr>deadline := now + StopBudget (jcfg j), cancelled := True\<rparr> else j)
           in (Some (deadline j1), j1))"

section \<open>The invariant of an entry\<close>

definition of_bool_nat :: "bool \<Rightarrow> nat" where
  "of_bool_nat b = (if b then 1 else 0)"

definition sched_inv :: "Overlap \<Rightarrow> sched \<Rightarrow> bool" where
  "sched_inv ov s \<longleftrightarrow> overlap (ent s) = ov \<and>
     running (ent s) = length (active s) \<and>
     (ov \<noteq> OverlapAllow \<longrightarrow> waiting s + length (active s) + ended s = of_bool_nat (busy (ent s))) \<and>
     (queued (ent s) \<longrightarrow> busy (ent s) \<and> ov = OverlapQueue) \<and>
     (dropped s > 0 \<longrightarrow> ctxDone s) \<and>
     fired s = begun s + waiting s + Skipped (stats (ent s)) + of_bool_nat (queued (ent s)) + dropped s \<and>
     begun s = Runs (stats (ent s)) + length (active s) \<and>
     Failures (stats (ent s)) \<le> Runs (stats (ent s))"

lemma note_run_entry:
  "overlap (snd (note_run bad at e)) = overlap e" "busy (snd (note_run bad at e)) = busy e"
  "queued (snd (note_run bad at e)) = queued e" "running (snd (note_run bad at e)) = running e"
  "stats (snd (note_run bad at e)) = stats e"
  by (simp_all add: note_run_def Let_def)

lemma finish_run_entry:
  assumes "snd (snd (finish_run c start d res e)) = e'"
  shows "overlap e' = overlap e \<and> busy e' = busy e \<and> queued e' = queued e \<and> running e' = running e - 1 \<and>
   Skipped (stats e') = Skipped (stats e) \<and> Runs (stats e') = Runs (stats e) + 1 \<and>
   Failures (stats e') \<le> Failures (stats e) + 1"
proof -
  obtain bad err w where "e' = snd (note_run bad (start + d)
      (e\<lparr>running := running e - 1, tot := tot e + d, stats := count_run start d err w (stats e)\<rparr>))"
    using assms unfolding finish_run_def Let_def case_prod_beta snd_conv by blast
  then show ?thesis by (simp add: note_run_entry count_run_def)
qed

lemma finish_run_queued: "queued (snd (snd (finish_run c start d res e))) = queued e"
  using finish_run_entry [OF refl] by blast

lemma sched_inv_trigger: "sched_inv ov s \<Longrightarrow> sched_inv ov (on_trigger s)"
  by (auto simp: sched_inv_def on_trigger_def trigger_def skip1_def of_bool_nat_def overlap_defs split: if_splits)

lemma sched_inv_next:
  assumes "sched_inv ov s" and "0 < ended s"
  shows "sched_inv ov (on_next s)"
proof (cases "ov = OverlapAllow")
  case True
  then have "after_run (ctxDone s) (ent s) = (False, ent s)" using assms(1) by (simp add: sched_inv_def after_run_def)
  then show ?thesis using assms True by (simp add: sched_inv_def on_next_def)
next
  case False
  then have "waiting s + length (active s) + ended s = of_bool_nat (busy (ent s))"
    using assms by (simp add: sched_inv_def)
  with assms(2) have "busy (ent s)" "waiting s = 0" "active s = []" "ended s = 1"
    by (cases "active s", auto simp: of_bool_nat_def split: if_splits)+
  with assms(1) False show ?thesis
    by (auto simp: sched_inv_def on_next_def after_run_def of_bool_nat_def)
qed

lemma sched_inv_finish:
  assumes "sched_inv ov s" and "i < length (active s)"
  shows "sched_inv ov (s\<lparr>ent := snd (snd (finish_run (ctxDone s) (active s ! i) d res (ent s))),
         active := take i (active s) @ drop (Suc i) (active s), ended := ended s + 1\<rparr>)"
  using assms finish_run_entry [OF refl, of "ctxDone s" "active s ! i" d res "ent s"]
  by (auto simp: sched_inv_def)

lemma sched_inv_start:
  "sched_inv ov s \<Longrightarrow> 0 < waiting s \<Longrightarrow>
   sched_inv ov (s\<lparr>ent := begin_run (ent s), waiting := waiting s - 1, active := active s @ [t], begun := begun s + 1\<rparr>)"
  by (auto simp: sched_inv_def begin_run_def)

lemma sched_inv_halt: "sched_inv ov s \<Longrightarrow> sched_inv ov (s\<lparr>ctxDone := True\<rparr>)"
  by (simp add: sched_inv_def)

lemma sched_inv_step: "sched_step s ev s' \<Longrightarrow> sched_inv ov s \<Longrightarrow> sched_inv ov s'"
  by (erule sched_step.cases)
    (use sched_inv_trigger sched_inv_next sched_inv_finish sched_inv_start sched_inv_halt in blast)+

interpretation schedule: guarded_component "sched_init t name spec ov q" sched_step "sched_inv ov"
proof
  fix s ev s'
  show "sched_init t name spec ov q s \<Longrightarrow> sched_inv ov s"
    by (simp add: sched_init_def sched_inv_def newEntry_def no_stats_def of_bool_nat_def)
  show "sched_inv ov s \<Longrightarrow> sched_step s ev s' \<Longrightarrow> sched_inv ov s'" using sched_inv_step by blast
qed

section \<open>Queued triggers\<close>

text \<open>From a trigger on, and without a stop, a further run is under way, waits in the queue or has begun.\<close>

definition owes :: "nat \<Rightarrow> sched \<Rightarrow> bool" where
  "owes b s \<longleftrightarrow> sched_inv OverlapQueue s \<and> (\<not> ctxDone s \<longrightarrow> b < begun s + waiting s + of_bool_nat (queued (ent s)))"

lemma owes_trigger: "sched_inv OverlapQueue s \<Longrightarrow> owes (begun s) (on_trigger s)"
  using sched_inv_trigger [of OverlapQueue s]
  by (auto simp: owes_def sched_inv_def on_trigger_def trigger_def skip1_def of_bool_nat_def overlap_defs split: if_splits)

lemma owes_next:
  assumes "owes b s" and "0 < ended s"
  shows "owes b (on_next s)"
proof -
  have inv: "sched_inv OverlapQueue s" using assms(1) by (simp add: owes_def)
  then have ov: "overlap (ent s) = OverlapQueue" by (simp add: sched_inv_def)
  show ?thesis
    using assms(1) sched_inv_next [OF inv assms(2)] ov
    by (auto simp: owes_def on_next_def after_run_def of_bool_nat_def overlap_defs)
qed

lemma owes_step: "sched_step s ev s' \<Longrightarrow> owes b s \<Longrightarrow> owes b s'"
proof -
  assume st: "sched_step s ev s'" and o: "owes b s"
  have inv: "sched_inv OverlapQueue s'" using st o sched_inv_step by (simp add: owes_def)
  from st show "owes b s'"
  proof (cases rule: sched_step.cases)
    case trig
    have "begun (on_trigger s) = begun s" "ctxDone (on_trigger s) = ctxDone s"
      "waiting s + of_bool_nat (queued (ent s)) \<le> waiting (on_trigger s) + of_bool_nat (queued (ent (on_trigger s)))"
      by (auto simp: on_trigger_def trigger_def skip1_def of_bool_nat_def)
    with trig o inv show ?thesis by (auto simp: owes_def)
  next
    case (finish i d res)
    with o inv show ?thesis by (auto simp: owes_def finish_run_queued)
  next
    case decide
    with o owes_next show ?thesis by blast
  qed (use o inv in \<open>auto simp: owes_def begin_run_def\<close>)
qed

interpretation owing: guarded_component "\<lambda>s. owes b s" sched_step "owes b"
  by unfold_locales (use owes_step in blast)+

section \<open>Properties of the scheduler\<close>


text \<open>The scheduler accounts for every trigger: under each policy, each trigger has begun a
  run, is about to, was counted as skipped, waits in the queue or was dropped by a stop; and
  the statistics count the runs that ended.\<close>

theorem sched_accounts:
  assumes "reachable (sched_init t name spec ov q) sched_step s"
  shows "fired s = begun s + waiting s + Skipped (stats (ent s)) + (if queued (ent s) then 1 else 0) + dropped s \<and>
    begun s = Runs (stats (ent s)) + running (ent s) \<and> Failures (stats (ent s)) \<le> Runs (stats (ent s)) \<and>
    (dropped s = 0 \<or> ctxDone s)"
  using schedule.reachable_inv [OF assms] by (auto simp: sched_inv_def of_bool_nat_def)

text \<open>A queueing job misses no trigger: once it is idle again after a trigger, and the
  jobs were not stopped, a run has begun after that trigger.\<close>

theorem sched_queue_no_miss:
  assumes "reachable (sched_init t name spec OverlapQueue q) sched_step s"
    and "reachable (\<lambda>x. x = on_trigger s) sched_step s'" and "\<not> ctxDone s'" and "\<not> busy (ent s')"
  shows "begun s < begun s'"
proof -
  have "owes (begun s) (on_trigger s)" by (rule owes_trigger [OF schedule.reachable_inv [OF assms(1)]])
  with assms(2) have o: "owes (begun s) s'" by (rule owing.reachable_from_inv)
  then have "waiting s' = 0" "\<not> queued (ent s')"
    using assms(4) by (auto simp: owes_def sched_inv_def of_bool_nat_def overlap_defs)
  with o assms(3) show ?thesis by (simp add: owes_def of_bool_nat_def)
qed

section \<open>Properties of the jobs\<close>

lemma check_periodic_spec:
  "check_periodic parse ns ps = Some (Inr es) \<Longrightarrow>
   distinct (map pname ps) \<and> ns \<inter> pname ` set ps = {} \<and> map (sname \<circ> stats) es = map pname ps \<and>
   list_all (\<lambda>p. pname p \<noteq> [] \<and> OverlapSkip \<le> poverlap p \<and> poverlap p \<le> OverlapAllow \<and>
     (\<exists>sc. parse (pspec p) = Some (Inr sc))) ps \<and> map overlap es = map poverlap ps"
proof (induction ps arbitrary: ns es)
  case (Cons p ps)
  obtain sc es' where p: "pname p \<noteq> []" "pname p \<notin> ns" "OverlapSkip \<le> poverlap p" "poverlap p \<le> OverlapAllow"
    "parse (pspec p) = Some (Inr sc)" "check_periodic parse (insert (pname p) ns) ps = Some (Inr es')"
    "es = newEntry TypePeriodic (pname p) (pspec p) (poverlap p) False # es'"
  proof -
    obtain r where "parse (pspec p) = Some r" using Cons.prems by (auto split: if_splits option.splits)
    with Cons.prems that show thesis
      by (cases r; cases "check_periodic parse (insert (pname p) ns) ps")
        (auto split: if_splits sum.splits simp: map_sum_def not_less)
  qed
  with Cons.IH [OF p(6)] show ?case by (auto simp: newEntry_def no_stats_def)
qed simp

lemma check_workers_spec:
  "check_workers tps ws = None \<Longrightarrow>
   distinct (map wtopic ws) \<and> tps \<inter> wtopic ` set ws = {} \<and> list_all (\<lambda>w. checkTopic (wtopic w) = None \<and> wfn w) ws"
proof (induction ws arbitrary: tps)
  case (Cons w ws)
  then have "checkTopic (wtopic w) = None" "wtopic w \<notin> tps" "wfn w" "check_workers (insert (wtopic w) tps) ws = None"
    by (auto split: option.splits if_splits)
  with Cons.IH [of "insert (wtopic w) tps"] show ?case by auto
qed simp

lemma problem_if_Nil [simp]: "problem_if b p = [] \<longleftrightarrow> \<not> b"
  by (simp add: problem_if_def)

lemma or_default_twice [simp]: "d \<noteq> 0 \<Longrightarrow> or_default (or_default v d) d = or_default v d"
  by (simp add: or_default_def)

lemma withDefaults_twice [simp]: "withDefaults (withDefaults c) = withDefaults c"
  by (simp add: withDefaults_def second_ns_def)

lemma Validate_ok:
  assumes "Validate c = []" and "Enabled c"
  shows "1 \<le> BatchSize c \<and> BatchSize c \<le> maxBatchSize" "0 \<le> RetryBackoff c" "0 \<le> MaxAttempts c" "0 < StopBudget c"
    "RetryBackoff (withDefaults c) \<le> MaxBackoff (withDefaults c)"
  using assms by (simp_all add: Validate_def Let_def split: if_splits)

lemma check_config_ok:
  assumes "check_config (withDefaults c) = []" and "Enabled c"
  shows "1 \<le> BatchSize (withDefaults c)" "BatchSize (withDefaults c) \<le> maxBatchSize"
    "0 \<le> RetryBackoff (withDefaults c)" "RetryBackoff (withDefaults c) \<le> MaxBackoff (withDefaults c)"
    "1 \<le> MaxAttempts (withDefaults c)" "0 < StopBudget (withDefaults c)"
proof -
  have v: "Validate (withDefaults c) = []" "Enabled (withDefaults c)"
    using assms by (simp_all add: check_config_def, simp add: withDefaults_def)
  note ok = Validate_ok [OF v]
  show "1 \<le> BatchSize (withDefaults c)" "BatchSize (withDefaults c) \<le> maxBatchSize"
    "0 \<le> RetryBackoff (withDefaults c)" "0 < StopBudget (withDefaults c)" using ok by simp_all
  show "RetryBackoff (withDefaults c) \<le> MaxBackoff (withDefaults c)" using ok(5) by simp
  have "MaxAttempts (withDefaults c) \<noteq> 0" by (simp add: withDefaults_def or_default_def)
  with ok(3) show "1 \<le> MaxAttempts (withDefaults c)" by linarith
qed

text \<open>What New builds is what the workers rely on: when it succeeds with the jobs enabled, the
  topics of the relays are distinct and of 1 to 200 bytes, each worker's entry belongs to its relay and never
  overlaps, a page holds 1 to 10000 messages, the backoff lies between zero and its
  maximum, at least one attempt is made and stopping has a budget; the periodic jobs have distinct names and
  schedules that parse.\<close>

theorem jobs_new_sound:
  assumes "New showDuration parse hasDb schemaOk cfg obs ps ws = Some (Inr j)" and "Enabled cfg"
  shows "distinct (map topic (relays j)) \<and>
    map (sname \<circ> stats) (workers j) = map topic (relays j) \<and>
    list_all (\<lambda>e. overlap e \<noteq> OverlapAllow) (workers j) \<and>
    list_all (\<lambda>r. 1 \<le> length (topic r) \<and> length (topic r) \<le> 200 \<and> 1 \<le> batch r \<and> batch r \<le> 10000 \<and>
      0 \<le> backoff r \<and> backoff r \<le> maxBackoff r \<and> 1 \<le> maxAttempts r \<and> maxPages r = 100) (relays j) \<and>
    distinct (map (sname \<circ> stats) (periodic j)) \<and> 0 < StopBudget (jcfg j) \<and>
    list_all (\<lambda>p. \<exists>sc. parse (pspec p) = Some (Inr sc)) ps"
proof -
  let ?c = "withDefaults cfg"
  have c: "check_config ?c = []" "check_workers {} ws = None"
    and "\<exists>es. check_periodic parse {} ps = Some (Inr es) \<and> periodic j = es \<and> jcfg j = ?c \<and>
      workers j = map (\<lambda>w. newEntry TypeWorker (wtopic w) (''@every '' @ showDuration (PollInterval ?c)) OverlapSkip True) ws \<and>
      relays j = map (\<lambda>w. newRelay ?c (wtopic w)) ws"
    using assms(1) by (auto simp: New_def Let_def split: if_splits option.splits sum.splits)
  then obtain es where es: "check_periodic parse {} ps = Some (Inr es)" "periodic j = es" "jcfg j = ?c"
    and w: "workers j = map (\<lambda>w. newEntry TypeWorker (wtopic w) (''@every '' @ showDuration (PollInterval ?c)) OverlapSkip True) ws"
    and r: "relays j = map (\<lambda>w. newRelay ?c (wtopic w)) ws" by blast
  note ok = check_config_ok [OF c(1) assms(2)]
  note ws = check_workers_spec [OF c(2)]
  note ps = check_periodic_spec [OF es(1)]
  have t: "map topic (relays j) = map wtopic ws" by (simp add: r newRelay_def o_def)
  have "distinct (map topic (relays j))" unfolding t using ws by blast
  moreover have "map (sname \<circ> stats) (workers j) = map topic (relays j)"
    unfolding t by (simp add: w newEntry_def no_stats_def o_def)
  moreover have "list_all (\<lambda>e. overlap e \<noteq> OverlapAllow) (workers j)"
    by (simp add: w list_all_iff newEntry_def overlap_defs)
  moreover have "list_all (\<lambda>r. 1 \<le> length (topic r) \<and> length (topic r) \<le> 200 \<and> 1 \<le> batch r \<and> batch r \<le> 10000 \<and>
      0 \<le> backoff r \<and> backoff r \<le> maxBackoff r \<and> 1 \<le> maxAttempts r \<and> maxPages r = 100) (relays j)"
    unfolding r list_all_iff using ws ok
    by (auto simp: newRelay_def list_all_iff checkTopic_def maxTopicLen_def maxBatchSize_def maxSweepPages_def
        Suc_le_eq not_less split: if_splits)
  moreover have "distinct (map (sname \<circ> stats) (periodic j))" unfolding es(2) using ps by metis
  moreover have "0 < StopBudget (jcfg j)" using ok(6) es(3) by simp
  moreover have "list_all (\<lambda>p. \<exists>sc. parse (pspec p) = Some (Inr sc)) ps"
    using ps by (simp add: list_all_iff)
  ultimately show ?thesis by (intro conjI)
qed

text \<open>The calls of \<^verbatim>\<open>Start\<close>, \<^verbatim>\<open>Close\<close> and \<^verbatim>\<open>stop\<close> in the order they take the lock: which of them launched the loops, and which deadline each stop waits for.\<close>

datatype life_op = LStart | LClose | LStop instant

fun life_step :: "life_op \<Rightarrow> Jobs \<Rightarrow> bool \<times> instant option \<times> Jobs" where
  "life_step LStart j = (case Start j of (r, j') \<Rightarrow> (r = Launched, None, j'))"
| "life_step LClose j = (False, None, Close j)"
| "life_step (LStop now) j = (case stop now j of (d, j') \<Rightarrow> (False, d, j'))"

fun life :: "life_op list \<Rightarrow> Jobs \<Rightarrow> (bool \<times> instant option) list" where
  "life [] j = []"
| "life (op # ops) j = (case life_step op j of (l, d, j') \<Rightarrow> (l, d) # life ops j')"

lemma length_life [simp]: "length (life ops j) = length ops"
  by (induction ops arbitrary: j) (auto split: prod.splits)

lemma life_closed: "closed j \<or> started j \<Longrightarrow> list_all (\<lambda>(l, d). \<not> l) (life ops j)"
proof (induction ops arbitrary: j)
  case (Cons op ops)
  obtain l d j' where st: "life_step op j = (l, d, j')" by (metis prod_cases3)
  have "\<not> l \<and> (closed j' \<or> started j')"
    using st Cons.prems by (cases op) (auto simp: Start_def Close_def stop_def Let_def split: if_splits)
  with Cons.IH [of j'] st show ?case by simp
qed simp

lemma life_deadline:
  "deadline j = t \<Longrightarrow> t \<noteq> 0 \<Longrightarrow> list_all (\<lambda>(l, d). d = None \<or> d = Some t) (life ops j)"
proof (induction ops arbitrary: j)
  case (Cons op ops)
  obtain l d j' where st: "life_step op j = (l, d, j')" by (metis prod_cases3)
  have "(d = None \<or> d = Some t) \<and> deadline j' = t"
    using st Cons.prems by (cases op) (auto simp: Start_def Close_def stop_def Let_def split: if_splits)
  with Cons.IH [of j'] Cons.prems(2) st show ?case by simp
qed simp

lemma life_one_deadline:
  assumes "0 < StopBudget (jcfg j)" and "deadline j = 0" and "list_all (\<lambda>op. case op of LStop now \<Rightarrow> 0 \<le> now | _ \<Rightarrow> True) ops"
  shows "\<exists>t. list_all (\<lambda>(l, d). d = None \<or> d = Some t) (life ops j)"
  using assms
proof (induction ops arbitrary: j)
  case (Cons op ops)
  obtain l d j' where st: "life_step op j = (l, d, j')" by (metis prod_cases3)
  have cfg: "jcfg j' = jcfg j" using st by (cases op) (auto simp: Start_def Close_def stop_def Let_def split: if_splits)
  show ?case
  proof (cases "deadline j' = 0")
    case True
    have "d = None" using st True Cons.prems by (cases op) (auto simp: Start_def Close_def stop_def Let_def split: if_splits)
    moreover obtain t where "list_all (\<lambda>(l, d). d = None \<or> d = Some t) (life ops j')"
      using Cons.IH [of j'] Cons.prems True cfg by auto
    ultimately show ?thesis using st by (intro exI [of _ t]) simp
  next
    case False
    have "d = None \<or> d = Some (deadline j')"
      using st Cons.prems False by (cases op) (auto simp: Start_def Close_def stop_def Let_def split: if_splits)
    with life_deadline [OF refl False, of ops] st show ?thesis by (intro exI [of _ "deadline j'"]) simp
  qed
qed simp

text \<open>The jobs run at most once: in whatever order the calls to start, close and stop take the lock,
  at most one launches the loops, none does after a close, and all stops wait for the one deadline
  that the first of them set.\<close>

theorem jobs_lifecycle:
  assumes "\<not> started j" and "deadline j = 0" and "0 < StopBudget (jcfg j)"
    and "list_all (\<lambda>op. case op of LStop now \<Rightarrow> 0 \<le> now | _ \<Rightarrow> True) ops"
  shows "length (filter fst (life ops j)) \<le> 1 \<and>
    (\<exists>t. list_all (\<lambda>(l, d). d = None \<or> d = Some t) (life ops j)) \<and>
    list_all (\<lambda>(l, d). \<not> l) (life ops (Close j))"
proof -
  have none: "length (filter fst xs) = 0" if "list_all (\<lambda>(l, d). \<not> l) xs" for xs :: "(bool \<times> instant option) list"
    using that by (induction xs) auto
  have "length (filter fst (life ops j)) \<le> 1"
  proof (induction ops arbitrary: j)
    case (Cons op ops)
    obtain l d j' where st: "life_step op j = (l, d, j')" by (metis prod_cases3)
    show ?case
    proof (cases l)
      case True
      then have "started j'" using st by (cases op) (auto simp: Start_def stop_def Let_def split: if_splits)
      with none [OF life_closed [of j' ops]] st True show ?thesis by simp
    next
      case False
      with Cons.IH [of j'] st show ?thesis by simp
    qed
  qed simp
  moreover have "list_all (\<lambda>(l, d). \<not> l) (life ops (Close j))" by (rule life_closed) (simp add: Close_def)
  ultimately show ?thesis using life_one_deadline [OF assms(3,2,4)] by blast
qed

section \<open>Witnesses\<close>

definition demo_sched :: "Overlap \<Rightarrow> sched" where
  "demo_sched ov = \<lparr>ent = newEntry TypePeriodic ''job'' ''@hourly'' ov False, waiting = 0, active = [], ended = 0,
     ctxDone = False, fired = 0, begun = 0, dropped = 0\<rparr>"

lemma demo_sched_reachable: "reachable (sched_init TypePeriodic ''job'' ''@hourly'' ov False) sched_step (demo_sched ov)"
  by (rule reachable_init) (simp add: sched_init_def demo_sched_def)

lemma demo_triggered:
  "reachable (sched_init TypePeriodic ''job'' ''@hourly'' ov False) sched_step (on_trigger (on_trigger (demo_sched ov)))"
  by (rule reachable_step [OF reachable_step [OF demo_sched_reachable sched_step.trig] sched_step.trig])


theorem sched_accounts_witness:
  "fired (on_trigger (on_trigger (demo_sched OverlapSkip))) = 2 \<and>
   Skipped (stats (ent (on_trigger (on_trigger (demo_sched OverlapSkip))))) = 1"
proof -
  have "fired (on_trigger (on_trigger (demo_sched OverlapSkip))) = 2"
    "waiting (on_trigger (on_trigger (demo_sched OverlapSkip))) = 1"
    "begun (on_trigger (on_trigger (demo_sched OverlapSkip))) = 0"
    "dropped (on_trigger (on_trigger (demo_sched OverlapSkip))) = 0"
    "\<not> queued (ent (on_trigger (on_trigger (demo_sched OverlapSkip))))"
    by code_simp+
  with sched_accounts [OF demo_triggered [of OverlapSkip]] show ?thesis by simp
qed

definition demo_begun :: sched where
  "demo_begun = (let s = on_trigger (demo_sched OverlapQueue)
     in s\<lparr>ent := begin_run (ent s), waiting := waiting s - 1, active := active s @ [5], begun := begun s + 1\<rparr>)"

definition demo_finished :: sched where
  "demo_finished = demo_begun\<lparr>ent := snd (snd (finish_run (ctxDone demo_begun) (active demo_begun ! 0) 7 RNil (ent demo_begun))),
     active := take 0 (active demo_begun) @ drop (Suc 0) (active demo_begun), ended := ended demo_begun + 1\<rparr>"

theorem sched_queue_no_miss_witness: "begun (demo_sched OverlapQueue) < begun (on_next demo_finished)"
proof -
  let ?init = "\<lambda>x. x = on_trigger (demo_sched OverlapQueue)"
  have facts: "0 < waiting (on_trigger (demo_sched OverlapQueue))" "0 < length (active demo_begun)" "0 < ended demo_finished"
    "\<not> ctxDone (on_next demo_finished)" "\<not> busy (ent (on_next demo_finished))" by code_simp+
  have "sched_step (on_trigger (demo_sched OverlapQueue)) (EBegin 5) demo_begun"
    unfolding demo_begun_def Let_def by (rule sched_step.start [OF facts(1)])
  with reachable_self have "reachable ?init sched_step demo_begun" by (rule reachable_step)
  moreover have "sched_step demo_begun (EFinish 0 7 RNil) demo_finished"
    unfolding demo_finished_def by (rule sched_step.finish [OF facts(2)])
  ultimately have "reachable ?init sched_step demo_finished" by (rule reachable_step)
  then have "reachable ?init sched_step (on_next demo_finished)"
    using sched_step.decide [OF facts(3)] by (rule reachable_step)
  from sched_queue_no_miss [OF demo_sched_reachable this facts(4,5)] show ?thesis .
qed

definition demo_config :: Config where
  "demo_config = \<lparr>Enabled = True, PollInterval = 0, BatchSize = 0, SettleWindow = 0, MaxAttempts = 0, RetryBackoff = 0,
     MaxBackoff = 0, Retention = 0, CleanupInterval = 0, StopBudget = 0, HandlerTimeout = 0\<rparr>"

definition demo_jobs :: Jobs where
  "demo_jobs = \<lparr>jcfg = withDefaults demo_config, periodic = [],
     workers = [newEntry TypeWorker ''mail'' ''@every 1s'' OverlapSkip True], relays = [newRelay (withDefaults demo_config) ''mail''],
     cleanup = None, jdeleted = 0, started = False, closed = False, cancelled = False, deadline = 0\<rparr>"

theorem jobs_new_sound_witness:
  "New (\<lambda>d. ''1s'') (\<lambda>s. None) True True demo_config [] [] [\<lparr>wtopic = ''mail'', wfn = True\<rparr>] = Some (Inr demo_jobs) \<and>
   0 < StopBudget (jcfg demo_jobs)"
proof -
  have "New (\<lambda>d. ''1s'') (\<lambda>s. None) True True demo_config [] [] [\<lparr>wtopic = ''mail'', wfn = True\<rparr>] = Some (Inr demo_jobs)"
    by (simp add: New_def demo_jobs_def demo_config_def withDefaults_def or_default_def second_ns_def check_config_def
        Validate_def maxBatchSize_def checkTopic_def maxTopicLen_def Let_def)
  moreover have "Enabled demo_config" by (simp add: demo_config_def)
  ultimately show ?thesis using jobs_new_sound by blast
qed

theorem jobs_lifecycle_witness:
  "life [LStart, LStart, LStop 3, LClose, LStart, LStop 9] demo_jobs =
     [(True, None), (False, None), (False, Some (3 + 15 * second_ns)), (False, None), (False, None), (False, Some (3 + 15 * second_ns))] \<and>
   length (filter fst (life [LStart, LStart, LStop 3, LClose, LStart, LStop 9] demo_jobs)) \<le> 1"
proof -
  have "\<not> started demo_jobs" "deadline demo_jobs = 0" "0 < StopBudget (jcfg demo_jobs)" by code_simp+
  from jobs_lifecycle [OF this, of "[LStart, LStart, LStop 3, LClose, LStart, LStop 9]"]
  have "length (filter fst (life [LStart, LStart, LStop 3, LClose, LStart, LStop 9] demo_jobs)) \<le> 1" by simp
  moreover have "life [LStart, LStart, LStop 3, LClose, LStart, LStop 9] demo_jobs =
     [(True, None), (False, None), (False, Some (3 + 15 * second_ns)), (False, None), (False, None), (False, Some (3 + 15 * second_ns))]"
    by code_simp
  ultimately show ?thesis by blast
qed

end
