(* ===== verification/Go_Base64.thy ===== *)
theory Go_Base64
  imports Go_Strings
begin

text \<open>
  The unpadded base64url of Go's \<^verbatim>\<open>encoding/base64\<close> (\<^verbatim>\<open>RawURLEncoding\<close>), which the tickets and the
  cursors are written in, on the bytes of a string as numbers.
\<close>

section \<open>Encoding and decoding\<close>

definition b64_alphabet :: string where
  "b64_alphabet = ''ABCDEFGHIJKLMNOPQRSTUVWXYZabcdefghijklmnopqrstuvwxyz0123456789-_''"

definition b64_char :: "nat \<Rightarrow> char" where
  "b64_char n = b64_alphabet ! (n mod 64)"

definition b64_index :: "char \<Rightarrow> nat option" where
  "b64_index c = index_char c b64_alphabet"

text \<open>\<^verbatim>\<open>RawURLEncoding.EncodeToString\<close>: three bytes to four characters, no padding.\<close>

fun b64_encode :: "nat list \<Rightarrow> string" where
  "b64_encode [] = []"
| "b64_encode [a] = [b64_char (a div 4), b64_char (a mod 4 * 16)]"
| "b64_encode [a, b] = [b64_char (a div 4), b64_char (a mod 4 * 16 + b div 16), b64_char (b mod 16 * 4)]"
| "b64_encode (a # b # c # bs) =
     b64_char (a div 4) # b64_char (a mod 4 * 16 + b div 16) # b64_char (b mod 16 * 4 + c div 64) #
     b64_char (c mod 64) # b64_encode bs"

text \<open>
  \<^verbatim>\<open>RawURLEncoding.DecodeString\<close>: line breaks are skipped, the unused bits of the last character are
  not checked, and a single character left over is an error.
\<close>

fun b64_values :: "string \<Rightarrow> nat list option" where
  "b64_values [] = Some []"
| "b64_values (c # cs) =
     (if c = CHR 0x0A \<or> c = CHR 0x0D then b64_values cs
      else case b64_index c of
        None \<Rightarrow> None
      | Some v \<Rightarrow> map_option (\<lambda>vs. v # vs) (b64_values cs))"

fun b64_bytes :: "nat list \<Rightarrow> nat list option" where
  "b64_bytes [] = Some []"
| "b64_bytes [u] = None"
| "b64_bytes [u, v] = Some [u * 4 + v div 16]"
| "b64_bytes [u, v, w] = Some [u * 4 + v div 16, v mod 16 * 16 + w div 4]"
| "b64_bytes (u # v # w # x # vs) =
     map_option (\<lambda>bs. (u * 4 + v div 16) # (v mod 16 * 16 + w div 4) # (w mod 4 * 64 + x) # bs) (b64_bytes vs)"

definition b64_decode :: "string \<Rightarrow> nat list option" where
  "b64_decode s = Option.bind (b64_values s) b64_bytes"

section \<open>Round trip\<close>

lemma b64_alphabet_length: "length b64_alphabet = 64"
  by (simp add: b64_alphabet_def)

lemma b64_index_char: "\<forall>n \<in> set [0..<64]. b64_index (b64_char n) = Some n \<and> b64_char n \<noteq> CHR 0x0A \<and> b64_char n \<noteq> CHR 0x0D"
  by code_simp

lemma b64_values_char:
  assumes "n < 64"
  shows "b64_values (b64_char n # cs) = map_option (\<lambda>vs. n # vs) (b64_values cs)"
proof -
  have "n \<in> set [0..<64]" using assms by simp
  with b64_index_char show ?thesis by (metis (no_types, lifting) b64_values.simps(2) option.simps(5))
qed

lemma b64_roundtrip: "list_all (\<lambda>b. b < 256) bs \<Longrightarrow> b64_decode (b64_encode bs) = Some bs"
  unfolding b64_decode_def
proof (induction bs rule: b64_encode.induct)
  case (2 a)
  then have "a div 4 < 64" "a mod 4 * 16 < 64" by (auto simp: less_mult_imp_div_less)
  then show ?case by (simp add: b64_values_char del: b64_values.simps(2))
next
  case (3 a b)
  have q: "b div 16 < 16" using 3 by (simp add: less_mult_imp_div_less)
  then have "a div 4 < 64" "a mod 4 * 16 + b div 16 < 64" "b mod 16 * 4 < 64" using 3 by (auto simp: less_mult_imp_div_less)
  moreover have "(a mod 4 * 16 + b div 16) div 16 = a mod 4" "(a mod 4 * 16 + b div 16) mod 16 = b div 16" using q by simp_all
  ultimately show ?case by (simp add: b64_values_char del: b64_values.simps(2))
next
  case (4 a b c bs)
  have q: "b div 16 < 16" "c div 64 < 4" using 4(2) by (simp_all add: less_mult_imp_div_less)
  have lt: "a div 4 < 64" "a mod 4 * 16 + b div 16 < 64" "b mod 16 * 4 + c div 64 < 64" "c mod 64 < 64"
    using 4(2) q by (auto simp: less_mult_imp_div_less)
  have "Option.bind (b64_values (b64_encode bs)) b64_bytes = Some bs" using 4 by simp
  then obtain vs where vs: "b64_values (b64_encode bs) = Some vs" "b64_bytes vs = Some bs"
    by (auto simp: bind_eq_Some_conv)
  have "(a mod 4 * 16 + b div 16) div 16 = a mod 4" "(a mod 4 * 16 + b div 16) mod 16 = b div 16"
    "(b mod 16 * 4 + c div 64) div 4 = b mod 16" "(b mod 16 * 4 + c div 64) mod 4 = c div 64" using q by simp_all
  with lt vs show ?case by (simp add: b64_values_char del: b64_values.simps(2))
qed simp

lemma length_b64_encode: "length (b64_encode bs) = length bs div 3 * 4 + (length bs mod 3 * 8 + 5) div 6"
proof (induction bs rule: b64_encode.induct)
  case (4 a b c bs)
  have l: "length (a # b # c # bs) = length bs + 3" "length (b64_encode (a # b # c # bs)) = 4 + length (b64_encode bs)"
    by simp_all
  have d: "(length bs + 3) div 3 = length bs div 3 + 1" "(length bs + 3) mod 3 = length bs mod 3" by simp_all
  show ?case unfolding l d 4 by simp
qed simp_all

end
