(* ===== verification/Tickets.thy ===== *)
theory Tickets
  imports Chok_Prelude Go_Base64
begin

text \<open>
  The one-time tickets that admit a client to the realtime streams: \<^verbatim>\<open>realtime/ticket.go\<close> and
  the issuing and redeeming of \<^verbatim>\<open>realtime/mount.go\<close>. A ticket is 32 random bytes in unpadded
  base64url. The interface between the endpoints and the store of tickets is the locale
  \<open>ticket_store\<close>, which the tickets in memory fulfil; those in Redis rest on its own commands.
\<close>

section \<open>Tickets\<close>

record Principal =
  UserID :: string
  Email :: string
  Roles :: "string list"
  Extra :: "(string \<times> string) list"

record claims =
  principal :: "Principal option"

definition userID :: "claims \<Rightarrow> string" where
  "userID c = (case principal c of None \<Rightarrow> [] | Some p \<Rightarrow> UserID p)"

definition ticketBytes :: nat where
  "ticketBytes = 32"

text \<open>\<^verbatim>\<open>EncodedLen\<close> without padding.\<close>

definition ticketLen :: nat where
  "ticketLen = ticketBytes div 3 * 4 + (ticketBytes mod 3 * 8 + 5) div 6"

text \<open>\<open>rnd\<close> are the bytes of \<^verbatim>\<open>crypto/rand\<close>.\<close>

definition newTicket :: "nat list \<Rightarrow> string" where
  "newTicket rnd = b64_encode rnd"

definition wellFormed :: "string \<Rightarrow> bool" where
  "wellFormed s \<longleftrightarrow> length s = ticketLen \<and> b64_decode s \<noteq> None"

record memTicket =
  tclaims :: claims
  expires :: instant

record memTickets =
  byID :: "string \<rightharpoonup> memTicket"
  order :: "string list"

definition newMemTickets :: memTickets where
  "newMemTickets = \<lparr>byID = Map.empty, order = []\<rparr>"

fun expire_loop :: "instant \<Rightarrow> (string \<rightharpoonup> memTicket) \<Rightarrow> string list \<Rightarrow> (string \<rightharpoonup> memTicket) \<times> string list" where
  "expire_loop now m [] = (m, [])"
| "expire_loop now m (t # ts) =
     (if (case m t of None \<Rightarrow> False | Some x \<Rightarrow> now < expires x) then (m, t # ts)
      else expire_loop now (m(t := None)) ts)"

definition expire :: "instant \<Rightarrow> memTickets \<Rightarrow> memTickets" where
  "expire now m = (case expire_loop now (byID m) (order m) of (b, ord) \<Rightarrow> m\<lparr>byID := b, order := ord\<rparr>)"

definition put :: "instant \<Rightarrow> string \<Rightarrow> claims \<Rightarrow> duration \<Rightarrow> memTickets \<Rightarrow> memTickets" where
  "put now t c ttl m =
     (let m1 = expire now m
      in m1\<lparr>byID := (byID m1)(t \<mapsto> \<lparr>tclaims = c, expires = now + ttl\<rparr>), order := order m1 @ [t]\<rparr>)"

definition take_ticket :: "instant \<Rightarrow> string \<Rightarrow> memTickets \<Rightarrow> claims option \<times> memTickets" where
  "take_ticket now t m =
     (let m1 = expire now m
      in case byID m1 t of
           None \<Rightarrow> (None, m1)
         | Some x \<Rightarrow>
             if \<not> now < expires x then (None, m1)
             else (Some (tclaims x), m1\<lparr>byID := (byID m1)(t := None)\<rparr>))"

section \<open>The endpoints\<close>

datatype redeem_error = errNoTicket | errBadTicket

definition issue ::
  "(instant \<Rightarrow> string \<Rightarrow> claims \<Rightarrow> duration \<Rightarrow> 's \<Rightarrow> 's) \<Rightarrow> duration \<Rightarrow> instant \<Rightarrow> nat list \<Rightarrow> Principal option \<Rightarrow> 's \<Rightarrow>
   (string \<times> instant) \<times> 's" where
  "issue putf ttl now rnd p st =
     (let t = newTicket rnd in ((t, now + ttl), putf now t \<lparr>principal = p\<rparr> ttl st))"

definition redeem ::
  "(instant \<Rightarrow> string \<Rightarrow> 's \<Rightarrow> claims option \<times> 's) \<Rightarrow> instant \<Rightarrow> string \<Rightarrow> 's \<Rightarrow> (redeem_error + claims) \<times> 's" where
  "redeem takef now t st =
     (if t = [] then (Inl errNoTicket, st)
      else if \<not> wellFormed t then (Inl errBadTicket, st)
      else (case takef now t st of
              (None, st') \<Rightarrow> (Inl errBadTicket, st')
            | (Some c, st') \<Rightarrow> (Inr c, st')))"

definition splitTopics :: "string list \<Rightarrow> string list" where
  "splitTopics values = filter (\<lambda>t. t \<noteq> []) (map trim_space (concat (map (split_char (CHR '','')) values)))"

section \<open>The interface of a ticket store\<close>

text \<open>
  \<open>live now s t\<close> is what redeeming \<open>t\<close> at \<open>now\<close> gives. The clock does not run backwards between
  the calls.
\<close>

datatype tk_event = TPut instant string claims duration | TTake instant string

fun at_of :: "tk_event \<Rightarrow> instant" where
  "at_of (TPut now t c ttl) = now"
| "at_of (TTake now t) = now"

text \<open>The specification: what a ticket is worth after the events, the latest first.\<close>

fun worth :: "tk_event list \<Rightarrow> instant \<Rightarrow> string \<Rightarrow> claims option" where
  "worth [] now t = None"
| "worth (TPut at k c ttl # evs) now t = (if t = k then (if now < at + ttl then Some c else None) else worth evs now t)"
| "worth (TTake at k # evs) now t = (if t = k then None else worth evs now t)"

locale ticket_store =
  fixes putf :: "instant \<Rightarrow> string \<Rightarrow> claims \<Rightarrow> duration \<Rightarrow> 's \<Rightarrow> 's"
    and takef :: "instant \<Rightarrow> string \<Rightarrow> 's \<Rightarrow> claims option \<times> 's"
    and live :: "instant \<Rightarrow> 's \<Rightarrow> string \<Rightarrow> claims option"
    and fresh :: 's
  assumes live_fresh: "live now fresh t = None"
    and live_put: "at \<le> now \<Longrightarrow> live now (putf at k c ttl s) t =
      (if t = k then (if now < at + ttl then Some c else None) else live now s t)"
    and take_result: "fst (takef now t s) = live now s t"
    and live_take: "at \<le> now \<Longrightarrow> live now (snd (takef at k s)) t = (if t = k then None else live now s t)"
begin

fun tk_step :: "tk_event \<Rightarrow> 's \<Rightarrow> 's" where
  "tk_step (TPut now t c ttl) s = putf now t c ttl s"
| "tk_step (TTake now t) s = snd (takef now t s)"

lemma live_worth:
  assumes "sorted (map at_of evs @ [now])"
  shows "live now (fold tk_step evs fresh) t = worth (rev evs) now t"
  using assms
proof (induction evs rule: rev_induct)
  case (snoc e evs)
  then have "at_of e \<le> now" "sorted (map at_of evs @ [now])" by (auto simp: sorted_append)
  with snoc.IH show ?case by (cases e) (simp_all add: live_put live_take)
qed (simp add: live_fresh)

lemma redeem_worth:
  assumes "sorted (map at_of evs @ [now])" and "wellFormed t"
  shows "fst (redeem takef now t (fold tk_step evs fresh)) =
    (case worth (rev evs) now t of None \<Rightarrow> Inl errBadTicket | Some c \<Rightarrow> Inr c)"
proof -
  have "t \<noteq> []" using assms(2) by (auto simp: wellFormed_def ticketLen_def ticketBytes_def)
  moreover have "fst (takef now t (fold tk_step evs fresh)) = worth (rev evs) now t"
    using live_worth [OF assms(1)] by (simp add: take_result)
  ultimately show ?thesis
    using assms(2) by (auto simp: redeem_def split: prod.splits option.splits)
qed

end

section \<open>The tickets in memory\<close>

definition live_in :: "instant \<Rightarrow> (string \<rightharpoonup> memTicket) \<Rightarrow> string \<Rightarrow> claims option" where
  "live_in now m t = (case m t of None \<Rightarrow> None | Some x \<Rightarrow> if now < expires x then Some (tclaims x) else None)"

lemma live_expire_loop: "at \<le> now \<Longrightarrow> live_in now (fst (expire_loop at m ts)) t = live_in now m t"
proof (induction at m ts rule: expire_loop.induct)
  case (2 at m k ts)
  show ?case
  proof (cases "case m k of None \<Rightarrow> False | Some x \<Rightarrow> at < expires x")
    case False
    then have "live_in now (m(k := None)) t = live_in now m t"
      using 2(2) by (auto simp: live_in_def split: option.splits)
    with 2(1) [OF False 2(2)] False show ?thesis by (simp del: fun_upd_apply)
  qed simp
qed simp

lemma live_expire: "at \<le> now \<Longrightarrow> live_in now (byID (expire at m)) t = live_in now (byID m) t"
  using live_expire_loop [of at now "byID m" "order m" t] by (simp add: expire_def case_prod_beta)

interpretation memory: ticket_store put take_ticket "\<lambda>now m. live_in now (byID m)" newMemTickets
proof
  fix now at t k c ttl s
  show "live_in now (byID newMemTickets) t = None" by (simp add: live_in_def newMemTickets_def)
  show "at \<le> now \<Longrightarrow> live_in now (byID (put at k c ttl s)) t =
      (if t = k then (if now < at + ttl then Some c else None) else live_in now (byID s) t)"
    using live_expire [of at now s t] by (simp add: put_def Let_def live_in_def)
  show "fst (take_ticket now t s) = live_in now (byID s) t"
    using live_expire [of now now s t] by (auto simp: take_ticket_def Let_def live_in_def split: option.splits)
  show "at \<le> now \<Longrightarrow> live_in now (byID (snd (take_ticket at k s))) t = (if t = k then None else live_in now (byID s) t)"
    using live_expire [of at now s t] by (auto simp: take_ticket_def Let_def live_in_def split: option.splits)
qed

text \<open>
  The clock is read before the lock is taken, so two calls can take the lock against the order of
  their times. What then still holds: a ticket is redeemed no more often than it was issued, and
  for the claims it was issued with. \<open>redeemed\<close> are the claims of the successful redemptions of \<open>t\<close>.
\<close>

fun mem_step :: "tk_event \<Rightarrow> memTickets \<Rightarrow> claims option \<times> memTickets" where
  "mem_step (TPut now t c ttl) m = (None, put now t c ttl m)"
| "mem_step (TTake now t) m = take_ticket now t m"

fun redeemed :: "tk_event list \<Rightarrow> string \<Rightarrow> memTickets \<Rightarrow> claims list" where
  "redeemed [] t m = []"
| "redeemed (e # evs) t m =
     (case mem_step e m of
        (r, m') \<Rightarrow> (case (e, r) of (TTake now k, Some c) \<Rightarrow> if k = t then [c] else [] | _ \<Rightarrow> []) @ redeemed evs t m')"

fun issued :: "tk_event list \<Rightarrow> string \<Rightarrow> claims list" where
  "issued [] t = []"
| "issued (TPut now k c ttl # evs) t = (if k = t then c # issued evs t else issued evs t)"
| "issued (TTake now k # evs) t = issued evs t"

lemma expire_loop_sub: "fst (expire_loop at m ts) t = None \<or> fst (expire_loop at m ts) t = m t"
proof (induction at m ts rule: expire_loop.induct)
  case (2 at m k ts)
  show ?case
  proof (cases "case m k of None \<Rightarrow> False | Some x \<Rightarrow> at < expires x")
    case False
    with 2 have "fst (expire_loop at (m(k := None)) ts) t = None \<or> fst (expire_loop at (m(k := None)) ts) t = (m(k := None)) t"
      by blast
    then show ?thesis using False by (cases "t = k") simp_all
  qed simp
qed simp

lemma expire_sub: "byID (expire at m) t = None \<or> byID (expire at m) t = byID m t"
  using expire_loop_sub [of at "byID m" "order m" t] by (simp add: expire_def case_prod_beta)

definition held :: "memTickets \<Rightarrow> string \<Rightarrow> claims list" where
  "held m t = (case byID m t of None \<Rightarrow> [] | Some x \<Rightarrow> [tclaims x])"

lemma held_expire: "mset (held (expire at m) t) \<subseteq># mset (held m t)"
  using expire_sub [of at m t] by (auto simp: held_def split: option.splits)

lemma subset_mset_step:
  assumes "x + h \<subseteq># H" and "r \<subseteq># h + i"
  shows "x + r \<subseteq># H + i"
proof -
  have "x + r \<subseteq># x + (h + i)" using assms(2) by simp
  also have "\<dots> \<subseteq># H + i" using assms(1) by (simp add: add.assoc [symmetric])
  finally show ?thesis .
qed

lemma redeemed_issued: "mset (redeemed evs t m) \<subseteq># mset (held m t) + mset (issued evs t)"
proof (induction evs arbitrary: m)
  case (Cons e evs)
  show ?case
  proof (cases e)
    case (TPut at k c ttl)
    have "mset (held (put at k c ttl m) t) \<subseteq># mset (held m t) + mset (if k = t then [c] else [])"
      using held_expire [of at m t] by (auto simp: held_def put_def Let_def)
    with Cons.IH [of "put at k c ttl m"] show ?thesis
      using TPut by (auto simp: subset_mset.add_mono elim!: subset_mset.order_trans intro: subset_mset.add_right_mono)
  next
    case (TTake at k)
    obtain r m' where r: "take_ticket at k m = (r, m')" by fastforce
    have "mset (case r of None \<Rightarrow> [] | Some c \<Rightarrow> if k = t then [c] else []) + mset (held m' t) \<subseteq># mset (held m t)"
      using r held_expire [of at m t]
      by (auto simp: take_ticket_def Let_def held_def split: option.splits if_splits)
    from subset_mset_step [OF this Cons.IH [of m']] r TTake show ?thesis by (cases r) auto
  qed
qed simp

section \<open>Properties\<close>

lemma newTicket_wellFormed:
  assumes "length rnd = ticketBytes" and "list_all (\<lambda>b. b < 256) rnd"
  shows "wellFormed (newTicket rnd)"
  using assms b64_roundtrip [OF assms(2)] by (simp add: wellFormed_def newTicket_def length_b64_encode ticketLen_def)

text \<open>C33: a ticket is good for exactly one redemption within its lifetime: while the clock does not run
  backwards, redeeming a well-formed ticket after any history of issues and redemptions succeeds, with the claims it was
  issued for, exactly when it was issued, has not expired and nobody has tried to redeem it since; otherwise
  the client gets the error for a bad ticket.\<close>

theorem tickets_exact:
  assumes "sorted (map at_of evs @ [now])" and "wellFormed t"
  shows "fst (redeem take_ticket now t (fold (\<lambda>e m. snd (mem_step e m)) evs newMemTickets)) =
    (case worth (rev evs) now t of None \<Rightarrow> Inl errBadTicket | Some c \<Rightarrow> Inr c)"
proof -
  have "(\<lambda>e m. snd (mem_step e m)) = memory.tk_step"
  proof (intro ext)
    fix e m
    show "snd (mem_step e m) = memory.tk_step e m" by (cases e) simp_all
  qed
  with memory.redeem_worth [OF assms] show ?thesis by simp
qed

text \<open>Whatever order the calls take the lock in, and whatever times they read before, a ticket is
  never redeemed more often than it was issued, nor for other claims.\<close>

theorem tickets_once: "mset (redeemed evs t newMemTickets) \<subseteq># mset (issued evs t)"
  using redeemed_issued [of evs t newMemTickets] by (simp add: held_def newMemTickets_def)

text \<open>Tickets made of different random bytes are different, and every new ticket has the form the
  endpoints look for.\<close>

theorem ticket_form:
  assumes "length rnd = ticketBytes" and "list_all (\<lambda>b. b < 256) rnd"
    and "length rnd' = ticketBytes" and "list_all (\<lambda>b. b < 256) rnd'"
  shows "wellFormed (newTicket rnd) \<and> length (newTicket rnd) = 43 \<and> (newTicket rnd = newTicket rnd' \<longleftrightarrow> rnd = rnd')"
proof -
  have wf: "wellFormed (newTicket rnd)" by (rule newTicket_wellFormed [OF assms(1,2)])
  moreover have "ticketLen = 43" by (simp add: ticketLen_def ticketBytes_def)
  moreover have "rnd = rnd'" if "newTicket rnd = newTicket rnd'"
    using that b64_roundtrip [OF assms(2)] b64_roundtrip [OF assms(4)] by (metis newTicket_def option.inject)
  ultimately show ?thesis unfolding wellFormed_def by metis
qed

section \<open>Witnesses\<close>

definition demo_ticket :: string where
  "demo_ticket = newTicket (replicate 32 7)"

definition demo_claims :: claims where
  "demo_claims = \<lparr>principal = Some \<lparr>UserID = ''u'', Email = [], Roles = [], Extra = []\<rparr>\<rparr>"

theorem tickets_exact_witness:
  "fst (redeem take_ticket 30 demo_ticket (fold (\<lambda>e m. snd (mem_step e m)) [TPut 10 demo_ticket demo_claims 60] newMemTickets)) = Inr demo_claims"
proof -
  have "wellFormed demo_ticket"
    unfolding demo_ticket_def by (rule newTicket_wellFormed) (simp_all add: ticketBytes_def list_all_iff)
  from tickets_exact [OF _ this, of "[TPut 10 demo_ticket demo_claims 60]" 30] show ?thesis by simp
qed

theorem ticket_form_witness:
  "length (newTicket (replicate 32 7)) = 43 \<and> newTicket (replicate 32 7) \<noteq> newTicket (replicate 31 7 @ [8])"
proof -
  have "replicate 32 7 \<noteq> replicate 31 7 @ [8 :: nat]" by code_simp
  with ticket_form [of "replicate 32 7" "replicate 31 7 @ [8]"] show ?thesis
    by (simp add: ticketBytes_def list_all_iff)
qed

end
