(* ===== verification/Conf_Tree.thy ===== *)
theory Conf_Tree
  imports Chok_Prelude Go_Strings "HOL-Library.AList" "HOL-Library.Char_ord" "HOL-Library.List_Lexorder"
begin

text \<open>
  The configuration loader up to decoding: \<^verbatim>\<open>internal/conf/tree.go\<close>, \<^verbatim>\<open>internal/conf/schema.go\<close>
  and the sources of \<^verbatim>\<open>internal/conf/conf.go\<close>. A raw tree is what every source is turned into; a
  Go map is an association list with distinct keys, whose order carries no meaning. A
  \<^verbatim>\<open>reflect.Type\<close> is the datatype \<open>ctype\<close>.
\<close>

section \<open>Raw trees\<close>

datatype raw = RNil | RStr string | RSeq "raw list" | RMap "(string \<times> raw) list"

type_synonym tree = "(string \<times> raw) list"

definition join :: "string \<Rightarrow> string \<Rightarrow> string" where
  "join path key = (if path = [] then key else path @ ''.'' @ key)"

section \<open>The YAML document\<close>

text \<open>
  A node of the YAML library's document tree. An alias is the node it refers to, so that a
  document whose anchor contains itself is not a value of this type.
\<close>

datatype ynode =
    YDoc "ynode list"
  | YAlias ynode
  | YScalar string string nat
  | YSeq "ynode list" nat
  | YMap "(ynode \<times> ynode) list" nat
  | YOther nat

fun yline :: "ynode \<Rightarrow> nat" where
  "yline (YScalar tag v l) = l"
| "yline (YSeq ns l) = l"
| "yline (YMap ps l) = l"
| "yline (YOther l) = l"
| "yline (YDoc ns) = 0"
| "yline (YAlias n) = 0"

type_synonym lines = "(string \<times> nat) list"

definition line_error :: "nat \<Rightarrow> string \<Rightarrow> string" where
  "line_error l msg = ''line '' @ show_nat l @ '': '' @ msg"

definition index_path :: "string \<Rightarrow> nat \<Rightarrow> string" where
  "index_path path i = path @ ''['' @ show_nat i @ '']''"

definition fill :: "tree \<Rightarrow> tree \<Rightarrow> tree" where
  "fill out m = fold (\<lambda>(k, v) o1. if k \<in> fst ` set o1 then o1 else AList.update k v o1) m out"

function (sequential)
      nodeValue :: "ynode \<Rightarrow> string \<Rightarrow> lines \<Rightarrow> (string + raw) \<times> lines"
  and seqValues :: "ynode list \<Rightarrow> string \<Rightarrow> nat \<Rightarrow> lines \<Rightarrow> (string + raw list) \<times> lines"
  and mapValues :: "(ynode \<times> ynode) list \<Rightarrow> string \<Rightarrow> tree \<Rightarrow> tree list \<Rightarrow> lines \<Rightarrow> (string + tree) \<times> lines"
  and mergeSources :: "ynode \<Rightarrow> string \<Rightarrow> lines \<Rightarrow> (string + tree list) \<times> lines"
  and mergeAll :: "ynode list \<Rightarrow> string \<Rightarrow> lines \<Rightarrow> (string + tree list) \<times> lines" where
  "nodeValue (YDoc []) path ls = (Inr RNil, ls)"
| "nodeValue (YDoc (n # ns)) path ls = nodeValue n path ls"
| "nodeValue (YAlias n) path ls = nodeValue n path ls"
| "nodeValue (YScalar tag v l) path ls = (Inr (if tag = ''!!null'' then RNil else RStr v), ls)"
| "nodeValue (YSeq ns l) path ls =
     (case seqValues ns path 0 ls of (Inl e, ls') \<Rightarrow> (Inl e, ls') | (Inr vs, ls') \<Rightarrow> (Inr (RSeq vs), ls'))"
| "nodeValue (YMap ps l) path ls =
     (case mapValues ps path [] [] ls of (Inl e, ls') \<Rightarrow> (Inl e, ls') | (Inr m, ls') \<Rightarrow> (Inr (RMap m), ls'))"
| "nodeValue (YOther l) path ls = (Inl (line_error l ''unsupported YAML node''), ls)"
| "seqValues [] path i ls = (Inr [], ls)"
| "seqValues (n # ns) path i ls =
     (case nodeValue n (index_path path i) ls of
        (Inl e, ls') \<Rightarrow> (Inl e, ls')
      | (Inr v, ls') \<Rightarrow>
          (case seqValues ns path (Suc i) ls' of
             (Inl e, ls2) \<Rightarrow> (Inl e, ls2)
           | (Inr vs, ls2) \<Rightarrow> (Inr (v # vs), ls2)))"
| "mapValues [] path out merged ls = (Inr (fold (\<lambda>m o1. fill o1 m) merged out), ls)"
| "mapValues ((k, val) # ps) path out merged ls =
     (case k of
        YScalar tag key l \<Rightarrow>
          if tag = ''!!merge'' then
            (case mergeSources val path ls of
               (Inl e, ls') \<Rightarrow> (Inl e, ls')
             | (Inr ms, ls') \<Rightarrow> mapValues ps path out (merged @ ms) ls')
          else if key \<in> fst ` set out then (Inl (line_error l (''duplicate key '' @ join path key)), ls)
          else (case nodeValue val (join path key) (AList.update (join path key) l ls) of
                  (Inl e, ls') \<Rightarrow> (Inl e, ls')
                | (Inr v, ls') \<Rightarrow> mapValues ps path (AList.update key v out) merged ls')
      | _ \<Rightarrow> (Inl (line_error (yline k) ''a key must be a plain value''), ls))"
| "mergeSources (YSeq ns l) path ls = mergeAll ns path ls"
| "mergeSources n path ls =
     (case nodeValue n path ls of
        (Inl e, ls') \<Rightarrow> (Inl e, ls')
      | (Inr (RMap m), ls') \<Rightarrow> (Inr [m], ls')
      | (Inr _, ls') \<Rightarrow> (Inl (line_error (yline n) ''a merge key (<<) needs a mapping''), ls'))"
| "mergeAll [] path ls = (Inr [], ls)"
| "mergeAll (n # ns) path ls =
     (case mergeSources n path ls of
        (Inl e, ls') \<Rightarrow> (Inl e, ls')
      | (Inr ms, ls') \<Rightarrow>
          (case mergeAll ns path ls' of
             (Inl e, ls2) \<Rightarrow> (Inl e, ls2)
           | (Inr ms2, ls2) \<Rightarrow> (Inr (ms @ ms2), ls2)))"
  by pat_completeness auto
termination
  by (relation "measure (\<lambda>x. case x of
        Inl (Inl (n, _)) \<Rightarrow> 2 * size n
      | Inl (Inr (ns, _)) \<Rightarrow> 2 * size_list size ns
      | Inr (Inl (ps, _)) \<Rightarrow> 2 * size_list (size_prod size size) ps
      | Inr (Inr (Inl (n, _))) \<Rightarrow> 2 * size n + 1
      | Inr (Inr (Inr (ns, _))) \<Rightarrow> 2 * size_list size ns + 1)") auto

text \<open>\<open>unmarshal\<close> is \<^verbatim>\<open>yaml.Unmarshal\<close> into a node.\<close>

definition parseYAML :: "(bytes \<Rightarrow> string + ynode) \<Rightarrow> bytes \<Rightarrow> (string + tree) \<times> lines" where
  "parseYAML unmarshal data =
     (case unmarshal data of
        Inl e \<Rightarrow> (Inl e, [])
      | Inr doc \<Rightarrow>
          (case nodeValue doc [] [] of
             (Inl e, ls) \<Rightarrow> (Inl e, ls)
           | (Inr RNil, ls) \<Rightarrow> (Inr [], ls)
           | (Inr (RMap m), ls) \<Rightarrow> (Inr m, ls)
           | (Inr _, ls) \<Rightarrow> (Inl ''the top level must be a mapping of sections'', ls)))"

section \<open>Layers\<close>

definition as_map :: "raw option \<Rightarrow> tree" where
  "as_map r = (case r of Some (RMap m) \<Rightarrow> m | _ \<Rightarrow> [])"

fun merge :: "tree \<Rightarrow> tree \<Rightarrow> tree" where
  "merge dst [] = dst"
| "merge dst ((k, RNil) # src) = merge dst src"
| "merge dst ((k, RMap sm) # src) = merge (AList.update k (RMap (merge (as_map (map_of dst k)) sm)) dst) src"
| "merge dst ((k, RStr x) # src) = merge (AList.update k (RStr x) dst) src"
| "merge dst ((k, RSeq xs) # src) = merge (AList.update k (RSeq xs) dst) src"

fun set_keys :: "string list \<Rightarrow> raw \<Rightarrow> tree \<Rightarrow> tree" where
  "set_keys [] v m = m"
| "set_keys [k] v m = AList.update k v m"
| "set_keys (k # k2 # ks) v m = AList.update k (RMap (set_keys (k2 # ks) v (as_map (map_of m k)))) m"

definition setPath :: "tree \<Rightarrow> string \<Rightarrow> raw \<Rightarrow> tree" where
  "setPath m path v = set_keys (split_char (CHR ''.'') path) v m"

definition subtree :: "tree \<Rightarrow> string \<Rightarrow> tree" where
  "subtree m k = as_map (map_of m k)"

text \<open>
  \<^verbatim>\<open>strings.ToUpper\<close> on ASCII, which configuration keys and application names are written in; the
  bytes of other runes are kept.
\<close>

definition upper_char :: "char \<Rightarrow> char" where
  "upper_char c = (if 97 \<le> (of_char c :: nat) \<and> (of_char c :: nat) \<le> 122 then char_of ((of_char c :: nat) - 32) else c)"

definition to_upper :: "string \<Rightarrow> string" where
  "to_upper = map upper_char"

definition dots_to_underscores :: "string \<Rightarrow> string" where
  "dots_to_underscores = map (\<lambda>c. if c = CHR ''.'' \<or> c = CHR ''-'' then CHR ''_'' else c)"

definition EnvName :: "string \<Rightarrow> string \<Rightarrow> string" where
  "EnvName pre path = pre @ ''_'' @ to_upper (dots_to_underscores path)"

definition Prefix :: "string \<Rightarrow> string" where
  "Prefix name = to_upper (dots_to_underscores name)"

section \<open>The schema\<close>

text \<open>
  A \<^verbatim>\<open>reflect.Type\<close>, with the flag of the types whose pointer implements
  \<^verbatim>\<open>encoding.TextUnmarshaler\<close>. A struct that contains itself is not a value of this type; the code
  does not end on one either.
\<close>

datatype kind = KString | KBool | KInt nat | KUint nat | KFloat nat | KInterface nat | KOther string

datatype ctype =
    TDuration
  | TBasic kind bool
  | TPtr ctype
  | TSlice ctype bool
  | TMap bool ctype bool
  | TStruct string "sfield list" bool
and sfield = SField string bool bool "(string \<times> string) list" ctype

record field =
  fkey :: string
  fname :: string
  findex :: "nat list"
  ftyp :: ctype
  fdef :: string
  fhasDef :: bool
  fsecret :: bool
  frules :: string
  fdecl :: string

definition tag_get :: "(string \<times> string) list \<Rightarrow> string \<Rightarrow> string" where
  "tag_get tags k = (case map_of tags k of None \<Rightarrow> [] | Some v \<Rightarrow> v)"

definition parseYAMLTag :: "string \<Rightarrow> string \<times> bool" where
  "parseYAMLTag tag =
     (case cut_char (CHR '','') tag of
        None \<Rightarrow> (tag, False)
      | Some (name, opts) \<Rightarrow> (name, ''inline'' \<in> set (split_char (CHR '','') opts)))"

fun is_struct :: "ctype \<Rightarrow> bool" where
  "is_struct (TStruct n sfs b) = True"
| "is_struct t = False"

definition field_of :: "string \<Rightarrow> string \<Rightarrow> string \<Rightarrow> nat list \<Rightarrow> (string \<times> string) list \<Rightarrow> ctype \<Rightarrow> field" where
  "field_of decl name nm idx tags t =
     \<lparr>fkey = (if name = [] then to_lower nm else name), fname = nm, findex = idx, ftyp = t,
      fdef = tag_get tags ''default'', fhasDef = (map_of tags ''default'' \<noteq> None),
      fsecret = (tag_get tags ''secret'' = ''true''), frules = tag_get tags ''validate'', fdecl = decl\<rparr>"

function (sequential) collectFields :: "string \<Rightarrow> sfield list \<Rightarrow> nat \<Rightarrow> nat list \<Rightarrow> field list" where
  "collectFields decl [] i index = []"
| "collectFields decl (SField nm anon exported tags t # sfs) i index =
     (let name = fst (parseYAMLTag (tag_get tags ''yaml'')); inline = snd (parseYAMLTag (tag_get tags ''yaml''));
          rest = collectFields decl sfs (Suc i) index
      in if name = ''-'' then rest
         else case (if anon \<and> name = [] \<or> inline then t else TDuration) of
                TStruct n inner b \<Rightarrow> collectFields n inner 0 (index @ [i]) @ rest
              | _ \<Rightarrow> if exported then field_of decl name nm (index @ [i]) tags t # rest else rest)"
  by pat_completeness auto
termination
  by (relation "measure (\<lambda>(_, sfs, _). size_list size sfs)") (auto split: if_splits)

fun fieldsOf :: "ctype \<Rightarrow> field list" where
  "fieldsOf (TStruct n sfs b) = collectFields n sfs 0 []"
| "fieldsOf t = []"

fun isScalar :: "ctype \<Rightarrow> bool" where
  "isScalar TDuration = True"
| "isScalar (TBasic k text) = (text \<or> (case k of KInterface _ \<Rightarrow> False | KOther _ \<Rightarrow> False | _ \<Rightarrow> True))"
| "isScalar (TPtr t) = False"
| "isScalar (TSlice t text) = text"
| "isScalar (TMap sk t text) = text"
| "isScalar (TStruct n sfs text) = text"

fun deref :: "ctype \<Rightarrow> ctype" where
  "deref (TPtr t) = deref t"
| "deref t = t"

definition isLeaf :: "ctype \<Rightarrow> bool" where
  "isLeaf t = (isScalar (deref t) \<or> (case deref t of TSlice e b \<Rightarrow> isScalar (deref e) | _ \<Rightarrow> False))"

definition isSection :: "ctype \<Rightarrow> bool" where
  "isSection t = (is_struct (deref t) \<and> \<not> isScalar (deref t))"

lemma size_deref [simp]: "size (deref t) \<le> size t"
  by (induction t) auto

lemma field_size:
  "f \<in> set (collectFields decl sfs i index) \<Longrightarrow> size (ftyp f) < Suc (size_list size sfs)"
proof (induction decl sfs i index rule: collectFields.induct)
  case (2 decl nm anon exported tags t sfs i index)
  then show ?case
    by (fastforce simp: Let_def field_of_def split: if_splits ctype.splits)
qed simp

lemma fieldsOf_size: "f \<in> set (fieldsOf t) \<Longrightarrow> size (ftyp f) < size t"
  by (cases t) (auto dest!: field_size)

lemma map_elem_size: "deref t = TMap sk e b \<Longrightarrow> size (deref e) < size t"
  using size_deref [of t] le_less_trans [OF size_deref [of e]] by (auto intro: le_less_trans [OF size_deref])

text \<open>The paths a source other than the file can set, each with its environment variable.\<close>

function leaves :: "ctype \<Rightarrow> string \<Rightarrow> string \<Rightarrow> tree \<Rightarrow> (string \<times> string) list \<Rightarrow> (string \<times> string) list" where
  "leaves t pre path base out =
     fold (\<lambda>f out.
       let p = join path (fkey f); ft = deref (ftyp f)
       in if isLeaf ft then AList.update p (EnvName pre p) out
          else if isSection ft then leaves ft pre p (subtree base (fkey f)) out
          else case ft of
            TMap sk e b \<Rightarrow>
              (let entries = subtree base (fkey f); et = deref e
               in fold (\<lambda>k out.
                    if isSection et then leaves et pre (join p k) (subtree entries k) out
                    else if isLeaf et then AList.update (join p k) (EnvName pre (join p k)) out
                    else out) (sort (remdups (map fst entries))) out)
          | _ \<Rightarrow> out)
       (fieldsOf t) out"
  by pat_completeness auto
termination
proof (relation "measure (\<lambda>(t, _). size t)", goal_cases)
  case 1
  then show ?case by simp
next
  case (2 t pre path base out f)
  then show ?case
    by (auto dest!: fieldsOf_size intro: le_less_trans [OF size_deref])
next
  case (3 t pre path base out f)
  then show ?case
    by (auto dest!: fieldsOf_size dest: map_elem_size [OF sym])
qed

section \<open>Suggestions\<close>

text \<open>One row of the table, from the row above it: \<open>left\<close> is the entry before.\<close>

fun ed_row :: "char \<Rightarrow> string \<Rightarrow> nat list \<Rightarrow> nat \<Rightarrow> nat list" where
  "ed_row c (y # b) (p0 # p1 # ps) left =
     (let d = min (min (p1 + 1) (left + 1)) (p0 + (if c = y then 0 else 1))
      in d # ed_row c b (p1 # ps) d)"
| "ed_row c b ps left = []"

fun ed_rows :: "string \<Rightarrow> nat \<Rightarrow> string \<Rightarrow> nat list \<Rightarrow> nat list" where
  "ed_rows [] i b row = row"
| "ed_rows (c # a) i b row = ed_rows a (i + 1) b (i # ed_row c b row i)"

definition editDistance :: "string \<Rightarrow> string \<Rightarrow> nat" where
  "editDistance a b = ed_rows a 1 b [0..<length b + 1] ! length b"

definition closest :: "string \<Rightarrow> string list \<Rightarrow> string \<times> nat" where
  "closest word cands =
     fold (\<lambda>c (best, d). if editDistance word c < d then (c, editDistance word c) else (best, d)) cands ([], 3)"

definition suggest :: "string \<Rightarrow> string list \<Rightarrow> string" where
  "suggest word cands =
     (case fst (closest word cands) of [] \<Rightarrow> [] | best \<Rightarrow> '' (did you mean '' @ best @ ''?)'')"

section \<open>The environment and the flags\<close>

text \<open>
  \<open>paths\<close> lists the map of \<^verbatim>\<open>leaves\<close> in the order the loop meets it: where two paths have one
  variable, the last wins.
\<close>

definition byName :: "(string \<times> string) list \<Rightarrow> string \<rightharpoonup> string" where
  "byName paths = fold (\<lambda>(p, n) m. m(n \<mapsto> p)) paths Map.empty"

definition overrides :: "string \<Rightarrow> string \<Rightarrow> (string \<times> string) option" where
  "overrides pre kv =
     (case cut_char (CHR ''='') kv of
        None \<Rightarrow> None
      | Some (name, val) \<Rightarrow>
          if \<not> has_prefix name (pre @ ''_'') \<or> name = pre @ ''_CONFIG'' then None else Some (name, val))"

definition no_match :: "string \<Rightarrow> string list \<Rightarrow> string" where
  "no_match name cands = ''environment variable '' @ name @ '' matches no config key'' @ suggest name cands"

fun env_loop ::
  "(string \<times> string) list \<Rightarrow> string \<Rightarrow> string list \<Rightarrow> tree \<Rightarrow> string list \<Rightarrow> tree \<times> string list" where
  "env_loop paths pre [] layer ws = (layer, sort ws)"
| "env_loop paths pre (kv # environ) layer ws =
     (case overrides pre kv of
        None \<Rightarrow> env_loop paths pre environ layer ws
      | Some (name, val) \<Rightarrow>
          (case byName paths name of
             Some p \<Rightarrow> env_loop paths pre environ (setPath layer p (RStr val)) ws
           | None \<Rightarrow> env_loop paths pre environ layer (ws @ [no_match name (map snd paths)])))"

definition envLayer :: "(string \<times> string) list \<Rightarrow> string \<Rightarrow> string list \<Rightarrow> tree \<times> string list" where
  "envLayer paths pre environ = env_loop paths pre environ [] []"

datatype flag_value = FText string | FSlice "string list"

fun flag_raw :: "flag_value \<Rightarrow> raw" where
  "flag_raw (FText s) = RStr s"
| "flag_raw (FSlice ss) = RSeq (map RStr ss)"

text \<open>\<open>changed\<close>: the changed flags in the order \<^verbatim>\<open>Visit\<close> goes through them, none without a flag set.\<close>

definition flagLayer :: "(string \<times> flag_value) list \<Rightarrow> (string \<times> string) list \<Rightarrow> tree" where
  "flagLayer changed paths =
     fold (\<lambda>(n, v) layer. if n \<in> fst ` set paths then setPath layer n (flag_raw v) else layer) changed []"

section \<open>Load, up to decoding\<close>

record Options =
  oName :: string
  EnvPrefix :: string
  Override :: string
  oFile :: string
  Flags :: "(string \<times> flag_value) list"
  Environ :: "string list"
  Only :: "string list"

definition options_prefix :: "Options \<Rightarrow> string" where
  "options_prefix opts = to_upper (if EnvPrefix opts = [] then Prefix (oName opts) else EnvPrefix opts)"

definition config_var :: "string \<Rightarrow> string list \<Rightarrow> string option" where
  "config_var pre environ =
     map_option (\<lambda>kv. snd (the (cut_char (CHR ''='') kv)))
       (find (\<lambda>kv. case cut_char (CHR ''='') kv of None \<Rightarrow> False | Some (name, val) \<Rightarrow> name = pre @ ''_CONFIG'' \<and> val \<noteq> []) environ)"

definition locate :: "(string \<Rightarrow> bool) \<Rightarrow> Options \<Rightarrow> string \<Rightarrow> string list \<Rightarrow> string \<times> bool" where
  "locate exists opts pre environ =
     (if Override opts \<noteq> [] then (Override opts, True)
      else case config_var pre environ of
             Some val \<Rightarrow> (val, True)
           | None \<Rightarrow>
               if oFile opts \<noteq> [] then (oFile opts, True)
               else case find exists (''chok.yaml'' #
                        (if oName opts = [] then [] else [oName opts @ ''.yaml'', ''configs/'' @ oName opts @ ''.yaml''])) of
                      Some c \<Rightarrow> (c, False)
                    | None \<Rightarrow> ([], False))"

text \<open>What \<^verbatim>\<open>os.ReadFile\<close> returned: the data, or an error, which may be that the file does not exist.\<close>

datatype read_result = ReadOk bytes | ReadErr bool string

datatype load_error = LoadError string "string list"

definition read_source ::
  "(bytes \<Rightarrow> string + ynode) \<Rightarrow> (string \<Rightarrow> read_result) \<Rightarrow> Options \<Rightarrow> string \<times> bool \<Rightarrow> load_error + (string \<times> tree \<times> lines)" where
  "read_source unmarshal readFile opts pe =
     (case pe of (path, explicit) \<Rightarrow>
       if path = [] then Inr ([], [], [])
       else case readFile path of
              ReadOk data \<Rightarrow>
                (case parseYAML unmarshal data of
                   (Inl e, ls) \<Rightarrow> Inl (LoadError path [e])
                 | (Inr ft, ls) \<Rightarrow>
                     Inr (path, merge [] (if Only opts = [] then ft else filter (\<lambda>(k, _). k \<in> set (Only opts)) ft), ls))
            | ReadErr absent e \<Rightarrow>
                if explicit \<or> \<not> absent then Inl (LoadError path [e]) else Inr ([], [], []))"

definition keep_warning :: "Options \<Rightarrow> string \<Rightarrow> string \<Rightarrow> bool" where
  "keep_warning opts pre w =
     (Only opts = [] \<or>
      list_ex (\<lambda>section. has_prefix w (''environment variable '' @ EnvName pre section @ ''_'')) (Only opts))"

record loaded =
  lfile :: string
  lwarnings :: "string list"
  ltree :: tree
  llines :: lines

definition layered :: "ctype \<Rightarrow> Options \<Rightarrow> string \<times> tree \<times> lines \<Rightarrow> loaded" where
  "layered t opts src =
     (let pre = options_prefix opts; base = fst (snd src);
          paths = leaves t pre [] base [];
          env = envLayer paths pre (Environ opts)
      in \<lparr>lfile = fst src, lwarnings = filter (keep_warning opts pre) (snd env),
          ltree = merge (merge base (fst env)) (flagLayer (Flags opts) paths), llines = snd (snd src)\<rparr>)"

definition load_tree ::
  "(bytes \<Rightarrow> string + ynode) \<Rightarrow> (string \<Rightarrow> bool) \<Rightarrow> (string \<Rightarrow> read_result) \<Rightarrow> ctype \<Rightarrow> Options \<Rightarrow> load_error + loaded" where
  "load_tree unmarshal exists readFile t opts =
     (case read_source unmarshal readFile opts (locate exists opts (options_prefix opts) (Environ opts)) of
        Inl e \<Rightarrow> Inl e
      | Inr src \<Rightarrow> Inr (layered t opts src))"

section \<open>The edit distance is the least number of edits\<close>

text \<open>One insertion, deletion or replacement of a character, anywhere in the word.\<close>

inductive edit1 :: "string \<Rightarrow> string \<Rightarrow> bool" where
  replace: "edit1 (x # u) (y # u)"
| delete: "edit1 (x # u) u"
| insert: "edit1 u (x # u)"
| keep: "edit1 u v \<Longrightarrow> edit1 (x # u) (x # v)"

inductive_cases edit1_NilE: "edit1 [] v"

text \<open>An alignment of two words, with its cost.\<close>

inductive align :: "nat \<Rightarrow> string \<Rightarrow> string \<Rightarrow> bool" where
  nil: "align 0 [] []"
| pair: "align n a b \<Longrightarrow> align (n + (if x = y then 0 else 1)) (x # a) (y # b)"
| del: "align n a b \<Longrightarrow> align (Suc n) (x # a) b"
| ins: "align n a b \<Longrightarrow> align (Suc n) a (y # b)"

fun lev :: "string \<Rightarrow> string \<Rightarrow> nat" where
  "lev [] b = length b"
| "lev a [] = length a"
| "lev (x # a) (y # b) = min (min (lev a (y # b) + 1) (lev (x # a) b + 1)) (lev a b + (if x = y then 0 else 1))"

lemma lev_Nil [simp]: "lev a [] = length a"
  by (cases a) auto

lemma align_all_ins: "align (length b) [] b"
  by (induction b) (auto intro: align.intros)

lemma align_all_del: "align (length a) a []"
  by (induction a) (auto intro: align.intros)

lemma align_lev: "align (lev a b) a b"
proof (induction a b rule: lev.induct)
  case (3 x a y b)
  have "align (lev a b + (if x = y then 0 else 1)) (x # a) (y # b)"
    using "3.IH"(3) by (rule align.pair)
  moreover have "align (lev a (y # b) + 1) (x # a) (y # b)" "align (lev (x # a) b + 1) (x # a) (y # b)"
    using "3.IH"(1,2) align.del align.ins by simp_all
  ultimately show ?case
    by (simp only: lev.simps min_def split: if_split) simp
qed (auto intro: align_all_ins align_all_del [of "_ # _", simplified])

lemma lev_steps: "lev (x # a) b \<le> Suc (lev a b)" "lev a (y # b) \<le> Suc (lev a b)"
  by (cases b, auto) (cases a, auto)

lemma lev_least: "align n a b \<Longrightarrow> lev a b \<le> n"
  by (induction rule: align.induct)
     (auto intro: order.trans [OF lev_steps(1)] order.trans [OF lev_steps(2)])

lemma align_append: "align n a b \<Longrightarrow> align m a' b' \<Longrightarrow> align (n + m) (a @ a') (b @ b')"
proof (induction rule: align.induct)
  case (pair n a b x y)
  then show ?case
    using align.pair [of "n + m" "a @ a'" "b @ b'" x y] by (simp add: ac_simps)
qed (auto intro: align.intros)

lemma align_rev: "align n a b \<Longrightarrow> align n (rev a) (rev b)"
proof (induction rule: align.induct)
  case (pair n a b x y)
  then show ?case
    using align_append [OF pair.IH align.pair [OF align.nil, of x y]] by simp
next
  case (del n a b x)
  then show ?case
    using align_append [OF del.IH align.del [OF align.nil, of x]] by simp
next
  case (ins n a b y)
  then show ?case
    using align_append [OF ins.IH align.ins [OF align.nil, of y]] by simp
qed (auto intro: align.intros)

lemma lev_rev: "lev (rev a) (rev b) = lev a b"
  by (metis align_lev align_rev antisym lev_least rev_rev_ident)

lemma ed_row_lev:
  "ed_row c b (map (\<lambda>j. lev (rev a) (rev (b0 @ take j b))) [0..<Suc (length b)]) (lev (c # rev a) (rev b0)) =
   map (\<lambda>j. lev (c # rev a) (rev (b0 @ take (Suc j) b))) [0..<length b]"
proof (induction b arbitrary: b0)
  case (Cons y b)
  let ?p = "\<lambda>j. lev (rev a) (rev ((b0 @ [y]) @ take j b))"
  have row: "map (\<lambda>j. lev (rev a) (rev (b0 @ take j (y # b)))) [0..<Suc (length (y # b))] =
      lev (rev a) (rev b0) # ?p 0 # map (\<lambda>j. ?p (Suc j)) [0..<length b]"
    by (simp add: map_upt_Suc del: upt_Suc)
  have tail: "map ?p [0..<Suc (length b)] = ?p 0 # map (\<lambda>j. ?p (Suc j)) [0..<length b]"
    by (simp add: map_upt_Suc del: upt_Suc)
  have d: "min (min (?p 0 + 1) (lev (c # rev a) (rev b0) + 1)) (lev (rev a) (rev b0) + (if c = y then 0 else 1)) =
      lev (c # rev a) (rev (b0 @ [y]))"
    by simp
  have "ed_row c (y # b) (map (\<lambda>j. lev (rev a) (rev (b0 @ take j (y # b)))) [0..<Suc (length (y # b))])
          (lev (c # rev a) (rev b0)) =
      lev (c # rev a) (rev (b0 @ [y])) #
      ed_row c b (map ?p [0..<Suc (length b)]) (lev (c # rev a) (rev (b0 @ [y])))"
    unfolding row tail ed_row.simps d Let_def ..
  also have "\<dots> = lev (c # rev a) (rev (b0 @ [y])) #
      map (\<lambda>j. lev (c # rev a) (rev ((b0 @ [y]) @ take (Suc j) b))) [0..<length b]"
    unfolding Cons.IH ..
  also have "\<dots> = map (\<lambda>j. lev (c # rev a) (rev (b0 @ take (Suc j) (y # b)))) [0..<length (y # b)]"
    by (simp add: map_upt_Suc del: upt_Suc)
  finally show ?case .
qed simp

lemma ed_rows_lev:
  "ed_rows a (Suc (length a0)) b (map (\<lambda>j. lev (rev a0) (rev (take j b))) [0..<Suc (length b)]) =
   map (\<lambda>j. lev (rev (a0 @ a)) (rev (take j b))) [0..<Suc (length b)]"
proof (induction a arbitrary: a0)
  case (Cons c a)
  have "Suc (length a0) # ed_row c b (map (\<lambda>j. lev (rev a0) (rev (take j b))) [0..<Suc (length b)]) (Suc (length a0)) =
      map (\<lambda>j. lev (rev (a0 @ [c])) (rev (take j b))) [0..<Suc (length b)]"
    using ed_row_lev [of c b a0 "[]"] by (simp add: map_upt_Suc del: upt_Suc)
  with Cons.IH [of "a0 @ [c]"] show ?case
    by (simp del: upt_Suc)
qed simp

lemma editDistance_lev: "editDistance a b = lev a b"
proof -
  have "map (\<lambda>j. lev (rev []) (rev (take j b))) [0..<Suc (length b)] = [0..<length b + 1]"
    by (rule nth_equalityI) (auto simp del: upt_Suc)
  with ed_rows_lev [of a "[]" b] show ?thesis
    by (simp add: editDistance_def lev_rev nth_append del: upt_Suc)
qed

lemma align_edit1: "align n a u \<Longrightarrow> edit1 u v \<Longrightarrow> \<exists>m \<le> Suc n. align m a v"
proof (induction n a u arbitrary: v rule: align.induct)
  case nil
  then show ?case
    by (auto elim!: edit1_NilE intro: align.intros)
next
  case (pair n a b x y)
  show ?case
    using pair.prems
  proof (cases rule: edit1.cases)
    case (replace z)
    then show ?thesis
      using align.pair [OF pair.hyps, of x z] by (intro exI [of _ "n + (if x = z then 0 else 1)"]) auto
  next
    case delete
    then show ?thesis
      using align.del [OF pair.hyps] by (intro exI [of _ "Suc n"]) auto
  next
    case (insert z)
    then show ?thesis
      using align.ins [OF align.pair [OF pair.hyps]] by blast
  next
    case (keep w)
    then show ?thesis
      using pair.IH [of w] align.pair [of _ a w x y] by fastforce
  qed
next
  case (del n a b x)
  then show ?case
    using align.del by (meson Suc_le_mono)
next
  case (ins n a b y)
  show ?case
    using ins.prems
  proof (cases rule: edit1.cases)
    case delete
    then show ?thesis
      using ins.hyps by (intro exI [of _ n]) auto
  next
    case (keep w)
    then show ?thesis
      using ins.IH [of w] align.ins by (meson Suc_le_mono)
  qed (auto intro: align.intros ins.hyps le_SucI exI [of "\<lambda>m. m \<le> Suc (Suc n) \<and> align m a v" "Suc n"])
qed

lemma align_edits: "align n a b \<Longrightarrow> \<exists>m \<le> n. (edit1 ^^ m) a b"
proof (induction rule: align.induct)
  case (pair n a b x y)
  then obtain m where m: "m \<le> n" "(edit1 ^^ m) a b"
    by blast
  have lift: "(edit1 ^^ k) u w \<Longrightarrow> (edit1 ^^ k) (z # u) (z # w)" for k u w z
    by (induction k arbitrary: w) (auto intro: edit1.keep relcomppI)
  show ?case
  proof (cases "x = y")
    case True
    with m lift show ?thesis by auto
  next
    case False
    have "(edit1 ^^ Suc m) (x # a) (y # b)"
      using lift [OF m(2), of x] edit1.replace [of x b y] by auto
    with False m(1) show ?thesis
      by (intro exI [of _ "Suc m"]) auto
  qed
next
  case (del n a b x)
  then obtain m where "m \<le> n" "(edit1 ^^ m) a b"
    by blast
  then show ?case
    using relpowp_Suc_I2 [of edit1, OF edit1.delete] by (intro exI [of _ "Suc m"]) auto
next
  case (ins n a b y)
  then obtain m where "m \<le> n" "(edit1 ^^ m) a b"
    by blast
  then show ?case
    using edit1.insert [of b y] by (intro exI [of _ "Suc m"]) auto
qed auto

lemma align_refl: "align 0 a a"
  by (induction a) (auto intro: align.nil align.pair [of 0 a a x x for a x, simplified])

lemma edits_align: "(edit1 ^^ n) a b \<Longrightarrow> \<exists>m \<le> n. align m a b"
proof (induction n arbitrary: b)
  case 0
  then show ?case
    using align_refl [of a] by auto
next
  case (Suc n)
  then show ?case
    by (auto dest!: align_edit1) (meson Suc.IH align_edit1 le_SucI order.trans Suc_le_mono)
qed

section \<open>What a layer says of a key\<close>

text \<open>
  A layer says nothing of a path, gives it a value, gives it a mapping, or gives a value to a
  key on the way to it, which hides the path.
\<close>

datatype hit = Miss | Hit raw | Branch | Over

fun probe :: "tree \<Rightarrow> string list \<Rightarrow> hit" where
  "probe m [] = Branch"
| "probe m (k # ks) =
     (case map_of m k of
        None \<Rightarrow> Miss
      | Some RNil \<Rightarrow> Miss
      | Some (RMap n) \<Rightarrow> probe n ks
      | Some (RStr x) \<Rightarrow> if ks = [] then Hit (RStr x) else Over
      | Some (RSeq xs) \<Rightarrow> if ks = [] then Hit (RSeq xs) else Over)"

fun found :: "hit \<Rightarrow> raw option" where
  "found (Hit v) = Some v"
| "found _ = None"

definition value_at :: "tree \<Rightarrow> string list \<Rightarrow> raw option" where
  "value_at m ks = found (probe m ks)"

definition over :: "hit \<Rightarrow> raw option \<Rightarrow> raw option" where
  "over h below = (case h of Miss \<Rightarrow> below | _ \<Rightarrow> found h)"

text \<open>Go's maps hold a key once, at every level.\<close>

fun tree_ok :: "raw \<Rightarrow> bool" where
  "tree_ok (RMap m) = (distinct (map fst m) \<and> (\<forall>kv \<in> set m. tree_ok (snd kv)))"
| "tree_ok (RSeq xs) = (\<forall>x \<in> set xs. tree_ok x)"
| "tree_ok _ = True"

lemma map_of_merge_other:
  "k \<notin> fst ` set src \<Longrightarrow> map_of (merge dst src) k = map_of dst k"
  by (induction dst src rule: merge.induct) (auto simp: update_conv')

definition overlay :: "raw option \<Rightarrow> raw \<Rightarrow> raw option" where
  "overlay below v =
     (case v of RNil \<Rightarrow> below | RMap sm \<Rightarrow> Some (RMap (merge (as_map below) sm)) | _ \<Rightarrow> Some v)"

lemma merge_Cons:
  obtains dst1 where "merge dst ((k, v) # src) = merge dst1 src"
    "\<And>k'. map_of dst1 k' = (if k' = k then overlay (map_of dst k) v else map_of dst k')"
  by (cases v) (auto simp: update_conv' overlay_def)

lemma map_of_merge:
  "distinct (map fst src) \<Longrightarrow>
   map_of (merge dst src) k = (case map_of src k of None \<Rightarrow> map_of dst k | Some v \<Rightarrow> overlay (map_of dst k) v)"
proof (induction src arbitrary: dst)
  case (Cons kv src)
  obtain k0 v where kv: "kv = (k0, v)" by force
  obtain dst1 where m: "merge dst ((k0, v) # src) = merge dst1 src"
      and d: "\<And>k'. map_of dst1 k' = (if k' = k0 then overlay (map_of dst k0) v else map_of dst k')"
    by (rule merge_Cons [of dst k0 v src]) blast
  show ?case
  proof (cases "k = k0")
    case True
    with Cons.prems kv m d show ?thesis by (simp add: map_of_merge_other)
  next
    case False
    with Cons.IH [of dst1] Cons.prems kv m d show ?thesis by (simp split: option.split)
  qed
qed simp

lemma probe_as_map:
  "value_at (as_map r) ks =
     (if ks = [] then None else case r of Some (RMap m) \<Rightarrow> value_at m ks | _ \<Rightarrow> None)"
  by (cases ks) (auto simp: as_map_def value_at_def split: option.splits raw.splits)

lemma value_at_merge:
  "tree_ok (RMap src) \<Longrightarrow> value_at (merge dst src) ks = over (probe src ks) (value_at dst ks)"
proof (induction ks arbitrary: dst src)
  case Nil
  then show ?case by (simp add: value_at_def over_def)
next
  case (Cons k ks)
  have m: "map_of (merge dst src) k = (case map_of src k of None \<Rightarrow> map_of dst k | Some v \<Rightarrow> overlay (map_of dst k) v)"
    using Cons.prems by (intro map_of_merge) simp
  show ?case
  proof (cases "map_of src k")
    case None
    with m show ?thesis by (simp add: value_at_def over_def)
  next
    case (Some r)
    then have "tree_ok r"
      using Cons.prems by (auto dest: map_of_SomeD)
    show ?thesis
    proof (cases r)
      case (RMap sm)
      have "value_at (merge dst src) (k # ks) = value_at (merge (as_map (map_of dst k)) sm) ks"
        using m Some RMap by (simp add: value_at_def overlay_def)
      also have "\<dots> = over (probe sm ks) (value_at (as_map (map_of dst k)) ks)"
        using Cons.IH \<open>tree_ok r\<close> RMap by blast
      also have "\<dots> = over (probe src (k # ks)) (value_at dst (k # ks))"
        unfolding probe_as_map using Some RMap by (cases ks) (auto simp: over_def value_at_def split: hit.splits option.splits raw.splits)
      finally show ?thesis .
    qed (use m Some in \<open>auto simp: value_at_def over_def overlay_def split: if_splits\<close>)
  qed
qed

definition keys_of :: "string \<Rightarrow> string list" where
  "keys_of path = split_char (CHR ''.'') path"

definition apart :: "string list \<Rightarrow> string list \<Rightarrow> bool" where
  "apart ks qs \<longleftrightarrow> \<not> prefix ks qs \<and> \<not> prefix qs ks"

definition is_leaf_value :: "raw \<Rightarrow> bool" where
  "is_leaf_value v = (case v of RStr _ \<Rightarrow> True | RSeq _ \<Rightarrow> True | _ \<Rightarrow> False)"

lemma keys_of_inj [simp]: "keys_of p = keys_of q \<longleftrightarrow> p = q"
  unfolding keys_of_def by (metis join_split_char)

lemma keys_of_nonempty [simp]: "keys_of p \<noteq> []"
  by (simp add: keys_of_def)

lemma apart_Cons [simp]: "apart (k # ks) (q # qs) \<longleftrightarrow> (k = q \<longrightarrow> apart ks qs)"
  by (auto simp: apart_def)

lemma apart_Nil [simp]: "\<not> apart [] qs" "\<not> apart ks []"
  by (auto simp: apart_def)

lemma probe_set_same: "ks \<noteq> [] \<Longrightarrow> is_leaf_value v \<Longrightarrow> probe (set_keys ks v m) ks = Hit v"
  by (induction ks v m rule: set_keys.induct)
     (auto simp: update_conv' is_leaf_value_def split: raw.splits)

lemma probe_empty [simp]: "qs \<noteq> [] \<Longrightarrow> probe [] qs = Miss"
  by (cases qs) auto

lemma probe_set_apart:
  "apart ks qs \<Longrightarrow> probe m qs \<noteq> Over \<Longrightarrow> probe (set_keys ks v m) qs = probe m qs"
proof (induction ks v m arbitrary: qs rule: set_keys.induct)
  case (2 k v m)
  then show ?case
    by (cases qs) (auto simp: update_conv')
next
  case (3 k k2 ks v m)
  show ?case
  proof (cases qs)
    case (Cons q qs')
    show ?thesis
    proof (cases "k = q")
      case True
      with 3 Cons have a: "apart (k2 # ks) qs'" and n: "qs' \<noteq> []"
        by auto
      have "probe (as_map (map_of m k)) qs' = probe m qs" "probe (as_map (map_of m k)) qs' \<noteq> Over"
        using "3.prems"(2) Cons True n by (auto simp: as_map_def split: option.splits raw.splits)
      with "3.IH" [OF a] Cons True show ?thesis
        by (simp add: update_conv')
    next
      case False
      with Cons show ?thesis by (simp add: update_conv')
    qed
  qed (use 3 in simp)
qed simp

definition assign :: "(string list \<times> raw) list \<Rightarrow> tree \<Rightarrow> tree" where
  "assign xs layer = fold (\<lambda>(ks, v) l. set_keys ks v l) xs layer"

lemma probe_assign:
  "(\<And>ks v. (ks, v) \<in> set xs \<Longrightarrow> ks \<noteq> [] \<and> is_leaf_value v \<and> (ks = qs \<or> apart ks qs)) \<Longrightarrow>
   probe layer qs \<noteq> Over \<Longrightarrow>
   probe (assign xs layer) qs = (case map_of (rev xs) qs of Some v \<Rightarrow> Hit v | None \<Rightarrow> probe layer qs)"
proof (induction xs rule: rev_induct)
  case (snoc x xs)
  obtain ks v where x: "x = (ks, v)" by force
  have ih: "probe (assign xs layer) qs = (case map_of (rev xs) qs of Some v \<Rightarrow> Hit v | None \<Rightarrow> probe layer qs)"
    using snoc by (intro snoc.IH) auto
  then have "probe (assign xs layer) qs \<noteq> Over"
    using snoc.prems(2) by (auto split: option.splits)
  moreover have "ks \<noteq> [] \<and> is_leaf_value v \<and> (ks = qs \<or> apart ks qs)"
    using snoc.prems(1) x by auto
  ultimately show ?case
    using ih x probe_set_same probe_set_apart
    by (cases "ks = qs") (auto simp: assign_def)
qed (simp add: assign_def)

lemma tree_ok_update:
  "tree_ok (RMap m) \<Longrightarrow> tree_ok v \<Longrightarrow> tree_ok (RMap (AList.update k v m))"
  by (auto simp: distinct_update dest: set_update_subset)

lemma tree_ok_as_map: "(\<And>v. r = Some v \<Longrightarrow> tree_ok v) \<Longrightarrow> tree_ok (RMap (as_map r))"
  by (cases "\<exists>m. r = Some (RMap m)") (auto simp: as_map_def simp del: tree_ok.simps(1) split: option.splits raw.splits,
      simp_all)

lemma tree_ok_lookup: "tree_ok (RMap m) \<Longrightarrow> map_of m k = Some v \<Longrightarrow> tree_ok v"
  by (auto dest: map_of_SomeD)

lemma tree_ok_set_keys: "tree_ok (RMap m) \<Longrightarrow> tree_ok v \<Longrightarrow> tree_ok (RMap (set_keys ks v m))"
proof (induction ks v m rule: set_keys.induct)
  case (3 k k2 ks v m)
  have "tree_ok (RMap (as_map (map_of m k)))"
    using "3.prems"(1) by (intro tree_ok_as_map) (rule tree_ok_lookup)
  then show ?case
    using "3.IH" "3.prems" unfolding set_keys.simps by (intro tree_ok_update) auto
qed (auto intro: tree_ok_update simp del: tree_ok.simps(1))

lemma tree_ok_assign:
  "tree_ok (RMap layer) \<Longrightarrow> (\<And>ks v. (ks, v) \<in> set xs \<Longrightarrow> tree_ok v) \<Longrightarrow> tree_ok (RMap (assign xs layer))"
proof (induction xs arbitrary: layer)
  case (Cons x xs)
  obtain ks v where x: "x = (ks, v)" by force
  have "assign (x # xs) layer = assign xs (set_keys ks v layer)"
    by (simp add: assign_def x)
  moreover have "tree_ok (RMap (assign xs (set_keys ks v layer)))"
    using Cons.prems x by (intro Cons.IH tree_ok_set_keys) auto
  ultimately show ?case by simp
qed (simp add: assign_def)

text \<open>The assignments of the environment and of the flags.\<close>

definition renamed :: "('n \<Rightarrow> 'k option) \<Rightarrow> ('v \<Rightarrow> 'w) \<Rightarrow> ('n \<times> 'v) list \<Rightarrow> ('k \<times> 'w) list" where
  "renamed g h xs = concat (map (\<lambda>(n, v). case g n of None \<Rightarrow> [] | Some k \<Rightarrow> [(k, h v)]) xs)"

lemma in_renamed: "(k, w) \<in> set (renamed g h xs) \<longleftrightarrow> (\<exists>n v. (n, v) \<in> set xs \<and> g n = Some k \<and> w = h v)"
  by (force simp: renamed_def split: option.splits)

lemma map_of_renamed:
  "(\<And>n. g n = Some q \<longleftrightarrow> n = n0) \<Longrightarrow> map_of (rev (renamed g h xs)) q = map_option h (map_of (rev xs) n0)"
proof (induction xs rule: rev_induct)
  case (snoc x xs)
  obtain n v where x: "x = (n, v)" by force
  have step: "renamed g h (xs @ [x]) = renamed g h xs @ (case g n of None \<Rightarrow> [] | Some k \<Rightarrow> [(k, h v)])"
    by (simp add: renamed_def x)
  have "g n = Some q \<longleftrightarrow> n = n0"
    by (rule snoc.prems)
  then show ?case
    unfolding step using snoc.IH [OF snoc.prems] x by (cases "g n") auto
qed (simp add: renamed_def)

lemma env_loop_assign:
  "fst (env_loop paths pre environ layer ws) =
   assign (renamed (\<lambda>n. map_option keys_of (byName paths n)) RStr (List.map_filter (overrides pre) environ)) layer"
  by (induction paths pre environ layer ws rule: env_loop.induct)
     (auto simp: assign_def renamed_def map_filter_simps setPath_def keys_of_def split: option.splits prod.splits)

lemma flagLayer_assign:
  "flagLayer changed paths =
   assign (renamed (\<lambda>n. if n \<in> fst ` set paths then Some (keys_of n) else None) flag_raw changed) []"
proof -
  have "fold (\<lambda>(n, v) layer. if n \<in> fst ` set paths then setPath layer n (flag_raw v) else layer) changed l =
      assign (renamed (\<lambda>n. if n \<in> fst ` set paths then Some (keys_of n) else None) flag_raw changed) l" for l
    by (induction changed arbitrary: l)
       (auto simp: assign_def renamed_def setPath_def keys_of_def)
  then show ?thesis
    unfolding flagLayer_def .
qed

declare leaves.simps [simp del]

text \<open>Every path of \<open>leaves\<close> is listed once, with the variable \<open>EnvName\<close> gives it.\<close>

definition named :: "string \<Rightarrow> (string \<times> string) list \<Rightarrow> bool" where
  "named pre out \<longleftrightarrow> distinct (map fst out) \<and> (\<forall>pn \<in> set out. snd pn = EnvName pre (fst pn))"

lemma named_update: "named pre out \<Longrightarrow> named pre (AList.update p (EnvName pre p) out)"
  by (auto simp: named_def distinct_update dest: set_update_subset)

lemma named_leaves: "named pre out \<Longrightarrow> named pre (leaves t pre path base out)"
proof (induction t pre path base out rule: leaves.induct)
  case (1 t pre path base out)
  show ?case
    unfolding leaves.simps [of t]
  proof (rule fold_invariant [where Q = "\<lambda>f. f \<in> set (fieldsOf t)"])
    fix f out
    assume f: "f \<in> set (fieldsOf t)" and out: "named pre out"
    show "named pre (let p = join path (fkey f); ft = deref (ftyp f)
       in if isLeaf ft then AList.update p (EnvName pre p) out
          else if isSection ft then leaves ft pre p (subtree base (fkey f)) out
          else case ft of
            TMap sk e b \<Rightarrow>
              (let entries = subtree base (fkey f); et = deref e
               in fold (\<lambda>k out.
                    if isSection et then leaves et pre (join p k) (subtree entries k) out
                    else if isLeaf et then AList.update (join p k) (EnvName pre (join p k)) out
                    else out) (sort (remdups (map fst entries))) out)
          | _ \<Rightarrow> out)"
      using f out "1.IH"
      by (auto simp: Let_def named_update split: ctype.split
               intro!: fold_invariant [where P = "named pre" and Q = "\<lambda>k. k \<in> set (sort (remdups (map fst (subtree base (fkey f)))))"])
  qed (use 1 in auto)
qed

lemma tree_ok_fill: "tree_ok (RMap out) \<Longrightarrow> tree_ok (RMap m) \<Longrightarrow> tree_ok (RMap (fill out m))"
  unfolding fill_def
  by (rule fold_invariant [where Q = "\<lambda>kv. tree_ok (snd kv)" and P = "\<lambda>x. tree_ok (RMap x)"])
     (auto intro: tree_ok_update simp del: tree_ok.simps(1) split: prod.splits, force)

lemma tree_ok_fills:
  "tree_ok (RMap out) \<Longrightarrow> (\<And>m. m \<in> set ms \<Longrightarrow> tree_ok (RMap m)) \<Longrightarrow>
   tree_ok (RMap (fold (\<lambda>m o1. fill o1 m) ms out))"
  by (rule fold_invariant [where Q = "\<lambda>m. tree_ok (RMap m)" and P = "\<lambda>x. tree_ok (RMap x)"])
     (auto intro: tree_ok_fill simp del: tree_ok.simps(1))

text \<open>A parsed document is a tree of maps: no mapping holds a key twice.\<close>

lemma nodeValue_ok:
  "fst (nodeValue n path ls) = Inr v \<Longrightarrow> tree_ok v"
  "fst (seqValues ns path i ls) = Inr vs \<Longrightarrow> \<forall>v \<in> set vs. tree_ok v"
  "fst (mapValues ps path out merged ls) = Inr m \<Longrightarrow> tree_ok (RMap out) \<Longrightarrow>
     \<forall>x \<in> set merged. tree_ok (RMap x) \<Longrightarrow> tree_ok (RMap m)"
  "fst (mergeSources n path ls) = Inr ms \<Longrightarrow> \<forall>x \<in> set ms. tree_ok (RMap x)"
  "fst (mergeAll ns path ls) = Inr ms \<Longrightarrow> \<forall>x \<in> set ms. tree_ok (RMap x)"
proof (induction n path ls and ns path i ls and ps path out merged ls and n path ls and ns path ls
       arbitrary: v and vs and m and ms and ms
       rule: nodeValue_seqValues_mapValues_mergeSources_mergeAll.induct)
  case (10 path out merged ls)
  then show ?case by (auto simp del: tree_ok.simps(1) intro: tree_ok_fills)
next
  case (11 k val ps path out merged ls)
  then show ?case
    by (auto simp del: tree_ok.simps(1) split: ynode.splits if_splits sum.splits prod.splits intro!: tree_ok_update) (fastforce simp del: tree_ok.simps(1) intro: tree_ok_update)+
qed (auto simp del: tree_ok.simps(1) split: sum.splits prod.splits raw.splits, auto)

lemma tree_ok_filter: "tree_ok (RMap m) \<Longrightarrow> tree_ok (RMap (filter f m))"
  by (auto simp: distinct_map_filter)

lemma tree_ok_Cons: "tree_ok (RMap (kv # m)) \<Longrightarrow> tree_ok (snd kv) \<and> tree_ok (RMap m)"
  by simp

lemma tree_ok_merge: "tree_ok (RMap dst) \<Longrightarrow> tree_ok (RMap src) \<Longrightarrow> tree_ok (RMap (merge dst src))"
proof (induction dst src rule: merge.induct)
  case (2 dst k src)
  then show ?case using tree_ok_Cons by (metis merge.simps(2))
next
  case (3 dst k sm src)
  have "tree_ok (RMap (as_map (map_of dst k)))"
    using "3.prems"(1) by (intro tree_ok_as_map) (rule tree_ok_lookup)
  then have "tree_ok (RMap (merge (as_map (map_of dst k)) sm))"
    using "3.IH"(1) tree_ok_Cons [OF "3.prems"(2)] by (metis snd_conv)
  then have "tree_ok (RMap (AList.update k (RMap (merge (as_map (map_of dst k)) sm)) dst))"
    using "3.prems"(1) by (intro tree_ok_update)
  then show ?case
    unfolding merge.simps using "3.IH"(2) tree_ok_Cons [OF "3.prems"(2)] by blast
next
  case (4 dst k x src)
  with tree_ok_Cons [OF "4.prems"(2)] show ?case
    unfolding merge.simps by (intro "4.IH" tree_ok_update) simp_all
next
  case (5 dst k xs src)
  with tree_ok_Cons [OF "5.prems"(2)] show ?case
    unfolding merge.simps by (intro "5.IH" tree_ok_update) simp_all
qed simp

lemma read_source_ok:
  assumes "read_source unmarshal readFile opts pe = Inr (f, base, ls)"
  shows "tree_ok (RMap base)"
proof (cases "fst pe = []")
  case False
  with assms obtain data where "readFile (fst pe) = ReadOk data \<or> base = []"
    by (auto simp: read_source_def split: prod.splits read_result.splits if_splits)
  then show ?thesis
  proof
    assume data: "readFile (fst pe) = ReadOk data"
    with assms False obtain ft ls' where ft: "parseYAML unmarshal data = (Inr ft, ls')"
        and base: "base = merge [] (if Only opts = [] then ft else filter (\<lambda>(k, _). k \<in> set (Only opts)) ft)"
      by (auto simp: read_source_def split: prod.splits sum.splits)
    have "\<exists>n. ft = [] \<or> fst (nodeValue n [] []) = Inr (RMap ft)"
      using ft by (auto simp: parseYAML_def split: sum.splits prod.splits raw.splits) (metis fst_conv)
    then have "tree_ok (RMap ft)"
      using nodeValue_ok(1) by (elim exE disjE) (simp, blast)
    then show ?thesis
      unfolding base by (intro tree_ok_merge) (simp_all add: tree_ok_filter del: tree_ok.simps(1), simp)
  qed simp
qed (use assms in \<open>auto simp: read_source_def split: prod.splits\<close>)

text \<open>
  The paths of a schema are clear when none lies on the way to another and no two of them share
  an environment variable.
\<close>

definition clear_paths :: "(string \<times> string) list \<Rightarrow> bool" where
  "clear_paths paths \<longleftrightarrow>
     (\<forall>pn \<in> set paths. \<forall>qm \<in> set paths. fst pn \<noteq> fst qm \<longrightarrow> apart (keys_of (fst pn)) (keys_of (fst qm)) \<and> snd pn \<noteq> snd qm)"

lemma byName_iff:
  assumes "named pre paths" "clear_paths paths"
  shows "byName paths n = Some p \<longleftrightarrow> (p, n) \<in> set paths"
proof -
  have "byName ps n = Some p \<longleftrightarrow> (p, n) \<in> set ps" if "distinct (map fst ps)" "set ps \<subseteq> set paths" for ps
    using that
  proof (induction ps rule: rev_induct)
    case (snoc x ps)
    obtain q m where x: "x = (q, m)" by force
    have ih: "byName ps n = Some p \<longleftrightarrow> (p, n) \<in> set ps" and step: "byName (ps @ [(q, m)]) = (byName ps)(m \<mapsto> q)"
      using snoc by (auto simp: byName_def x)
    have "(p, n) \<notin> set ps" if "n = m"
    proof
      assume "(p, n) \<in> set ps"
      then have "p \<noteq> q" "(p, n) \<in> set paths" "(q, m) \<in> set paths"
        using snoc.prems x by force+
      with assms(2) that show False
        by (fastforce simp: clear_paths_def)
    qed
    with ih show ?case
      by (auto simp: step x)
  qed (simp add: byName_def)
  with assms show ?thesis
    by (simp add: named_def)
qed

lemma find_SomeD: "find P xs = Some x \<Longrightarrow> x \<in> set xs \<and> P x"
  by (auto simp: find_Some_iff)

lemma env_probe:
  assumes "named pre paths" "clear_paths paths"
    and q: "\<And>p. p \<in> fst ` set paths \<Longrightarrow> keys_of p = qs \<or> apart (keys_of p) qs" and "qs \<noteq> []"
  shows "probe (fst (envLayer paths pre environ)) qs =
    (case find (\<lambda>pn. keys_of (fst pn) = qs) paths of
       Some (p, n) \<Rightarrow> (case map_of (rev (List.map_filter (overrides pre) environ)) n of Some v \<Rightarrow> Hit (RStr v) | None \<Rightarrow> Miss)
     | None \<Rightarrow> Miss)"
proof -
  let ?g = "\<lambda>n. map_option keys_of (byName paths n)"
  let ?xs = "List.map_filter (overrides pre) environ"
  have g: "?g n = Some ks \<longleftrightarrow> (\<exists>p. (p, n) \<in> set paths \<and> ks = keys_of p)" for n ks
    unfolding byName_iff [OF assms(1,2), symmetric] by auto
  have "probe (fst (envLayer paths pre environ)) qs =
      (case map_of (rev (renamed ?g RStr ?xs)) qs of Some v \<Rightarrow> Hit v | None \<Rightarrow> probe [] qs)"
    unfolding envLayer_def env_loop_assign
  proof (rule probe_assign)
    fix ks v
    assume "(ks, v) \<in> set (renamed ?g RStr ?xs)"
    then show "ks \<noteq> [] \<and> is_leaf_value v \<and> (ks = qs \<or> apart ks qs)"
      unfolding in_renamed g using q by (force simp: is_leaf_value_def)
  qed (simp add: \<open>qs \<noteq> []\<close>)
  moreover have "map_of (rev (renamed ?g RStr ?xs)) qs =
      (case find (\<lambda>pn. keys_of (fst pn) = qs) paths of
         Some (p, n) \<Rightarrow> map_option RStr (map_of (rev ?xs) n) | None \<Rightarrow> None)"
  proof (cases "find (\<lambda>pn. keys_of (fst pn) = qs) paths")
    case None
    have "(qs, w) \<notin> set (renamed ?g RStr ?xs)" for w
      unfolding in_renamed g using None by (auto simp: find_None_iff)
    then have "map_of (rev (renamed ?g RStr ?xs)) qs = None"
      by (auto simp: map_of_eq_None_iff)
    with None show ?thesis
      by simp
  next
    case (Some pn)
    then have pn: "pn \<in> set paths" "keys_of (fst pn) = qs"
      by (auto dest: find_SomeD)
    have n: "snd x = EnvName pre (fst x)" if "x \<in> set paths" for x
      using assms(1) that by (simp add: named_def)
    have "?g n = Some qs \<longleftrightarrow> n = snd pn" for n
      unfolding g using pn n by (metis fst_conv keys_of_inj prod.collapse snd_conv)
    then show ?thesis
      using Some by (simp add: map_of_renamed case_prod_beta)
  qed
  ultimately show ?thesis
    by (auto simp: \<open>qs \<noteq> []\<close> split: option.splits)
qed

lemma flag_probe:
  assumes q: "\<And>p. p \<in> fst ` set paths \<Longrightarrow> keys_of p = qs \<or> apart (keys_of p) qs" and "qs \<noteq> []"
  shows "probe (flagLayer changed paths) qs =
    (case find (\<lambda>pn. keys_of (fst pn) = qs) paths of
       Some (p, n) \<Rightarrow> (case map_of (rev changed) p of Some v \<Rightarrow> Hit (flag_raw v) | None \<Rightarrow> Miss)
     | None \<Rightarrow> Miss)"
proof -
  let ?g = "\<lambda>n. if n \<in> fst ` set paths then Some (keys_of n) else None"
  have "probe (flagLayer changed paths) qs =
      (case map_of (rev (renamed ?g flag_raw changed)) qs of Some v \<Rightarrow> Hit v | None \<Rightarrow> probe [] qs)"
    unfolding flagLayer_assign
  proof (rule probe_assign)
    fix ks v
    assume "(ks, v) \<in> set (renamed ?g flag_raw changed)"
    then obtain n w where "n \<in> fst ` set paths" "ks = keys_of n" "v = flag_raw w"
      unfolding in_renamed by (auto split: if_splits)
    with q [of n] show "ks \<noteq> [] \<and> is_leaf_value v \<and> (ks = qs \<or> apart ks qs)"
      by (cases w) (simp_all add: is_leaf_value_def)
  qed (simp add: \<open>qs \<noteq> []\<close>)
  moreover have "map_of (rev (renamed ?g flag_raw changed)) qs =
      (case find (\<lambda>pn. keys_of (fst pn) = qs) paths of
         Some (p, n) \<Rightarrow> map_option flag_raw (map_of (rev changed) p) | None \<Rightarrow> None)"
  proof (cases "find (\<lambda>pn. keys_of (fst pn) = qs) paths")
    case None
    have "(qs, w) \<notin> set (renamed ?g flag_raw changed)" for w
      unfolding in_renamed using None by (auto simp: find_None_iff split: if_splits)
    then have "map_of (rev (renamed ?g flag_raw changed)) qs = None"
      by (auto simp: map_of_eq_None_iff)
    with None show ?thesis
      by simp
  next
    case (Some pn)
    then have pn: "pn \<in> set paths" "keys_of (fst pn) = qs"
      by (auto dest: find_SomeD)
    then have "?g n = Some qs \<longleftrightarrow> n = fst pn" for n
      by auto
    then show ?thesis
      using Some by (simp add: map_of_renamed case_prod_beta del: if_split)
  qed
  ultimately show ?thesis
    by (auto simp: \<open>qs \<noteq> []\<close> split: option.splits)
qed

lemma tree_ok_layers:
  "tree_ok (RMap (fst (envLayer paths pre environ)))" "tree_ok (RMap (flagLayer changed paths))"
proof -
  show "tree_ok (RMap (fst (envLayer paths pre environ)))"
    unfolding envLayer_def env_loop_assign by (rule tree_ok_assign) (auto simp: in_renamed)
  have raw: "tree_ok (flag_raw v)" for v
    by (cases v) auto
  show "tree_ok (RMap (flagLayer changed paths))"
    unfolding flagLayer_assign by (rule tree_ok_assign) (auto simp: in_renamed raw)
qed

section \<open>Properties\<close>

text \<open>C23: The sources of a configuration rank as documented. For a clear schema, the value Load
  decodes for a key it can set is that of the last changed flag of that name, else that of the
  last environment variable of its name, else the file's; and a path that has nothing to do with
  those keys keeps what the file says.\<close>

theorem conf_precedence:
  fixes opts :: Options
  defines "pre \<equiv> options_prefix opts"
  assumes src: "read_source unmarshal readFile opts (locate exists opts pre (Environ opts)) = Inr (f, base, ls)"
    and clear: "clear_paths (leaves t pre [] base [])"
  shows "\<exists>L. load_tree unmarshal exists readFile t opts = Inr L \<and>
    (\<forall>p \<in> fst ` set (leaves t pre [] base []).
       value_at (ltree L) (keys_of p) =
         (case map_of (rev (Flags opts)) p of
            Some v \<Rightarrow> Some (flag_raw v)
          | None \<Rightarrow>
              (case map_of (rev (List.map_filter (overrides pre) (Environ opts))) (EnvName pre p) of
                 Some v \<Rightarrow> Some (RStr v)
               | None \<Rightarrow> value_at base (keys_of p)))) \<and>
    (\<forall>qs. (\<forall>p \<in> fst ` set (leaves t pre [] base []). apart (keys_of p) qs) \<longrightarrow>
       value_at (ltree L) qs = value_at base qs)"
proof -
  let ?paths = "leaves t pre [] base []"
  define L where "L = layered t opts (f, base, ls)"
  have L: "load_tree unmarshal exists readFile t opts = Inr L"
    using src by (simp add: load_tree_def L_def pre_def)
  have named: "named pre ?paths"
    by (rule named_leaves) (simp add: named_def)
  have v: "value_at (ltree L) qs =
      over (probe (flagLayer (Flags opts) ?paths) qs) (over (probe (fst (envLayer ?paths pre (Environ opts))) qs) (value_at base qs))" for qs
    unfolding L_def layered_def Let_def pre_def [symmetric] by (simp add: value_at_merge tree_ok_layers del: tree_ok.simps(1))
  show ?thesis
  proof (intro exI conjI ballI allI impI)
    show "load_tree unmarshal exists readFile t opts = Inr L" by (rule L)
  next
    fix p
    assume p: "p \<in> fst ` set ?paths"
    have q: "keys_of p' = keys_of p \<or> apart (keys_of p') (keys_of p)" if "p' \<in> fst ` set ?paths" for p'
      using clear p that by (fastforce simp: clear_paths_def)
    obtain pn where find: "find (\<lambda>pn. keys_of (fst pn) = keys_of p) ?paths = Some pn" and pn: "fst pn = p" "pn \<in> set ?paths"
      using p by (cases "find (\<lambda>pn. keys_of (fst pn) = keys_of p) ?paths") (auto simp: find_None_iff dest: find_SomeD)
    have n: "snd pn = EnvName pre p"
      using named pn by (auto simp: named_def)
    have fl: "probe (flagLayer (Flags opts) ?paths) (keys_of p) =
        (case map_of (rev (Flags opts)) p of Some v \<Rightarrow> Hit (flag_raw v) | None \<Rightarrow> Miss)"
      using flag_probe [of ?paths "keys_of p" "Flags opts", OF q] unfolding find
      by (simp add: pn(1) case_prod_beta)
    have en: "probe (fst (envLayer ?paths pre (Environ opts))) (keys_of p) =
        (case map_of (rev (List.map_filter (overrides pre) (Environ opts))) (EnvName pre p) of Some v \<Rightarrow> Hit (RStr v) | None \<Rightarrow> Miss)"
      using env_probe [OF named clear, of "keys_of p" "Environ opts", OF q] unfolding find
      by (simp add: n case_prod_beta)
    show "value_at (ltree L) (keys_of p) =
         (case map_of (rev (Flags opts)) p of
            Some v \<Rightarrow> Some (flag_raw v)
          | None \<Rightarrow>
              (case map_of (rev (List.map_filter (overrides pre) (Environ opts))) (EnvName pre p) of
                 Some v \<Rightarrow> Some (RStr v)
               | None \<Rightarrow> value_at base (keys_of p)))"
      by (simp add: v fl en over_def split: option.split)
  next
    fix qs
    assume a: "\<forall>p \<in> fst ` set ?paths. apart (keys_of p) qs"
    show "value_at (ltree L) qs = value_at base qs"
    proof (cases "qs = []")
      case False
      have "find (\<lambda>pn. keys_of (fst pn) = qs) ?paths = None"
        using a by (force simp: find_None_iff apart_def)
      moreover have "keys_of p = qs \<or> apart (keys_of p) qs" if "p \<in> fst ` set ?paths" for p
        using a that by blast
      note flag_probe [of ?paths qs "Flags opts", OF this] env_probe [OF named clear, of qs "Environ opts", OF this]
      ultimately show ?thesis
        using False by (simp add: v over_def)
    qed (simp add: v value_at_def over_def)
  qed
qed

text \<open>C24: The edit distance behind the suggestions, computed in two rows, is the least number of
  single-character insertions, deletions and replacements that turn one word into the other.\<close>

theorem conf_edit_distance:
  "(edit1 ^^ editDistance a b) a b \<and> (\<forall>n. (edit1 ^^ n) a b \<longrightarrow> editDistance a b \<le> n)"
proof -
  have least: "editDistance a b \<le> n" if "(edit1 ^^ n) a b" for n
    using edits_align [OF that] lev_least editDistance_lev by (metis order.trans)
  moreover obtain m where "m \<le> editDistance a b" "(edit1 ^^ m) a b"
    using align_edits [OF align_lev [of a b]] by (auto simp: editDistance_lev)
  ultimately show ?thesis
    by (metis antisym)
qed

section \<open>Witnesses\<close>

definition demo_type :: ctype where
  "demo_type = TStruct ''Config''
     [SField ''HTTP'' False True [(''yaml'', ''http'')]
        (TStruct ''HTTP''
           [SField ''Addr'' False True [(''yaml'', ''addr'')] (TBasic KString False),
            SField ''Port'' False True [] (TBasic (KInt 64) False),
            SField ''Wait'' False True [] TDuration] False),
      SField ''Labels'' False True [(''yaml'', ''labels'')] (TMap True (TBasic KString False) False)] False"

definition demo_doc :: ynode where
  "demo_doc = YDoc [YMap
     [(YScalar ''!!str'' ''http'' 1,
       YMap [(YScalar ''!!str'' ''addr'' 2, YScalar ''!!str'' '':80'' 2),
             (YScalar ''!!str'' ''port'' 3, YScalar ''!!int'' ''1'' 3),
             (YScalar ''!!str'' ''wait'' 4, YScalar ''!!str'' ''1s'' 4)] 2)] 1]"

definition demo_options :: Options where
  "demo_options = \<lparr>oName = ''app'', EnvPrefix = [], Override = ''app.yaml'', oFile = [],
     Flags = [(''http.port'', FText ''9'')], Environ = [''APP_HTTP_ADDR=:8080'', ''APP_HTTP_PORT=2'', ''HOME=/''], Only = []\<rparr>"

abbreviation demo_load :: "ynode \<Rightarrow> Options \<Rightarrow> load_error + loaded" where
  "demo_load doc opts \<equiv> load_tree (\<lambda>_. Inr doc) (\<lambda>_. False) (\<lambda>_. ReadOk []) demo_type opts"

definition demo_base :: tree where
  "demo_base = [(''http'', RMap [(''addr'', RStr '':80''), (''port'', RStr ''1''), (''wait'', RStr ''1s'')])]"

lemma demo_source:
  "read_source (\<lambda>_. Inr demo_doc) (\<lambda>_. ReadOk []) demo_options
     (locate (\<lambda>_. False) demo_options (options_prefix demo_options) (Environ demo_options)) =
   Inr (''app.yaml'', demo_base, [(''http'', 1), (''http.addr'', 2), (''http.port'', 3), (''http.wait'', 4)])"
  by code_simp

lemma demo_paths:
  "leaves demo_type (options_prefix demo_options) [] demo_base [] =
   [(''http.addr'', ''APP_HTTP_ADDR''), (''http.port'', ''APP_HTTP_PORT''), (''http.wait'', ''APP_HTTP_WAIT'')]"
  by code_simp

lemma demo_clear: "clear_paths (leaves demo_type (options_prefix demo_options) [] demo_base [])"
  unfolding demo_paths by code_simp

theorem conf_precedence_witness:
  "\<exists>L. demo_load demo_doc demo_options = Inr L \<and>
     value_at (ltree L) [''http'', ''addr''] = Some (RStr '':8080'') \<and>
     value_at (ltree L) [''http'', ''port''] = Some (RStr ''9'') \<and>
     value_at (ltree L) [''http'', ''wait''] = Some (RStr ''1s'')"
proof -
  have keys: "keys_of ''http.addr'' = [''http'', ''addr'']" "keys_of ''http.port'' = [''http'', ''port'']"
    "keys_of ''http.wait'' = [''http'', ''wait'']"
    by code_simp+
  have env: "rev (List.map_filter (overrides (options_prefix demo_options)) (Environ demo_options)) =
      [(''APP_HTTP_PORT'', ''2''), (''APP_HTTP_ADDR'', '':8080'')]"
    by code_simp
  have names: "EnvName (options_prefix demo_options) ''http.addr'' = ''APP_HTTP_ADDR''"
    "EnvName (options_prefix demo_options) ''http.wait'' = ''APP_HTTP_WAIT''"
    by code_simp+
  have flags: "rev (Flags demo_options) = [(''http.port'', FText ''9'')]"
    by (simp add: demo_options_def)
  have base: "value_at demo_base [''http'', ''wait''] = Some (RStr ''1s'')"
    by code_simp
  show ?thesis
    using conf_precedence [OF demo_source demo_clear] unfolding demo_paths env flags
    by (auto simp: keys names base)
qed

theorem conf_edit_distance_witness:
  "(edit1 ^^ 1) ''htp'' ''http'' \<and> \<not> (edit1 ^^ 0) ''htp'' ''http''"
proof -
  have "editDistance ''htp'' ''http'' = 1"
    by code_simp
  then show ?thesis
    using conf_edit_distance [of "''htp''" "''http''"] by auto
qed

definition dotted_doc :: ynode where
  "dotted_doc = YMap [(YScalar ''!!str'' ''labels'' 1, YMap [(YScalar ''!!str'' ''a.b'' 2, YScalar ''!!str'' ''x'' 2)] 2)] 1"

definition dotted_options :: Options where
  "dotted_options = demo_options\<lparr>Flags := [], Environ := [''APP_LABELS_A_B=y'']\<rparr>"

text \<open>A map key with a dot in it cannot be overridden: the variable is matched to the path
  \<^verbatim>\<open>labels.a.b\<close> of the entry \<^verbatim>\<open>a.b\<close> and raises no warning, but its value goes to the entry
  \<^verbatim>\<open>a\<close>, as a mapping, and the file's value stays.\<close>

theorem conf_dotted_key_missed:
  "\<exists>L. demo_load dotted_doc dotted_options = Inr L \<and> lwarnings L = [] \<and>
     value_at (ltree L) [''labels'', ''a.b''] = Some (RStr ''x'') \<and>
     value_at (ltree L) [''labels'', ''a'', ''b''] = Some (RStr ''y'')"
proof -
  have "demo_load dotted_doc dotted_options =
      Inr \<lparr>lfile = ''app.yaml'', lwarnings = [],
        ltree = [(''labels'', RMap [(''a.b'', RStr ''x''), (''a'', RMap [(''b'', RStr ''y'')])])],
        llines = [(''labels'', 1), (''labels.a.b'', 2)]\<rparr>"
    by code_simp
  then show ?thesis
    by (auto simp: value_at_def)
qed

end
