(* ===== verification/Client_Ip.thy ===== *)
theory Client_Ip
  imports Chok_Prelude Go_Strings "HOL-Library.Word" "HOL-Library.Code_Target_Nat"
begin

text \<open>
  Client addresses: \<^verbatim>\<open>src/internal/clientip/clientip.go\<close>. The address of the client of a
  request, from the peer of its connection and, when the peer is a trusted proxy, from the
  forwarding headers. The rate limiter of the logins counts by it.

  The first part is what the source uses of Go's \<^verbatim>\<open>net/netip\<close> and \<^verbatim>\<open>net\<close>: addresses as words
  of 32 and 128 bits, their parsers and their text, prefixes, and \<^verbatim>\<open>net.SplitHostPort\<close>. A
  parser that fails gives \<open>None\<close>. Then the resolver: its construction, the walk through a
  header, \<^verbatim>\<open>ClientIP\<close> and \<^verbatim>\<open>Ignored\<close>. The headers of a request are lists of lines, as in
  \<^verbatim>\<open>http.Header\<close>.

  The theorems: what a trusted_proxies list trusts, bit by bit; that the text of an address
  reads back as that address; that the headers of an untrusted peer do not matter; that
  what a client writes into its header in front of what a trusted proxy appends does not.
\<close>

unbundle bit_operations_syntax

section \<open>Addresses\<close>

datatype Addr = V4 "32 word" | V6 "128 word" string

fun zone :: "Addr \<Rightarrow> string" where
  "zone (V4 _) = []"
| "zone (V6 _ z) = z"

definition BitLen :: "Addr \<Rightarrow> nat" where
  "BitLen a = (case a of V4 _ \<Rightarrow> 32 | V6 _ _ \<Rightarrow> 128)"

fun Is4In6 :: "Addr \<Rightarrow> bool" where
  "Is4In6 (V4 _) = False"
| "Is4In6 (V6 w _) = (drop_bit 32 w = 0xffff)"

definition Unmap :: "Addr \<Rightarrow> Addr" where
  "Unmap a = (case a of V4 _ \<Rightarrow> a | V6 w _ \<Rightarrow> if Is4In6 a then V4 (ucast w) else a)"

fun WithZone :: "Addr \<Rightarrow> string \<Rightarrow> Addr" where
  "WithZone (V4 w) z = V4 w"
| "WithZone (V6 w _) z = V6 w z"

text \<open>Big-endian digits to a number.\<close>

definition be_val :: "nat \<Rightarrow> nat list \<Rightarrow> nat" where
  "be_val base ds = foldl (\<lambda>n d. base * n + d) 0 ds"

text \<open>\<^verbatim>\<open>parseIPv4\<close>: four octets, no leading zero.\<close>

definition octet :: "string \<Rightarrow> nat option" where
  "octet s =
     (if s = [] \<or> \<not> list_all is_digit s \<or> (length s > 1 \<and> hd s = CHR ''0'') \<or> digits_val s > 255 then None
      else Some (digits_val s))"

fun all_some :: "'a option list \<Rightarrow> 'a list option" where
  "all_some [] = Some []"
| "all_some (None # _) = None"
| "all_some (Some x # xs) = map_option ((#) x) (all_some xs)"

definition ipv4_fields :: "string \<Rightarrow> nat list option" where
  "ipv4_fields s =
     (let ps = split_char (CHR ''.'') s
      in if length ps \<noteq> 4 then None else all_some (map octet ps))"

definition parse_ipv4 :: "string \<Rightarrow> Addr option" where
  "parse_ipv4 s = map_option (\<lambda>bs. V4 (of_nat (be_val 256 bs))) (ipv4_fields s)"

text \<open>A group of hexadecimal digits, at most four, and what follows it.\<close>

definition hex_val :: "char \<Rightarrow> nat option" where
  "hex_val c =
     (let n = (of_char c :: nat)
      in if 48 \<le> n \<and> n \<le> 57 then Some (n - 48)
         else if 97 \<le> n \<and> n \<le> 102 then Some (n - 87)
         else if 65 \<le> n \<and> n \<le> 70 then Some (n - 55) else None)"

definition is_hex :: "char \<Rightarrow> bool" where
  "is_hex c \<longleftrightarrow> hex_val c \<noteq> None"

definition hex_group :: "string \<Rightarrow> (nat \<times> string) option" where
  "hex_group s =
     (let ds = takeWhile is_hex s
      in if ds = [] \<or> length ds > 4 then None
         else Some (be_val 16 (map (the \<circ> hex_val) ds), dropWhile is_hex s))"

text \<open>
  The loop of \<^verbatim>\<open>parseIPv6\<close>: the bytes so far, the place of the ellipsis, the rest of the
  text. It ends at sixteen bytes or at the end of the text.
\<close>

function v6_loop :: "nat list \<Rightarrow> nat option \<Rightarrow> string \<Rightarrow> (nat list \<times> nat option \<times> string) option" where
  "v6_loop bs ell s =
     (if length bs \<ge> 16 then Some (bs, ell, s)
      else
        (case hex_group s of
           None \<Rightarrow> None
         | Some (acc, rest) \<Rightarrow>
             (let bs' = bs @ [acc div 256, acc mod 256]
              in if rest = [] then Some (bs', ell, [])
                 else if hd rest = CHR ''.'' then
                   (if ell = None \<and> length bs \<noteq> 12 then None
                    else if length bs + 4 > 16 then None
                    else map_option (\<lambda>q. (bs @ q, ell, [])) (ipv4_fields s))
                 else if hd rest \<noteq> CHR '':'' then None
                 else if tl rest = [] then None
                 else if hd (tl rest) = CHR '':'' then
                   (if ell \<noteq> None then None
                    else if tl (tl rest) = [] then Some (bs', Some (length bs'), [])
                    else v6_loop bs' (Some (length bs')) (tl (tl rest)))
                 else v6_loop bs' ell (tl rest))))"
  by pat_completeness auto
termination
  by (relation "measure (\<lambda>(bs, ell, s). 16 - length bs)") auto

declare v6_loop.simps [simp del]

definition v6_bytes :: "string \<Rightarrow> nat list option" where
  "v6_bytes s =
     (let leading = prefix ''::'' s;
          s1 = (if leading then drop 2 s else s)
      in if leading \<and> s1 = [] then Some (replicate 16 0)
         else
           (case v6_loop [] (if leading then Some 0 else None) s1 of
              None \<Rightarrow> None
            | Some (bs, ell, rest) \<Rightarrow>
                if rest \<noteq> [] then None
                else if length bs < 16 then
                  (case ell of
                     None \<Rightarrow> None
                   | Some e \<Rightarrow> Some (take e bs @ replicate (16 - length bs) 0 @ drop e bs))
                else if ell \<noteq> None then None
                else Some bs))"

definition parse_ipv6 :: "string \<Rightarrow> Addr option" where
  "parse_ipv6 s =
     (case cut_char (CHR ''%'') s of
        None \<Rightarrow> map_option (\<lambda>bs. V6 (of_nat (be_val 256 bs)) []) (v6_bytes s)
      | Some (s', z) \<Rightarrow>
          if z = [] then None
          else map_option (\<lambda>bs. V6 (of_nat (be_val 256 bs)) z) (v6_bytes s'))"

text \<open>\<^verbatim>\<open>netip.ParseAddr\<close>: the first dot, colon or percent sign decides.\<close>

definition ParseAddr :: "string \<Rightarrow> Addr option" where
  "ParseAddr s =
     (case find (\<lambda>c. c = CHR ''.'' \<or> c = CHR '':'' \<or> c = CHR ''%'') s of
        None \<Rightarrow> None
      | Some c \<Rightarrow> if c = CHR ''.'' then parse_ipv4 s else if c = CHR '':'' then parse_ipv6 s else None)"

text \<open>\<^verbatim>\<open>Addr.String\<close>: an IPv6 address has its longest run of zero groups, the first of these, left out.\<close>

definition string4 :: "32 word \<Rightarrow> string" where
  "string4 w = join_char (CHR ''.'') (map (\<lambda>i. show_nat (unat (drop_bit (8 * (3 - i)) w) mod 256)) [0..<4])"

definition v6u16 :: "128 word \<Rightarrow> nat \<Rightarrow> nat" where
  "v6u16 w i = unat (drop_bit (16 * (7 - i)) w) mod 65536"

definition hex_char :: "nat \<Rightarrow> char" where
  "hex_char d = (if d < 10 then char_of (48 + d) else char_of (87 + d))"

fun show_hex :: "nat \<Rightarrow> string" where
  "show_hex n = (if n < 16 then [hex_char n] else show_hex (n div 16) @ [hex_char (n mod 16)])"

declare show_hex.simps [simp del]

definition zeros_at :: "nat list \<Rightarrow> nat \<Rightarrow> nat" where
  "zeros_at gs i = length (takeWhile (\<lambda>g. g = 0) (drop i gs))"

definition zero_run :: "nat list \<Rightarrow> (nat \<times> nat) option" where
  "zero_run gs =
     foldl (\<lambda>best i.
         let l = zeros_at gs i
         in if l \<ge> 2 \<and> l > (case best of None \<Rightarrow> 0 | Some (s, e) \<Rightarrow> e - s) then Some (i, i + l) else best)
       None [0..<length gs]"

definition groups_string :: "nat list \<Rightarrow> string" where
  "groups_string gs =
     (case zero_run gs of
        None \<Rightarrow> join_char (CHR '':'') (map show_hex gs)
      | Some (s, e) \<Rightarrow>
          join_char (CHR '':'') (map show_hex (take s gs)) @ ''::'' @ join_char (CHR '':'') (map show_hex (drop e gs)))"

definition string6 :: "128 word \<Rightarrow> string" where
  "string6 w = groups_string (map (v6u16 w) [0..<8])"

definition addr_string :: "Addr \<Rightarrow> string" where
  "addr_string a =
     (case a of
        V4 w \<Rightarrow> string4 w
      | V6 w z \<Rightarrow>
          (if Is4In6 a then ''::ffff:'' @ string4 (ucast w) else string6 w) @ (if z = [] then [] else CHR ''%'' # z))"

section \<open>Prefixes\<close>

record Prefix =
  paddr :: Addr
  pbits :: nat

definition PrefixFrom :: "Addr \<Rightarrow> nat \<Rightarrow> Prefix" where
  "PrefixFrom a n = \<lparr>paddr = WithZone a [], pbits = n\<rparr>"

definition last_cut :: "char \<Rightarrow> string \<Rightarrow> (string \<times> string) option" where
  "last_cut c s = map_option (\<lambda>(a, b). (rev b, rev a)) (cut_char c (rev s))"

definition ParsePrefix :: "string \<Rightarrow> Prefix option" where
  "ParsePrefix s =
     (case last_cut (CHR ''/'') s of
        None \<Rightarrow> None
      | Some (ip, bits) \<Rightarrow>
          (case ParseAddr ip of
             None \<Rightarrow> None
           | Some a \<Rightarrow>
               if zone a \<noteq> [] then None
               else if length bits > 1 \<and> \<not> (is_digit (hd bits) \<and> hd bits \<noteq> CHR ''0'') then None
               else
                 (case atoi bits of
                    None \<Rightarrow> None
                  | Some n \<Rightarrow> if n < 0 \<or> n > int (BitLen a) then None else Some (PrefixFrom a (nat n)))))"

fun masked_addr :: "Addr \<Rightarrow> nat \<Rightarrow> Addr" where
  "masked_addr (V4 w) n = V4 (w AND NOT (mask (32 - n)))"
| "masked_addr (V6 w _) n = V6 (w AND NOT (mask (128 - n))) []"

definition Masked :: "Prefix \<Rightarrow> Prefix" where
  "Masked p = \<lparr>paddr = masked_addr (paddr p) (pbits p), pbits = pbits p\<rparr>"

definition Contains :: "Prefix \<Rightarrow> Addr \<Rightarrow> bool" where
  "Contains p a =
     (case (paddr p, a) of
        (V4 x, V4 y) \<Rightarrow> drop_bit (32 - pbits p) (y XOR x) = 0
      | (V6 x _, V6 y z) \<Rightarrow> z = [] \<and> (y XOR x) AND NOT (mask (128 - pbits p)) = 0
      | _ \<Rightarrow> False)"

section \<open>Hosts and ports\<close>

text \<open>\<^verbatim>\<open>net.SplitHostPort\<close>: the host, when the text is a host and a port.\<close>

definition split_host_port :: "string \<Rightarrow> (string \<times> string) option" where
  "split_host_port s =
     (case last_cut (CHR '':'') s of
        None \<Rightarrow> None
      | Some (front, port) \<Rightarrow>
          if hd s = CHR ''['' then
            (case index_char (CHR '']'') s of
               None \<Rightarrow> None
             | Some e \<Rightarrow>
                 if Suc e \<noteq> length front then None
                 else if CHR ''['' \<in> set (drop 1 s) \<or> CHR '']'' \<in> set (drop (Suc e) s) then None
                 else Some (take (e - 1) (drop 1 s), port))
          else if CHR '':'' \<in> set front then None
          else if CHR ''['' \<in> set s \<or> CHR '']'' \<in> set s then None
          else Some (front, port))"

section \<open>The resolver\<close>

definition parseAddr :: "string \<Rightarrow> Addr option" where
  "parseAddr s0 =
     (let s = trim_space s0
      in if s = [] then None
         else
           (let host = (case split_host_port s of Some (h, _) \<Rightarrow> h | None \<Rightarrow> s);
                host = trim_prefix (trim_suffix host '']'') ''[''
            in map_option (\<lambda>a. WithZone (Unmap a) []) (ParseAddr host)))"

record Resolver =
  trusted :: "Prefix list"

datatype resolver_error = EmptyEntry | InvalidEntry string

fun parse_trusted :: "string list \<Rightarrow> Prefix list \<Rightarrow> resolver_error + Prefix list" where
  "parse_trusted [] acc = Inr acc"
| "parse_trusted (p0 # ps) acc =
     (let p = trim_space p0
      in if p = [] then Inl EmptyEntry
         else
           (case ParsePrefix p of
              Some pfx \<Rightarrow> parse_trusted ps (acc @ [Masked pfx])
            | None \<Rightarrow>
                (case ParseAddr p of
                   Some a \<Rightarrow> parse_trusted ps (acc @ [PrefixFrom (Unmap a) (BitLen (Unmap a))])
                 | None \<Rightarrow> Inl (InvalidEntry p))))"

definition NewResolver :: "string list \<Rightarrow> resolver_error + Resolver" where
  "NewResolver ps = map_sum id (\<lambda>t. \<lparr>trusted = t\<rparr>) (parse_trusted ps [])"

definition isTrusted :: "Resolver \<Rightarrow> Addr \<Rightarrow> bool" where
  "isTrusted r a = list_ex (\<lambda>p. Contains p a) (trusted r)"

text \<open>The hops of a header from the right; the last of the list is the leftmost hop.\<close>

fun walk_hops :: "Resolver \<Rightarrow> string list \<Rightarrow> string option" where
  "walk_hops r [] = None"
| "walk_hops r (item # hops) =
     (case parseAddr (trim_space item) of
        None \<Rightarrow> None
      | Some a \<Rightarrow> if hops = [] \<or> \<not> isTrusted r a then Some (addr_string a) else walk_hops r hops)"

definition fromHeader :: "Resolver \<Rightarrow> string \<Rightarrow> string option" where
  "fromHeader r v = (if v = [] then None else walk_hops r (rev (split_char (CHR '','') v)))"

record request =
  RemoteAddr :: string
  Header :: "string \<Rightarrow> string list"

definition header_get :: "request \<Rightarrow> string \<Rightarrow> string" where
  "header_get req h = (case Header req h of [] \<Rightarrow> [] | v # _ \<Rightarrow> v)"

definition xff :: string where "xff = ''X-Forwarded-For''"

definition headers :: "string list" where
  "headers = [xff, ''X-Real-Ip'']"

fun first_header :: "Resolver \<Rightarrow> request \<Rightarrow> string list \<Rightarrow> string option" where
  "first_header r req [] = None"
| "first_header r req (h # hs) =
     (case fromHeader r (header_get req h) of Some ip \<Rightarrow> Some ip | None \<Rightarrow> first_header r req hs)"

definition ClientIP :: "Resolver \<Rightarrow> request \<Rightarrow> string" where
  "ClientIP r req =
     (case parseAddr (RemoteAddr req) of
        None \<Rightarrow> []
      | Some peer \<Rightarrow>
          if \<not> isTrusted r peer then addr_string peer
          else (case first_header r req headers of Some ip \<Rightarrow> ip | None \<Rightarrow> addr_string peer))"

fun ignored_in :: "Resolver \<Rightarrow> request \<Rightarrow> string list \<Rightarrow> string \<times> string" where
  "ignored_in r req [] = ([], [])"
| "ignored_in r req (h # hs) =
     (if header_get req h = [] then ignored_in r req hs
      else
        (case parseAddr (RemoteAddr req) of
           None \<Rightarrow> ([], [])
         | Some a \<Rightarrow> if isTrusted r a then ([], []) else (h, addr_string a)))"

definition Ignored :: "Resolver \<Rightarrow> request \<Rightarrow> string \<times> string" where
  "Ignored r req = ignored_in r req headers"

text \<open>
  The middleware: a list that does not parse trusts nobody, and the first request with a
  header that is ignored is reported, once.
\<close>

definition stack_resolver :: "string list \<Rightarrow> Resolver" where
  "stack_resolver ps = (case NewResolver ps of Inr r \<Rightarrow> r | Inl _ \<Rightarrow> \<lparr>trusted = []\<rparr>)"

definition clientIP :: "Resolver \<Rightarrow> bool \<Rightarrow> request \<Rightarrow> bool \<times> (string \<times> string) option \<times> string" where
  "clientIP r warned req =
     (let (h, peer) = Ignored r req
      in if \<not> warned \<and> h \<noteq> [] then (True, Some (peer, h), ClientIP r req)
         else (warned, None, ClientIP r req))"

section \<open>What a list trusts\<close>

text \<open>The first \<open>n\<close> bits of two words agree.\<close>

definition same_top :: "nat \<Rightarrow> 'a::len word \<Rightarrow> 'a word \<Rightarrow> bool" where
  "same_top n x y \<longleftrightarrow> (\<forall>i < LENGTH('a). LENGTH('a) \<le> i + n \<longrightarrow> bit x i = bit y i)"

fun in_block :: "Addr \<Rightarrow> nat \<Rightarrow> Addr \<Rightarrow> bool" where
  "in_block (V4 x) n (V4 y) = same_top n x y"
| "in_block (V6 x _) n (V6 y _) = same_top n x y"
| "in_block _ _ _ = False"

text \<open>An entry of trusted_proxies covers an address: a block it is in, or the address itself.\<close>

definition entry_covers :: "string \<Rightarrow> Addr \<Rightarrow> bool" where
  "entry_covers p a =
     (case ParsePrefix p of
        Some pfx \<Rightarrow> in_block (paddr pfx) (pbits pfx) a
      | None \<Rightarrow> (case ParseAddr p of Some b \<Rightarrow> a = WithZone (Unmap b) [] | None \<Rightarrow> False))"

lemma drop_xor_same_top:
  fixes x y :: "'a::len word"
  shows "drop_bit (LENGTH('a) - n) (x XOR y) = 0 \<longleftrightarrow> same_top n x y"
proof
  assume l: "drop_bit (LENGTH('a) - n) (x XOR y) = 0"
  show "same_top n x y"
    unfolding same_top_def
  proof (intro allI impI)
    fix i assume "i < LENGTH('a)" "LENGTH('a) \<le> i + n"
    moreover from l have "bit (drop_bit (LENGTH('a) - n) (x XOR y)) (i - (LENGTH('a) - n)) = False" by simp
    ultimately show "bit x i = bit y i"
      by (simp add: bit_drop_bit_eq bit_xor_iff)
  qed
next
  assume "same_top n x y"
  then show "drop_bit (LENGTH('a) - n) (x XOR y) = 0"
    by (intro bit_word_eqI) (auto simp: bit_drop_bit_eq bit_xor_iff same_top_def dest: bit_imp_le_length)
qed

lemma and_mask_drop:
  fixes x :: "'a::len word"
  shows "x AND NOT (mask k) = 0 \<longleftrightarrow> drop_bit k x = 0"
proof -
  have "push_bit k (drop_bit k x) = x AND NOT (mask k)"
    by (rule bit_word_eqI) (auto simp: bit_simps)
  moreover have "push_bit k (drop_bit k x) = 0 \<longleftrightarrow> drop_bit k x = 0"
  proof
    assume "push_bit k (drop_bit k x) = 0"
    then have "bit (push_bit k (drop_bit k x)) (k + i) = False" for i by simp
    then have "\<not> bit x (k + i)" for i
      using bit_imp_le_length [of x "k + i"] by (auto simp: bit_simps)
    then show "drop_bit k x = 0"
      by (intro bit_word_eqI) (simp add: bit_simps)
  qed simp
  ultimately show ?thesis by simp
qed

lemma same_top_masked: "same_top n y (x AND NOT (mask (LENGTH('a) - n))) \<longleftrightarrow> same_top n y (x :: 'a::len word)"
  unfolding same_top_def by (auto simp: bit_simps)

lemma same_top_drop:
  fixes x y :: "'a::len word"
  assumes "same_top n x y" "LENGTH('a) \<le> k + n"
  shows "drop_bit k x = drop_bit k y"
proof (rule bit_word_eqI)
  fix i
  show "bit (drop_bit k x) i = bit (drop_bit k y) i"
    using assms bit_imp_le_length [of x "k + i"] bit_imp_le_length [of y "k + i"]
    by (auto simp: bit_drop_bit_eq same_top_def)
qed

lemma same_top_sym: "same_top n x y = same_top n y x"
  unfolding same_top_def by auto

lemma same_top_full: "same_top (LENGTH('a)) x y \<longleftrightarrow> x = (y :: 'a::len word)"
  unfolding same_top_def by (auto intro: bit_word_eqI)

lemma Contains_in_block: "zone a = [] \<Longrightarrow> Contains p a \<longleftrightarrow> in_block (paddr p) (pbits p) a"
  by (cases "paddr p"; cases a)
    (simp_all add: Contains_def and_mask_drop drop_xor_same_top [where 'a = 32, simplified]
      drop_xor_same_top [where 'a = 128, simplified] same_top_sym)

lemma in_block_masked: "in_block (masked_addr b n) n a \<longleftrightarrow> in_block b n a"
  by (cases b; cases a)
    (simp_all add: same_top_masked [where 'a = 32, simplified] same_top_masked [where 'a = 128, simplified] same_top_sym)

lemma in_block_full: "zone a = [] \<Longrightarrow> in_block (WithZone b []) (BitLen b) a \<longleftrightarrow> a = WithZone b []"
  by (cases b; cases a)
    (auto simp: BitLen_def same_top_full [where 'a = 32, simplified] same_top_full [where 'a = 128, simplified])

lemma parse_trusted_covers:
  assumes "zone a = []"
  shows "parse_trusted ps acc = Inr t \<Longrightarrow>
    list_ex (\<lambda>p. Contains p a) t \<longleftrightarrow>
    list_ex (\<lambda>p. Contains p a) acc \<or> (\<exists>p\<in>set ps. entry_covers (trim_space p) a)"
proof (induction ps arbitrary: acc)
  case (Cons p ps)
  show ?case
  proof (cases "ParsePrefix (trim_space p)")
    case (Some pfx)
    with Cons.prems have "parse_trusted ps (acc @ [Masked pfx]) = Inr t"
      by (simp add: Let_def split: if_splits)
    from Cons.IH [OF this] Some assms show ?thesis
      by (simp add: entry_covers_def Contains_in_block Masked_def in_block_masked disj_assoc)
  next
    case None
    with Cons.prems obtain b where b: "ParseAddr (trim_space p) = Some b"
      and "parse_trusted ps (acc @ [PrefixFrom (Unmap b) (BitLen (Unmap b))]) = Inr t"
      by (auto simp: Let_def split: if_splits option.splits)
    from Cons.IH [OF this(2)] None b assms show ?thesis
      by (simp add: entry_covers_def Contains_in_block PrefixFrom_def in_block_full disj_assoc)
  qed
qed simp

lemma isTrusted_covers:
  assumes "NewResolver ps = Inr r" "zone a = []"
  shows "isTrusted r a \<longleftrightarrow> (\<exists>p\<in>set ps. entry_covers (trim_space p) a)"
proof -
  from assms(1) obtain t where "parse_trusted ps [] = Inr t" "r = \<lparr>trusted = t\<rparr>"
    by (cases "parse_trusted ps []") (auto simp: NewResolver_def)
  with parse_trusted_covers [OF assms(2) this(1)] show ?thesis
    by (simp add: isTrusted_def)
qed

lemma Unmap_not_mapped: "\<not> Is4In6 (Unmap a)"
  by (cases a) (simp_all add: Unmap_def)

lemma Is4In6_zone [simp]: "Is4In6 (WithZone a z) = Is4In6 a"
  by (cases a) simp_all

lemma zone_with [simp]: "zone (WithZone a []) = []"
  by (cases a) simp_all

lemma parseAddr_plain: "parseAddr s = Some a \<Longrightarrow> zone a = [] \<and> \<not> Is4In6 a"
  by (auto simp: parseAddr_def Let_def Unmap_not_mapped split: if_splits)

section \<open>The text of an address\<close>

lemma be_val_snoc: "be_val b (ds @ [d]) = b * be_val b ds + d"
  by (simp add: be_val_def)

lemma be_val_digits:
  assumes "0 < b"
  shows "be_val b (map (\<lambda>i. n div b ^ (k - 1 - i) mod b) [0..<k]) = n mod b ^ k"
proof (induction k arbitrary: n)
  case (Suc k)
  have "map (\<lambda>i. n div b ^ (Suc k - 1 - i) mod b) [0..<k] = map (\<lambda>i. (n div b) div b ^ (k - 1 - i) mod b) [0..<k]"
  proof (rule map_cong [OF refl])
    fix i assume "i \<in> set [0..<k]"
    then have "Suc k - 1 - i = Suc (k - 1 - i)" by auto
    then show "n div b ^ (Suc k - 1 - i) mod b = (n div b) div b ^ (k - 1 - i) mod b"
      by (simp add: div_mult2_eq)
  qed
  then have "be_val b (map (\<lambda>i. n div b ^ (Suc k - 1 - i) mod b) [0..<k]) = n div b mod b ^ k"
    by (simp only: Suc [of "n div b"])
  then show ?case
    by (simp add: be_val_snoc mod_mult2_eq add.commute)
qed (simp add: be_val_def)

lemma word_digits:
  fixes w :: "'a::len word"
  assumes "LENGTH('a) = d * k"
  shows "be_val (2 ^ d) (map (\<lambda>i. unat (drop_bit (d * (k - 1 - i)) w) mod 2 ^ d) [0..<k]) = unat w"
proof -
  have "unat (drop_bit (d * j) w) = unat w div (2 ^ d) ^ j" for j
    unfolding unat_drop_bit_eq drop_bit_eq_div [of _ "unat w"] power_mult ..
  then have "be_val (2 ^ d) (map (\<lambda>i. unat (drop_bit (d * (k - 1 - i)) w) mod 2 ^ d) [0..<k])
      = unat w mod (2 ^ d) ^ k"
    using be_val_digits [of "2 ^ d" "unat w" k] by simp
  also have "\<dots> = unat w"
  proof -
    have "unat w < 2 ^ LENGTH('a)" by (rule unsigned_less)
    with assms show ?thesis by (simp add: power_mult)
  qed
  finally show ?thesis .
qed

lemma show_nat_first: "0 < n \<Longrightarrow> hd (show_nat n) \<noteq> CHR ''0''"
proof (induction n rule: show_nat.induct)
  case (1 n)
  show ?case
  proof (cases "n < 10")
    case True
    have "digit_val (digit_char n) \<noteq> digit_val (CHR ''0'')"
      using digit_char_props(2) [OF True] 1(2) by (simp add: digit_val_def)
    then have "digit_char n \<noteq> CHR ''0''" by auto
    with True show ?thesis by (simp add: show_nat.simps [of n])
  next
    case False
    with 1 show ?thesis by (simp add: show_nat.simps [of n] hd_append)
  qed
qed

lemma octet_show:
  assumes "n < 256"
  shows "octet (show_nat n) = Some n"
proof -
  have "\<not> (length (show_nat n) > 1 \<and> hd (show_nat n) = CHR ''0'')"
    using show_nat_first [of n] by (cases "n = 0") (simp_all add: show_nat.simps)
  with assms show_nat_digits [of n] show ?thesis by (simp add: octet_def)
qed

lemma all_some_map: "(\<And>x. x \<in> set xs \<Longrightarrow> f x = Some (g x)) \<Longrightarrow> all_some (map f xs) = Some (map g xs)"
  by (induction xs) auto

lemma show_nat_octets: "is_digit c \<noteq> True \<Longrightarrow> c \<notin> set (show_nat n)"
  using show_nat_digits [of n] by (auto simp: list_all_iff)

lemma ipv4_fields_string: "ipv4_fields (string4 w) = Some (map (\<lambda>i. unat (drop_bit (8 * (3 - i)) w) mod 256) [0..<4])"
proof -
  have "split_char (CHR ''.'') (string4 w) = map (\<lambda>i. show_nat (unat (drop_bit (8 * (3 - i)) w) mod 256)) [0..<4]"
    unfolding string4_def by (rule split_join_char) (auto intro!: show_nat_octets simp: is_digit_def)
  moreover have "all_some (map octet (map (\<lambda>i. show_nat (unat (drop_bit (8 * (3 - i)) w) mod 256)) [0..<4]))
      = Some (map (\<lambda>i. unat (drop_bit (8 * (3 - i)) w) mod 256) [0..<4])"
    unfolding map_map by (rule all_some_map) (simp add: octet_show)
  ultimately show ?thesis by (simp add: ipv4_fields_def del: upt.simps)
qed

lemma parse_ipv4_string: "parse_ipv4 (string4 w) = Some (V4 w)"
  using word_digits [of 8 4 w] by (simp add: parse_ipv4_def ipv4_fields_string)

lemma find_skip: "list_all (\<lambda>c. \<not> P c) xs \<Longrightarrow> find P (xs @ ys) = find P ys"
  by (induction xs) auto

lemma ParseAddr_string4: "ParseAddr (string4 w) = Some (V4 w)"
proof -
  obtain n rest where s: "string4 w = show_nat n @ CHR ''.'' # rest"
    by (simp add: string4_def upt_rec)
  have "list_all (\<lambda>c. \<not> (c = CHR ''.'' \<or> c = CHR '':'' \<or> c = CHR ''%'')) (show_nat n)"
    using show_nat_digits [of n] by (auto simp: list_all_iff is_digit_def)
  from find_skip [OF this, of "CHR ''.'' # rest"] show ?thesis
    unfolding ParseAddr_def s [symmetric] by (simp add: parse_ipv4_string s [symmetric])
qed

lemma hex_char_props:
  assumes "d < 16"
  shows "hex_val (hex_char d) = Some d" and "is_hex (hex_char d)"
proof -
  have "d \<in> {..<16}" using assms by simp
  then show "hex_val (hex_char d) = Some d"
    by (auto simp: hex_char_def hex_val_def Let_def)
  then show "is_hex (hex_char d)" by (simp add: is_hex_def)
qed

lemma show_hex_props: "list_all is_hex (show_hex n) \<and> be_val 16 (map (the \<circ> hex_val) (show_hex n)) = n \<and> show_hex n \<noteq> []"
proof (induction n rule: show_hex.induct)
  case (1 n)
  show ?case
  proof (cases "n < 16")
    case True
    then show ?thesis by (simp add: show_hex.simps [of n] hex_char_props be_val_def)
  next
    case False
    then show ?thesis using 1 [OF False]
      by (simp add: show_hex.simps [of n] hex_char_props be_val_snoc)
  qed
qed

lemma show_hex_length: "n < 16 ^ Suc k \<Longrightarrow> length (show_hex n) \<le> Suc k"
proof (induction k arbitrary: n)
  case 0
  then show ?case by (simp add: show_hex.simps)
next
  case (Suc k)
  then have "n div 16 < 16 ^ Suc k" by (simp add: less_mult_imp_div_less)
  with Suc.IH [of "n div 16"] show ?case
    by (subst show_hex.simps) simp
qed

definition no_hex_first :: "string \<Rightarrow> bool" where
  "no_hex_first s \<longleftrightarrow> s = [] \<or> \<not> is_hex (hd s)"

lemma hex_group_show:
  assumes "g < 65536" "no_hex_first rest"
  shows "hex_group (show_hex g @ rest) = Some (g, rest)"
proof -
  have h: "\<And>c. c \<in> set (show_hex g) \<Longrightarrow> is_hex c"
    using show_hex_props [of g] by (auto simp: list_all_iff)
  have "takeWhile is_hex rest = []" "dropWhile is_hex rest = rest"
    using assms(2) by (cases rest; simp add: no_hex_first_def)+
  then have "takeWhile is_hex (show_hex g @ rest) = show_hex g" "dropWhile is_hex (show_hex g @ rest) = rest"
    using h by simp_all
  moreover have "length (show_hex g) \<le> 4"
    using show_hex_length [of g 3] assms(1) by simp
  ultimately show ?thesis
    using show_hex_props [of g] by (simp add: hex_group_def Let_def)
qed

lemma no_hex_colon [simp]: "no_hex_first (CHR '':'' # s)" "no_hex_first []"
  by (simp_all add: no_hex_first_def is_hex_def hex_val_def Let_def)

lemma show_hex_first: "hd (show_hex g @ s) \<noteq> CHR '':''"
  using show_hex_props [of g] by (cases "show_hex g") (auto simp: is_hex_def hex_val_def Let_def)

definition group_bytes :: "nat list \<Rightarrow> nat list" where
  "group_bytes gs = concat (map (\<lambda>g. [g div 256, g mod 256]) gs)"

lemma group_bytes_simps [simp]:
  "group_bytes [] = []" "group_bytes (g # gs) = g div 256 # g mod 256 # group_bytes gs"
  "group_bytes (gs @ hs) = group_bytes gs @ group_bytes hs" "length (group_bytes gs) = 2 * length gs"
  by (induction gs) (simp_all add: group_bytes_def)

lemma group_bytes_val: "be_val 256 (group_bytes gs) = be_val 65536 gs"
proof (induction gs rule: rev_induct)
  case (snoc g gs)
  have "be_val 256 (group_bytes gs @ [g div 256, g mod 256]) = 256 * (256 * be_val 65536 gs + g div 256) + g mod 256"
    using snoc be_val_snoc [of 256 "group_bytes gs @ [g div 256]" "g mod 256"] be_val_snoc [of 256 "group_bytes gs"]
    by simp
  then show ?case by (simp add: be_val_snoc)
qed (simp add: be_val_def)

abbreviation hex_join :: "nat list \<Rightarrow> string" where
  "hex_join gs \<equiv> join_char (CHR '':'') (map show_hex gs)"

lemma hex_join_Cons: "gs \<noteq> [] \<Longrightarrow> hex_join (g # gs) = show_hex g @ CHR '':'' # hex_join gs"
  by (cases gs) simp_all

lemma hex_join_first: "gs \<noteq> [] \<Longrightarrow> hex_join gs \<noteq> [] \<and> hd (hex_join gs @ s) \<noteq> CHR '':''"
  using show_hex_props [of "hd gs"] show_hex_first [of "hd gs"]
  by (cases gs; cases "tl gs") (auto simp: hd_append)

lemma v6_loop_join:
  assumes "gs \<noteq> []" "list_all (\<lambda>g. g < 65536) gs" "length bs + 2 * length gs \<le> 16"
  shows "v6_loop bs ell (hex_join gs) = Some (bs @ group_bytes gs, ell, [])"
  using assms
proof (induction gs arbitrary: bs)
  case (Cons g gs)
  show ?case
  proof (cases "gs = []")
    case True
    with Cons.prems hex_group_show [of g "[]"] show ?thesis
      by (subst v6_loop.simps) simp
  next
    case False
    have g: "hex_group (show_hex g @ CHR '':'' # hex_join gs) = Some (g, CHR '':'' # hex_join gs)"
      using hex_group_show Cons.prems(2) by simp
    from False Cons have ih: "v6_loop (bs @ [g div 256, g mod 256]) ell (hex_join gs)
        = Some (bs @ group_bytes (g # gs), ell, [])"
      by simp
    have "\<not> length bs \<ge> 16" using Cons.prems(3) by simp
    with hex_join_first [OF False, of "[]"] show ?thesis
      unfolding hex_join_Cons [OF False] by (subst v6_loop.simps) (simp add: g ih [simplified])
  qed
qed simp

lemma v6_loop_ellipsis:
  assumes "gs \<noteq> []" "list_all (\<lambda>g. g < 65536) (gs @ hs)" "length bs + 2 * length gs + 2 * length hs < 16"
  shows "v6_loop bs None (hex_join gs @ ''::'' @ hex_join hs)
      = Some (bs @ group_bytes (gs @ hs), Some (length bs + 2 * length gs), [])"
  using assms
proof (induction gs arbitrary: bs)
  case (Cons g gs)
  have l: "\<not> length bs \<ge> 16" and lt: "g < 65536" using Cons.prems by simp_all
  show ?case
  proof (cases "gs = []")
    case True
    have g: "hex_group (show_hex g @ CHR '':'' # CHR '':'' # hex_join hs) = Some (g, CHR '':'' # CHR '':'' # hex_join hs)"
      by (rule hex_group_show [OF lt]) simp
    show ?thesis
    proof (cases "hs = []")
      case True
      with \<open>gs = []\<close> l g show ?thesis by (subst v6_loop.simps) simp
    next
      case False
      have "v6_loop (bs @ [g div 256, g mod 256]) (Some (length bs + 2)) (hex_join hs)
          = Some (bs @ group_bytes (g # hs), Some (length bs + 2), [])"
        using v6_loop_join [OF False, of "bs @ [g div 256, g mod 256]"] Cons.prems by simp
      with \<open>gs = []\<close> l g hex_join_first [OF False, of "[]"] show ?thesis
        by (subst v6_loop.simps) simp
    qed
  next
    case False
    let ?s = "hex_join gs @ ''::'' @ hex_join hs"
    have g: "hex_group (show_hex g @ CHR '':'' # ?s) = Some (g, CHR '':'' # ?s)"
      by (rule hex_group_show [OF lt]) simp
    have ih: "v6_loop (bs @ [g div 256, g mod 256]) None ?s
        = Some (bs @ group_bytes (g # gs @ hs), Some (length bs + 2 * length (g # gs)), [])"
      using Cons.IH [OF False] Cons.prems by simp
    from l hex_join_first [OF False, of "[]"] g show ?thesis
      unfolding hex_join_Cons [OF False] append.assoc append_Cons
      by (subst v6_loop.simps) (simp add: ih [simplified] Let_def)
  qed
qed simp

lemma zeros_at_zero: "k < zeros_at gs i \<Longrightarrow> gs ! (i + k) = 0" "i \<le> length gs \<Longrightarrow> i + zeros_at gs i \<le> length gs"
proof -
  assume k: "k < zeros_at gs i"
  then have "takeWhile (\<lambda>g. g = 0) (drop i gs) ! k = 0"
    using set_takeWhileD [OF nth_mem, of k "\<lambda>g. g = 0" "drop i gs"] by (simp add: zeros_at_def)
  moreover have "k < length (drop i gs)"
    using k length_takeWhile_le [of "\<lambda>g. g = 0" "drop i gs"] by (simp add: zeros_at_def)
  ultimately show "gs ! (i + k) = 0"
    using k by (simp add: takeWhile_nth zeros_at_def)
next
  assume "i \<le> length gs"
  then show "i + zeros_at gs i \<le> length gs"
    using length_takeWhile_le [of "\<lambda>g. g = 0" "drop i gs"] by (simp add: zeros_at_def)
qed

definition run_ok :: "nat list \<Rightarrow> nat \<times> nat \<Rightarrow> bool" where
  "run_ok gs r \<longleftrightarrow> fst r + 2 \<le> snd r \<and> snd r \<le> length gs \<and> (\<forall>i. fst r \<le> i \<and> i < snd r \<longrightarrow> gs ! i = 0)"

lemma run_ok_at: "i \<le> length gs \<Longrightarrow> 2 \<le> zeros_at gs i \<Longrightarrow> run_ok gs (i, i + zeros_at gs i)"
proof -
  assume i: "i \<le> length gs" "2 \<le> zeros_at gs i"
  have "gs ! j = 0" if "i \<le> j" "j < i + zeros_at gs i" for j
    using zeros_at_zero(1) [of "j - i" gs i] that by simp
  with i zeros_at_zero(2) [OF i(1)] show ?thesis by (simp add: run_ok_def)
qed

lemma zero_run_ok: "zero_run gs = Some r \<Longrightarrow> run_ok gs r"
proof -
  have "foldl (\<lambda>best i. let l = zeros_at gs i
         in if l \<ge> 2 \<and> l > (case best of None \<Rightarrow> 0 | Some (s, e) \<Rightarrow> e - s) then Some (i, i + l) else best)
      best is = Some r \<Longrightarrow> (\<And>r. best = Some r \<Longrightarrow> run_ok gs r) \<Longrightarrow> \<forall>i\<in>set is. i \<le> length gs \<Longrightarrow> run_ok gs r"
    for best "is"
  proof (induction "is" arbitrary: best)
    case (Cons i "is")
    show ?case
      by (rule Cons.IH [OF Cons.prems(1) [unfolded foldl_Cons]])
        (use Cons.prems run_ok_at in \<open>auto simp: Let_def split: if_splits\<close>)
  qed simp
  from this [of None "[0..<length gs]"] show "zero_run gs = Some r \<Longrightarrow> run_ok gs r"
    by (simp add: zero_run_def)
qed

lemma run_ok_split:
  assumes "run_ok gs (s, e)"
  shows "gs = take s gs @ replicate (e - s) 0 @ drop e gs" "s + 2 \<le> e" "e \<le> length gs"
proof -
  show l: "s + 2 \<le> e" "e \<le> length gs" using assms by (simp_all add: run_ok_def)
  have "take (e - s) (drop s gs) = replicate (e - s) 0"
    by (rule nth_equalityI) (use l assms in \<open>auto simp: run_ok_def\<close>)
  moreover have "drop s gs = take (e - s) (drop s gs) @ drop e gs"
    using l append_take_drop_id [of "e - s" "drop s gs"] by simp
  ultimately show "gs = take s gs @ replicate (e - s) 0 @ drop e gs"
    by (metis append_take_drop_id)
qed

lemma group_bytes_replicate: "group_bytes (replicate n 0) = replicate (2 * n) 0"
  by (induction n) simp_all

text \<open>The text of eight groups, the run of zeros left out, reads back as their bytes.\<close>

lemma v6_bytes_run:
  assumes run: "run_ok gs (s, e)" and gs: "list_all (\<lambda>g. g < 65536) gs" "length gs = 8"
  shows "v6_bytes (hex_join (take s gs) @ ''::'' @ hex_join (drop e gs)) = Some (group_bytes gs)"
proof -
  let ?a = "take s gs" and ?b = "drop e gs"
  note sp = run_ok_split [OF run]
  have b: "group_bytes gs = group_bytes ?a @ replicate (2 * (e - s)) 0 @ group_bytes ?b"
    by (subst sp(1)) (simp add: group_bytes_replicate)
  have len: "length ?a = s" "length ?b = 8 - e" "16 - (2 * s + 2 * (8 - e)) = 2 * (e - s)"
    using sp gs(2) by auto
  have lt: "list_all (\<lambda>g. g < 65536) (?a @ ?b)"
    using gs(1) by (auto simp: list_all_iff dest: in_set_takeD in_set_dropD)
  show ?thesis
  proof (cases "?a = []")
    case True
    with len(1) have "s = 0" by (simp only: list.size)
    show ?thesis
    proof (cases "?b = []")
      case True
      then have "e = 8" using len gs(2) sp(3) by simp
      with True b \<open>s = 0\<close> show ?thesis by (simp add: v6_bytes_def)
    next
      case False
      have "v6_loop [] (Some 0) (hex_join ?b) = Some (group_bytes ?b, Some 0, [])"
        using v6_loop_join [OF False, of "[]" "Some 0"] lt len(2) sp(2) by simp
      with b \<open>s = 0\<close> len sp(2) hex_join_first [OF False, of "[]"] show ?thesis
        by (simp add: v6_bytes_def Let_def)
    qed
  next
    case False
    have "\<not> prefix ''::'' (hex_join ?a @ ''::'' @ hex_join ?b)"
      using hex_join_first [OF False, of "''::'' @ hex_join ?b"] by (auto simp: prefix_def)
    moreover have "v6_loop [] None (hex_join ?a @ ''::'' @ hex_join ?b) = Some (group_bytes ?a @ group_bytes ?b, Some (2 * s), [])"
      using v6_loop_ellipsis [OF False lt, of "[]"] len sp(2,3) gs(2) by simp
    moreover have "length (group_bytes ?a) = 2 * s" "length (group_bytes ?a @ group_bytes ?b) < 16"
      using len sp(2,3) gs(2) by simp_all
    ultimately show ?thesis
      using b len by (simp add: v6_bytes_def Let_def del: length_take length_drop)
  qed
qed

lemma v6_bytes_full:
  assumes "list_all (\<lambda>g. g < 65536) gs" "length gs = 8"
  shows "v6_bytes (hex_join gs) = Some (group_bytes gs)"
proof -
  have ne: "gs \<noteq> []" using assms(2) by auto
  have "\<not> prefix ''::'' (hex_join gs)"
    using hex_join_first [OF ne, of "[]"] by (auto simp: prefix_def)
  moreover have "v6_loop [] None (hex_join gs) = Some (group_bytes gs, None, [])"
    using v6_loop_join [OF ne assms(1), of "[]"] assms(2) by simp
  ultimately show ?thesis using assms(2) by (simp add: v6_bytes_def Let_def)
qed

lemma v6_bytes_groups:
  assumes gs: "list_all (\<lambda>g. g < 65536) gs" "length gs = 8"
  shows "v6_bytes (groups_string gs) = Some (group_bytes gs)"
proof (cases "zero_run gs")
  case None
  with v6_bytes_full [OF gs] show ?thesis by (simp add: groups_string_def)
next
  case (Some r)
  obtain s e where r: "r = (s, e)" by (cases r)
  with Some v6_bytes_run [OF _ gs, of s e] zero_run_ok [OF Some] show ?thesis
    by (simp add: groups_string_def)
qed

lemma v6_bytes_string6: "v6_bytes (string6 w) = Some (group_bytes (map (v6u16 w) [0..<8]))"
  unfolding string6_def by (rule v6_bytes_groups) (auto simp: list_all_iff v6u16_def)

lemma hex_join_chars: "c \<in> set (hex_join gs) \<Longrightarrow> is_hex c \<or> c = CHR '':''"
proof (induction gs)
  case (Cons g gs)
  then show ?case
    using show_hex_props [of g] by (cases gs) (auto simp: list_all_iff)
qed simp

lemma string6_chars: "c \<in> set (string6 w) \<Longrightarrow> is_hex c \<or> c = CHR '':''"
  unfolding string6_def groups_string_def by (auto split: option.splits dest: hex_join_chars simp del: map_map)

lemma string6_colon: "CHR '':'' \<in> set (string6 w)"
  by (auto simp: string6_def groups_string_def upt_rec split: option.splits)

lemma ParseAddr_string6: "ParseAddr (string6 w) = Some (V6 w [])"
proof -
  have nots: "CHR ''.'' \<notin> set (string6 w)" "CHR ''%'' \<notin> set (string6 w)"
    using string6_chars [of "CHR ''.''" w] string6_chars [of "CHR ''%''" w]
    by (auto simp: is_hex_def hex_val_def Let_def)
  obtain a b where s: "string6 w = a @ CHR '':'' # b" "CHR '':'' \<notin> set a"
    using split_list_first [OF string6_colon] by blast
  have "list_all (\<lambda>c. \<not> (c = CHR ''.'' \<or> c = CHR '':'' \<or> c = CHR ''%'')) a"
    using s nots by (auto simp: list_all_iff)
  from find_skip [OF this, of "CHR '':'' # b"]
  have f: "find (\<lambda>c. c = CHR ''.'' \<or> c = CHR '':'' \<or> c = CHR ''%'') (string6 w) = Some (CHR '':'')"
    unfolding s(1) by simp
  have "be_val 256 (group_bytes (map (v6u16 w) [0..<8])) = unat w"
    using word_digits [of 16 8 w] by (simp add: group_bytes_val v6u16_def [abs_def] del: upt.simps)
  then have "parse_ipv6 (string6 w) = Some (V6 w [])"
    using nots(2) by (simp add: parse_ipv6_def cut_char_def index_char_None v6_bytes_string6 del: upt.simps)
  with f show ?thesis by (simp add: ParseAddr_def)
qed

lemma ParseAddr_addr_string: "zone a = [] \<Longrightarrow> \<not> Is4In6 a \<Longrightarrow> ParseAddr (addr_string a) = Some a"
  by (cases a) (simp_all add: addr_string_def ParseAddr_string4 ParseAddr_string6)

section \<open>The walk\<close>

lemma split_char_cut: "split_char c (a @ c # b) = split_char c a @ split_char c b"
  by (induction a) (auto split: list.splits)

text \<open>
  What trusted proxies append to a header: the address of the client as the first of them
  saw it, and the addresses of the proxies in between, which the resolver trusts.
\<close>

definition trusted_hop :: "Resolver \<Rightarrow> string \<Rightarrow> bool" where
  "trusted_hop r h \<longleftrightarrow> (case parseAddr (trim_space h) of None \<Rightarrow> False | Some b \<Rightarrow> isTrusted r b)"

definition appended :: "Resolver \<Rightarrow> string \<Rightarrow> string list \<Rightarrow> Addr \<Rightarrow> bool" where
  "appended r client ts a \<longleftrightarrow>
     parseAddr (trim_space client) = Some a \<and> \<not> isTrusted r a \<and> list_all (trusted_hop r) ts \<and>
     list_all (\<lambda>h. CHR '','' \<notin> set h) (client # ts)"

lemma walk_trusted:
  "list_all (trusted_hop r) ts \<Longrightarrow> rest \<noteq> [] \<Longrightarrow> walk_hops r (ts @ rest) = walk_hops r rest"
  by (induction ts) (auto simp: trusted_hop_def split: option.splits)

lemma appended_split:
  "appended r client ts a \<Longrightarrow> split_char (CHR '','') (join_char (CHR '','') (client # ts)) = client # ts"
  by (rule split_join_char) (auto simp: appended_def list_all_iff)

lemma blank_hop: "parseAddr (trim_space []) = None"
  by code_simp

lemma appended_nonempty:
  assumes "appended r client ts a"
  shows "join_char (CHR '','') (client # ts) \<noteq> []"
proof
  assume j: "join_char (CHR '','') (client # ts) = []"
  have "client # ts = [[]]"
    using appended_split [OF assms] unfolding j by simp
  then show False
    using assms blank_hop by (simp add: appended_def)
qed

lemma fromHeader_appended:
  assumes "appended r client ts a" "v = join_char (CHR '','') (client # ts) \<or> v = spoof @ CHR '','' # join_char (CHR '','') (client # ts)"
  shows "fromHeader r v = Some (addr_string a)"
proof -
  obtain pre where "split_char (CHR '','') v = pre @ client # ts"
    using assms(2) appended_split [OF assms(1)] by (auto simp: split_char_cut)
  then have "walk_hops r (rev (split_char (CHR '','') v)) = walk_hops r (rev ts @ client # rev pre)"
    by simp
  also have "\<dots> = walk_hops r (client # rev pre)"
    using assms(1) by (intro walk_trusted) (simp_all add: appended_def list_all_iff)
  also have "\<dots> = Some (addr_string a)"
    using assms(1) by (simp add: appended_def)
  finally show ?thesis
    using assms(2) appended_nonempty [OF assms(1)] by (auto simp: fromHeader_def)
qed

section \<open>Properties\<close>

text \<open>An address is trusted exactly when an entry of trusted_proxies covers it: it is the address
  of the entry, or its first bits are those of the block of the entry, as many as the block
  names.\<close>

theorem clientip_trust_exact:
  assumes "NewResolver ps = Inr r" "parseAddr s = Some a"
  shows "isTrusted r a \<longleftrightarrow> list_ex (\<lambda>p. entry_covers (trim_space p) a) ps"
  using isTrusted_covers [OF assms(1)] parseAddr_plain [OF assms(2)] by (simp add: list_ex_iff)

text \<open>C13: A client does not choose its own address. When no entry of trusted_proxies covers the peer,
  the address is the peer's, whatever the headers say. When the peer is trusted, and the
  proxies appended the address of the client and addresses of their own to X-Forwarded-For,
  the address is the one they appended, whatever the client had put in front of it.\<close>

theorem clientip_not_spoofed:
  assumes "NewResolver ps = Inr r" "parseAddr (RemoteAddr req) = Some peer"
  shows "(\<not> list_ex (\<lambda>p. entry_covers (trim_space p) peer) ps \<longrightarrow> ClientIP r req = addr_string peer) \<and>
    (isTrusted r peer \<and> appended r client ts a \<and>
       (header_get req xff = join_char (CHR '','') (client # ts) \<or>
        header_get req xff = spoof @ CHR '','' # join_char (CHR '','') (client # ts)) \<longrightarrow>
     ClientIP r req = addr_string a)"
proof (intro conjI impI)
  assume "\<not> list_ex (\<lambda>p. entry_covers (trim_space p) peer) ps"
  then have "\<not> isTrusted r peer"
    using isTrusted_covers [OF assms(1)] parseAddr_plain [OF assms(2)] by (simp add: list_ex_iff)
  with assms(2) show "ClientIP r req = addr_string peer" by (simp add: ClientIP_def)
next
  assume h: "isTrusted r peer \<and> appended r client ts a \<and>
       (header_get req xff = join_char (CHR '','') (client # ts) \<or>
        header_get req xff = spoof @ CHR '','' # join_char (CHR '','') (client # ts))"
  then have "fromHeader r (header_get req xff) = Some (addr_string a)"
    using fromHeader_appended by blast
  with h assms(2) show "ClientIP r req = addr_string a"
    by (simp add: ClientIP_def headers_def)
qed

text \<open>The text of a resolved address reads back as that address, so that two clients share a text
  only when they share the address, in whatever spelling it arrived.\<close>

theorem clientip_canonical:
  assumes "parseAddr s = Some a" "parseAddr t = Some b"
  shows "ParseAddr (addr_string a) = Some a \<and> (addr_string a = addr_string b \<longleftrightarrow> a = b)"
  using ParseAddr_addr_string parseAddr_plain [OF assms(1)] parseAddr_plain [OF assms(2)]
  by (metis option.inject)

text \<open>A block written with IPv4-mapped addresses is accepted and trusts nobody: the addresses of
  requests are unmapped before they are compared, the block is not, while a single mapped
  address is.\<close>

theorem clientip_mapped_block:
  "\<exists>r. NewResolver [''::ffff:10.0.0.0/104''] = Inr r \<and> (\<forall>s a. parseAddr s = Some a \<longrightarrow> \<not> isTrusted r a)"
proof (intro exI conjI allI impI)
  let ?p = "\<lparr>paddr = V6 0xffff0a000000 [], pbits = 104\<rparr>"
  show "NewResolver [''::ffff:10.0.0.0/104''] = Inr \<lparr>trusted = [?p]\<rparr>"
    by code_simp
  fix s a
  assume "parseAddr s = Some a"
  then have a: "zone a = []" "\<not> Is4In6 a" using parseAddr_plain by blast+
  show "\<not> isTrusted \<lparr>trusted = [?p]\<rparr> a"
  proof
    assume "isTrusted \<lparr>trusted = [?p]\<rparr> a"
    then have c: "in_block (V6 0xffff0a000000 []) 104 a"
      by (simp add: isTrusted_def Contains_in_block [OF a(1)])
    then obtain w where w: "a = V6 w []" and t: "same_top 104 0xffff0a000000 w"
      using a(1) by (cases a) auto
    have "drop_bit 32 w = drop_bit 32 (0xffff0a000000 :: 128 word)"
      using same_top_drop [OF t, of 32] by simp
    with a(2) w show False by simp
  qed
qed

definition demo_request :: "string list \<Rightarrow> request" where
  "demo_request lines = \<lparr>RemoteAddr = ''10.0.0.5:9000'', Header = (\<lambda>h. if h = xff then lines else [])\<rparr>"

definition demo_resolver :: Resolver where
  "demo_resolver = \<lparr>trusted = [\<lparr>paddr = V4 0x0a000000, pbits = 8\<rparr>]\<rparr>"


section \<open>Witnesses\<close>

lemma demo_resolver_new: "NewResolver [''10.0.0.0/8''] = Inr demo_resolver"
  by code_simp

lemma demo_untrusted: "\<not> isTrusted demo_resolver (V4 0xcb007107)"
  by code_simp

theorem clientip_trust_exact_witness:
  "isTrusted demo_resolver (V4 0x0a000005) \<and> list_ex (\<lambda>p. entry_covers (trim_space p) (V4 0x0a000005)) [''10.0.0.0/8'']"
proof -
  have p: "parseAddr ''[::ffff:10.0.0.5]:80'' = Some (V4 0x0a000005)" by code_simp
  have t: "isTrusted demo_resolver (V4 0x0a000005)" by code_simp
  with clientip_trust_exact [OF demo_resolver_new p] show ?thesis by simp
qed

theorem clientip_not_spoofed_witness:
  "ClientIP demo_resolver (demo_request [''1.1.1.1, junk, 203.0.113.7, 10.0.0.9'']) = ''203.0.113.7'' \<and>
   ClientIP demo_resolver \<lparr>RemoteAddr = ''203.0.113.7:1'', Header = (\<lambda>h. [''1.1.1.1''])\<rparr> = ''203.0.113.7''"
proof
  have a: "appended demo_resolver '' 203.0.113.7'' ['' 10.0.0.9''] (V4 0xcb007107)" by code_simp
  have p: "parseAddr (RemoteAddr (demo_request [''1.1.1.1, junk, 203.0.113.7, 10.0.0.9''])) = Some (V4 0x0a000005)" by code_simp
  have t: "isTrusted demo_resolver (V4 0x0a000005)" by code_simp
  have h: "header_get (demo_request [''1.1.1.1, junk, 203.0.113.7, 10.0.0.9'']) xff =
      ''1.1.1.1, junk'' @ CHR '','' # join_char (CHR '','') ('' 203.0.113.7'' # ['' 10.0.0.9''])"
    by (simp add: header_get_def demo_request_def)
  have s: "addr_string (V4 0xcb007107) = ''203.0.113.7''" by code_simp
  from clientip_not_spoofed [OF demo_resolver_new p] a t h s
  show "ClientIP demo_resolver (demo_request [''1.1.1.1, junk, 203.0.113.7, 10.0.0.9'']) = ''203.0.113.7''"
    by metis
next
  let ?r = "\<lparr>RemoteAddr = ''203.0.113.7:1'', Header = (\<lambda>h. [''1.1.1.1''])\<rparr>"
  have p: "parseAddr (RemoteAddr ?r) = Some (V4 0xcb007107)" by code_simp
  have n: "\<not> list_ex (\<lambda>p. entry_covers (trim_space p) (V4 0xcb007107)) [''10.0.0.0/8'']" 
    using isTrusted_covers [OF demo_resolver_new, of "V4 0xcb007107"] by (simp add: demo_untrusted)
  have s: "addr_string (V4 0xcb007107) = ''203.0.113.7''" by code_simp
  from clientip_not_spoofed [OF demo_resolver_new p] n s
  show "ClientIP demo_resolver ?r = ''203.0.113.7''" by metis
qed

theorem clientip_canonical_witness:
  "ParseAddr (addr_string (V6 0x20010db8000000000000000000000007 [])) = Some (V6 0x20010db8000000000000000000000007 [])"
proof -
  have "parseAddr ''[2001:DB8:0:0::7%eth0]:443'' = Some (V6 0x20010db8000000000000000000000007 [])" by code_simp
  from clientip_canonical [OF this this] show ?thesis by simp
qed

theorem clientip_mapped_block_witness:
  "\<exists>r. NewResolver [''::ffff:10.0.0.0/104''] = Inr r \<and> \<not> isTrusted r (V4 0x0a000005)"
proof -
  have "parseAddr ''::ffff:10.0.0.5'' = Some (V4 0x0a000005)" by code_simp
  with clientip_mapped_block show ?thesis by blast
qed

end
