(* ===== verification/Limiter.thy ===== *)
theory Limiter
  imports Chok_Prelude "HOL-Library.AList"
begin

text \<open>
  The login rate limiter (\<^verbatim>\<open>identity/ratelimit.go\<close>): a table of recent attempts per key,
  a sliding window, a hard cap with eviction of the entry seen longest ago, and the
  background cleanup with its single-flight flag and the barrier in \<^verbatim>\<open>Close\<close>. Tables are
  association lists with distinct keys. Go iterates over a map in an order of its own, a
  fresh one each time; where the order can matter it is the parameter \<open>iter\<close>, any
  rearrangement of the table.
\<close>

section \<open>State\<close>

record limiterEntry =
  attempts :: "instant list"
  lastSeen :: instant

type_synonym limiter_table = "(string \<times> limiterEntry) list"

record loginLimiter =
  window :: duration
  threshold :: int
  ipThreshold :: int
  entries :: limiter_table
  calls :: int
  cleaning :: bool
  wg :: nat
  lclosed :: bool

record limiterKey =
  Name :: string
  Value :: string
  ip :: bool

definition maxLimiterEntries :: nat where
  "maxLimiterEntries = 100000"

definition cleanupWatermark :: nat where
  "cleanupWatermark = maxLimiterEntries * 3 div 4"

definition newLoginLimiter :: "duration \<Rightarrow> int \<Rightarrow> int \<Rightarrow> loginLimiter" where
  "newLoginLimiter win limit ipLimit =
     \<lparr>window = win, threshold = limit, ipThreshold = ipLimit, entries = [], calls = 0,
      cleaning = False, wg = 0, lclosed = False\<rparr>"

definition ipKey :: "string \<Rightarrow> string \<Rightarrow> limiterKey" where
  "ipKey name val = \<lparr>Name = name, Value = val, ip = True\<rparr>"

definition bucket :: "limiterKey \<Rightarrow> string" where
  "bucket k = Name k @ [CHR 0x00] @ Value k"

definition counts_key :: "loginLimiter \<Rightarrow> limiterKey \<Rightarrow> bool" where
  "counts_key l k \<longleftrightarrow> Value k \<noteq> [] \<and> (\<not> ip k \<or> ipThreshold l > 0)"

section \<open>Operations\<close>

definition count_after :: "instant \<Rightarrow> instant list \<Rightarrow> nat" where
  "count_after cutoff ts = length (filter (\<lambda>t. cutoff < t) ts)"

definition key_limit :: "loginLimiter \<Rightarrow> limiterKey \<Rightarrow> int" where
  "key_limit l k = (if ip k then ipThreshold l else threshold l)"

fun check_keys :: "instant \<Rightarrow> loginLimiter \<Rightarrow> limiterKey list \<Rightarrow> bool \<times> string" where
  "check_keys cutoff l [] = (True, [])"
| "check_keys cutoff l (k # ks) =
     (if \<not> counts_key l k then check_keys cutoff l ks
      else case map_of (entries l) (bucket k) of
        None \<Rightarrow> check_keys cutoff l ks
      | Some e \<Rightarrow>
          if int (count_after cutoff (attempts e)) \<ge> key_limit l k then (False, Name k)
          else check_keys cutoff l ks)"

definition check :: "instant \<Rightarrow> limiterKey list \<Rightarrow> loginLimiter \<Rightarrow> bool \<times> string" where
  "check now ks l = check_keys (now - window l) l ks"

text \<open>The scan for the oldest entry, with the best one so far.\<close>

fun oldest :: "limiter_table \<Rightarrow> (string \<times> instant) option \<Rightarrow> (string \<times> instant) option" where
  "oldest [] best = best"
| "oldest ((k, e) # es) best =
     oldest es (case best of
        None \<Rightarrow> Some (k, lastSeen e)
      | Some (k0, t0) \<Rightarrow> if lastSeen e < t0 then Some (k, lastSeen e) else Some (k0, t0))"

definition evictOldestLocked :: "(limiter_table \<Rightarrow> limiter_table) \<Rightarrow> loginLimiter \<Rightarrow> loginLimiter" where
  "evictOldestLocked iter l =
     (case oldest (iter (entries l)) None of
        None \<Rightarrow> l
      | Some (k, t) \<Rightarrow> l\<lparr>entries := AList.delete k (entries l)\<rparr>)"

definition prune :: "instant \<Rightarrow> limiterEntry \<Rightarrow> limiterEntry" where
  "prune cutoff e = e\<lparr>attempts := filter (\<lambda>t. cutoff < t) (attempts e)\<rparr>"

definition bump :: "instant \<Rightarrow> duration \<Rightarrow> limiterEntry \<Rightarrow> limiterEntry" where
  "bump now win e = \<lparr>attempts = attempts (prune (now - win) e) @ [now], lastSeen = now\<rparr>"

definition make_room :: "(limiter_table \<Rightarrow> limiter_table) \<Rightarrow> loginLimiter \<Rightarrow> loginLimiter" where
  "make_room iter l =
     (if length (entries l) \<ge> maxLimiterEntries then evictOldestLocked iter l else l)"

definition recordLocked ::
  "(limiter_table \<Rightarrow> limiter_table) \<Rightarrow> string \<Rightarrow> instant \<Rightarrow> loginLimiter \<Rightarrow> loginLimiter" where
  "recordLocked iter key now l =
     (case map_of (entries l) key of
        Some e \<Rightarrow> l\<lparr>entries := AList.update key (bump now (window l) e) (entries l)\<rparr>
      | None \<Rightarrow>
          (let l1 = make_room iter l; e = \<lparr>attempts = [], lastSeen = 0\<rparr>
           in l1\<lparr>entries := AList.update key (bump now (window l) e) (entries l1)\<rparr>))"

definition recordKeys ::
  "(limiter_table \<Rightarrow> limiter_table) \<Rightarrow> limiterKey list \<Rightarrow> instant \<Rightarrow> loginLimiter \<Rightarrow> loginLimiter" where
  "recordKeys iter ks now l =
     fold (\<lambda>k l. if counts_key l k then recordLocked iter (bucket k) now l else l) ks l"

text \<open>
  \<open>record\<close>: the locked part answers whether the caller goes on to start a cleanup; the
  attempt to start one is the compare-and-swap \<open>start_cleanup\<close>, outside the lock.
\<close>

definition record_locked ::
  "(limiter_table \<Rightarrow> limiter_table) \<Rightarrow> limiterKey list \<Rightarrow> instant \<Rightarrow> loginLimiter \<Rightarrow> bool \<times> loginLimiter" where
  "record_locked iter ks now l =
     (let l1 = recordKeys iter ks now l; l2 = l1\<lparr>calls := calls l1 + 1\<rparr>;
          needsCleanup = (length (entries l2) \<ge> cleanupWatermark \<or> calls l2 mod 100 = 0)
      in (\<not> (lclosed l2 \<or> \<not> needsCleanup), l2))"

definition start_cleanup :: "loginLimiter \<Rightarrow> bool \<times> loginLimiter" where
  "start_cleanup l = (if cleaning l then (False, l) else (True, l\<lparr>cleaning := True\<rparr>))"

definition cleanupLocked :: "instant \<Rightarrow> loginLimiter \<Rightarrow> loginLimiter" where
  "cleanupLocked now l =
     l\<lparr>entries := filter (\<lambda>(k, e). list_ex (\<lambda>t. now - window l < t) (attempts e)) (entries l)\<rparr>"

definition close_limiter :: "loginLimiter \<Rightarrow> loginLimiter" where
  "close_limiter l = l\<lparr>lclosed := True\<rparr>"

text \<open>
  \<open>throttle\<close>: \<open>None\<close> is the throttle switched off. \<open>t1\<close> and \<open>t2\<close> are the clock readings
  of \<open>check\<close> and \<open>record\<close>; the flag tells whether a cleanup is to be started.
\<close>

record rate_limited =
  rl_what :: string
  rl_retry_after :: int

definition throttle ::
  "(limiter_table \<Rightarrow> limiter_table) \<Rightarrow> instant \<Rightarrow> instant \<Rightarrow> duration \<Rightarrow> string \<Rightarrow> limiterKey list \<Rightarrow>
   loginLimiter option \<Rightarrow> rate_limited option \<times> bool \<times> loginLimiter option" where
  "throttle iter t1 t2 win what ks lo =
     (case lo of
        None \<Rightarrow> (None, False, None)
      | Some l \<Rightarrow>
          if \<not> fst (check t1 ks l)
          then (Some \<lparr>rl_what = what, rl_retry_after = max (win div second_ns) 1\<rparr>, False, Some l)
          else (let (start, l') = record_locked iter ks t2 l in (None, start, Some l')))"

section \<open>The table\<close>

definition entry_attempts :: "loginLimiter \<Rightarrow> string \<Rightarrow> instant list" where
  "entry_attempts l b = (case map_of (entries l) b of None \<Rightarrow> [] | Some e \<Rightarrow> attempts e)"

definition permutes :: "(limiter_table \<Rightarrow> limiter_table) \<Rightarrow> bool" where
  "permutes iter \<longleftrightarrow> (\<forall>es. mset (iter es) = mset es)"

definition entry_ok :: "instant \<Rightarrow> limiterEntry \<Rightarrow> bool" where
  "entry_ok now e \<longleftrightarrow> attempts e \<noteq> [] \<and> last (attempts e) = lastSeen e \<and>
     sorted (attempts e) \<and> lastSeen e \<le> now"

definition table_ok :: "instant \<Rightarrow> loginLimiter \<Rightarrow> bool" where
  "table_ok now l \<longleftrightarrow> distinct (map fst (entries l)) \<and> length (entries l) \<le> maxLimiterEntries \<and>
     (\<forall>(k, e) \<in> set (entries l). entry_ok now e)"

lemma count_after_simps [simp]:
  "count_after c [] = 0"
  "count_after c (ts @ us) = count_after c ts + count_after c us"
  "count_after c (t # ts) = (if c < t then 1 else 0) + count_after c ts"
  by (simp_all add: count_after_def)

lemma count_after_filter: "d \<le> c \<Longrightarrow> count_after c (filter (\<lambda>t. d < t) ts) = count_after c ts"
  by (induction ts) auto

lemma oldest_from:
  "\<exists>k t. oldest es (Some (k0, t0)) = Some (k, t) \<and> t \<le> t0 \<and>
     ((k, t) = (k0, t0) \<or> (\<exists>e. (k, e) \<in> set es \<and> t = lastSeen e)) \<and>
     (\<forall>(k', e') \<in> set es. t \<le> lastSeen e')"
proof (induction es arbitrary: k0 t0)
  case (Cons a es)
  obtain k' e where a: "a = (k', e)" by (cases a)
  let ?b = "if lastSeen e < t0 then (k', lastSeen e) else (k0, t0)"
  obtain k1 t1 where b: "?b = (k1, t1)" by (rule prod.exhaust)
  from Cons.IH [of k1 t1] obtain k t where r: "oldest es (Some (k1, t1)) = Some (k, t)" "t \<le> t1"
    "(k, t) = (k1, t1) \<or> (\<exists>e. (k, e) \<in> set es \<and> t = lastSeen e)"
    "\<forall>(k', e') \<in> set es. t \<le> lastSeen e'" by blast
  have "oldest (a # es) (Some (k0, t0)) = Some (k, t)"
    using r(1) b by (simp add: a split: if_splits)
  moreover have "t \<le> t0" "t \<le> lastSeen e" using r(2) b by (auto split: if_splits)
  moreover have "(k, t) = (k0, t0) \<or> (\<exists>e. (k, e) \<in> set (a # es) \<and> t = lastSeen e)"
    using r(3) b by (auto simp: a split: if_splits)
  ultimately show ?case using r(4)
    by (intro exI [of _ k] exI [of _ t]) (simp add: a)
qed simp

lemma oldest_spec:
  assumes "es \<noteq> []"
  shows "\<exists>k e. oldest es None = Some (k, lastSeen e) \<and> (k, e) \<in> set es \<and>
    (\<forall>(k', e') \<in> set es. lastSeen e \<le> lastSeen e')"
proof -
  obtain k0 e0 es' where es: "es = (k0, e0) # es'" using assms by (cases es) auto
  from oldest_from [of es' k0 "lastSeen e0"] obtain k t
    where r: "oldest es' (Some (k0, lastSeen e0)) = Some (k, t)" "t \<le> lastSeen e0"
      "(k, t) = (k0, lastSeen e0) \<or> (\<exists>e. (k, e) \<in> set es' \<and> t = lastSeen e)"
      "\<forall>(k', e') \<in> set es'. t \<le> lastSeen e'" by blast
  then obtain e where "(k, e) \<in> set es" "t = lastSeen e" by (auto simp: es)
  with r show ?thesis by (intro exI [of _ k] exI [of _ e]) (simp add: es)
qed

lemma map_of_iff_distinct:
  "distinct (map fst es) \<Longrightarrow> map_of es k = Some e \<longleftrightarrow> (k, e) \<in> set es"
  by simp

lemma keys_delete: "fst ` set (AList.delete k es) = fst ` set es - {k}"
  by (induction es) auto

lemma length_delete:
  "distinct (map fst es) \<Longrightarrow> k \<in> fst ` set es \<Longrightarrow> length (AList.delete k es) = length es - 1"
proof (induction es)
  case (Cons a es)
  have gone: "k \<notin> fst ` set es \<Longrightarrow> AList.delete k es = es" by (simp add: delete_id)
  have "k \<in> fst ` set es \<Longrightarrow> 0 < length es" by auto
  with Cons gone show ?case by (cases "fst a = k") (auto simp del: length_greater_0_conv)
qed simp

lemma length_update:
  "length (AList.update k v es) = (if k \<in> fst ` set es then length es else Suc (length es))"
  by (induction es) auto

lemma evict_spec:
  assumes "permutes iter" and "distinct (map fst (entries l))" and "entries l \<noteq> []"
  obtains k e where "(k, e) \<in> set (entries l)" "\<forall>(k', e') \<in> set (entries l). lastSeen e \<le> lastSeen e'"
    "evictOldestLocked iter l = l\<lparr>entries := AList.delete k (entries l)\<rparr>"
proof -
  have s: "set (iter (entries l)) = set (entries l)"
    using assms(1) unfolding permutes_def by (metis set_mset_mset)
  then have "iter (entries l) \<noteq> []" using assms(3) by auto
  from oldest_spec [OF this]
  obtain k e where "oldest (iter (entries l)) None = Some (k, lastSeen e)" "(k, e) \<in> set (iter (entries l))"
    "\<forall>(k', e') \<in> set (iter (entries l)). lastSeen e \<le> lastSeen e'" by auto
  with s that show thesis by (simp add: evictOldestLocked_def)
qed

section \<open>The table against the history\<close>

text \<open>
  What the limiter has recorded, as a list of buckets and instants, and how the table
  tracks it: within the window the table never counts more than was recorded, and counts
  exactly what was recorded while at most \<^verbatim>\<open>maxLimiterEntries\<close> buckets were ever used.
\<close>

definition log_count :: "instant \<Rightarrow> string \<Rightarrow> (string \<times> instant) list \<Rightarrow> nat" where
  "log_count cutoff b lg = length (filter (\<lambda>(k, t). k = b \<and> cutoff < t) lg)"

definition tracks :: "instant \<Rightarrow> loginLimiter \<Rightarrow> (string \<times> instant) list \<Rightarrow> bool" where
  "tracks now l lg \<longleftrightarrow> fst ` set (entries l) \<subseteq> fst ` set lg \<and>
     (\<forall>b c. now - window l \<le> c \<longrightarrow>
        count_after c (entry_attempts l b) \<le> log_count c b lg \<and>
        (card (fst ` set lg) \<le> maxLimiterEntries \<longrightarrow>
           count_after c (entry_attempts l b) = log_count c b lg))"

lemma log_count_append [simp]:
  "log_count c b (lg @ lg') = log_count c b lg + log_count c b lg'"
  "log_count c b [] = 0"
  "log_count c b ((k, t) # lg) = (if k = b \<and> c < t then 1 else 0) + log_count c b lg"
  by (simp_all add: log_count_def)

lemma make_room_cases:
  assumes "permutes iter" and "table_ok now l"
  obtains "make_room iter l = l" "length (entries l) < maxLimiterEntries"
  | k e where "make_room iter l = l\<lparr>entries := AList.delete k (entries l)\<rparr>"
      "(k, e) \<in> set (entries l)" "\<forall>(k', e') \<in> set (entries l). lastSeen e \<le> lastSeen e'"
      "length (entries l) = maxLimiterEntries"
proof (cases "length (entries l) < maxLimiterEntries")
  case True
  then show thesis using that(1) by (simp add: make_room_def)
next
  case False
  then have full: "length (entries l) = maxLimiterEntries"
    using assms(2) by (simp add: table_ok_def)
  then have "entries l \<noteq> []" by (auto simp: maxLimiterEntries_def)
  moreover have "distinct (map fst (entries l))" using assms(2) by (simp add: table_ok_def)
  ultimately obtain k e where "(k, e) \<in> set (entries l)"
    "\<forall>(k', e') \<in> set (entries l). lastSeen e \<le> lastSeen e'"
    "evictOldestLocked iter l = l\<lparr>entries := AList.delete k (entries l)\<rparr>"
    using evict_spec [OF assms(1)] by blast
  then show thesis using that(2) [of k e] full by (simp add: make_room_def)
qed

lemma window_recordLocked [simp]:
  "window (make_room iter l) = window l" "window (recordLocked iter b now l) = window l"
  "threshold (recordLocked iter b now l) = threshold l"
  "ipThreshold (recordLocked iter b now l) = ipThreshold l"
  by (auto simp: recordLocked_def make_room_def evictOldestLocked_def Let_def split: option.split)

lemma recordLocked_eq:
  "recordLocked iter b now l =
     (let l1 = (if b \<in> fst ` set (entries l) then l else make_room iter l)
      in l1\<lparr>entries := AList.update b
           \<lparr>attempts = filter (\<lambda>t. now - window l < t) (entry_attempts l b) @ [now], lastSeen = now\<rparr>
           (entries l1)\<rparr>)"
proof (cases "map_of (entries l) b")
  case None
  then have "b \<notin> fst ` set (entries l)" by (simp add: map_of_eq_None_iff)
  with None show ?thesis
    by (simp add: recordLocked_def entry_attempts_def bump_def prune_def Let_def)
next
  case (Some e)
  then have "b \<in> fst ` set (entries l)" using map_of_SomeD by force
  with Some show ?thesis
    by (simp add: recordLocked_def entry_attempts_def bump_def prune_def Let_def)
qed

lemma entry_ok_bump:
  assumes "list_all (\<lambda>t. t \<le> now) ts" and "sorted ts"
  shows "entry_ok now \<lparr>attempts = filter P ts @ [now], lastSeen = now\<rparr>"
  using assms by (auto simp: entry_ok_def sorted_append sorted_wrt_filter list_all_iff)

lemma entry_attempts_ok:
  assumes "table_ok now l"
  shows "list_all (\<lambda>t. t \<le> now) (entry_attempts l b) \<and> sorted (entry_attempts l b)"
proof (cases "map_of (entries l) b")
  case (Some e)
  then have "(b, e) \<in> set (entries l)" by (rule map_of_SomeD)
  with assms have "entry_ok now e" by (auto simp: table_ok_def)
  then have le: "t \<le> lastSeen e" if "t \<in> set (attempts e)" for t
    using that unfolding entry_ok_def
    by (metis append_butlast_last_id sorted_append last_in_set list.set_intros(1) set_ConsD in_set_butlastD
        Un_iff set_append empty_iff list.set(1) order_refl)
  from \<open>entry_ok now e\<close> le Some show ?thesis
    by (fastforce simp: entry_attempts_def entry_ok_def list_all_iff)
qed (simp add: entry_attempts_def)

lemma table_okI:
  assumes "distinct (map fst (entries l))" and "length (entries l) \<le> maxLimiterEntries"
    and "\<And>k e. (k, e) \<in> set (entries l) \<Longrightarrow> entry_ok now e"
  shows "table_ok now l"
  using assms unfolding table_ok_def by blast

lemma table_okD:
  assumes "table_ok now l"
  shows "distinct (map fst (entries l))" and "length (entries l) \<le> maxLimiterEntries"
    and "(k, e) \<in> set (entries l) \<Longrightarrow> entry_ok now e"
  using assms unfolding table_ok_def by blast+

lemma set_delete: "set (AList.delete k es) = {x \<in> set es. fst x \<noteq> k}"
  by (induction es) auto

lemma table_ok_delete:
  assumes "table_ok now l"
  shows "table_ok now (l\<lparr>entries := AList.delete k (entries l)\<rparr>)"
proof (rule table_okI)
  show "distinct (map fst (entries (l\<lparr>entries := AList.delete k (entries l)\<rparr>)))"
    using table_okD(1) [OF assms] by (simp add: distinct_delete)
  show "length (entries (l\<lparr>entries := AList.delete k (entries l)\<rparr>)) \<le> maxLimiterEntries"
    using table_okD(2) [OF assms] length_delete_le [of k "entries l"] by simp
qed (use table_okD(3) [OF assms] in \<open>auto simp: set_delete\<close>)

lemma table_ok_update:
  assumes "table_ok now l" and "entry_ok now e"
    and "b \<in> fst ` set (entries l) \<or> length (entries l) < maxLimiterEntries"
  shows "table_ok now (l\<lparr>entries := AList.update b e (entries l)\<rparr>)"
proof (rule table_okI)
  show "distinct (map fst (entries (l\<lparr>entries := AList.update b e (entries l)\<rparr>)))"
    using table_okD(1) [OF assms(1)] by (simp add: distinct_update)
  show "length (entries (l\<lparr>entries := AList.update b e (entries l)\<rparr>)) \<le> maxLimiterEntries"
    using table_okD(2) [OF assms(1)] assms(3) by (auto simp: length_update)
  fix k e'
  assume "(k, e') \<in> set (entries (l\<lparr>entries := AList.update b e (entries l)\<rparr>))"
  then show "entry_ok now e'"
    using set_update_subset [of "(k, e')" b e "entries l"] table_okD(3) [OF assms(1)] assms(2) by auto
qed

lemma table_ok_recordLocked [chok_inv]:
  assumes "permutes iter" and "table_ok now l"
  shows "table_ok now (recordLocked iter b now l)"
proof -
  let ?e = "\<lparr>attempts = filter (\<lambda>t. now - window l < t) (entry_attempts l b) @ [now], lastSeen = now\<rparr>"
  have e: "entry_ok now ?e" using entry_attempts_ok [OF assms(2), of b] by (simp add: entry_ok_bump)
  show ?thesis
  proof (cases "b \<in> fst ` set (entries l)")
    case True
    then show ?thesis using table_ok_update [OF assms(2) e, of b]
      by (simp add: recordLocked_eq)
  next
    case False
    let ?l = "make_room iter l"
    from assms have "table_ok now ?l \<and> length (entries ?l) < maxLimiterEntries"
    proof (cases rule: make_room_cases)
      case (2 k e)
      then have "k \<in> fst ` set (entries l)" by force
      then have "length (entries ?l) = maxLimiterEntries - 1"
        using 2(1,4) length_delete [OF table_okD(1) [OF assms(2)]] by simp
      with 2(1) table_ok_delete [OF assms(2)] show ?thesis by (simp add: maxLimiterEntries_def)
    qed (use assms(2) in simp)
    then show ?thesis using table_ok_update [of now ?l ?e b] e False
      by (simp add: recordLocked_eq Let_def)
  qed
qed

lemma entry_attempts_recordLocked:
  assumes "permutes iter" and "table_ok now l"
  shows "entry_attempts (recordLocked iter b now l) b =
      filter (\<lambda>t. now - window l < t) (entry_attempts l b) @ [now]"
    and "b' \<noteq> b \<Longrightarrow> entry_attempts (recordLocked iter b now l) b' = entry_attempts l b' \<or>
      entry_attempts (recordLocked iter b now l) b' = []"
    and "b' \<noteq> b \<Longrightarrow> b \<in> fst ` set (entries l) \<or> length (entries l) < maxLimiterEntries \<Longrightarrow>
      entry_attempts (recordLocked iter b now l) b' = entry_attempts l b'"
proof -
  show "entry_attempts (recordLocked iter b now l) b =
      filter (\<lambda>t. now - window l < t) (entry_attempts l b) @ [now]"
    by (simp add: recordLocked_eq Let_def entry_attempts_def [of _ b] update_conv)
  assume ne: "b' \<noteq> b"
  have other: "entry_attempts (recordLocked iter b now l) b' =
      entry_attempts (if b \<in> fst ` set (entries l) then l else make_room iter l) b'"
    using ne by (simp add: recordLocked_eq Let_def entry_attempts_def [of _ b'] update_conv)
  from assms have "entry_attempts (make_room iter l) b' = entry_attempts l b' \<or>
      entry_attempts (make_room iter l) b' = []"
    by (cases rule: make_room_cases) (auto simp: entry_attempts_def delete_conv)
  with other show "entry_attempts (recordLocked iter b now l) b' = entry_attempts l b' \<or>
      entry_attempts (recordLocked iter b now l) b' = []" by auto
  assume "b \<in> fst ` set (entries l) \<or> length (entries l) < maxLimiterEntries"
  with other show "entry_attempts (recordLocked iter b now l) b' = entry_attempts l b'"
    by (auto simp: make_room_def)
qed

lemma keys_update: "fst ` set (AList.update b e es) = insert b (fst ` set es)"
  by (induction es) auto

lemma keys_recordLocked:
  assumes "permutes iter" and "table_ok now l"
  shows "fst ` set (entries (recordLocked iter b now l)) \<subseteq> insert b (fst ` set (entries l))"
proof -
  have "fst ` set (entries (make_room iter l)) \<subseteq> fst ` set (entries l)"
    using assms by (cases rule: make_room_cases) (auto simp: keys_delete)
  then show ?thesis by (simp add: recordLocked_eq Let_def keys_update) blast
qed

lemma length_entries: "table_ok now l \<Longrightarrow> length (entries l) = card (fst ` set (entries l))"
  using table_okD(1) distinct_card by fastforce

lemma tracks_recordLocked:
  assumes "permutes iter" and "table_ok now l" and "tracks now l lg"
  shows "tracks now (recordLocked iter b now l) (lg @ [(b, now)])"
proof -
  let ?r = "recordLocked iter b now l" and ?lg = "lg @ [(b, now)]"
  have sub: "fst ` set (entries l) \<subseteq> fst ` set lg" using assms(3) by (simp add: tracks_def)
  have room: "b \<in> fst ` set (entries l) \<or> length (entries l) < maxLimiterEntries"
    if small: "card (fst ` set ?lg) \<le> maxLimiterEntries"
  proof (rule disjCI)
    assume "\<not> length (entries l) < maxLimiterEntries"
    moreover have "card (insert b (fst ` set (entries l))) \<le> card (fst ` set ?lg)"
      by (rule card_mono) (use sub in auto)
    ultimately show "b \<in> fst ` set (entries l)"
      using small length_entries [OF assms(2)] by (cases "b \<in> fst ` set (entries l)") auto
  qed
  have mono: "card (fst ` set lg) \<le> card (fst ` set ?lg)" by (rule card_mono) auto
  have "count_after c (entry_attempts ?r b') \<le> log_count c b' ?lg \<and>
      (card (fst ` set ?lg) \<le> maxLimiterEntries \<longrightarrow>
        count_after c (entry_attempts ?r b') = log_count c b' ?lg)" if c: "now - window l \<le> c" for b' c
  proof -
    from assms(3) c have old: "count_after c (entry_attempts l b') \<le> log_count c b' lg"
      "card (fst ` set lg) \<le> maxLimiterEntries \<Longrightarrow> count_after c (entry_attempts l b') = log_count c b' lg"
      by (simp_all add: tracks_def)
    show ?thesis
    proof (cases "b' = b")
      case True
      with old mono c show ?thesis
        by (simp add: entry_attempts_recordLocked(1) [OF assms(1,2)] count_after_filter)
    next
      case False
      from entry_attempts_recordLocked(2) [OF assms(1,2) False] old(1)
      have "count_after c (entry_attempts ?r b') \<le> log_count c b' lg" by auto
      with entry_attempts_recordLocked(3) [OF assms(1,2) False] room old(2) mono False show ?thesis
        by auto
    qed
  qed
  moreover have "fst ` set (entries ?r) \<subseteq> fst ` set ?lg"
    using keys_recordLocked [OF assms(1,2), of b] sub by auto
  ultimately show ?thesis by (simp add: tracks_def)
qed

lemma tracks_later:
  assumes "tracks now l lg" and "now \<le> now'"
  shows "tracks now' l lg"
  using assms by (simp add: tracks_def)

lemma table_ok_later:
  assumes "table_ok now l" and "now \<le> now'"
  shows "table_ok now' l"
proof (rule table_okI)
  fix k e
  assume "(k, e) \<in> set (entries l)"
  then have "entry_ok now e" by (rule table_okD(3) [OF assms(1)])
  with assms(2) show "entry_ok now' e" by (simp add: entry_ok_def)
qed (use table_okD [OF assms(1)] in simp_all)

lemma recordKeys_Cons:
  "recordKeys iter (k # ks) now l =
     recordKeys iter ks now (if counts_key l k then recordLocked iter (bucket k) now l else l)"
  by (simp add: recordKeys_def)

definition key_events :: "loginLimiter \<Rightarrow> limiterKey list \<Rightarrow> instant \<Rightarrow> (string \<times> instant) list" where
  "key_events l ks now = map (\<lambda>k. (bucket k, now)) (filter (counts_key l) ks)"

lemma counts_key_recordLocked [simp]: "counts_key (recordLocked iter b now l) k = counts_key l k"
  by (simp add: counts_key_def)

lemma tracks_recordKeys:
  assumes "permutes iter" and "table_ok now l" and "tracks now l lg"
  shows "table_ok now (recordKeys iter ks now l) \<and>
    tracks now (recordKeys iter ks now l) (lg @ key_events l ks now)"
  using assms(2,3)
proof (induction ks arbitrary: l lg)
  case Nil
  then show ?case by (simp add: recordKeys_def key_events_def)
next
  case (Cons k ks)
  show ?case
  proof (cases "counts_key l k")
    case True
    have "filter (counts_key (recordLocked iter (bucket k) now l)) ks = filter (counts_key l) ks"
      by (rule filter_cong) simp_all
    with True Cons.IH [OF table_ok_recordLocked [OF assms(1) Cons.prems(1)]
        tracks_recordLocked [OF assms(1) Cons.prems], of "bucket k"] show ?thesis
      by (simp add: recordKeys_Cons key_events_def)
  next
    case False
    with Cons show ?thesis by (simp add: recordKeys_Cons key_events_def)
  qed
qed

lemma recordKeys_frame [simp]:
  "window (recordKeys iter ks now l) = window l" "threshold (recordKeys iter ks now l) = threshold l"
  "ipThreshold (recordKeys iter ks now l) = ipThreshold l"
  by (induction ks arbitrary: l) (simp_all add: recordKeys_Cons, simp_all add: recordKeys_def)

lemma entry_attempts_cleanup:
  assumes "table_ok now l"
  shows "entry_attempts (cleanupLocked now l) b =
    (if list_ex (\<lambda>t. now - window l < t) (entry_attempts l b) then entry_attempts l b else [])"
proof -
  have "map_of (filter (\<lambda>(k, e). P e) es) b =
      (case map_of es b of None \<Rightarrow> None | Some e \<Rightarrow> if P e then Some e else None)"
    if "distinct (map fst es)" for P and es :: limiter_table
    using that by (induction es) (auto split: option.splits simp: map_of_eq_None_iff [symmetric])
  from this [OF table_okD(1) [OF assms]] show ?thesis
    by (auto simp: entry_attempts_def cleanupLocked_def split: option.splits)
qed

lemma cleanup_ok:
  assumes "table_ok now l" and "tracks now l lg"
  shows "table_ok now (cleanupLocked now l)" and "tracks now (cleanupLocked now l) lg"
proof -
  show "table_ok now (cleanupLocked now l)"
  proof (rule table_okI)
    show "distinct (map fst (entries (cleanupLocked now l)))"
      using table_okD(1) [OF assms(1)] by (simp add: cleanupLocked_def distinct_map_filter)
    show "length (entries (cleanupLocked now l)) \<le> maxLimiterEntries"
      using table_okD(2) [OF assms(1)] order_trans [OF length_filter_le]
      by (simp add: cleanupLocked_def)
  qed (use table_okD(3) [OF assms(1)] in \<open>auto simp: cleanupLocked_def\<close>)
  have "count_after c (entry_attempts (cleanupLocked now l) b) = count_after c (entry_attempts l b)"
    if "now - window l \<le> c" for b c
  proof (cases "list_ex (\<lambda>t. now - window l < t) (entry_attempts l b)")
    case False
    then have "filter (\<lambda>t. c < t) (entry_attempts l b) = []"
      using that by (auto simp: filter_empty_conv list_ex_iff)
    with False show ?thesis by (simp add: entry_attempts_cleanup [OF assms(1)] count_after_def)
  qed (simp add: entry_attempts_cleanup [OF assms(1)])
  then show "tracks now (cleanupLocked now l) lg"
    using assms(2) unfolding tracks_def by (auto simp: cleanupLocked_def)
qed

section \<open>The limiter under concurrency\<close>

text \<open>
  \<open>record\<close> leaves the lock before it starts a cleanup. A call that is to start one passes
  the compare-and-swap (\<open>wants\<close> to \<open>won\<close>), adds to the wait group and launches the
  goroutine (\<open>added\<close>), which cleans under the lock (\<open>cleaned\<close>), clears the flag
  (\<open>cleared\<close>) and leaves the wait group. \<open>hist\<close> is what was recorded. \<open>check\<close> changes
  nothing and needs no step.
\<close>

record lim_sys =
  lim :: loginLimiter
  clk :: instant
  hist :: "(string \<times> instant) list"
  wants :: nat
  won :: nat
  added :: nat
  cleaned :: nat
  cleared :: nat

datatype lim_event = ETick instant | ERecord "limiterKey list" | ECas | EAdd | EClean | EClear | EDone | EClose

inductive lim_step :: "lim_sys \<Rightarrow> lim_event \<Rightarrow> lim_sys \<Rightarrow> bool" where
  tick: "clk s \<le> t \<Longrightarrow> lim_step s (ETick t) (s\<lparr>clk := t\<rparr>)"
| rec: "permutes iter \<Longrightarrow> record_locked iter ks (clk s) (lim s) = (start, l') \<Longrightarrow>
     lim_step s (ERecord ks)
       (s\<lparr>lim := l', hist := hist s @ key_events (lim s) ks (clk s),
          wants := (if start then wants s + 1 else wants s)\<rparr>)"
| cas: "0 < wants s \<Longrightarrow> start_cleanup (lim s) = (w, l') \<Longrightarrow>
     lim_step s ECas (s\<lparr>lim := l', wants := wants s - 1, won := (if w then won s + 1 else won s)\<rparr>)"
| launch: "0 < won s \<Longrightarrow>
     lim_step s EAdd (s\<lparr>lim := (lim s)\<lparr>wg := wg (lim s) + 1\<rparr>, won := won s - 1, added := added s + 1\<rparr>)"
| clean: "0 < added s \<Longrightarrow>
     lim_step s EClean (s\<lparr>lim := cleanupLocked (clk s) (lim s), added := added s - 1, cleaned := cleaned s + 1\<rparr>)"
| clear: "0 < cleaned s \<Longrightarrow>
     lim_step s EClear (s\<lparr>lim := (lim s)\<lparr>cleaning := False\<rparr>, cleaned := cleaned s - 1, cleared := cleared s + 1\<rparr>)"
| done_one: "0 < cleared s \<Longrightarrow>
     lim_step s EDone (s\<lparr>lim := (lim s)\<lparr>wg := wg (lim s) - 1\<rparr>, cleared := cleared s - 1\<rparr>)"
| close: "lim_step s EClose (s\<lparr>lim := close_limiter (lim s)\<rparr>)"

definition lim_init :: "duration \<Rightarrow> int \<Rightarrow> int \<Rightarrow> lim_sys \<Rightarrow> bool" where
  "lim_init win thr ipthr s \<longleftrightarrow> lim s = newLoginLimiter win thr ipthr \<and> hist s = [] \<and>
     wants s = 0 \<and> won s = 0 \<and> added s = 0 \<and> cleaned s = 0 \<and> cleared s = 0"

definition lim_inv :: "duration \<Rightarrow> int \<Rightarrow> int \<Rightarrow> lim_sys \<Rightarrow> bool" where
  "lim_inv win thr ipthr s \<longleftrightarrow>
     window (lim s) = win \<and> threshold (lim s) = thr \<and> ipThreshold (lim s) = ipthr \<and>
     table_ok (clk s) (lim s) \<and> tracks (clk s) (lim s) (hist s) \<and>
     won s + added s + cleaned s = (if cleaning (lim s) then 1 else 0) \<and>
     wg (lim s) = added s + cleaned s + cleared s"

lemma table_ok_calls [simp]: "table_ok now (l\<lparr>calls := n\<rparr>) = table_ok now l"
  "table_ok now (l\<lparr>wg := m\<rparr>) = table_ok now l" "table_ok now (l\<lparr>cleaning := b\<rparr>) = table_ok now l"
  "table_ok now (l\<lparr>lclosed := b\<rparr>) = table_ok now l"
  by (simp_all add: table_ok_def)

lemma tracks_calls [simp]: "tracks now (l\<lparr>calls := n\<rparr>) lg = tracks now l lg"
  "tracks now (l\<lparr>wg := m\<rparr>) lg = tracks now l lg" "tracks now (l\<lparr>cleaning := b\<rparr>) lg = tracks now l lg"
  "tracks now (l\<lparr>lclosed := b\<rparr>) lg = tracks now l lg"
  by (simp_all add: tracks_def entry_attempts_def)

lemma recordKeys_flags [simp]:
  "cleaning (recordKeys iter ks now l) = cleaning l" "wg (recordKeys iter ks now l) = wg l"
  "lclosed (recordKeys iter ks now l) = lclosed l"
proof -
  have "cleaning (recordLocked iter b now l) = cleaning l" "wg (recordLocked iter b now l) = wg l"
    "lclosed (recordLocked iter b now l) = lclosed l" for b l
    by (auto simp: recordLocked_def make_room_def evictOldestLocked_def Let_def split: option.split)
  then show "cleaning (recordKeys iter ks now l) = cleaning l" "wg (recordKeys iter ks now l) = wg l"
    "lclosed (recordKeys iter ks now l) = lclosed l"
    by (induction ks arbitrary: l) (simp_all add: recordKeys_Cons, simp_all add: recordKeys_def)
qed

lemma record_locked_eq:
  "snd (record_locked iter ks now l) =
     (recordKeys iter ks now l)\<lparr>calls := calls (recordKeys iter ks now l) + 1\<rparr>"
  by (simp add: record_locked_def Let_def)

interpretation limiting: guarded_component "lim_init win thr ipthr" lim_step "lim_inv win thr ipthr"
proof unfold_locales
  fix s
  assume "lim_init win thr ipthr s"
  then show "lim_inv win thr ipthr s"
    by (simp add: lim_init_def lim_inv_def newLoginLimiter_def table_ok_def tracks_def entry_attempts_def)
next
  fix s e s'
  assume inv: "lim_inv win thr ipthr s" and "lim_step s e s'"
  from this(2) show "lim_inv win thr ipthr s'"
  proof cases
    case (tick t)
    with inv show ?thesis by (auto simp: lim_inv_def intro: table_ok_later tracks_later)
  next
    case (rec iter ks start l')
    have l': "l' = (recordKeys iter ks (clk s) (lim s))\<lparr>calls := calls (recordKeys iter ks (clk s) (lim s)) + 1\<rparr>"
      using rec(4) record_locked_eq by (metis snd_conv)
    show ?thesis
      using inv tracks_recordKeys [OF rec(3), of "clk s" "lim s" "hist s" ks]
      unfolding rec(2) l' by (simp add: lim_inv_def)
  next
    case (cas w l')
    with inv show ?thesis by (auto simp: lim_inv_def start_cleanup_def split: if_splits)
  next
    case clean
    have "window (cleanupLocked (clk s) (lim s)) = win" "threshold (cleanupLocked (clk s) (lim s)) = thr"
      "ipThreshold (cleanupLocked (clk s) (lim s)) = ipthr" "wg (cleanupLocked (clk s) (lim s)) = wg (lim s)"
      "cleaning (cleanupLocked (clk s) (lim s)) = cleaning (lim s)"
      using inv by (simp_all add: cleanupLocked_def lim_inv_def)
    with clean inv cleanup_ok [of "clk s" "lim s" "hist s"] show ?thesis by (auto simp: lim_inv_def)
  qed (use inv in \<open>auto simp: lim_inv_def close_limiter_def split: if_splits\<close>)
qed

lemma check_exact:
  assumes "\<And>k. k \<in> set ks \<Longrightarrow> counts_key l k \<Longrightarrow>
      int (count_after cutoff (entry_attempts l (bucket k))) \<ge> key_limit l k \<longleftrightarrow> P k"
    and "0 < threshold l"
  shows "check_keys cutoff l ks =
    (case find (\<lambda>k. counts_key l k \<and> P k) ks of None \<Rightarrow> (True, []) | Some k \<Rightarrow> (False, Name k))"
  using assms(1)
proof (induction ks)
  case (Cons k ks)
  have rest: "check_keys cutoff l ks =
      (case find (\<lambda>k. counts_key l k \<and> P k) ks of None \<Rightarrow> (True, []) | Some k \<Rightarrow> (False, Name k))"
    using Cons.IH Cons.prems by simp
  show ?case
  proof (cases "counts_key l k")
    case True
    then have "0 < key_limit l k" using assms(2) by (auto simp: key_limit_def counts_key_def)
    with True Cons.prems [of k] rest show ?thesis
      by (auto simp: entry_attempts_def split: option.splits)
  qed (use rest in simp)
qed simp

text \<open>The state after \<^verbatim>\<open>Close\<close> has returned and no earlier \<open>record\<close> is still on its way.\<close>

definition quiet :: "lim_sys \<Rightarrow> bool" where
  "quiet s \<longleftrightarrow> lclosed (lim s) \<and> wants s = 0 \<and> won s = 0 \<and> added s = 0 \<and> cleaned s = 0 \<and> cleared s = 0"

interpretation after_close: guarded_component quiet lim_step quiet
proof unfold_locales
  fix s e s'
  assume inv: "quiet s" and "lim_step s e s'"
  from this(2) show "quiet s'"
  proof cases
    case (rec iter ks start l')
    then have "lclosed l'" "\<not> start"
      using inv by (auto simp: quiet_def record_locked_def Let_def)
    with inv rec show ?thesis by (simp add: quiet_def)
  qed (use inv in \<open>auto simp: quiet_def close_limiter_def\<close>)
qed

section \<open>Properties\<close>

text \<open>C31: whatever records and cleanups happened before, in any order, \<open>check\<close> decides by
  the true number of attempts recorded for each counted key within the sliding window, and
  names the first full key, as long as no more than \<^verbatim>\<open>maxLimiterEntries\<close> different keys
  were recorded.\<close>

theorem limiter_exact_window:
  assumes "reachable (lim_init win thr ipthr) lim_step s" and "0 < thr"
    and "card (fst ` set (hist s)) \<le> maxLimiterEntries"
  shows "check (clk s) ks (lim s) =
    (case find (\<lambda>k. counts_key (lim s) k \<and>
        key_limit (lim s) k \<le> int (log_count (clk s - win) (bucket k) (hist s))) ks of
       None \<Rightarrow> (True, []) | Some k \<Rightarrow> (False, Name k))"
proof -
  have inv: "lim_inv win thr ipthr s" using limiting.reachable_inv [OF assms(1)] .
  then have "count_after (clk s - win) (entry_attempts (lim s) b) = log_count (clk s - win) b (hist s)" for b
    using assms(3) by (simp add: lim_inv_def tracks_def)
  with inv show ?thesis
    unfolding check_def by (subst check_exact) (use assms(2) in \<open>auto simp: lim_inv_def\<close>)
qed

text \<open>In every reachable state the table holds at most 100,000 entries, one per key,
  and even after evictions a key is only refused when that many attempts of it really were
  recorded within the window.\<close>

theorem limiter_sound:
  assumes "reachable (lim_init win thr ipthr) lim_step s" and "0 < thr"
  shows "length (entries (lim s)) \<le> 100000 \<and> distinct (map fst (entries (lim s))) \<and>
    (check (clk s) ks (lim s) = (False, nm) \<longrightarrow>
       (\<exists>k \<in> set ks. Name k = nm \<and> counts_key (lim s) k \<and>
          key_limit (lim s) k \<le> int (log_count (clk s - win) (bucket k) (hist s))))"
proof -
  have inv: "lim_inv win thr ipthr s" using limiting.reachable_inv [OF assms(1)] .
  then have ok: "table_ok (clk s) (lim s)" by (simp add: lim_inv_def)
  have le: "count_after (clk s - win) (entry_attempts (lim s) b) \<le> log_count (clk s - win) b (hist s)" for b
    using inv by (simp add: lim_inv_def tracks_def)
  have chk: "check (clk s) ks (lim s) = (case find (\<lambda>k. counts_key (lim s) k \<and>
      key_limit (lim s) k \<le> int (count_after (clk s - win) (entry_attempts (lim s) (bucket k)))) ks of
      None \<Rightarrow> (True, []) | Some k \<Rightarrow> (False, Name k))"
    unfolding check_def by (subst check_exact) (use inv assms(2) in \<open>auto simp: lim_inv_def\<close>)
  have "\<exists>k \<in> set ks. Name k = nm \<and> counts_key (lim s) k \<and>
      key_limit (lim s) k \<le> int (log_count (clk s - win) (bucket k) (hist s))"
    if "check (clk s) ks (lim s) = (False, nm)"
  proof -
    let ?P = "\<lambda>k. counts_key (lim s) k \<and>
      key_limit (lim s) k \<le> int (count_after (clk s - win) (entry_attempts (lim s) (bucket k)))"
    from that chk obtain k where k: "find ?P ks = Some k" "Name k = nm"
      by (cases "find ?P ks") auto
    then have "k \<in> set ks" "?P k" by (auto simp: find_Some_iff)
    with k(2) le [of "bucket k"] show ?thesis by (intro bexI [of _ k]) auto
  qed
  with table_okD(1,2) [OF ok] show ?thesis by (simp add: maxLimiterEntries_def)
qed

text \<open>At most one background cleanup runs at a time; and once \<^verbatim>\<open>Close\<close> has
  returned (the limiter is closed and its wait group empty) while no \<open>record\<close> that began
  before is still on its way to start one, no cleanup ever runs again.\<close>

theorem limiter_cleanup_single_flight:
  assumes "reachable (lim_init win thr ipthr) lim_step s"
  shows "added s + cleaned s \<le> 1 \<and>
    (lclosed (lim s) \<and> wg (lim s) = 0 \<and> wants s = 0 \<and> won s = 0 \<longrightarrow>
       (\<forall>s'. reachable (\<lambda>x. x = s) lim_step s' \<longrightarrow> wants s' = 0 \<and> added s' = 0 \<and> cleaned s' = 0))"
proof -
  have inv: "lim_inv win thr ipthr s" using limiting.reachable_inv [OF assms] .
  then have "added s + cleaned s \<le> 1" by (auto simp: lim_inv_def split: if_splits)
  moreover have "quiet s'"
    if "reachable (\<lambda>x. x = s) lim_step s'" "lclosed (lim s)" "wg (lim s) = 0" "wants s = 0" "won s = 0" for s'
    by (rule after_close.reachable_from_inv [OF that(1)]) (use inv that in \<open>simp add: lim_inv_def quiet_def\<close>)
  ultimately show ?thesis by (simp add: quiet_def)
qed

text \<open>Recording a key that has no entry in a full table forgets exactly one entry,
  one that was seen last no later than any other, and keeps every other entry as it was.\<close>

theorem limiter_evicts_oldest:
  assumes "permutes iter" and "table_ok now l" and "length (entries l) = maxLimiterEntries"
    and "key \<notin> fst ` set (entries l)"
  shows "\<exists>k e. (k, e) \<in> set (entries l) \<and> (\<forall>(k', e') \<in> set (entries l). lastSeen e \<le> lastSeen e') \<and>
    map_of (entries (recordLocked iter key now l)) =
      (map_of (entries l))(k := None, key \<mapsto> \<lparr>attempts = [now], lastSeen = now\<rparr>) \<and>
    length (entries (recordLocked iter key now l)) = maxLimiterEntries"
  using assms(1,2)
proof (cases rule: make_room_cases)
  case 1
  with assms(3) show ?thesis by simp
next
  case (2 k e)
  let ?e = "\<lparr>attempts = [now], lastSeen = now\<rparr>"
  have "entry_attempts l key = []" using assms(4) by (simp add: entry_attempts_def map_of_eq_None_iff [THEN iffD2])
  then have r: "entries (recordLocked iter key now l) = AList.update key ?e (AList.delete k (entries l))"
    using assms(4) 2(1) by (simp add: recordLocked_eq Let_def)
  have "k \<in> fst ` set (entries l)" using 2(2) by force
  then have "length (AList.delete k (entries l)) = maxLimiterEntries - 1"
    using length_delete [OF table_okD(1) [OF assms(2)]] 2(4) by simp
  then have "length (entries (recordLocked iter key now l)) = maxLimiterEntries"
    using assms(4) by (simp add: r length_update keys_delete maxLimiterEntries_def)
  moreover have "map_of (entries (recordLocked iter key now l)) = (map_of (entries l))(k := None, key \<mapsto> ?e)"
    by (simp add: r update_conv delete_conv fun_eq_iff restrict_map_def)
  ultimately show ?thesis using 2(2,3) by blast
qed

section \<open>Throttled routes\<close>

text \<open>A sequence of throttled calls for one key; \<open>admitted\<close> are the times of those let through.\<close>

fun admitted ::
  "(limiter_table \<Rightarrow> limiter_table) \<Rightarrow> duration \<Rightarrow> string \<Rightarrow> limiterKey \<Rightarrow> (instant \<times> instant) list \<Rightarrow>
   loginLimiter option \<Rightarrow> instant list" where
  "admitted iter win what k [] lo = []"
| "admitted iter win what k ((t1, t2) # cs) lo =
     (case throttle iter t1 t2 win what [k] lo of
        (None, _, lo') \<Rightarrow> t2 # admitted iter win what k cs lo'
      | (Some e, _, lo') \<Rightarrow> admitted iter win what k cs lo')"

definition in_window :: "instant \<Rightarrow> duration \<Rightarrow> instant list \<Rightarrow> nat" where
  "in_window c win ts = length (filter (\<lambda>t. c < t \<and> t \<le> c + win) ts)"

fun forward :: "instant \<Rightarrow> (instant \<times> instant) list \<Rightarrow> bool" where
  "forward t [] = True"
| "forward t ((t1, t2) # cs) = (t \<le> t1 \<and> t1 \<le> t2 \<and> forward t2 cs)"

lemma log_count_one_key:
  "log_count c b (map (Pair b) ts) = count_after c ts"
  by (induction ts) auto

lemma in_window_snoc:
  assumes "\<And>c. int (in_window c win ts) \<le> lmt" and "int (count_after (t1 - win) ts) < lmt" and "t1 \<le> t2"
  shows "int (in_window c win (ts @ [t2])) \<le> lmt"
proof (cases "c < t2 \<and> t2 \<le> c + win")
  case True
  have "in_window c win ts \<le> count_after c ts" unfolding in_window_def count_after_def
    by (induction ts) auto
  also have "\<dots> \<le> count_after (t1 - win) ts" unfolding count_after_def
    using True assms(3) by (induction ts) auto
  finally show ?thesis using True assms(2) by (simp add: in_window_def)
next
  case False
  then show ?thesis using assms(1) [of c] by (auto simp: in_window_def)
qed

lemma admitted_in_window:
  assumes "permutes iter" and "table_ok now l" and "tracks now l (map (Pair (bucket k)) ts)"
    and "forward now cs" and "window l = win" and "counts_key l k" and "0 < threshold l"
    and "\<And>c. int (in_window c win ts) \<le> key_limit l k"
  shows "int (in_window c win (ts @ admitted iter win what k cs (Some l))) \<le> key_limit l k"
  using assms(2-)
proof (induction cs arbitrary: now l ts)
  case (Cons a cs)
  obtain t1 t2 where a: "a = (t1, t2)" by (cases a)
  have times: "now \<le> t1" "t1 \<le> t2" "forward t2 cs" using Cons.prems(3) by (simp_all add: a)
  have ok2: "table_ok t2 l" "tracks t2 l (map (Pair (bucket k)) ts)"
    using Cons.prems(1,2) times table_ok_later tracks_later by (meson order_trans)+
  have "card (fst ` set (map (Pair (bucket k)) ts)) \<le> card {bucket k}"
    by (rule card_mono) auto
  then have small: "card (fst ` set (map (Pair (bucket k)) ts)) \<le> maxLimiterEntries"
    by (simp add: maxLimiterEntries_def)
  have cnt: "count_after (t1 - win) (entry_attempts l (bucket k)) = count_after (t1 - win) ts"
    using tracks_later [OF Cons.prems(2) times(1)] small Cons.prems(4)
    by (simp add: tracks_def log_count_one_key)
  have chk: "check t1 [k] l = (if key_limit l k \<le> int (count_after (t1 - win) ts) then (False, Name k) else (True, []))"
    unfolding check_def using Cons.prems(4-6)
    by (subst check_exact [where P = "\<lambda>k'. key_limit l k \<le> int (count_after (t1 - win) ts)"])
      (auto simp: cnt)
  show ?case
  proof (cases "key_limit l k \<le> int (count_after (t1 - win) ts)")
    case True
    then have "admitted iter win what k (a # cs) (Some l) = admitted iter win what k cs (Some l)"
      by (simp add: a throttle_def chk)
    with Cons.IH [OF ok2 times(3) Cons.prems(4-7)] show ?thesis by simp
  next
    case False
    let ?l = "snd (record_locked iter [k] t2 l)"
    have "admitted iter win what k (a # cs) (Some l) = t2 # admitted iter win what k cs (Some ?l)"
      using False by (simp add: a throttle_def chk split: prod.split)
    moreover have "table_ok t2 ?l" "tracks t2 ?l (map (Pair (bucket k)) (ts @ [t2]))"
      using tracks_recordKeys [OF assms(1) ok2, of "[k]"] Cons.prems(5)
      by (simp_all add: record_locked_eq key_events_def)
    moreover have frame: "window ?l = win" "counts_key ?l k" "threshold ?l = threshold l"
      "key_limit ?l k = key_limit l k"
      using Cons.prems(4,5) by (simp_all add: record_locked_eq counts_key_def key_limit_def)
    ultimately show ?thesis
      using Cons.IH [of t2 ?l "ts @ [t2]"] times(3) Cons.prems(6)
        in_window_snoc [of win ts "key_limit l k" t1 t2] Cons.prems(7) False times(2) by simp
  qed
qed simp

text \<open>On a throttled route, of the calls for one key made one after the other, never
  more than the key's limit are let through within any span of the window's length.\<close>

theorem limiter_throttle_limit:
  assumes "permutes iter" and "forward t0 cs" and "0 < thr"
    and "Value k \<noteq> []" and "ip k \<longrightarrow> 0 < ipthr"
  shows "int (in_window c win (admitted iter win what k cs (Some (newLoginLimiter win thr ipthr)))) \<le>
    (if ip k then ipthr else thr)"
proof -
  let ?l = "newLoginLimiter win thr ipthr"
  have "table_ok t0 ?l" "tracks t0 ?l (map (Pair (bucket k)) [])"
    by (simp_all add: table_ok_def tracks_def newLoginLimiter_def entry_attempts_def)
  moreover have "counts_key ?l k" "0 < threshold ?l" "key_limit ?l k = (if ip k then ipthr else thr)"
    using assms(3-5) by (simp_all add: counts_key_def newLoginLimiter_def key_limit_def)
  moreover have "0 \<le> (if ip k then ipthr else thr)" using assms(3,5) by auto
  moreover have "window ?l = win" by (simp add: newLoginLimiter_def)
  ultimately show ?thesis
    using admitted_in_window [OF assms(1), of t0 ?l k "[]" cs win c what] assms(2)
    by (simp add: in_window_def)
qed

section \<open>A cleanup after Close\<close>

text \<open>A run: \<open>n\<close> calls of \<open>record\<close> without a counted key, from a fresh limiter.\<close>

definition idle_run :: "nat \<Rightarrow> lim_sys" where
  "idle_run n = \<lparr>lim = (newLoginLimiter 60 5 20)\<lparr>calls := int n\<rparr>, clk = 0, hist = [],
     wants = n div 100, won = 0, added = 0, cleaned = 0, cleared = 0\<rparr>"

lemma permutes_id: "permutes (\<lambda>es. es)"
  by (simp add: permutes_def)

lemma idle_run_reachable: "reachable (lim_init 60 5 20) lim_step (idle_run n)"
proof (induction n)
  case 0
  show ?case by (rule reachable_init) (simp add: lim_init_def idle_run_def newLoginLimiter_def)
next
  case (Suc n)
  let ?start = "(int n + 1) mod 100 = 0"
  have rec: "record_locked (\<lambda>es. es) [] (clk (idle_run n)) (lim (idle_run n)) =
      (?start, lim (idle_run (Suc n)))"
    by (simp add: record_locked_def recordKeys_def idle_run_def newLoginLimiter_def
        cleanupWatermark_def maxLimiterEntries_def add.commute)
  have "?start \<longleftrightarrow> Suc n mod 100 = 0" by presburger
  then have "(idle_run n)\<lparr>lim := lim (idle_run (Suc n)),
      hist := hist (idle_run n) @ key_events (lim (idle_run n)) [] (clk (idle_run n)),
      wants := (if ?start then wants (idle_run n) + 1 else wants (idle_run n))\<rparr> = idle_run (Suc n)"
    by (simp add: idle_run_def key_events_def div_Suc)
  with lim_step.rec [OF permutes_id rec] have "lim_step (idle_run n) (ERecord []) (idle_run (Suc n))"
    by (simp only:)
  with Suc.IH show ?case by (rule reachable_step)
qed

text \<open>The barrier in \<^verbatim>\<open>Close\<close> has a hole: a \<open>record\<close> that read \<^verbatim>\<open>closed\<close> before \<^verbatim>\<open>Close\<close>
  set it, and reaches the compare-and-swap after \<^verbatim>\<open>Close\<close> found the wait group empty and
  returned, starts a cleanup that nobody waits for.\<close>

theorem limiter_cleanup_after_close:
  "\<exists>s s'. reachable (lim_init 60 5 20) lim_step s \<and> lclosed (lim s) \<and> wg (lim s) = 0 \<and>
     reachable (\<lambda>x. x = s) lim_step s' \<and> added s' = 1"
proof -
  let ?s = "(idle_run 100)\<lparr>lim := close_limiter (lim (idle_run 100))\<rparr>"
  let ?s1 = "?s\<lparr>lim := (lim ?s)\<lparr>cleaning := True\<rparr>, wants := 0, won := 1\<rparr>"
  let ?s2 = "?s1\<lparr>lim := (lim ?s1)\<lparr>wg := 1\<rparr>, won := 0, added := 1\<rparr>"
  have s: "reachable (lim_init 60 5 20) lim_step ?s"
    using idle_run_reachable lim_step.close by (rule reachable_step)
  have "start_cleanup (lim ?s) = (True, (lim ?s)\<lparr>cleaning := True\<rparr>)"
    by (simp add: start_cleanup_def close_limiter_def idle_run_def newLoginLimiter_def)
  then have "lim_step ?s ECas ?s1"
    using lim_step.cas [of ?s True "(lim ?s)\<lparr>cleaning := True\<rparr>"] by (simp add: idle_run_def)
  then have "reachable (\<lambda>x. x = ?s) lim_step ?s1"
    by (rule reachable_step [OF reachable_self])
  moreover have "lim_step ?s1 EAdd ?s2"
    using lim_step.launch [of ?s1] by (simp add: idle_run_def close_limiter_def newLoginLimiter_def)
  ultimately have "reachable (\<lambda>x. x = ?s) lim_step ?s2" by (rule reachable_step)
  with s show ?thesis
    by (intro exI [of _ ?s] exI [of _ ?s2]) (simp add: close_limiter_def idle_run_def newLoginLimiter_def)
qed

section \<open>Witnesses\<close>

lemma idle_run_simps [simp]:
  "lim (idle_run n) = (newLoginLimiter 60 5 20)\<lparr>calls := int n\<rparr>" "hist (idle_run n) = []"
  "clk (idle_run n) = 0"
  by (simp_all add: idle_run_def)

definition demo_key :: limiterKey where
  "demo_key = \<lparr>Name = ''email'', Value = ''a@b'', ip = False\<rparr>"

definition demo_failed :: "nat \<Rightarrow> lim_sys" where
  "demo_failed n = \<lparr>lim = (newLoginLimiter 60 2 20)\<lparr>calls := int n,
       entries := (if n = 0 then [] else [(bucket demo_key, \<lparr>attempts = replicate n 0, lastSeen = 0\<rparr>)])\<rparr>,
     clk = 0, hist = replicate n (bucket demo_key, 0), wants = 0, won = 0, added = 0, cleaned = 0, cleared = 0\<rparr>"

lemma demo_failed_reachable: "n < 100 \<Longrightarrow> reachable (lim_init 60 2 20) lim_step (demo_failed n)"
proof (induction n)
  case 0
  show ?case by (rule reachable_init) (simp add: lim_init_def demo_failed_def newLoginLimiter_def)
next
  case (Suc n)
  have cnt: "counts_key (lim (demo_failed n)) demo_key"
    by (simp add: counts_key_def demo_key_def)
  have "recordLocked (\<lambda>es. es) (bucket demo_key) 0 (lim (demo_failed n)) =
      (lim (demo_failed (Suc n)))\<lparr>calls := int n\<rparr>"
    by (simp add: recordLocked_eq entry_attempts_def demo_failed_def newLoginLimiter_def make_room_def
        maxLimiterEntries_def replicate_append_same)
  then have rec: "record_locked (\<lambda>es. es) [demo_key] (clk (demo_failed n)) (lim (demo_failed n)) =
      (False, lim (demo_failed (Suc n)))"
    using Suc.prems cnt by (simp add: record_locked_def recordKeys_Cons, simp add: recordKeys_def demo_failed_def
        newLoginLimiter_def cleanupWatermark_def maxLimiterEntries_def add.commute)
  have "(demo_failed n)\<lparr>lim := lim (demo_failed (Suc n)),
      hist := hist (demo_failed n) @ key_events (lim (demo_failed n)) [demo_key] (clk (demo_failed n)),
      wants := (if False then wants (demo_failed n) + 1 else wants (demo_failed n))\<rparr> = demo_failed (Suc n)"
    using cnt by (simp add: key_events_def, simp add: demo_failed_def replicate_append_same)
  with lim_step.rec [OF permutes_id rec] have "lim_step (demo_failed n) (ERecord [demo_key]) (demo_failed (Suc n))"
    by (simp only:)
  moreover have "reachable (lim_init 60 2 20) lim_step (demo_failed n)" using Suc by simp
  ultimately show ?case by (rule reachable_step [rotated])
qed

theorem limiter_exact_window_witness:
  "check 0 [demo_key] (lim (demo_failed 2)) = (False, ''email'')"
proof -
  have "card (fst ` set (hist (demo_failed 2))) \<le> maxLimiterEntries"
    by (simp add: demo_failed_def maxLimiterEntries_def)
  from limiter_exact_window [OF demo_failed_reachable _ this, of "[demo_key]"]
  show ?thesis
    by (simp add: demo_failed_def newLoginLimiter_def counts_key_def key_limit_def demo_key_def
        numeral_2_eq_2)
qed

theorem limiter_sound_witness:
  "\<exists>k \<in> set [demo_key]. 2 \<le> int (log_count (0 - 60) (bucket k) (hist (demo_failed 2)))"
proof -
  have "check (clk (demo_failed 2)) [demo_key] (lim (demo_failed 2)) = (False, ''email'')"
    by code_simp
  with limiter_sound [OF demo_failed_reachable, of 2 "[demo_key]" "''email''"] show ?thesis
    by (simp add: demo_failed_def newLoginLimiter_def key_limit_def demo_key_def)
qed

theorem limiter_cleanup_single_flight_witness:
  "\<exists>s. lclosed (lim s) \<and> wg (lim s) = 0 \<and>
     (\<forall>s'. reachable (\<lambda>x. x = s) lim_step s' \<longrightarrow> wants s' = 0 \<and> added s' = 0 \<and> cleaned s' = 0)"
proof -
  let ?s = "(idle_run 5)\<lparr>lim := close_limiter (lim (idle_run 5))\<rparr>"
  have "reachable (lim_init 60 5 20) lim_step ?s"
    using idle_run_reachable lim_step.close by (rule reachable_step)
  from limiter_cleanup_single_flight [OF this] show ?thesis
    by (intro exI [of _ ?s]) (simp add: close_limiter_def newLoginLimiter_def idle_run_def)
qed

definition demo_full :: loginLimiter where
  "demo_full = (newLoginLimiter 60 5 20)\<lparr>entries :=
     map (\<lambda>i. (replicate i (CHR ''a''), \<lparr>attempts = [int i], lastSeen = int i\<rparr>)) [0..<maxLimiterEntries]\<rparr>"

theorem limiter_evicts_oldest_witness:
  "[] \<notin> fst ` set (entries (recordLocked rev ''b'' 200000 demo_full)) \<and>
   length (entries (recordLocked rev ''b'' 200000 demo_full)) = maxLimiterEntries"
proof -
  let ?r = "recordLocked rev ''b'' 200000 demo_full"
  have ok: "table_ok 200000 demo_full"
    by (auto simp: table_ok_def demo_full_def entry_ok_def o_def distinct_map inj_on_def maxLimiterEntries_def)
  have "permutes rev" by (simp add: permutes_def)
  moreover have "length (entries demo_full) = maxLimiterEntries" by (simp add: demo_full_def)
  moreover have "''b'' \<notin> fst ` set (entries demo_full)"
  proof
    assume "''b'' \<in> fst ` set (entries demo_full)"
    then obtain i where "''b'' = replicate i (CHR ''a'')" by (auto simp: demo_full_def)
    then have "CHR ''b'' \<in> set (replicate i (CHR ''a''))" by (metis list.set_intros(1))
    then show False by simp
  qed
  ultimately obtain k e where r: "(k, e) \<in> set (entries demo_full)"
    "\<forall>(k', e') \<in> set (entries demo_full). lastSeen e \<le> lastSeen e'"
    "map_of (entries ?r) = (map_of (entries demo_full))(k := None, ''b'' \<mapsto> \<lparr>attempts = [200000], lastSeen = 200000\<rparr>)"
    "length (entries ?r) = maxLimiterEntries"
    using limiter_evicts_oldest [OF _ ok, of rev "''b''"] by blast
  have "([], \<lparr>attempts = [0], lastSeen = 0\<rparr>) \<in> set (entries demo_full)"
    unfolding demo_full_def by (simp add: image_iff maxLimiterEntries_def)
  with r(2) have "lastSeen e \<le> 0" by fastforce
  with r(1) have "k = []" by (auto simp: demo_full_def)
  with r(3) have "map_of (entries ?r) [] = None" by simp
  with r(4) show ?thesis by (simp add: map_of_eq_None_iff)
qed

theorem limiter_throttle_limit_witness:
  "int (in_window 0 60 (admitted (\<lambda>es. es) 60 ''codes'' demo_key [(1, 1), (2, 3), (3, 4), (70, 70)]
     (Some (newLoginLimiter 60 2 20)))) \<le> 2"
  using limiter_throttle_limit [OF permutes_id, of 1 "[(1, 1), (2, 3), (3, 4), (70, 70)]" 2 demo_key 20 0 60 "''codes''"]
  by (simp add: demo_key_def)

end
