(* ===== verification/Oauth_Store.thy ===== *)
theory Oauth_Store
  imports Chok_Prelude Go_Strings
begin

text \<open>
  The state of the OAuth sign-ins in flight: \<^verbatim>\<open>src/identity/oauth_session.go\<close>. The sessions
  and the one-time codes live in one map with a capacity and an order of use, \<^verbatim>\<open>memoryStore\<close>:
  here the list of its entries, the most recently used first, which is the linked list of the
  source and determines its map. \<^verbatim>\<open>cookieCarrier\<close> signs the id of a session for the browser;
  the HMAC in base64url is an argument, \<open>mac\<close>.

  The theorems: an entry is taken once; it is there until it expires or as many other entries
  as the store holds came after it; the store never exceeds its capacity; and the cookie that
  was issued, and no other for that id, is read back.
\<close>

section \<open>Sessions, codes and the store\<close>

record oauthSession =
  State :: string
  Nonce :: string
  CodeVerifier :: string
  RedirectBack :: string
  SessProvider :: string
  LinkUserID :: string

record authCode =
  CodeUser :: string
  CodeBack :: string
  BindingHash :: string

datatype flow_value = Sess oauthSession | Auth authCode

record memoryEntry =
  ekey :: string
  evalue :: flow_value
  expiresAt :: instant

record memoryStore =
  order :: "memoryEntry list"
  capacity :: nat

definition newMemoryStore :: "int \<Rightarrow> memoryStore" where
  "newMemoryStore cap = \<lparr>order = [], capacity = nat (max cap 1)\<rparr>"

definition remove_key :: "string \<Rightarrow> memoryEntry list \<Rightarrow> memoryEntry list" where
  "remove_key k es = filter (\<lambda>e. ekey e \<noteq> k) es"

definition lookup :: "string \<Rightarrow> memoryStore \<Rightarrow> memoryEntry option" where
  "lookup k s = find (\<lambda>e. ekey e = k) (order s)"

definition put_entry :: "instant \<Rightarrow> string \<Rightarrow> flow_value \<Rightarrow> duration \<Rightarrow> memoryStore \<Rightarrow> memoryStore" where
  "put_entry now k v ttl s =
     (let e = \<lparr>ekey = k, evalue = v, expiresAt = now + ttl\<rparr>
      in case lookup k s of
           Some _ \<Rightarrow> s\<lparr>order := e # remove_key k (order s)\<rparr>
         | None \<Rightarrow>
             (let kept = (if length (order s) \<ge> capacity s then butlast (order s) else order s)
              in s\<lparr>order := e # kept\<rparr>))"

definition take_entry :: "instant \<Rightarrow> string \<Rightarrow> memoryStore \<Rightarrow> flow_value option \<times> memoryStore" where
  "take_entry now k s =
     (case lookup k s of
        None \<Rightarrow> (None, s)
      | Some e \<Rightarrow>
          (let s' = s\<lparr>order := remove_key k (order s)\<rparr>
           in if now > expiresAt e then (None, s') else (Some (evalue e), s')))"

definition sweep :: "instant \<Rightarrow> memoryStore \<Rightarrow> memoryStore" where
  "sweep now s = s\<lparr>order := filter (\<lambda>e. \<not> expiresAt e < now) (order s)\<rparr>"

definition saveSession :: "instant \<Rightarrow> string \<Rightarrow> oauthSession \<Rightarrow> duration \<Rightarrow> memoryStore \<Rightarrow> memoryStore" where
  "saveSession now sid sess = put_entry now (''session:'' @ sid) (Sess sess)"

definition takeSession :: "instant \<Rightarrow> string \<Rightarrow> memoryStore \<Rightarrow> oauthSession option \<times> memoryStore" where
  "takeSession now sid s =
     (case take_entry now (''session:'' @ sid) s of
        (Some (Sess x), s') \<Rightarrow> (Some x, s')
      | (_, s') \<Rightarrow> (None, s'))"

definition saveCode :: "instant \<Rightarrow> string \<Rightarrow> authCode \<Rightarrow> duration \<Rightarrow> memoryStore \<Rightarrow> memoryStore" where
  "saveCode now code x = put_entry now (''code:'' @ code) (Auth x)"

definition takeCode :: "instant \<Rightarrow> string \<Rightarrow> memoryStore \<Rightarrow> authCode option \<times> memoryStore" where
  "takeCode now code s =
     (case take_entry now (''code:'' @ code) s of
        (Some (Auth x), s') \<Rightarrow> (Some x, s')
      | (_, s') \<Rightarrow> (None, s'))"

section \<open>The cookie\<close>

definition last_dot :: "string \<Rightarrow> (string \<times> string) option" where
  "last_dot s = map_option (\<lambda>(a, b). (rev b, rev a)) (cut_char (CHR ''.'') (rev s))"

definition sign_sid :: "(string \<Rightarrow> string) \<Rightarrow> string \<Rightarrow> string" where
  "sign_sid mac sid = sid @ ''.'' @ mac sid"

datatype cookie_error = CookieMissing | CookieMalformed | CookieForged

definition read_cookie :: "(string \<Rightarrow> string) \<Rightarrow> string option \<Rightarrow> cookie_error + string" where
  "read_cookie mac ck =
     (case ck of
        None \<Rightarrow> Inl CookieMissing
      | Some v \<Rightarrow>
          (case last_dot v of
             None \<Rightarrow> Inl CookieMalformed
           | Some (sid, m) \<Rightarrow>
               if sid = [] \<or> m = [] then Inl CookieMalformed
               else
                 (case last_dot (sign_sid mac sid) of
                    None \<Rightarrow> Inl CookieForged
                  | Some (_, want) \<Rightarrow> if m \<noteq> want then Inl CookieForged else Inr sid)))"

record flowCookie =
  CookieName :: string
  CookieValue :: string
  MaxAge :: int
  Secure :: bool
  SameSiteNone :: bool

definition flowCookie_of :: "string \<Rightarrow> string \<Rightarrow> int \<Rightarrow> bool \<Rightarrow> flowCookie" where
  "flowCookie_of name v maxAge devMode =
     \<lparr>CookieName = name, CookieValue = v, MaxAge = maxAge, Secure = \<not> devMode, SameSiteNone = \<not> devMode\<rparr>"

section \<open>The store\<close>

definition store_ok :: "memoryStore \<Rightarrow> bool" where
  "store_ok s \<longleftrightarrow> distinct (map ekey (order s)) \<and> length (order s) \<le> capacity s \<and> 0 < capacity s"

lemma lookup_None: "lookup k s = None \<longleftrightarrow> k \<notin> ekey ` set (order s)"
  by (auto simp: lookup_def find_None_iff)

lemma lookup_Some:
  "store_ok s \<Longrightarrow> lookup k s = Some e \<longleftrightarrow> e \<in> set (order s) \<and> ekey e = k"
proof -
  have "distinct (map ekey es) \<Longrightarrow> find (\<lambda>e. ekey e = k) es = Some e \<longleftrightarrow> e \<in> set es \<and> ekey e = k" for es
    by (induction es) (auto simp: image_iff)
  then show "store_ok s \<Longrightarrow> ?thesis" by (simp add: store_ok_def lookup_def)
qed

lemma remove_key_props:
  "set (remove_key k es) = {e \<in> set es. ekey e \<noteq> k}" "length (remove_key k es) \<le> length es"
  "distinct (map ekey es) \<Longrightarrow> distinct (map ekey (remove_key k es))"
  by (auto simp: remove_key_def distinct_map_filter)

lemma remove_key_less: "k \<in> ekey ` set es \<Longrightarrow> length (remove_key k es) < length es"
  unfolding remove_key_def by (induction es) (auto simp: less_Suc_eq_le)

lemma store_ok_put: "store_ok s \<Longrightarrow> store_ok (put_entry now k v ttl s)"
proof (cases "lookup k s")
  case None
  assume ok: "store_ok s"
  let ?kept = "if length (order s) \<ge> capacity s then butlast (order s) else order s"
  have "distinct (map ekey ?kept)" "k \<notin> ekey ` set ?kept" "length ?kept < capacity s"
    using ok None by (auto simp: store_ok_def lookup_None map_butlast distinct_butlast dest: in_set_butlastD)
  with None ok show ?thesis by (auto simp: put_entry_def Let_def store_ok_def)
next
  case (Some e)
  assume ok: "store_ok s"
  with Some have "k \<in> ekey ` set (order s)" using lookup_Some by fastforce
  from remove_key_less [OF this] ok Some remove_key_props [where k = k and es = "order s"] show ?thesis
    by (auto simp: put_entry_def Let_def store_ok_def)
qed

lemma store_ok_take: "store_ok s \<Longrightarrow> store_ok (snd (take_entry now k s))"
  using remove_key_props [where k = k and es = "order s"]
  by (auto simp: take_entry_def store_ok_def Let_def split: option.splits)

lemma store_ok_sweep: "store_ok s \<Longrightarrow> store_ok (sweep now s)"
  by (auto simp: sweep_def store_ok_def distinct_map_filter intro: le_trans [OF length_filter_le])

lemma take_removes: "lookup k (snd (take_entry now k s)) = None"
  by (auto simp: take_entry_def Let_def lookup_None remove_key_props split: option.splits)

section \<open>How long an entry stays\<close>

text \<open>The operations on the store by others, and what a sequence of them leaves.\<close>

datatype store_op = OPut string flow_value duration | OTake string | OSweep

fun store_run1 :: "instant \<Rightarrow> store_op \<Rightarrow> memoryStore \<Rightarrow> memoryStore" where
  "store_run1 now (OPut k v ttl) s = put_entry now k v ttl s"
| "store_run1 now (OTake k) s = snd (take_entry now k s)"
| "store_run1 now OSweep s = sweep now s"

definition store_run :: "(instant \<times> store_op) list \<Rightarrow> memoryStore \<Rightarrow> memoryStore" where
  "store_run ops s = fold (\<lambda>(t, op). store_run1 t op) ops s"

fun touches :: "string \<Rightarrow> store_op \<Rightarrow> bool" where
  "touches k (OPut k' _ _) = (k' = k)"
| "touches k (OTake k') = (k' = k)"
| "touches k OSweep = False"

definition puts :: "(instant \<times> store_op) list \<Rightarrow> nat" where
  "puts ops = length (filter (\<lambda>(_, op). case op of OPut _ _ _ \<Rightarrow> True | _ \<Rightarrow> False) ops)"

text \<open>The entry with \<open>n\<close> entries more recent than it.\<close>

definition at_depth :: "memoryEntry \<Rightarrow> nat \<Rightarrow> memoryStore \<Rightarrow> bool" where
  "at_depth e n s \<longleftrightarrow> (\<exists>a b. order s = a @ e # b \<and> length a \<le> n)"

lemma at_depth_take: "at_depth e n s \<Longrightarrow> k \<noteq> ekey e \<Longrightarrow> at_depth e n (snd (take_entry now k s))"
proof -
  assume "at_depth e n s" and k: "k \<noteq> ekey e"
  then obtain a b where o: "order s = a @ e # b" "length a \<le> n" by (auto simp: at_depth_def)
  have "remove_key k (order s) = remove_key k a @ e # remove_key k b" "length (remove_key k a) \<le> n"
    using o k le_trans [OF remove_key_props(2) [of k a]] by (simp_all add: remove_key_def)
  then have "at_depth e n (s\<lparr>order := remove_key k (order s)\<rparr>)" unfolding at_depth_def by auto
  with \<open>at_depth e n s\<close> show ?thesis by (simp add: take_entry_def Let_def split: option.splits)
qed

lemma at_depth_sweep: "at_depth e n s \<Longrightarrow> \<not> expiresAt e < now \<Longrightarrow> at_depth e n (sweep now s)"
proof -
  assume "at_depth e n s" and ex: "\<not> expiresAt e < now"
  then obtain a b where o: "order s = a @ e # b" "length a \<le> n" by (auto simp: at_depth_def)
  let ?P = "\<lambda>e. \<not> expiresAt e < now"
  have "filter ?P (order s) = filter ?P a @ e # filter ?P b" "length (filter ?P a) \<le> n"
    using o ex by (auto intro: le_trans [OF length_filter_le])
  then show ?thesis unfolding at_depth_def sweep_def by auto
qed

lemma at_depth_put:
  assumes "at_depth e n s" "k \<noteq> ekey e" "Suc n < capacity s" "store_ok s"
  shows "at_depth e (Suc n) (put_entry now k v ttl s)"
proof -
  obtain a b where o: "order s = a @ e # b" "length a \<le> n" using assms(1) by (auto simp: at_depth_def)
  let ?new = "\<lparr>ekey = k, evalue = v, expiresAt = now + ttl\<rparr>"
  show ?thesis
  proof (cases "lookup k s")
    case None
    show ?thesis
    proof (cases "length (order s) \<ge> capacity s")
      case True
      then have "b \<noteq> []" using o assms(3) by auto
      then have "butlast (order s) = a @ e # butlast b" by (simp add: o butlast_append)
      then have "order (put_entry now k v ttl s) = (?new # a) @ e # butlast b"
        using None True by (simp add: put_entry_def Let_def)
      then show ?thesis using o(2) unfolding at_depth_def by (metis Suc_le_mono length_Cons)
    next
      case False
      then have "order (put_entry now k v ttl s) = (?new # a) @ e # b"
        using None o by (simp add: put_entry_def Let_def)
      then show ?thesis using o(2) unfolding at_depth_def by (metis Suc_le_mono length_Cons)
    qed
  next
    case (Some e')
    have "remove_key k (order s) = remove_key k a @ e # remove_key k b" "length (remove_key k a) \<le> n"
      using o assms(2) le_trans [OF remove_key_props(2) [of k a]] by (simp_all add: remove_key_def)
    then have "order (put_entry now k v ttl s) = (?new # remove_key k a) @ e # remove_key k b"
      using Some by (simp add: put_entry_def Let_def)
    then show ?thesis using \<open>length (remove_key k a) \<le> n\<close> unfolding at_depth_def by (metis Suc_le_mono length_Cons)
  qed
qed

lemma capacity_run1 [simp]: "capacity (store_run1 t op s) = capacity s"
  by (cases op) (auto simp: put_entry_def take_entry_def sweep_def Let_def split: option.splits)

lemma store_ok_run1: "store_ok s \<Longrightarrow> store_ok (store_run1 t op s)"
  by (cases op) (auto simp: store_ok_put store_ok_take store_ok_sweep)

lemma at_depth_run:
  assumes "at_depth e n s" "store_ok s" "n + puts ops < capacity s"
    and "list_all (\<lambda>(t, op). \<not> touches (ekey e) op \<and> t \<le> expiresAt e) ops"
  shows "at_depth e (n + puts ops) (store_run ops s) \<and> store_ok (store_run ops s)"
  using assms
proof (induction ops arbitrary: n s)
  case Nil
  then show ?case by (simp add: store_run_def puts_def)
next
  case (Cons x ops)
  obtain t op where x: "x = (t, op)" by (cases x)
  let ?n = "n + (case op of OPut _ _ _ \<Rightarrow> 1 | _ \<Rightarrow> 0)"
  have p: "n + puts (x # ops) = ?n + puts ops" by (simp add: puts_def x split: store_op.splits)
  have "at_depth e ?n (store_run1 t op s)"
    using Cons.prems p by (cases op) (auto simp: x intro: at_depth_put at_depth_take at_depth_sweep)
  then have "at_depth e (?n + puts ops) (store_run ops (store_run1 t op s)) \<and> store_ok (store_run ops (store_run1 t op s))"
    using Cons.prems p by (intro Cons.IH) (simp_all add: x store_ok_run1)
  moreover have "store_run (x # ops) s = store_run ops (store_run1 t op s)"
    by (simp add: store_run_def x)
  ultimately show ?case by (simp only: p)
qed

lemma at_depth_lookup: "at_depth e n s \<Longrightarrow> store_ok s \<Longrightarrow> lookup (ekey e) s = Some e"
  by (auto simp: at_depth_def lookup_Some)

lemma put_front:
  "\<exists>rest. order (put_entry now k v ttl s) = \<lparr>ekey = k, evalue = v, expiresAt = now + ttl\<rparr> # rest"
  by (auto simp: put_entry_def Let_def split: option.splits)

lemma put_at_front: "at_depth \<lparr>ekey = k, evalue = v, expiresAt = now + ttl\<rparr> 0 (put_entry now k v ttl s)"
  using put_front [of now k v ttl s] unfolding at_depth_def by (metis append_Nil le_refl list.size(3))

lemma store_run_gone:
  "lookup k s = None \<Longrightarrow> list_all (\<lambda>(t, op). case op of OPut k' _ _ \<Rightarrow> k' \<noteq> k | _ \<Rightarrow> True) ops \<Longrightarrow>
   lookup k (store_run ops s) = None"
proof (induction ops arbitrary: s)
  case (Cons x ops)
  obtain t op where x: "x = (t, op)" by (cases x)
  have "lookup k (store_run1 t op s) = None"
    using Cons.prems
    by (cases op)
      (auto simp: x lookup_None put_entry_def take_entry_def sweep_def Let_def remove_key_props
         split: option.splits dest: in_set_butlastD)
  with Cons show ?case by (simp add: store_run_def x)
qed (simp add: store_run_def)

section \<open>Properties\<close>

text \<open>A sign-in in flight is not pushed out by others while fewer of them start than the store
  holds: an entry that was put is taken, with its value, as long as it has not expired and
  fewer other entries than the capacity were put meanwhile, whatever else is put, taken and
  swept. And it is taken once: after that the key is gone until it is put again.\<close>

theorem oauth_store_lifetime:
  assumes "store_ok s" "puts ops < capacity s"
    and "list_all (\<lambda>(t, op). \<not> touches k op \<and> t \<le> now + ttl) ops" "later \<le> now + ttl"
    and "list_all (\<lambda>(t, op). case op of OPut k' _ _ \<Rightarrow> k' \<noteq> k | _ \<Rightarrow> True) ops'"
  shows "(case take_entry later k (store_run ops (put_entry now k v ttl s)) of
      (r, s') \<Rightarrow> r = Some v \<and> fst (take_entry again k (store_run ops' s')) = None)"
proof -
  let ?e = "\<lparr>ekey = k, evalue = v, expiresAt = now + ttl\<rparr>"
  let ?s = "store_run ops (put_entry now k v ttl s)"
  have "at_depth ?e (0 + puts ops) ?s \<and> store_ok ?s"
    using assms put_at_front store_ok_put
    by (intro at_depth_run) (auto simp: put_entry_def Let_def split: option.splits)
  then have l: "lookup k ?s = Some ?e" using at_depth_lookup [of ?e _ ?s] by auto
  then have r: "fst (take_entry later k ?s) = Some v"
    using assms(4) by (simp add: take_entry_def Let_def)
  have "lookup k (store_run ops' (snd (take_entry later k ?s))) = None"
    using take_removes assms(5) by (rule store_run_gone)
  then have "fst (take_entry again k (store_run ops' (snd (take_entry later k ?s)))) = None"
    by (simp add: take_entry_def)
  with r show ?thesis by (cases "take_entry later k ?s") auto
qed

text \<open>The cookie that carries a sign-in is read back as the id it was issued for, and it is the only
  value that is read as that id: any other, with a signature that is not the one of its id, is
  refused.\<close>

theorem oauth_cookie_roundtrip:
  assumes "\<forall>sid. mac sid \<noteq> [] \<and> CHR ''.'' \<notin> set (mac sid)" "sid \<noteq> []"
  shows "read_cookie mac (Some v) = Inr sid \<longleftrightarrow> v = sign_sid mac sid"
proof -
  have dot: "last_dot (a @ CHR ''.'' # m) = Some (a, m)" if "CHR ''.'' \<notin> set m" for a m
  proof -
    have "index_char (CHR ''.'') (rev m @ CHR ''.'' # rev a) = Some (length m)"
    proof -
      have "CHR ''.'' \<notin> set xs \<Longrightarrow> index_char (CHR ''.'') (xs @ CHR ''.'' # ys) = Some (length xs)" for xs ys
        by (induction xs) auto
      then show ?thesis using that by (metis length_rev set_rev)
    qed
    then show ?thesis by (simp add: last_dot_def cut_char_def)
  qed
  have split: "\<exists>a m. v = a @ CHR ''.'' # m \<and> last_dot v = Some (a, m)" if "last_dot v \<noteq> None" for v
  proof -
    from that have "CHR ''.'' \<in> set v"
    proof (rule contrapos_np)
      assume "CHR ''.'' \<notin> set v"
      then have "index_char (CHR ''.'') (rev v) = None" 
      proof -
        have "CHR ''.'' \<notin> set xs \<Longrightarrow> index_char (CHR ''.'') xs = None" for xs by (induction xs) auto
        then show ?thesis using \<open>CHR ''.'' \<notin> set v\<close> by simp
      qed
      then show "last_dot v = None" by (simp add: last_dot_def cut_char_def)
    qed
    then obtain a m where "v = a @ CHR ''.'' # m" "CHR ''.'' \<notin> set m" by (metis split_list_last)
    with dot show ?thesis by blast
  qed
  have s: "last_dot (sign_sid mac x) = Some (x, mac x)" for x
    using dot [of "mac x" x] assms(1) by (simp add: sign_sid_def)
  show ?thesis
  proof
    assume r: "read_cookie mac (Some v) = Inr sid"
    then obtain m where "last_dot v = Some (sid, m)" "m = mac sid"
      by (auto simp: read_cookie_def s split: option.splits if_splits)
    with split [of v] show "v = sign_sid mac sid" by (auto simp: sign_sid_def)
  next
    assume "v = sign_sid mac sid"
    with s assms show "read_cookie mac (Some v) = Inr sid" by (simp add: read_cookie_def)
  qed
qed

section \<open>Witnesses\<close>

theorem oauth_store_lifetime_witness:
  "fst (take_entry 5 ''a'' (store_run [(1, OPut ''b'' (Auth \<lparr>CodeUser = [], CodeBack = [], BindingHash = []\<rparr>) 9), (2, OTake ''c''), (3, OSweep)]
     (put_entry 0 ''a'' (Auth \<lparr>CodeUser = ''u'', CodeBack = [], BindingHash = []\<rparr>) 9 (newMemoryStore 2))))
   = Some (Auth \<lparr>CodeUser = ''u'', CodeBack = [], BindingHash = []\<rparr>)"
proof -
  have ok: "store_ok (newMemoryStore 2)" by (simp add: store_ok_def newMemoryStore_def)
  let ?ops = "[(1, OPut ''b'' (Auth \<lparr>CodeUser = [], CodeBack = [], BindingHash = []\<rparr>) 9), (2, OTake ''c''), (3, OSweep)] :: (instant \<times> store_op) list"
  have p: "puts ?ops < capacity (newMemoryStore 2)" by (simp add: puts_def newMemoryStore_def)
  have t: "list_all (\<lambda>(t, op). \<not> touches ''a'' op \<and> t \<le> 0 + 9) ?ops" by simp
  have n: "list_all (\<lambda>(t, op). case op of OPut k' _ _ \<Rightarrow> k' \<noteq> ''a'' | _ \<Rightarrow> True) ([] :: (instant \<times> store_op) list)" by simp
  have "(5::instant) \<le> 0 + 9" by simp
  from oauth_store_lifetime [OF ok p t this n, of "Auth \<lparr>CodeUser = ''u'', CodeBack = [], BindingHash = []\<rparr>"]
  show ?thesis by (cases "take_entry 5 ''a'' (store_run ?ops (put_entry 0 ''a''
    (Auth \<lparr>CodeUser = ''u'', CodeBack = [], BindingHash = []\<rparr>) 9 (newMemoryStore 2)))") simp
qed

theorem oauth_cookie_roundtrip_witness:
  "read_cookie (\<lambda>s. CHR ''m'' # filter (\<lambda>c. c \<noteq> CHR ''.'') s) (Some ''a.b.mab'') = Inr ''a.b''"
proof -
  let ?mac = "\<lambda>s. CHR ''m'' # filter (\<lambda>c. c \<noteq> CHR ''.'') s"
  have "\<forall>sid. ?mac sid \<noteq> [] \<and> CHR ''.'' \<notin> set (?mac sid)" by simp
  from oauth_cookie_roundtrip [OF this, of "''a.b''" "''a.b.mab''"] show ?thesis
    by (simp add: sign_sid_def)
qed

end
