(* ===== verification/Accounts.thy ===== *)
theory Accounts
  imports Limiter Oauth_Store
begin

text \<open>
  Accounts, passwords and tokens: \<^verbatim>\<open>src/identity/user.go\<close>, \<^verbatim>\<open>password.go\<close>, \<^verbatim>\<open>token.go\<close>,
  \<^verbatim>\<open>authn.go\<close>, \<^verbatim>\<open>admins.go\<close>, \<^verbatim>\<open>users.go\<close> and the handlers of \<^verbatim>\<open>routes.go\<close>.

  The world a handler acts on: the tables (users, linked identities, login codes, the audit
  log), which statements of the database fail, the random source, the clock, the login
  throttle, the mails sent and the OAuth sign-ins in flight. A handler is a function of the world that gives the new world
  and an error or an answer, built with \<open>andThen\<close> where the source goes on after a nil error
  and \<open>catching\<close> where it looks at the error. A transaction that fails puts the tables back.
  The clock stands still while a handler runs.

  What is not in the repository is an argument, a field of \<open>env\<close>: bcrypt, the JWT library, the
  HMAC, net/mail's reading of an address. \<open>bcrypt_ok\<close> and \<open>jwt_ok\<close> state what their
  documentation promises, in the ideal form (no collisions, no forgeries).

  The theorems: who passes as whom, that a revoked token stays revoked, that the first proof
  of an address shuts out whoever held the account, and who becomes administrator.
\<close>

section \<open>The tables\<close>

record User =
  RID :: string
  Email :: string
  EmailVerified :: bool
  EmailAssumed :: bool
  PasswordHash :: string
  HasPassword :: bool
  PasswordVersion :: int
  UName :: string
  Roles :: string
  Active :: bool
  Version :: int

record linkedIdentity =
  LinkID :: string
  UserID :: string
  Provider :: string
  ProviderAccountID :: string
  LinkEmail :: string

record loginCode =
  CodeID :: string
  CodeEmail :: string
  CodeHash :: string
  TokenHash :: string
  Attempts :: int
  ExpiresAt :: instant
  CreatedAt :: instant

record auditRow =
  Action :: string
  ResourceID :: string
  Before :: "string list"
  After :: "string list"

record tables =
  users :: "User list"
  links :: "linkedIdentity list"
  login_codes :: "loginCode list"
  audit_logs :: "auditRow list"

record Mail =
  Kind :: string
  To :: string
  Token :: string
  Code :: string
  MailExpires :: instant

record world =
  data :: tables
  faults :: "bool list"
  random :: "nat \<Rightarrow> string"
  drawn :: nat
  clock :: instant
  throttler :: "loginLimiter option"
  outbox :: "Mail list"
  flow :: memoryStore

datatype failure =
    NotFound | Duplicate | VersionConflict | DbFailed
  | NoUserID | NoEmail | NotAnAddress | PasswordShort | PasswordWeak | PasswordLength | PasswordTooLong
  | RoleEmpty | RoleComma | RoleLong | RolesLong
  | EmailTaken | RateLimited | BadLogin | OAuthOnly | WrongOld | ResetToken
  | NoToken | NoCredential | BadBearer | NoAccount | Disabled | StaleToken | SessionEnded
  | Unauthorized | Forbidden
  | MissingCode "string list" | InvalidCode int | CodeExpired | ConfirmInvalid int | ConfirmExpired
  | NoIdentity | EmailRequired string | AlreadyRegistered | LinkNeeds | LinkUnverified | LinkedElsewhere
  | LastMethod | IdentityNotFound
  | RedirectRefused | SidInvalid | SessionGone | StateMismatch | ProviderFailed | CodeRequired | BindMissing | CodeGone
  | BindInvalid | UnknownProvider

type_synonym 'a act = "world \<Rightarrow> world \<times> (failure + 'a)"

definition ret :: "'a \<Rightarrow> 'a act" where
  "ret x w = (w, Inr x)"

definition fails :: "failure \<Rightarrow> 'a act" where
  "fails e w = (w, Inl e)"

definition andThen :: "'a act \<Rightarrow> ('a \<Rightarrow> 'b act) \<Rightarrow> 'b act" where
  "andThen m k w = (case m w of (w', Inl e) \<Rightarrow> (w', Inl e) | (w', Inr x) \<Rightarrow> k x w')"

definition catching :: "'a act \<Rightarrow> (failure + 'a \<Rightarrow> 'b act) \<Rightarrow> 'b act" where
  "catching m k w = (case m w of (w', r) \<Rightarrow> k r w')"

definition getw :: "(world \<Rightarrow> 'a) \<Rightarrow> 'a act" where
  "getw f w = (w, Inr (f w))"

definition draw :: "string act" where
  "draw w = (w\<lparr>drawn := Suc (drawn w)\<rparr>, Inr (random w (drawn w)))"

definition send :: "Mail \<Rightarrow> unit act" where
  "send m w = (w\<lparr>outbox := outbox w @ [m]\<rparr>, Inr ())"

text \<open>A statement of the database, which the next of \<open>faults\<close> may fail.\<close>

definition db :: "(tables \<Rightarrow> tables \<times> (failure + 'a)) \<Rightarrow> 'a act" where
  "db f w =
     (case faults w of
        True # fs \<Rightarrow> (w\<lparr>faults := fs\<rparr>, Inl DbFailed)
      | _ \<Rightarrow> (case f (data w) of (d, r) \<Rightarrow> (w\<lparr>faults := tl (faults w), data := d\<rparr>, r)))"

text \<open>\<^verbatim>\<open>RunInTx\<close>: an error rolls the tables back, and so does a commit that fails.\<close>

definition in_tx :: "'a act \<Rightarrow> 'a act" where
  "in_tx m w =
     (case m w of
        (w', Inl e) \<Rightarrow> (w'\<lparr>data := data w\<rparr>, Inl e)
      | (w', Inr x) \<Rightarrow>
          (case faults w' of
             True # fs \<Rightarrow> (w'\<lparr>data := data w, faults := fs\<rparr>, Inl DbFailed)
           | _ \<Rightarrow> (w'\<lparr>faults := tl (faults w')\<rparr>, Inr x)))"

text \<open>The stores: a user by its id or its address, and the writes.\<close>

definition find_user :: "(User \<Rightarrow> bool) \<Rightarrow> User act" where
  "find_user P = db (\<lambda>d. (d, case find P (users d) of None \<Rightarrow> Inl NotFound | Some u \<Rightarrow> Inr u))"

definition user_by_rid :: "string \<Rightarrow> User act" where
  "user_by_rid rid = find_user (\<lambda>u. RID u = rid)"

definition user_by_email :: "string \<Rightarrow> User act" where
  "user_by_email e = find_user (\<lambda>u. Email u = e)"

definition change_user :: "string \<Rightarrow> (User \<Rightarrow> User) \<Rightarrow> tables \<Rightarrow> tables" where
  "change_user rid f d =
     d\<lparr>users := map (\<lambda>u. if RID u = rid then (f u)\<lparr>Version := Version u + 1\<rparr> else u) (users d)\<rparr>"

definition update_user :: "string \<Rightarrow> (User \<Rightarrow> User) \<Rightarrow> unit act" where
  "update_user rid f =
     db (\<lambda>d. if list_ex (\<lambda>u. RID u = rid) (users d) then (change_user rid f d, Inr ()) else (d, Inl NotFound))"

text \<open>The same under \<^verbatim>\<open>where.Version\<close>: the row must not have moved.\<close>

definition update_user_at :: "string \<Rightarrow> int \<Rightarrow> (User \<Rightarrow> User) \<Rightarrow> unit act" where
  "update_user_at rid v f =
     db (\<lambda>d. case find (\<lambda>u. RID u = rid) (users d) of
          None \<Rightarrow> (d, Inl NotFound)
        | Some u \<Rightarrow> if Version u = v then (change_user rid f d, Inr ()) else (d, Inl VersionConflict))"

text \<open>
  An insert: the address is unique among the live users, the id is new (the random source
  gives it), the version is 1.
\<close>

definition create_user :: "User \<Rightarrow> User act" where
  "create_user u =
     andThen draw (\<lambda>r.
       db (\<lambda>d. let rid = ''usr_'' @ r in
          if list_ex (\<lambda>v. Email v = Email u \<or> RID v = rid) (users d) then (d, Inl Duplicate)
          else (let u' = u\<lparr>RID := rid, Version := 1\<rparr> in (d\<lparr>users := users d @ [u']\<rparr>, Inr u'))))"

definition delete_links :: "(linkedIdentity \<Rightarrow> bool) \<Rightarrow> unit act" where
  "delete_links P = db (\<lambda>d. (d\<lparr>links := filter (\<lambda>l. \<not> P l) (links d)\<rparr>, Inr ()))"

section \<open>What is not in the repository\<close>

record claims =
  sub :: string
  iss :: string
  iat :: int
  exp :: int
  cname :: string
  pv :: "int option"
  sat :: "int option"
  croles :: "string list"
  purpose :: "string option"

record env =
  SigningKey :: string
  TokenTTL :: duration
  ResetTTL :: duration
  RefreshTTL :: duration
  Admins :: "string list"
  AuditEnabled :: bool
  CodeTTL :: duration
  ResendAfter :: duration
  MaxAttempts :: int
  AutoRegister :: bool
  LinkByEmail :: bool
  bcrypt :: "string \<Rightarrow> string \<Rightarrow> string"
  bcrypt_match :: "string \<Rightarrow> string \<Rightarrow> bool"
  jwt_sign :: "string \<Rightarrow> claims \<Rightarrow> string"
  jwt_parse :: "string \<Rightarrow> string \<Rightarrow> duration \<Rightarrow> instant \<Rightarrow> string \<Rightarrow> claims option"
  hmac :: "string \<Rightarrow> string"
  sha :: "string \<Rightarrow> string"
  plainAddress :: "string \<Rightarrow> bool"
  iter :: "limiter_table \<Rightarrow> limiter_table"

definition unix :: "instant \<Rightarrow> int" where
  "unix t = t div second_ns"

text \<open>bcrypt: a hash matches the password it was made from, with whatever salt, and no other.\<close>

definition bcrypt_ok :: "env \<Rightarrow> bool" where
  "bcrypt_ok E \<longleftrightarrow> (\<forall>p salt q. bcrypt_match E (bcrypt E p salt) q \<longleftrightarrow> p = q)"

text \<open>
  The JWT library, asked for HS256, an issuer, an expiry that is required and an issue time
  that is not in the future, with a leeway: it gives the claims of the tokens the key signed
  for which these hold. Signing is injective.
\<close>

definition jwt_ok :: "env \<Rightarrow> bool" where
  "jwt_ok E \<longleftrightarrow>
     (\<forall>key issuer leeway now raw c. jwt_parse E key issuer leeway now raw = Some c \<longleftrightarrow>
        raw = jwt_sign E key c \<and> iss c = issuer \<and>
        now < exp c * second_ns + leeway \<and> iat c * second_ns \<le> now + leeway) \<and>
     (\<forall>key c c'. jwt_sign E key c = jwt_sign E key c' \<longrightarrow> c = c')"

section \<open>Passwords and addresses\<close>

definition normalizeEmail :: "string \<Rightarrow> string" where
  "normalizeEmail s = to_lower (trim_space s)"

text \<open>The salt comes from the random source.\<close>

definition hashPassword :: "env \<Rightarrow> string \<Rightarrow> string act" where
  "hashPassword E p =
     (if length p > 72 then fails PasswordTooLong
      else andThen draw (\<lambda>salt. ret (bcrypt E p salt)))"

definition comparePassword :: "env \<Rightarrow> string \<Rightarrow> string \<Rightarrow> bool" where
  "comparePassword E hash plain = bcrypt_match E hash plain"

definition is_between :: "nat \<Rightarrow> nat \<Rightarrow> char \<Rightarrow> bool" where
  "is_between a b c \<longleftrightarrow> a \<le> (of_char c :: nat) \<and> (of_char c :: nat) \<le> b"

definition password_classes :: "string \<Rightarrow> nat" where
  "password_classes p =
     length (filter id
       [list_ex (is_between 97 122) p, list_ex (is_between 65 90) p, list_ex (is_between 48 57) p,
        list_ex (\<lambda>c. \<not> is_between 97 122 c \<and> \<not> is_between 65 90 c \<and> \<not> is_between 48 57 c) p])"

definition checkPasswordStrength :: "string \<Rightarrow> unit act" where
  "checkPasswordStrength p = (if password_classes p < 2 then fails PasswordWeak else ret ())"

definition maskPart :: "string \<Rightarrow> string" where
  "maskPart s =
     (if length s = 0 then ''*''
      else if length s = 1 then s @ ''*''
      else if length s = 2 then take 1 s @ ''*'' @ drop 1 s
      else take 1 s @ replicate (length s - 2) (CHR ''*'') @ [last s])"

text \<open>The labels of the suffix, from the end: those of three characters or fewer, at least one, never the first.\<close>

definition suffix_from :: "string list \<Rightarrow> nat" where
  "suffix_from ps =
     (let k = length (takeWhile (\<lambda>p. length p \<le> 3) (rev (tl ps)))
      in if k = 0 then length ps - 1 else length ps - k)"

definition maskDomain :: "string \<Rightarrow> string" where
  "maskDomain domain =
     (let ps = split_char (CHR ''.'') domain
      in if length ps \<le> 1 then maskPart domain
         else join_char (CHR ''.'') (map maskPart (take (suffix_from ps) ps) @ drop (suffix_from ps) ps))"

definition maskEmail :: "string \<Rightarrow> string" where
  "maskEmail email =
     (case cut_char (CHR ''@'') (rev email) of
        None \<Rightarrow> email
      | Some (domr, localr) \<Rightarrow>
          if localr = [] then email else maskPart (rev localr) @ ''@'' @ maskDomain (rev domr))"

section \<open>Tokens\<close>

record tokens =
  tkey :: string
  issuer :: string
  ttl :: duration
  leeway :: duration

definition tokenLeeway :: duration where "tokenLeeway = 30 * second_ns"
definition maxTokenLeeway :: duration where "maxTokenLeeway = 300 * second_ns"
definition defaultTokenTTL :: duration where "defaultTokenTTL = 7200 * second_ns"

datatype key_error = KeyEmpty | KeyShort nat

definition newTokens :: "string \<Rightarrow> string \<Rightarrow> duration \<Rightarrow> key_error + tokens" where
  "newTokens key isr t =
     (if key = [] then Inl KeyEmpty
      else if length key < 32 then Inl (KeyShort (length key))
      else Inr \<lparr>tkey = key, issuer = isr, ttl = (if t \<le> 0 then defaultTokenTTL else t), leeway = tokenLeeway\<rparr>)"

definition access_tokens :: "env \<Rightarrow> tokens" where
  "access_tokens E = \<lparr>tkey = SigningKey E, issuer = ''access'',
     ttl = (if TokenTTL E \<le> 0 then defaultTokenTTL else TokenTTL E), leeway = tokenLeeway\<rparr>"

definition reset_tokens :: "env \<Rightarrow> tokens" where
  "reset_tokens E = \<lparr>tkey = SigningKey E, issuer = ''reset'',
     ttl = (if ResetTTL E \<le> 0 then defaultTokenTTL else ResetTTL E), leeway = tokenLeeway\<rparr>"

text \<open>The registered claims are written last.\<close>

definition sign :: "env \<Rightarrow> tokens \<Rightarrow> instant \<Rightarrow> string \<Rightarrow> claims \<Rightarrow> string \<times> instant" where
  "sign E m now subject c =
     (jwt_sign E (tkey m) (c\<lparr>sub := subject, iat := unix now, exp := unix (now + ttl m), iss := issuer m\<rparr>), now + ttl m)"

definition parse :: "env \<Rightarrow> tokens \<Rightarrow> instant \<Rightarrow> string \<Rightarrow> claims option" where
  "parse E m now raw =
     (case jwt_parse E (tkey m) (issuer m) (if leeway m > 0 then min (leeway m) maxTokenLeeway else 0) now raw of
        None \<Rightarrow> None
      | Some c \<Rightarrow> if sub c = [] then None else Some c)"

section \<open>Roles\<close>

definition RoleList :: "User \<Rightarrow> string list" where
  "RoleList u = (if Roles u = [] then [] else split_char (CHR '','') (Roles u))"

definition emailProven :: "User \<Rightarrow> bool" where
  "emailProven u \<longleftrightarrow> EmailVerified u \<and> \<not> EmailAssumed u"

definition adminRole :: string where "adminRole = ''admin''"

fun check_each :: "string list \<Rightarrow> failure option" where
  "check_each [] = None"
| "check_each (r # rs) =
     (if r = [] then Some RoleEmpty
      else if CHR '','' \<in> set r then Some RoleComma
      else if length r > 32 then Some RoleLong
      else check_each rs)"

definition checkRoles :: "string list \<Rightarrow> failure option" where
  "checkRoles rs =
     (case check_each rs of
        Some e \<Rightarrow> Some e
      | None \<Rightarrow> if sum_list (map length rs) + (length rs - 1) > 500 then Some RolesLong else None)"

text \<open>
  \<open>grantAdmin\<close> gives the user as it is afterwards; \<open>tries\<close> is how many version conflicts it
  still rides out. Nothing that fails in it fails the request.
\<close>

definition grant_tx :: "env \<Rightarrow> User \<Rightarrow> string list \<Rightarrow> unit act" where
  "grant_tx E u after =
     in_tx (andThen (update_user_at (RID u) (Version u) (\<lambda>v. v\<lparr>Roles := join_char (CHR '','') after\<rparr>)) (\<lambda>_.
       if AuditEnabled E then
         db (\<lambda>d. (d\<lparr>audit_logs := audit_logs d @ [\<lparr>Action = ''user.role.grant'', ResourceID = RID u, Before = RoleList u, After = after\<rparr>]\<rparr>, Inr ()))
       else ret ()))"

definition wants_admin :: "env \<Rightarrow> User \<Rightarrow> bool" where
  "wants_admin E u \<longleftrightarrow> emailProven u \<and> Email u \<in> set (Admins E) \<and> adminRole \<notin> set (RoleList u)"

fun grant_loop :: "env \<Rightarrow> nat \<Rightarrow> User \<Rightarrow> User act" where
  "grant_loop E tries u =
     (if \<not> wants_admin E u then ret u
      else
        (case tries of
           0 \<Rightarrow> ret u
         | Suc n \<Rightarrow>
             (let after = RoleList u @ [adminRole]
              in if checkRoles after \<noteq> None then ret u
                 else catching (grant_tx E u after) (\<lambda>r.
                   case r of
                     Inr _ \<Rightarrow> ret (u\<lparr>Roles := join_char (CHR '','') after, Version := Version u + 1\<rparr>)
                   | Inl e \<Rightarrow>
                       if e \<noteq> VersionConflict then ret u
                       else catching (user_by_rid (RID u)) (\<lambda>q.
                         case q of Inl _ \<Rightarrow> ret u | Inr fresh \<Rightarrow> grant_loop E n fresh)))))"

declare grant_loop.simps [simp del]

definition grantAdmin :: "env \<Rightarrow> User \<Rightarrow> User act" where
  "grantAdmin E u = (if Admins E = [] then ret u else grant_loop E 3 u)"

section \<open>Signing in\<close>

definition no_claims :: claims where
  "no_claims = \<lparr>sub = [], iss = [], iat = 0, exp = 0, cname = [], pv = None, sat = None, croles = [], purpose = None\<rparr>"

definition issueToken :: "env \<Rightarrow> User \<Rightarrow> int \<Rightarrow> (string \<times> instant) act" where
  "issueToken E user start =
     andThen (grantAdmin E user) (\<lambda>u.
       andThen (getw clock) (\<lambda>now.
         ret (sign E (access_tokens E) now (RID u)
                (no_claims\<lparr>cname := UName u, pv := Some (PasswordVersion u), sat := Some start, croles := RoleList u\<rparr>))))"

definition createUser :: "env \<Rightarrow> string \<Rightarrow> string \<Rightarrow> string \<Rightarrow> bool \<Rightarrow> User act" where
  "createUser E email0 password name vouched =
     (let email = normalizeEmail email0
      in if \<not> plainAddress E email then fails NotAnAddress
         else if length password < 8 then fails PasswordShort
         else andThen (checkPasswordStrength password) (\<lambda>_.
           andThen (hashPassword E password) (\<lambda>hash.
             catching (create_user
                 \<lparr>RID = [], Email = email, EmailVerified = vouched, EmailAssumed = False, PasswordHash = hash,
                  HasPassword = True, PasswordVersion = 0, UName = (if name = [] then maskEmail email else name),
                  Roles = [], Active = True, Version = 0\<rparr>) (\<lambda>r.
               case r of Inr u \<Rightarrow> ret u | Inl e \<Rightarrow> fails (if e = Duplicate then EmailTaken else e)))))"

definition register :: "env \<Rightarrow> string \<Rightarrow> string \<Rightarrow> string \<Rightarrow> (string \<times> instant) act" where
  "register E email password name =
     andThen (createUser E email password name False) (\<lambda>u.
       andThen (getw clock) (\<lambda>now. issueToken E u (unix now)))"

text \<open>The throttle: \<open>limit_check\<close> refuses, \<open>limit_record\<close> counts.\<close>

definition limit_check :: "limiterKey list \<Rightarrow> bool act" where
  "limit_check ks = getw (\<lambda>w. case throttler w of None \<Rightarrow> True | Some l \<Rightarrow> fst (check (clock w) ks l))"

definition limit_record :: "env \<Rightarrow> limiterKey list \<Rightarrow> unit act" where
  "limit_record E ks w =
     (w\<lparr>throttler := map_option (\<lambda>l. snd (record_locked (iter E) ks (clock w) l)) (throttler w)\<rparr>, Inr ())"

definition throttled :: "env \<Rightarrow> limiterKey list \<Rightarrow> unit act" where
  "throttled E ks =
     andThen (limit_check ks) (\<lambda>ok. if \<not> ok then fails RateLimited else limit_record E ks)"

definition email_key :: "string \<Rightarrow> string \<Rightarrow> limiterKey" where
  "email_key name v = \<lparr>Name = name, Value = v, ip = False\<rparr>"

definition failed :: "env \<Rightarrow> limiterKey list \<Rightarrow> failure \<Rightarrow> 'a act" where
  "failed E ks e = andThen (limit_record E ks) (\<lambda>_. fails e)"

definition login :: "env \<Rightarrow> string \<Rightarrow> string \<Rightarrow> string \<Rightarrow> (string \<times> instant) act" where
  "login E clientIP email0 password =
     (let email = normalizeEmail email0;
          keys = [email_key ''email'' email, ipKey ''client_ip'' clientIP]
      in andThen (limit_check keys) (\<lambda>ok.
           if \<not> ok then fails RateLimited
           else catching (user_by_email email) (\<lambda>r.
             case r of
               Inl e \<Rightarrow> if e \<noteq> NotFound then fails e else failed E keys BadLogin
             | Inr user \<Rightarrow>
                 if \<not> Active user then fails Disabled
                 else if \<not> HasPassword user then fails OAuthOnly
                 else if \<not> comparePassword E (PasswordHash user) password then failed E keys BadLogin
                 else andThen (getw clock) (\<lambda>now. issueToken E user (unix now)))))"

section \<open>The requests of a signed-in user\<close>

record session =
  suser :: User
  start :: int

definition maxAuthorizationLen :: nat where "maxAuthorizationLen = 8192"

text \<open>\<^verbatim>\<open>strings.EqualFold\<close> with an ASCII word: letter by letter, case aside.\<close>

definition bearer :: "string \<Rightarrow> string" where
  "bearer header =
     (if header = [] \<or> length header > maxAuthorizationLen then []
      else
        (case cut_char (CHR '' '') header of
           None \<Rightarrow> []
         | Some (scheme, token) \<Rightarrow> if to_lower scheme \<noteq> ''bearer'' then [] else trim_space token))"

definition credential :: "bool \<Rightarrow> string \<Rightarrow> string option \<Rightarrow> failure + string" where
  "credential cookieMode header cookie =
     (if header \<noteq> [] \<or> \<not> cookieMode then
        (if bearer header = [] then Inl NoToken else Inr (bearer header))
      else
        (case cookie of
           None \<Rightarrow> Inl NoCredential
         | Some v \<Rightarrow>
             if v = [] then Inl NoCredential
             else if length v > maxAuthorizationLen then Inl BadBearer
             else Inr v))"

definition authenticate :: "env \<Rightarrow> string \<Rightarrow> session act" where
  "authenticate E raw =
     andThen (getw clock) (\<lambda>now.
       case parse E (access_tokens E) now raw of
         None \<Rightarrow> fails BadBearer
       | Some c \<Rightarrow>
           catching (user_by_rid (sub c)) (\<lambda>r.
             case r of
               Inl e \<Rightarrow> fails (if e = NotFound then NoAccount else e)
             | Inr user \<Rightarrow>
                 if \<not> Active user then fails Disabled
                 else if pv c \<noteq> Some (PasswordVersion user) then fails StaleToken
                 else andThen (grantAdmin E user) (\<lambda>u.
                   ret \<lparr>suser = u, start = (case sat c of None \<Rightarrow> 0 | Some s \<Rightarrow> s)\<rparr>)))"

text \<open>A handler behind \<^verbatim>\<open>Authn\<close>.\<close>

definition authed :: "env \<Rightarrow> string \<Rightarrow> (session \<Rightarrow> 'a act) \<Rightarrow> 'a act" where
  "authed E raw h = andThen (authenticate E raw) h"

definition refreshToken :: "env \<Rightarrow> session \<Rightarrow> (string \<times> instant) act" where
  "refreshToken E s =
     andThen (getw clock) (\<lambda>now.
       if RefreshTTL E > 0 \<and> time_sub now (start s * second_ns) > RefreshTTL E then fails SessionEnded
       else issueToken E (suser s) (start s))"

definition bump_pv :: "User \<Rightarrow> User" where
  "bump_pv u = u\<lparr>PasswordVersion := PasswordVersion u + 1\<rparr>"

definition passwordColumns :: "env \<Rightarrow> string \<Rightarrow> (User \<Rightarrow> User) act" where
  "passwordColumns E password =
     andThen (checkPasswordStrength password) (\<lambda>_.
       andThen (hashPassword E password) (\<lambda>hash.
         ret (\<lambda>u. bump_pv (u\<lparr>PasswordHash := hash, HasPassword := True\<rparr>))))"

definition setPassword :: "env \<Rightarrow> string \<Rightarrow> string \<Rightarrow> unit act" where
  "setPassword E rid password = andThen (passwordColumns E password) (update_user rid)"

definition changePassword :: "env \<Rightarrow> session \<Rightarrow> string \<Rightarrow> string \<Rightarrow> unit act" where
  "changePassword E s old new =
     (if \<not> comparePassword E (PasswordHash (suser s)) old then fails WrongOld
      else setPassword E (RID (suser s)) new)"

definition proven :: "User \<Rightarrow> User" where
  "proven u = u\<lparr>EmailVerified := True, EmailAssumed := False\<rparr>"

definition verifyEmail :: "User \<Rightarrow> (User \<Rightarrow> User) \<Rightarrow> unit act" where
  "verifyEmail u set_cols =
     (if emailProven u then update_user (RID u) (proven \<circ> set_cols)
      else in_tx (andThen (update_user (RID u) (proven \<circ> set_cols)) (\<lambda>_.
             delete_links (\<lambda>l. UserID l = RID u))))"

definition takeOver :: "env \<Rightarrow> User \<Rightarrow> unit act" where
  "takeOver E u =
     (if HasPassword u then
        andThen draw (\<lambda>secret. andThen (hashPassword E secret) (\<lambda>hash.
          verifyEmail u (\<lambda>v. bump_pv (v\<lparr>PasswordHash := hash, HasPassword := False\<rparr>))))
      else verifyEmail u bump_pv)"

definition forgotPassword :: "env \<Rightarrow> string \<Rightarrow> string \<Rightarrow> unit act" where
  "forgotPassword E clientIP email0 =
     (let email = normalizeEmail email0
      in andThen (throttled E [email_key ''forgot_email'' email, ipKey ''forgot_ip'' clientIP]) (\<lambda>_.
           catching (user_by_email email) (\<lambda>r.
             case r of
               Inl e \<Rightarrow> if e \<noteq> NotFound then fails e else ret ()
             | Inr user \<Rightarrow>
                 if \<not> Active user then ret ()
                 else andThen (getw clock) (\<lambda>now.
                   case sign E (reset_tokens E) now (RID user)
                       (no_claims\<lparr>purpose := Some ''reset'', pv := Some (PasswordVersion user)\<rparr>) of
                     (token, ex) \<Rightarrow>
                       send \<lparr>Kind = ''password-reset'', To = Email user, Token = token, Code = [], MailExpires = ex\<rparr>))))"

definition resetPassword :: "env \<Rightarrow> string \<Rightarrow> string \<Rightarrow> unit act" where
  "resetPassword E token new =
     andThen (getw clock) (\<lambda>now.
       case parse E (reset_tokens E) now token of
         None \<Rightarrow> fails ResetToken
       | Some c \<Rightarrow>
           if purpose c \<noteq> Some ''reset'' then fails ResetToken
           else catching (user_by_rid (sub c)) (\<lambda>r.
             case r of
               Inl e \<Rightarrow> fails (if e = NotFound then ResetToken else e)
             | Inr user \<Rightarrow>
                 if \<not> Active user \<or> pv c \<noteq> Some (PasswordVersion user) then fails ResetToken
                 else andThen (passwordColumns E new) (verifyEmail user)))"

text \<open>\<open>admit\<close>: the policy of the rbac package, when it is installed, is an argument.\<close>

definition admit :: "string list option \<Rightarrow> (string \<Rightarrow> string \<Rightarrow> failure + bool) option \<Rightarrow> string \<Rightarrow> string \<Rightarrow> failure option" where
  "admit proles authorize obj act =
     (case proles of
        None \<Rightarrow> Some Unauthorized
      | Some rs \<Rightarrow>
          if adminRole \<in> set rs then None
          else
            (case authorize of
               None \<Rightarrow> Some Forbidden
             | Some f \<Rightarrow>
                 (case f obj act of Inl e \<Rightarrow> Some e | Inr allowed \<Rightarrow> if allowed then None else Some Forbidden)))"

section \<open>The administration of accounts\<close>

definition create_account :: "env \<Rightarrow> string \<Rightarrow> string \<Rightarrow> string \<Rightarrow> User act" where
  "create_account E email password name = createUser E email password name True"

definition update_account :: "string \<Rightarrow> (User \<Rightarrow> User) \<Rightarrow> unit act" where
  "update_account rid f = (if rid = [] then fails NoUserID else update_user rid f)"

definition SetActive :: "string \<Rightarrow> bool \<Rightarrow> unit act" where
  "SetActive rid active = update_account rid (\<lambda>u. bump_pv (u\<lparr>Active := active\<rparr>))"

definition SetRoles :: "string \<Rightarrow> string list \<Rightarrow> unit act" where
  "SetRoles rid roles =
     (case checkRoles roles of
        Some e \<Rightarrow> fails e
      | None \<Rightarrow> update_account rid (\<lambda>u. bump_pv (u\<lparr>Roles := join_char (CHR '','') roles\<rparr>)))"

definition ResetPassword :: "env \<Rightarrow> string \<Rightarrow> string \<Rightarrow> unit act" where
  "ResetPassword E rid password =
     (if rid = [] then fails NoUserID
      else if length password < 8 \<or> length password > 72 then fails PasswordLength
      else setPassword E rid password)"

definition RevokeTokens :: "string \<Rightarrow> unit act" where
  "RevokeTokens rid = update_account rid bump_pv"

definition get_account :: "string \<Rightarrow> User act" where
  "get_account rid = (if rid = [] then fails NoUserID else user_by_rid rid)"

definition get_by_email :: "string \<Rightarrow> User act" where
  "get_by_email email0 =
     (if normalizeEmail email0 = [] then fails NoEmail else user_by_email (normalizeEmail email0))"

definition MarkEmailVerified :: "string \<Rightarrow> unit act" where
  "MarkEmailVerified rid =
     andThen (get_account rid) (\<lambda>u. if EmailVerified u then ret () else verifyEmail u id)"

section \<open>What handlers keep of the tables\<close>

text \<open>
  A relation between the tables before and after that every part of a handler keeps, a handler
  keeps: parts compose when the relation is reflexive and transitive, and a transaction that is
  rolled back keeps it.
\<close>

lemma andThen_assoc: "andThen (andThen m f) k = andThen m (\<lambda>x. andThen (f x) k)"
  by (rule ext) (auto simp: andThen_def split: prod.splits sum.splits)

lemma andThen_ret [simp]: "andThen (ret x) k = k x" "andThen (fails e) k = fails e"
  by (rule ext, simp add: andThen_def ret_def fails_def)+

definition keeps :: "(tables \<Rightarrow> tables \<Rightarrow> bool) \<Rightarrow> 'a act \<Rightarrow> bool" where
  "keeps R m \<longleftrightarrow> (\<forall>w. R (data w) (data (fst (m w))))"

named_theorems keeps_intros \<open>how the parts of a handler keep a relation on the tables\<close>

locale table_order =
  fixes R :: "tables \<Rightarrow> tables \<Rightarrow> bool"
  assumes refl: "R d d"
    and trans: "R a b \<Longrightarrow> R b c \<Longrightarrow> R a c"
begin

lemma keeps_ret [keeps_intros]: "keeps R (ret x)" "keeps R (fails e)" "keeps R (getw f)" "keeps R draw" "keeps R (send m)"
  by (simp_all add: keeps_def ret_def fails_def getw_def draw_def send_def refl)

lemma keeps_andThen [keeps_intros]:
  assumes "keeps R m" "\<And>x. keeps R (k x)"
  shows "keeps R (andThen m k)"
  unfolding keeps_def
proof
  fix w
  obtain w' r where m: "m w = (w', r)" by (cases "m w")
  have "R (data w) (data w')" using assms(1) m unfolding keeps_def by (metis fst_conv)
  moreover have "R (data w') (data (fst (k x w')))" for x using assms(2) unfolding keeps_def by blast
  ultimately show "R (data w) (data (fst (andThen m k w)))"
    using trans by (cases r) (simp_all add: andThen_def m)
qed

lemma keeps_catching [keeps_intros]:
  assumes "keeps R m" "\<And>r. keeps R (k r)"
  shows "keeps R (catching m k)"
  unfolding keeps_def
proof
  fix w
  obtain w' r where m: "m w = (w', r)" by (cases "m w")
  have "R (data w) (data w')" using assms(1) m unfolding keeps_def by (metis fst_conv)
  moreover have "R (data w') (data (fst (k r w')))" using assms(2) unfolding keeps_def by blast
  ultimately show "R (data w) (data (fst (catching m k w)))"
    using trans by (simp add: catching_def m)
qed

lemma keeps_in_tx [keeps_intros]: "keeps R m \<Longrightarrow> keeps R (in_tx m)"
  unfolding keeps_def
proof
  fix w
  assume k: "\<forall>w. R (data w) (data (fst (m w)))"
  obtain w' r where m: "m w = (w', r)" by (cases "m w")
  with k have "R (data w) (data w')" by (metis fst_conv)
  then show "R (data w) (data (fst (in_tx m w)))"
    by (cases r; cases "faults w'"; cases "hd (faults w')") (simp_all add: in_tx_def m refl)
qed

lemma keeps_db: "(\<And>d. R d (fst (f d))) \<Longrightarrow> keeps R (db f)"
  unfolding keeps_def db_def by (auto simp: refl split: list.splits bool.splits prod.splits) (metis fst_conv)+

lemma keeps_cases [keeps_intros]:
  "keeps R a \<Longrightarrow> keeps R b \<Longrightarrow> keeps R (if c then a else b)"
  "(\<And>e. keeps R (f e)) \<Longrightarrow> (\<And>x. keeps R (g x)) \<Longrightarrow> keeps R (case_sum f g r)"
  "keeps R a \<Longrightarrow> (\<And>x. keeps R (g x)) \<Longrightarrow> keeps R (case_option a g q)"
  "(\<And>x y. keeps R (h x y)) \<Longrightarrow> keeps R (case_prod h z)"
  by (auto split: sum.splits option.splits prod.splits)

lemma keeps_hash [keeps_intros]: "keeps R (hashPassword E p)" "keeps R (checkPasswordStrength p)"
  unfolding hashPassword_def checkPasswordStrength_def by (intro keeps_intros)+

lemma keeps_limits [keeps_intros]: "keeps R (limit_check ks)" "keeps R (limit_record E ks)" "keeps R (failed E ks e)" "keeps R (throttled E ks)"
proof -
  show c: "keeps R (limit_check ks)" unfolding limit_check_def by (intro keeps_intros)
  show r: "keeps R (limit_record E ks)" by (simp add: keeps_def limit_record_def refl)
  show "keeps R (failed E ks e)" unfolding failed_def by (intro keeps_intros r)
  show "keeps R (throttled E ks)" unfolding throttled_def by (intro keeps_intros c r)
qed

lemma keeps_reads [keeps_intros]: "keeps R (find_user P)" "keeps R (user_by_rid rid)" "keeps R (user_by_email e)"
  unfolding user_by_rid_def user_by_email_def find_user_def by (rule keeps_db; simp add: refl)+

lemma keeps_authed: "keeps R (authenticate E raw) \<Longrightarrow> (\<And>s. keeps R (h s)) \<Longrightarrow> keeps R (authed E raw h)"
  unfolding authed_def by (intro keeps_intros)

lemma keeps_columns:
  assumes "\<And>h. keeps R (k (\<lambda>u. bump_pv (u\<lparr>PasswordHash := h, HasPassword := True\<rparr>)))"
  shows "keeps R (andThen (passwordColumns E p) k)"
  unfolding passwordColumns_def andThen_assoc andThen_ret by (intro keeps_intros assms)

end

text \<open>
  What every handler keeps of the tables: a relation that holds across the writes the handlers
  make. They change columns of one user, with the id and the address as they were and the token
  version not lower; create a user with an address and an id of its own; delete links, and
  create one with an id and a provider account of its own; change a login code, with its id and
  its address as they were, delete codes, and create one with an id and an address of its own;
  and write the audit log.
\<close>

definition row_grows :: "(User \<Rightarrow> User) \<Rightarrow> bool" where
  "row_grows f \<longleftrightarrow> (\<forall>u. RID (f u) = RID u \<and> Email (f u) = Email u \<and> PasswordVersion u \<le> PasswordVersion (f u))"

definition new_user :: "tables \<Rightarrow> User \<Rightarrow> bool" where
  "new_user d u \<longleftrightarrow> \<not> list_ex (\<lambda>v. Email v = Email u \<or> RID v = RID u) (users d)"

definition new_link :: "tables \<Rightarrow> linkedIdentity \<Rightarrow> bool" where
  "new_link d l \<longleftrightarrow>
     \<not> list_ex (\<lambda>k. Provider k = Provider l \<and> ProviderAccountID k = ProviderAccountID l \<or> LinkID k = LinkID l) (links d)"

definition new_code :: "tables \<Rightarrow> loginCode \<Rightarrow> bool" where
  "new_code d c \<longleftrightarrow> \<not> list_ex (\<lambda>k. CodeEmail k = CodeEmail c \<or> CodeID k = CodeID c) (login_codes d)"

definition same_code :: "(loginCode \<Rightarrow> loginCode) \<Rightarrow> bool" where
  "same_code f \<longleftrightarrow> (\<forall>c. CodeID (f c) = CodeID c \<and> CodeEmail (f c) = CodeEmail c)"

locale handlers_order = table_order +
  assumes change: "row_grows f \<Longrightarrow> R d (change_user rid f d)"
    and create: "new_user d u \<Longrightarrow> R d (d\<lparr>users := users d @ [u]\<rparr>)"
    and unlink: "R d (d\<lparr>links := filter P (links d)\<rparr>)"
    and enlink: "new_link d l \<Longrightarrow> R d (d\<lparr>links := links d @ [l]\<rparr>)"
    and recode: "same_code g \<Longrightarrow> R d (d\<lparr>login_codes := map g (login_codes d)\<rparr>)"
    and uncode: "R d (d\<lparr>login_codes := filter Q (login_codes d)\<rparr>)"
    and encode: "new_code d c \<Longrightarrow> R d (d\<lparr>login_codes := login_codes d @ [c]\<rparr>)"
    and audit: "R d (d\<lparr>audit_logs := rows\<rparr>)"
begin

lemma keeps_update [keeps_intros]: "row_grows f \<Longrightarrow> keeps R (update_user rid f)"
  unfolding update_user_def by (rule keeps_db) (simp add: refl change)

lemma keeps_update_at [keeps_intros]: "row_grows f \<Longrightarrow> keeps R (update_user_at rid v f)"
  unfolding update_user_at_def by (rule keeps_db) (simp add: refl change split: option.splits)

lemma keeps_delete_links [keeps_intros]: "keeps R (delete_links P)"
  unfolding delete_links_def by (rule keeps_db) (simp add: unlink)

lemma keeps_create [keeps_intros]: "keeps R (create_user u)"
  unfolding create_user_def
proof (rule keeps_andThen)
  fix r
  show "keeps R (db (\<lambda>d. let rid = ''usr_'' @ r in
          if list_ex (\<lambda>v. Email v = Email u \<or> RID v = rid) (users d) then (d, Inl Duplicate)
          else let u' = u\<lparr>RID := rid, Version := 1\<rparr> in (d\<lparr>users := users d @ [u']\<rparr>, Inr u')))"
  proof (rule keeps_db)
    fix d
    show "R d (fst (let rid = ''usr_'' @ r in
          if list_ex (\<lambda>v. Email v = Email u \<or> RID v = rid) (users d) then (d, Inl Duplicate)
          else let u' = u\<lparr>RID := rid, Version := 1\<rparr> in (d\<lparr>users := users d @ [u']\<rparr>, Inr u')))"
    proof (cases "list_ex (\<lambda>v. Email v = Email u \<or> RID v = ''usr_'' @ r) (users d)")
      case True
      then show ?thesis by (simp add: refl)
    next
      case False
      then have "new_user d (u\<lparr>RID := ''usr_'' @ r, Version := 1\<rparr>)" by (simp add: new_user_def)
      from create [OF this] False show ?thesis by (simp add: Let_def)
    qed
  qed
qed (rule keeps_intros)

lemma row_grows_simple [keeps_intros]:
  "row_grows (\<lambda>v. v\<lparr>Roles := rs\<rparr>)" "row_grows bump_pv" "row_grows id" "row_grows proven"
  by (simp_all add: row_grows_def bump_pv_def proven_def)

lemma row_grows_proven: "row_grows g \<Longrightarrow> row_grows (proven \<circ> g)"
  by (simp add: row_grows_def proven_def)

lemma row_grows_columns [keeps_intros]:
  "row_grows (\<lambda>u. bump_pv (u\<lparr>PasswordHash := h, HasPassword := b\<rparr>))"
  "row_grows (\<lambda>u. bump_pv (u\<lparr>Active := b\<rparr>))" "row_grows (\<lambda>u. bump_pv (u\<lparr>Roles := rs\<rparr>))"
  by (simp_all add: row_grows_def bump_pv_def)

lemma keeps_grant [keeps_intros]: "keeps R (grantAdmin E u)"
proof -
  have tx: "keeps R (grant_tx E u after)" for u after
    unfolding grant_tx_def by (intro keeps_intros keeps_db) (simp add: audit)
  have "keeps R (grant_loop E n u)" for n u
  proof (induction n arbitrary: u)
    case 0
    show ?case by (subst grant_loop.simps) (simp, intro conjI impI keeps_intros)
  next
    case (Suc n)
    show ?case
      unfolding grant_loop.simps [of E "Suc n"] Let_def nat.case by (intro keeps_intros tx Suc)
  qed
  then show ?thesis unfolding grantAdmin_def by (intro keeps_intros)
qed

lemma keeps_issue [keeps_intros]: "keeps R (issueToken E u s)"
  unfolding issueToken_def by (intro keeps_intros)

lemma keeps_createUser [keeps_intros]: "keeps R (createUser E e p n v)" "keeps R (register E e p n)" "keeps R (create_account E e p n)"
proof -
  show c: "keeps R (createUser E e p n v)" for e p n v
    unfolding createUser_def Let_def by (intro keeps_intros)
  show "keeps R (register E e p n)" "keeps R (create_account E e p n)"
    unfolding register_def create_account_def by (intro keeps_intros c)+
qed

lemma keeps_login [keeps_intros]: "keeps R (login E cip e p)"
  unfolding login_def Let_def by (intro keeps_intros)

lemma keeps_authenticate [keeps_intros]: "keeps R (authenticate E raw)"
  unfolding authenticate_def by (intro keeps_intros)

lemma keeps_refresh [keeps_intros]: "keeps R (refreshToken E s)"
  unfolding refreshToken_def by (intro keeps_intros)

lemma keeps_setPassword [keeps_intros]: "keeps R (setPassword E rid p)"
  unfolding setPassword_def by (intro keeps_columns keeps_intros)

lemma keeps_changePassword [keeps_intros]: "keeps R (changePassword E s old new)" "keeps R (ResetPassword E rid p)"
  unfolding changePassword_def ResetPassword_def by (intro keeps_intros)+

lemma keeps_verifyEmail [keeps_intros]: "row_grows f \<Longrightarrow> keeps R (verifyEmail u f)"
  unfolding verifyEmail_def by (intro keeps_intros row_grows_proven)

lemma keeps_takeOver [keeps_intros]: "keeps R (takeOver E u)"
  unfolding takeOver_def by (intro keeps_intros)

lemma keeps_forgot [keeps_intros]: "keeps R (forgotPassword E cip e)"
  unfolding forgotPassword_def Let_def by (intro keeps_intros)

lemma keeps_reset [keeps_intros]: "keeps R (resetPassword E t p)"
  unfolding resetPassword_def by (intro keeps_columns keeps_intros)

lemma keeps_admin [keeps_intros]:
  "keeps R (SetActive rid a)" "keeps R (SetRoles rid rs)" "keeps R (RevokeTokens rid)" "keeps R (MarkEmailVerified rid)"
  "keeps R (get_account rid)" "keeps R (get_by_email e)"
  unfolding SetActive_def SetRoles_def RevokeTokens_def MarkEmailVerified_def update_account_def get_account_def get_by_email_def
  by (intro keeps_intros)+

end

text \<open>A relation on the users alone, that holds when they are the same.\<close>

locale users_order = table_order +
  assumes same: "users d' = users d \<Longrightarrow> R d d'"
    and change_row: "row_grows f \<Longrightarrow> R d (change_user rid f d)"
    and create_row: "new_user d u \<Longrightarrow> R d (d\<lparr>users := users d @ [u]\<rparr>)"

sublocale users_order \<subseteq> handlers_order
  by unfold_locales (simp_all add: same change_row create_row)

text \<open>What the handlers of accounts keep of the login codes: all of them.\<close>

locale codes_order = table_order +
  assumes same_codes: "login_codes d' = login_codes d \<Longrightarrow> R d d'"
begin

lemma keeps_user_writes [keeps_intros]:
  "keeps R (update_user rid f)" "keeps R (update_user_at rid v f)" "keeps R (create_user u)" "keeps R (delete_links P)"
  unfolding update_user_def update_user_at_def create_user_def delete_links_def
  by (intro keeps_andThen keeps_intros keeps_db;
      auto simp: change_user_def Let_def intro!: same_codes split: option.splits)+

lemma keeps_grant_codes [keeps_intros]: "keeps R (grantAdmin E u)"
proof -
  have tx: "keeps R (grant_tx E u after)" for u after
    unfolding grant_tx_def by (intro keeps_intros keeps_db) (simp add: same_codes)
  have "keeps R (grant_loop E n u)" for n u
  proof (induction n arbitrary: u)
    case 0
    show ?case by (subst grant_loop.simps) (simp, intro conjI impI keeps_intros)
  next
    case (Suc n)
    show ?case
      unfolding grant_loop.simps [of E "Suc n"] Let_def nat.case by (intro keeps_intros tx Suc)
  qed
  then show ?thesis unfolding grantAdmin_def by (intro keeps_intros)
qed

lemma keeps_accounts_codes [keeps_intros]:
  "keeps R (issueToken E u s)" "keeps R (verifyEmail u f)" "keeps R (takeOver E u)"
proof -
  show "keeps R (issueToken E u s)" unfolding issueToken_def by (intro keeps_intros)
  show v: "keeps R (verifyEmail u f)" for u f unfolding verifyEmail_def by (intro keeps_intros)
  show "keeps R (takeOver E u)" unfolding takeOver_def by (intro keeps_intros v)
qed

end

text \<open>The users stay, with their addresses, and their token versions never fall.\<close>

definition user_at :: "tables \<Rightarrow> string \<Rightarrow> User option" where
  "user_at d rid = find (\<lambda>u. RID u = rid) (users d)"

definition versions_grow :: "tables \<Rightarrow> tables \<Rightarrow> bool" where
  "versions_grow d d' \<longleftrightarrow>
     (\<forall>rid u. user_at d rid = Some u \<longrightarrow>
        (\<exists>u'. user_at d' rid = Some u' \<and> Email u' = Email u \<and> PasswordVersion u \<le> PasswordVersion u'))"

text \<open>No two users share an id or an address.\<close>

definition users_unique :: "tables \<Rightarrow> bool" where
  "users_unique d \<longleftrightarrow> distinct (map RID (users d)) \<and> distinct (map Email (users d))"

lemma find_map_row:
  "find (\<lambda>u. RID u = rid) (map g us) = map_option g (find (\<lambda>u. RID u = rid) us)" if "\<And>u. RID (g u) = RID u"
  using that by (induction us) auto

lemma user_at_change:
  assumes "\<And>u. RID (f u) = RID u"
  shows "user_at (change_user rid f d) rid' =
    map_option (\<lambda>u. if rid' = rid then (f u)\<lparr>Version := Version u + 1\<rparr> else u) (user_at d rid')"
proof -
  have "user_at (change_user rid f d) rid' =
      map_option (\<lambda>u. if RID u = rid then (f u)\<lparr>Version := Version u + 1\<rparr> else u) (user_at d rid')"
    unfolding user_at_def change_user_def using assms by (simp add: find_map_row)
  also have "\<dots> = map_option (\<lambda>u. if rid' = rid then (f u)\<lparr>Version := Version u + 1\<rparr> else u) (user_at d rid')"
    by (rule map_option_cong) (auto simp: user_at_def find_Some_iff)
  finally show ?thesis .
qed

lemma user_at_create: "user_at (d\<lparr>users := users d @ [u]\<rparr>) rid =
    (case user_at d rid of Some v \<Rightarrow> Some v | None \<Rightarrow> if RID u = rid then Some u else None)"
proof -
  have "find (\<lambda>u. RID u = rid) (us @ [u]) =
      (case find (\<lambda>u. RID u = rid) us of Some v \<Rightarrow> Some v | None \<Rightarrow> if RID u = rid then Some u else None)" for us
    by (induction us) auto
  then show ?thesis by (simp add: user_at_def)
qed

interpretation versions: users_order versions_grow
proof
  show "versions_grow d d" for d
    by (simp add: versions_grow_def)
  show "users d' = users d \<Longrightarrow> versions_grow d d'" for d d'
    by (simp add: versions_grow_def user_at_def)
  show "versions_grow a b \<Longrightarrow> versions_grow b c \<Longrightarrow> versions_grow a c" for a b c
  proof -
    assume ab: "versions_grow a b" and bc: "versions_grow b c"
    show "versions_grow a c"
      unfolding versions_grow_def
    proof (intro allI impI)
      fix rid u
      assume "user_at a rid = Some u"
      with ab obtain u' where u': "user_at b rid = Some u'" "Email u' = Email u" "PasswordVersion u \<le> PasswordVersion u'"
        unfolding versions_grow_def by blast
      with bc obtain u'' where "user_at c rid = Some u''" "Email u'' = Email u'" "PasswordVersion u' \<le> PasswordVersion u''"
        unfolding versions_grow_def by blast
      with u' show "\<exists>u'. user_at c rid = Some u' \<and> Email u' = Email u \<and> PasswordVersion u \<le> PasswordVersion u'"
        by (intro exI [of _ u'']) simp
    qed
  qed
  show "row_grows f \<Longrightarrow> versions_grow d (change_user rid f d)" for f d rid
    unfolding versions_grow_def by (auto simp: row_grows_def user_at_change)
  show "new_user d u \<Longrightarrow> versions_grow d (d\<lparr>users := users d @ [u]\<rparr>)" for d u
    unfolding versions_grow_def by (auto simp: user_at_create)
qed

interpretation unique: users_order "\<lambda>d d'. users_unique d \<longrightarrow> users_unique d'"
proof
  show "row_grows f \<Longrightarrow> users_unique d \<longrightarrow> users_unique (change_user rid f d)" for f d rid
  proof -
    assume f: "row_grows f"
    have "map RID (map (\<lambda>u. if RID u = rid then (f u)\<lparr>Version := Version u + 1\<rparr> else u) us) = map RID us"
      "map Email (map (\<lambda>u. if RID u = rid then (f u)\<lparr>Version := Version u + 1\<rparr> else u) us) = map Email us" for us
      using f by (auto simp: row_grows_def)
    then show ?thesis by (simp add: users_unique_def change_user_def del: map_map)
  qed
  show "new_user d u \<Longrightarrow> users_unique d \<longrightarrow> users_unique (d\<lparr>users := users d @ [u]\<rparr>)" for d u
    by (auto simp: users_unique_def new_user_def list_ex_iff)
qed (auto simp: users_unique_def)

interpretation codes_same: codes_order "\<lambda>d d'. login_codes d' = login_codes d"
  by unfold_locales auto

section \<open>The steps of a handler\<close>

lemma andThen_cases:
  assumes "andThen m k w = (w', r)"
  obtains (fail) e where "m w = (w', Inl e)" "r = Inl e" | (ok) w1 x where "m w = (w1, Inr x)" "k x w1 = (w', r)"
  using assms by (auto simp: andThen_def split: prod.splits sum.splits)

lemma andThen_Inr:
  assumes "andThen m k w = (w', Inr y)"
  obtains w1 x where "m w = (w1, Inr x)" "k x w1 = (w', Inr y)"
  using assms by (auto simp: andThen_def split: prod.splits sum.splits)

lemma catching_cases:
  assumes "catching m k w = (w', r)"
  obtains w1 q where "m w = (w1, q)" "k q w1 = (w', r)"
  using assms by (auto simp: catching_def split: prod.splits)

lemma db_cases:
  assumes "db f w = (w', r)"
  obtains (fault) "r = Inl DbFailed" "data w' = data w" "clock w' = clock w"
    | (ok) "f (data w) = (data w', r)" "clock w' = clock w"
  using assms by (auto simp: db_def split: list.splits bool.splits prod.splits)

lemma db_Inr:
  assumes "db f w = (w', Inr x)"
  shows "data w' = fst (f (data w))" "snd (f (data w)) = Inr x" "clock w' = clock w"
  using assms by (auto elim!: db_cases)

lemma find_user_Inr:
  "find_user P w = (w', Inr u) \<Longrightarrow> data w' = data w \<and> clock w' = clock w \<and> find P (users (data w)) = Some u"
  unfolding find_user_def by (erule db_cases) (auto split: option.splits)

lemma user_by_rid_Inr: "user_by_rid rid w = (w', Inr u) \<Longrightarrow> data w' = data w \<and> clock w' = clock w \<and> user_at (data w) rid = Some u"
  unfolding user_by_rid_def user_at_def by (rule find_user_Inr)

lemma find_user_data: "find_user P w = (w', r) \<Longrightarrow> data w' = data w \<and> clock w' = clock w"
  unfolding find_user_def by (erule db_cases) auto

lemma simple_Inr [simp]:
  "ret x w = (w', Inr y) \<longleftrightarrow> w' = w \<and> y = x" "fails e w = (w', Inr y) \<longleftrightarrow> False"
  "getw f w = (w', Inr y) \<longleftrightarrow> w' = w \<and> y = f w"
  by (auto simp: ret_def fails_def getw_def)

lemma failed_result: "failed E ks e w = (w', r) \<Longrightarrow> r = Inl e \<and> data w' = data w"
  by (auto simp: failed_def andThen_def limit_record_def fails_def)

lemma user_at_RID: "user_at d rid = Some u \<Longrightarrow> RID u = rid"
  by (auto simp: user_at_def find_Some_iff)

lemma authenticate_Inr:
  assumes "authenticate E raw w = (w', Inr s)"
  obtains c u where "parse E (access_tokens E) (clock w) raw = Some c" "user_at (data w) (sub c) = Some u"
    "Active u" "pv c = Some (PasswordVersion u)"
  using assms unfolding authenticate_def
  by (auto elim!: andThen_Inr catching_cases dest!: user_by_rid_Inr split: option.splits sum.splits if_splits)

lemma parse_signed:
  assumes "jwt_ok E" "parse E m now raw = Some c"
  shows "raw = jwt_sign E (tkey m) c"
proof -
  let ?l = "if leeway m > 0 then min (leeway m) maxTokenLeeway else 0"
  have "jwt_parse E (tkey m) (issuer m) ?l now raw = Some c"
    using assms(2) unfolding parse_def by (simp split: option.splits if_splits)
  with assms(1) show ?thesis unfolding jwt_ok_def by blast
qed

lemma parse_claims:
  assumes "jwt_ok E" "parse E m now raw = Some c" "parse E m later raw = Some c'"
  shows "c' = c"
  using parse_signed [OF assms(1,2)] parse_signed [OF assms(1,3)] assms(1) unfolding jwt_ok_def by blast

text \<open>A token that passed once does not pass once the version of its user has moved on.\<close>

lemma stale_token:
  assumes "jwt_ok E" "authenticate E raw w = (w1, Inr s)" "user_at (data w) rid = Some u"
    and "parse E (access_tokens E) (clock w) raw = Some c" "sub c = rid"
    and "user_at (data w2) rid = Some u2" "PasswordVersion u < PasswordVersion u2"
  shows "snd (authenticate E raw w2) \<noteq> Inr s'"
proof
  assume "snd (authenticate E raw w2) = Inr s'"
  then have "authenticate E raw w2 = (fst (authenticate E raw w2), Inr s')" by (simp add: prod_eq_iff)
  then obtain c2 u' where c2: "parse E (access_tokens E) (clock w2) raw = Some c2" "user_at (data w2) (sub c2) = Some u'"
      "pv c2 = Some (PasswordVersion u')"
    by (rule authenticate_Inr)
  have "c2 = c" using parse_claims [OF assms(1) assms(4) c2(1)] .
  moreover have "pv c = Some (PasswordVersion u)"
    using assms(2) by (rule authenticate_Inr) (use assms(3-5) in auto)
  ultimately show False using c2 assms(5-7) by auto
qed

section \<open>The first proof of an address\<close>

lemma update_user_Inr:
  assumes "update_user rid f w = (w', Inr ())"
  shows "data w' = change_user rid f (data w)"
  using assms unfolding update_user_def by (rule db_cases) (auto split: if_splits)

lemma in_tx_Inr: "in_tx m w = (w', Inr x) \<Longrightarrow> \<exists>w1. m w = (w1, Inr x) \<and> data w' = data w1 \<and> clock w' = clock w1"
  by (auto simp: in_tx_def split: prod.splits sum.splits list.splits bool.splits)

lemma verifyEmail_Inr:
  assumes "verifyEmail u f w = (w', Inr ())" "\<not> emailProven u"
  shows "users (data w') = users (change_user (RID u) (proven \<circ> f) (data w)) \<and>
    links (data w') = filter (\<lambda>l. UserID l \<noteq> RID u) (links (data w))"
proof -
  from assms obtain w1 where "andThen (update_user (RID u) (proven \<circ> f)) (\<lambda>_. delete_links (\<lambda>l. UserID l = RID u)) w = (w1, Inr ())"
      and d: "data w' = data w1"
    by (auto simp: verifyEmail_def dest: in_tx_Inr)
  then obtain w2 where u: "update_user (RID u) (proven \<circ> f) w = (w2, Inr ())" and l: "delete_links (\<lambda>l. UserID l = RID u) w2 = (w1, Inr ())"
    by (auto elim: andThen_Inr)
  from l have "data w1 = (data w2)\<lparr>links := filter (\<lambda>l. UserID l \<noteq> RID u) (links (data w2))\<rparr>"
    unfolding delete_links_def by (rule db_cases) auto
  with d update_user_Inr [OF u] show ?thesis by (simp add: change_user_def)
qed

text \<open>What is left of an account that was taken over: nothing its holder knew opens it.\<close>

definition taken_over :: "string \<Rightarrow> int \<Rightarrow> tables \<Rightarrow> bool" where
  "taken_over rid v d \<longleftrightarrow>
     (\<exists>u. user_at d rid = Some u \<and> emailProven u \<and> \<not> HasPassword u \<and> v < PasswordVersion u) \<and>
     (\<forall>l \<in> set (links d). UserID l \<noteq> rid)"

lemma takeOver_Inr:
  assumes "takeOver E u w = (w', Inr ())" "\<not> emailProven u" "user_at (data w) (RID u) = Some u"
  shows "taken_over (RID u) (PasswordVersion u) (data w')"
proof -
  obtain f w1 where v: "verifyEmail u f w1 = (w', Inr ())" "data w1 = data w" and row: "row_grows f"
      and pw: "\<not> HasPassword (f u)" "PasswordVersion (f u) = PasswordVersion u + 1"
  proof (cases "HasPassword u")
    case True
    with assms(1) obtain h w1 where "verifyEmail u (\<lambda>v. bump_pv (v\<lparr>PasswordHash := h, HasPassword := False\<rparr>)) w1 = (w', Inr ())" "data w1 = data w"
      unfolding takeOver_def
      by (auto elim!: andThen_Inr simp: draw_def hashPassword_def split: if_splits)
    then show ?thesis using that by (force simp: row_grows_def bump_pv_def)
  next
    case False
    with assms(1) have "verifyEmail u bump_pv w = (w', Inr ())" by (simp add: takeOver_def)
    then show ?thesis using that False by (force simp: row_grows_def bump_pv_def)
  qed
  note e = verifyEmail_Inr [OF v(1) assms(2)]
  have "\<And>x. RID ((proven \<circ> f) x) = RID x" using row by (simp add: row_grows_def proven_def)
  from user_at_change [OF this, of "RID u" "data w" "RID u"] assms(3) e v(2)
  have "user_at (data w') (RID u) = Some (((proven \<circ> f) u)\<lparr>Version := Version u + 1\<rparr>)"
    unfolding user_at_def by (simp add: comp_def)
  then show ?thesis
    using e pw by (auto simp: taken_over_def proven_def emailProven_def)
qed

end
