(* ===== verification/Accounts_Demo.thy ===== *)
theory Accounts_Demo
  imports Accounts "HOL-Library.Code_Target_Nat"
begin

text \<open>
  A concrete instance of what \<^verbatim>\<open>Accounts\<close> takes as arguments, on which the hypotheses about
  bcrypt and the JWT library hold and which evaluates: a hash that is the password, and tokens
  that spell out the key and the claims, each field preceded by its length. The witnesses of
  the identity theories use it, with a world that has one user.
\<close>

section \<open>Numbers and options as fields\<close>

definition put_int :: "int \<Rightarrow> string" where
  "put_int i = (if i < 0 then CHR ''-'' # show_nat (nat (- i)) else show_nat (nat i))"

definition get_int :: "string \<Rightarrow> int" where
  "get_int s = (case s of c # cs \<Rightarrow> if c = CHR ''-'' then - int (digits_val cs) else int (digits_val s) | [] \<Rightarrow> 0)"

lemma get_put_int: "get_int (put_int i) = i"
proof (cases "i < 0")
  case True
  then show ?thesis by (simp add: put_int_def get_int_def)
next
  case False
  obtain c cs where s: "show_nat (nat i) = c # cs" by (cases "show_nat (nat i)") auto
  have "is_digit c" using show_nat_digits [of "nat i"] s by simp
  then have "c \<noteq> CHR ''-''" by (auto simp: is_digit_def)
  with False s digits_val_show [of "nat i"] show ?thesis by (simp add: put_int_def get_int_def)
qed

definition put_opt :: "('a \<Rightarrow> string) \<Rightarrow> 'a option \<Rightarrow> string" where
  "put_opt f q = (case q of None \<Rightarrow> [] | Some x \<Rightarrow> CHR ''+'' # f x)"

definition get_opt :: "(string \<Rightarrow> 'a) \<Rightarrow> string \<Rightarrow> 'a option" where
  "get_opt f s = (case s of [] \<Rightarrow> None | _ # r \<Rightarrow> Some (f r))"

lemma get_put_opt: "(\<And>x. g (f x) = x) \<Longrightarrow> get_opt g (put_opt f q) = q"
  by (cases q) (simp_all add: get_opt_def put_opt_def)

definition demo_fields :: "claims \<Rightarrow> string list" where
  "demo_fields c =
     [sub c, iss c, put_int (iat c), put_int (exp c), cname c, put_opt put_int (pv c), put_opt put_int (sat c),
      put_opt id (purpose c)] @ croles c"

definition demo_claims :: "string list \<Rightarrow> claims" where
  "demo_claims fs =
     \<lparr>sub = fs ! 0, iss = fs ! 1, iat = get_int (fs ! 2), exp = get_int (fs ! 3), cname = fs ! 4,
      pv = get_opt get_int (fs ! 5), sat = get_opt get_int (fs ! 6), croles = drop 8 fs, purpose = get_opt id (fs ! 7)\<rparr>"

lemma demo_claims_fields: "demo_claims (demo_fields c) = c"
  by (simp add: demo_claims_def demo_fields_def get_put_int get_put_opt [of get_int put_int] get_put_opt [of id id]
      nth_append)

section \<open>The instance\<close>

definition demo_sign :: "string \<Rightarrow> claims \<Rightarrow> string" where
  "demo_sign key c = put_fields (key # demo_fields c)"

definition demo_read :: "string \<Rightarrow> claims option" where
  "demo_read raw =
     (case get_fields (length raw) raw of
        Some (_ # fs) \<Rightarrow> if length fs \<ge> 8 then Some (demo_claims fs) else None
      | _ \<Rightarrow> None)"

definition demo_jwt_parse :: "string \<Rightarrow> string \<Rightarrow> duration \<Rightarrow> instant \<Rightarrow> string \<Rightarrow> claims option" where
  "demo_jwt_parse key isr lw now raw =
     (case demo_read raw of
        None \<Rightarrow> None
      | Some c \<Rightarrow>
          if raw = demo_sign key c \<and> iss c = isr \<and> now < exp c * second_ns + lw \<and> iat c * second_ns \<le> now + lw
          then Some c else None)"

lemma demo_read_sign: "demo_read (demo_sign key c) = Some c"
proof -
  let ?fs = "key # demo_fields c"
  have "get_fields (length (put_fields ?fs)) (put_fields ?fs) = Some ?fs"
    by (rule get_put_fields) (rule put_fields_length)
  moreover have "length (demo_fields c) \<ge> 8" by (simp add: demo_fields_def)
  ultimately show ?thesis by (simp add: demo_read_def demo_sign_def demo_claims_fields)
qed

definition demo_env :: env where
  "demo_env =
     \<lparr>SigningKey = ''0123456789abcdef0123456789abcdef'', TokenTTL = 7200 * second_ns, ResetTTL = 900 * second_ns,
      RefreshTTL = 0, Admins = [], AuditEnabled = False, CodeTTL = 600 * second_ns, ResendAfter = 60 * second_ns,
      MaxAttempts = 5, AutoRegister = True, LinkByEmail = True,
      bcrypt = (\<lambda>p salt. p), bcrypt_match = (\<lambda>h p. h = p), jwt_sign = demo_sign, jwt_parse = demo_jwt_parse,
      hmac = (\<lambda>s. CHR ''h'' # s), sha = (\<lambda>s. CHR ''s'' # s), plainAddress = (\<lambda>s. CHR ''@'' \<in> set s), iter = id\<rparr>"

lemma demo_bcrypt_ok: "bcrypt_ok demo_env"
  by (simp add: bcrypt_ok_def demo_env_def)

lemma demo_jwt_ok: "jwt_ok demo_env"
proof -
  have inj: "demo_sign key c = demo_sign key c' \<longleftrightarrow> c = c'" for key c c'
    by (metis demo_read_sign option.inject)
  have "(jwt_parse demo_env key isr lw now raw = Some c) \<longleftrightarrow>
      raw = demo_sign key c \<and> iss c = isr \<and> now < exp c * second_ns + lw \<and> iat c * second_ns \<le> now + lw"
    for key isr lw now raw c
    by (auto simp: demo_env_def demo_jwt_parse_def demo_read_sign inj split: option.splits if_splits)
  then show ?thesis by (simp add: jwt_ok_def demo_env_def inj)
qed

definition demo_user :: User where
  "demo_user =
     \<lparr>RID = ''usr_1'', Email = ''a@b'', EmailVerified = True, EmailAssumed = True, PasswordHash = ''x'', HasPassword = False,
      PasswordVersion = 0, UName = ''A'', Roles = [], Active = True, Version = 1\<rparr>"

text \<open>The code 7 was mailed to the address of the user, and the user signed in through a provider.\<close>

definition demo_tables :: tables where
  "demo_tables =
     \<lparr>users = [demo_user],
      links = [\<lparr>LinkID = ''idn_1'', UserID = ''usr_1'', Provider = ''fb'', ProviderAccountID = ''42'', LinkEmail = ''a@b''\<rparr>],
      login_codes = [\<lparr>CodeID = ''lgc_1'', CodeEmail = ''a@b'', CodeHash = ''h7'', TokenHash = ''ht'', Attempts = 0,
                      ExpiresAt = 600 * second_ns, CreatedAt = 0\<rparr>],
      audit_logs = []\<rparr>"

definition demo_world :: world where
  "demo_world =
     \<lparr>data = demo_tables, faults = [], random = (\<lambda>n. ''r'' @ show_nat n), drawn = 0, clock = second_ns, throttler = None,
      outbox = [], flow = newMemoryStore 10\<rparr>"

end
