(* ===== verification/Passwordless.thy ===== *)
theory Passwordless
  imports Accounts_Demo
begin

text \<open>
  Signing in with a mailed code, and confirming an address with one:
  \<^verbatim>\<open>src/identity/passwordless.go\<close> and \<^verbatim>\<open>src/identity/confirm.go\<close>, on the world of
  \<^verbatim>\<open>Accounts\<close>. The codes are rows of auth_login_codes, one for an address: the statements that
  replace, count and delete a row are conditional, as in the source, and tell how many rows
  they changed.

  The theorems: how many guesses a code survives, that it is good once, and what the first
  proof of an address leaves of the account.
\<close>

section \<open>The rows\<close>

definition change_codes :: "(loginCode \<Rightarrow> bool) \<Rightarrow> (loginCode \<Rightarrow> loginCode) \<Rightarrow> bool act" where
  "change_codes P f =
     db (\<lambda>d. (d\<lparr>login_codes := map (\<lambda>c. if P c then f c else c) (login_codes d)\<rparr>, Inr (list_ex P (login_codes d))))"

definition find_code :: "(loginCode \<Rightarrow> bool) \<Rightarrow> loginCode act" where
  "find_code P = db (\<lambda>d. (d, case find P (login_codes d) of None \<Rightarrow> Inl NotFound | Some c \<Rightarrow> Inr c))"

text \<open>The insert yields to a row of the address; a token hash that is taken is an error.\<close>

definition insert_code :: "loginCode \<Rightarrow> bool act" where
  "insert_code row =
     db (\<lambda>d. if list_ex (\<lambda>c. CodeEmail c = CodeEmail row) (login_codes d) then (d, Inr False)
        else if list_ex (\<lambda>c. TokenHash c = TokenHash row \<or> CodeID c = CodeID row) (login_codes d) then (d, Inl DbFailed)
        else (d\<lparr>login_codes := login_codes d @ [row]\<rparr>, Inr True))"

definition saveLoginCode :: "env \<Rightarrow> string \<Rightarrow> string \<Rightarrow> string \<Rightarrow> instant \<Rightarrow> bool act" where
  "saveLoginCode E email code token now =
     andThen draw (\<lambda>r.
       let row = \<lparr>CodeID = ''lgc_'' @ r, CodeEmail = email, CodeHash = hmac E code, TokenHash = hmac E token,
                  Attempts = 0, ExpiresAt = now + CodeTTL E, CreatedAt = now\<rparr>
       in andThen (change_codes (\<lambda>c. CodeEmail c = email \<and> CreatedAt c \<le> now - ResendAfter E)
                (\<lambda>c. c\<lparr>CodeHash := CodeHash row, TokenHash := TokenHash row, Attempts := 0,
                       ExpiresAt := ExpiresAt row, CreatedAt := now\<rparr>)) (\<lambda>replaced.
            if replaced then ret True else insert_code row))"

definition claimAttempt :: "env \<Rightarrow> loginCode \<Rightarrow> instant \<Rightarrow> bool act" where
  "claimAttempt E row now =
     change_codes (\<lambda>c. CodeID c = CodeID row \<and> Attempts c < MaxAttempts E \<and> ExpiresAt c > now)
       (\<lambda>c. c\<lparr>Attempts := Attempts c + 1\<rparr>)"

definition delete_codes :: "(loginCode \<Rightarrow> bool) \<Rightarrow> bool act" where
  "delete_codes P =
     db (\<lambda>d. (d\<lparr>login_codes := filter (\<lambda>c. \<not> P c) (login_codes d)\<rparr>, Inr (list_ex P (login_codes d))))"

definition spendCode :: "loginCode \<Rightarrow> instant \<Rightarrow> bool act" where
  "spendCode row now = delete_codes (\<lambda>c. CodeID c = CodeID row \<and> ExpiresAt c > now)"

definition sweepLoginCodes :: "bool act" where
  "sweepLoginCodes = andThen (getw clock) (\<lambda>now. delete_codes (\<lambda>c. ExpiresAt c < now))"

section \<open>Signing in\<close>

definition registerByCode :: "env \<Rightarrow> string \<Rightarrow> User act" where
  "registerByCode E email =
     andThen draw (\<lambda>secret. andThen (hashPassword E secret) (\<lambda>hash.
       catching (create_user
           \<lparr>RID = [], Email = email, EmailVerified = True, EmailAssumed = False, PasswordHash = hash,
            HasPassword = False, PasswordVersion = 0, UName = [], Roles = [], Active = True, Version = 0\<rparr>) (\<lambda>r.
         case r of
           Inr u \<Rightarrow> ret u
         | Inl e \<Rightarrow> if e = Duplicate then user_by_email email else fails e)))"

text \<open>The code (of the configured length) is a number of the random source, here the string it gives.\<close>

definition passwordlessStart :: "env \<Rightarrow> string \<Rightarrow> string \<Rightarrow> unit act" where
  "passwordlessStart E clientIP email0 =
     andThen (throttled E [ipKey ''passwordless_ip'' clientIP]) (\<lambda>_.
       let email = normalizeEmail email0
       in catching (user_by_email email) (\<lambda>r.
         if r = Inl DbFailed then fails DbFailed
         else
           (let wanted = (case r of Inr user \<Rightarrow> Active user | Inl _ \<Rightarrow> AutoRegister E)
            in andThen draw (\<lambda>code. andThen draw (\<lambda>token. andThen (getw clock) (\<lambda>now.
                 andThen (saveLoginCode E email code token now) (\<lambda>fresh.
                   if fresh \<and> wanted then
                     send \<lparr>Kind = ''login-code'', To = email, Token = token, Code = code, MailExpires = now + CodeTTL E\<rparr>
                   else ret ())))))))"

text \<open>What follows once a code or a token was right: the account, the spending, the first proof.\<close>

definition prove_address :: "env \<Rightarrow> User \<Rightarrow> User act" where
  "prove_address E user =
     (if emailProven user then ret user
      else andThen (takeOver E user) (\<lambda>_. user_by_rid (RID user)))"

definition sign_in_by_code :: "env \<Rightarrow> limiterKey list \<Rightarrow> loginCode \<Rightarrow> int \<Rightarrow> instant \<Rightarrow> (string \<times> instant) act" where
  "sign_in_by_code E keys row attemptsLeft now =
     catching (user_by_email (CodeEmail row)) (\<lambda>r.
       case r of
         Inl e \<Rightarrow>
           if e \<noteq> NotFound then fails e
           else if \<not> AutoRegister E then failed E keys (InvalidCode attemptsLeft)
           else andThen (spendCode row now) (\<lambda>spent.
             if \<not> spent then failed E keys CodeExpired
             else andThen (registerByCode E (CodeEmail row)) (\<lambda>user.
               andThen (prove_address E user) (\<lambda>user. issueToken E user (unix now))))
       | Inr user \<Rightarrow>
           if \<not> Active user then fails Disabled
           else andThen (spendCode row now) (\<lambda>spent.
             if \<not> spent then failed E keys CodeExpired
             else andThen (prove_address E user) (\<lambda>user. issueToken E user (unix now))))"

datatype verify_request = ByToken string | ByCode string string | Incomplete "string list"

definition verify_keys :: "string \<Rightarrow> verify_request \<Rightarrow> limiterKey list" where
  "verify_keys clientIP req =
     ipKey ''client_ip'' clientIP #
     (case req of ByCode email _ \<Rightarrow> [email_key ''email'' (normalizeEmail email)] | _ \<Rightarrow> [])"

definition code_query :: "env \<Rightarrow> verify_request \<Rightarrow> loginCode \<Rightarrow> bool" where
  "code_query E req c =
     (case req of
        ByToken t \<Rightarrow> TokenHash c = hmac E t
      | ByCode email _ \<Rightarrow> CodeEmail c = normalizeEmail email
      | Incomplete _ \<Rightarrow> False)"

text \<open>The row that was found, with the code or the token.\<close>

definition try_row :: "env \<Rightarrow> limiterKey list \<Rightarrow> verify_request \<Rightarrow> loginCode \<Rightarrow> instant \<Rightarrow> (string \<times> instant) act" where
  "try_row E keys req row now =
     (if \<not> now < ExpiresAt row \<or> Attempts row \<ge> MaxAttempts E then failed E keys CodeExpired
      else
        (let attemptsLeft = MaxAttempts E - Attempts row
         in case req of
              ByCode _ code \<Rightarrow>
                andThen (claimAttempt E row now) (\<lambda>claimed.
                  if \<not> claimed then failed E keys CodeExpired
                  else if hmac E code \<noteq> CodeHash row then failed E keys (InvalidCode (attemptsLeft - 1))
                  else sign_in_by_code E keys row (attemptsLeft - 1) now)
            | _ \<Rightarrow> sign_in_by_code E keys row attemptsLeft now))"

definition passwordlessVerify :: "env \<Rightarrow> string \<Rightarrow> verify_request \<Rightarrow> (string \<times> instant) act" where
  "passwordlessVerify E clientIP req =
     (case req of
        Incomplete missing \<Rightarrow> fails (MissingCode missing)
      | _ \<Rightarrow>
        (let keys = verify_keys clientIP req
         in andThen (limit_check keys) (\<lambda>ok.
           if \<not> ok then fails RateLimited
           else catching (find_code (code_query E req)) (\<lambda>r.
             case r of
               Inl e \<Rightarrow> if e = NotFound then failed E keys CodeExpired else fails e
             | Inr row \<Rightarrow> andThen (getw clock) (try_row E keys req row)))))"

section \<open>Confirming an address\<close>

definition confirmSecret :: "string \<Rightarrow> string \<Rightarrow> string" where
  "confirmSecret email code = email @ [CHR 0x0A] @ code"

definition confirmEmailStart :: "env \<Rightarrow> session \<Rightarrow> unit act" where
  "confirmEmailStart E s =
     (let u = suser s; key = email_key ''confirm_email'' (RID u)
      in andThen (throttled E [key]) (\<lambda>_.
           andThen draw (\<lambda>code. andThen (getw clock) (\<lambda>now. andThen draw (\<lambda>secret.
             andThen (saveLoginCode E (RID u) (confirmSecret (Email u) code) secret now) (\<lambda>fresh.
               if fresh then
                 send \<lparr>Kind = ''confirm-email'', To = Email u, Token = [], Code = code, MailExpires = now + CodeTTL E\<rparr>
               else ret ()))))))"

definition confirmEmail :: "env \<Rightarrow> session \<Rightarrow> string \<Rightarrow> unit act" where
  "confirmEmail E s code =
     (let u = suser s; keys = [email_key ''confirm_email'' (RID u)]
      in andThen (limit_check keys) (\<lambda>ok.
           if \<not> ok then fails RateLimited
           else catching (find_code (\<lambda>c. CodeEmail c = RID u)) (\<lambda>r.
             case r of
               Inl e \<Rightarrow> if e = NotFound then failed E keys ConfirmExpired else fails e
             | Inr row \<Rightarrow>
                 andThen (getw clock) (\<lambda>now.
                   if \<not> now < ExpiresAt row \<or> Attempts row \<ge> MaxAttempts E then failed E keys ConfirmExpired
                   else andThen (claimAttempt E row now) (\<lambda>claimed.
                     if \<not> claimed then failed E keys ConfirmExpired
                     else if hmac E (confirmSecret (Email u) code) \<noteq> CodeHash row then
                       failed E keys (ConfirmInvalid (MaxAttempts E - Attempts row - 1))
                     else andThen (spendCode row now) (\<lambda>spent.
                       if \<not> spent then failed E keys ConfirmExpired
                       else if emailProven u then ret ()
                       else update_user (RID u) proven))))))"

section \<open>What they keep of the users\<close>

context handlers_order
begin

lemma keeps_codes [keeps_intros]:
  "same_code f \<Longrightarrow> keeps R (change_codes P f)" "keeps R (find_code P)" "keeps R (insert_code row)" "keeps R (delete_codes P)"
proof -
  show "keeps R (change_codes P f)" if "same_code f"
  proof -
    have "same_code (\<lambda>c. if P c then f c else c)" using that by (simp add: same_code_def)
    then show ?thesis unfolding change_codes_def by (intro keeps_db) (simp add: recode)
  qed
  show "keeps R (find_code P)" unfolding find_code_def by (rule keeps_db) (simp add: refl)
  show "keeps R (insert_code row)" unfolding insert_code_def
  proof (rule keeps_db)
    fix d
    have "new_code d row" if "\<not> list_ex (\<lambda>c. CodeEmail c = CodeEmail row) (login_codes d)"
        "\<not> list_ex (\<lambda>c. TokenHash c = TokenHash row \<or> CodeID c = CodeID row) (login_codes d)"
      using that by (auto simp: new_code_def list_ex_iff)
    then show "R d (fst (if list_ex (\<lambda>c. CodeEmail c = CodeEmail row) (login_codes d) then (d, Inr False)
        else if list_ex (\<lambda>c. TokenHash c = TokenHash row \<or> CodeID c = CodeID row) (login_codes d) then (d, Inl DbFailed)
        else (d\<lparr>login_codes := login_codes d @ [row]\<rparr>, Inr True)))"
      by (simp add: refl encode)
  qed
  show "keeps R (delete_codes P)" unfolding delete_codes_def by (rule keeps_db) (simp add: uncode)
qed

lemma keeps_code_steps [keeps_intros]:
  "keeps R (claimAttempt E row now)" "keeps R (spendCode row now)" "keeps R sweepLoginCodes"
proof -
  show "keeps R (claimAttempt E row now)"
    unfolding claimAttempt_def by (rule keeps_codes) (simp add: same_code_def)
  show "keeps R (spendCode row now)" "keeps R sweepLoginCodes"
    unfolding spendCode_def sweepLoginCodes_def by (intro keeps_intros)+
qed

lemma keeps_save [keeps_intros]: "keeps R (saveLoginCode E email code token now)"
  unfolding saveLoginCode_def Let_def by (intro keeps_intros) (simp add: same_code_def)

lemma keeps_passwordless [keeps_intros]:
  "keeps R (registerByCode E e)" "keeps R (passwordlessStart E cip e)" "keeps R (prove_address E u)"
  "keeps R (sign_in_by_code E ks row n now)"
proof -
  show r: "keeps R (registerByCode E e)" for e unfolding registerByCode_def by (intro keeps_intros)
  show "keeps R (passwordlessStart E cip e)" unfolding passwordlessStart_def Let_def by (intro keeps_intros)
  show p: "keeps R (prove_address E u)" for u unfolding prove_address_def by (intro keeps_intros)
  show "keeps R (sign_in_by_code E ks row n now)" unfolding sign_in_by_code_def by (intro keeps_intros r p)
qed

lemma keeps_verify [keeps_intros]: "keeps R (passwordlessVerify E cip req)"
proof -
  have t: "keeps R (try_row E ks req row now)" for ks row now req
    unfolding try_row_def Let_def by (cases req) (simp_all only: verify_request.case, (intro keeps_intros)+)
  show ?thesis
    unfolding passwordlessVerify_def Let_def
    by (cases req) (simp_all only: verify_request.case, (intro keeps_intros t)+)
qed

lemma keeps_confirm [keeps_intros]: "keeps R (confirmEmailStart E s)" "keeps R (confirmEmail E s code)"
  unfolding confirmEmailStart_def confirmEmail_def Let_def by (intro keeps_intros)+

end

section \<open>The guesses a code survives\<close>

definition codes_unique :: "tables \<Rightarrow> bool" where
  "codes_unique d \<longleftrightarrow> distinct (map CodeID (login_codes d)) \<and> distinct (map CodeEmail (login_codes d))"

definition budget :: "env \<Rightarrow> string \<Rightarrow> tables \<Rightarrow> nat" where
  "budget E e d =
     (case find (\<lambda>c. CodeEmail c = e) (login_codes d) of None \<Rightarrow> 0 | Some c \<Rightarrow> nat (MaxAttempts E - Attempts c))"

text \<open>Rows go, none comes and none changes.\<close>

definition codes_shrink :: "tables \<Rightarrow> tables \<Rightarrow> bool" where
  "codes_shrink d d' \<longleftrightarrow> (\<exists>P. login_codes d' = filter P (login_codes d))"

interpretation shrink: codes_order codes_shrink
proof
  show "codes_shrink d d" for d
    unfolding codes_shrink_def by (rule exI [of _ "\<lambda>_. True"]) simp
  show "codes_shrink a b \<Longrightarrow> codes_shrink b c \<Longrightarrow> codes_shrink a c" for a b c
    unfolding codes_shrink_def by (metis filter_filter)
  show "login_codes d' = login_codes d \<Longrightarrow> codes_shrink d d'" for d d'
    unfolding codes_shrink_def by (rule exI [of _ "\<lambda>_. True"]) simp
qed

lemma shrink_spend [keeps_intros]: "keeps codes_shrink (delete_codes P)" "keeps codes_shrink (spendCode row now)"
proof -
  show d: "keeps codes_shrink (delete_codes P)" for P
    unfolding delete_codes_def by (rule shrink.keeps_db) (auto simp: codes_shrink_def)
  show "keeps codes_shrink (spendCode row now)" unfolding spendCode_def by (rule d)
qed

lemma shrink_sign_in: "keeps codes_shrink (sign_in_by_code E ks row n now)"
proof -
  have r: "keeps codes_shrink (registerByCode E e)" for e
    unfolding registerByCode_def by (intro keeps_intros)
  have p: "keeps codes_shrink (prove_address E u)" for u
    unfolding prove_address_def by (intro keeps_intros)
  show ?thesis unfolding sign_in_by_code_def by (intro keeps_intros r p)
qed

lemma shrink_unique: "codes_shrink d d' \<Longrightarrow> codes_unique d \<Longrightarrow> codes_unique d'"
  by (auto simp: codes_shrink_def codes_unique_def distinct_map_filter)

lemma find_distinct:
  "distinct (map f xs) \<Longrightarrow> find (\<lambda>x. f x = k) xs = Some x \<longleftrightarrow> x \<in> set xs \<and> f x = k"
  by (induction xs) (auto simp: image_iff)

lemma code_by_id:
  "codes_unique d \<Longrightarrow> a \<in> set (login_codes d) \<Longrightarrow> b \<in> set (login_codes d) \<Longrightarrow> CodeID a = CodeID b \<Longrightarrow> a = b"
  unfolding codes_unique_def distinct_map inj_on_def by blast

lemma find_absent: "find (\<lambda>x. f x = k) xs = None \<longleftrightarrow> k \<notin> f ` set xs"
  by (auto simp: find_None_iff)

lemma shrink_budget:
  assumes "codes_shrink d d'" "codes_unique d"
  shows "budget E e d' \<le> budget E e d"
proof (cases "find (\<lambda>c. CodeEmail c = e) (login_codes d')")
  case (Some c)
  then have "c \<in> set (login_codes d')" "CodeEmail c = e" by (auto simp: find_Some_iff)
  then have "find (\<lambda>c. CodeEmail c = e) (login_codes d) = Some c"
    using assms find_distinct [of CodeEmail "login_codes d"] by (auto simp: codes_shrink_def codes_unique_def)
  with Some show ?thesis by (simp add: budget_def)
qed (simp add: budget_def)

text \<open>An answer that tells whether the code was right.\<close>

fun guess_answer :: "failure + 'a \<Rightarrow> bool" where
  "guess_answer (Inl (InvalidCode _)) = True"
| "guess_answer (Inl Disabled) = True"
| "guess_answer (Inl _) = False"
| "guess_answer (Inr _) = True"

lemma change_codes_Inr:
  assumes "change_codes P f w = (w', Inr b)"
  shows "login_codes (data w') = map (\<lambda>c. if P c then f c else c) (login_codes (data w)) \<and> b = list_ex P (login_codes (data w))"
  using assms unfolding change_codes_def by (rule db_cases) (auto simp: prod_eq_iff dest: sym [of _ "data w'"])

lemma claimAttempt_counts:
  assumes "claimAttempt E row now w = (w', Inr b)" "codes_unique (data w)"
    and "find (\<lambda>c. CodeEmail c = e) (login_codes (data w)) = Some row"
  shows "codes_unique (data w') \<and> (b \<longrightarrow> Suc (budget E e (data w')) \<le> budget E e (data w)) \<and>
    budget E e (data w') \<le> budget E e (data w)"
proof -
  let ?P = "\<lambda>c. CodeID c = CodeID row \<and> Attempts c < MaxAttempts E \<and> ExpiresAt c > now"
  let ?f = "\<lambda>c. if ?P c then c\<lparr>Attempts := Attempts c + 1\<rparr> else c"
  from assms(1) have d: "login_codes (data w') = map ?f (login_codes (data w))" and b: "b = list_ex ?P (login_codes (data w))"
    unfolding claimAttempt_def by (auto dest: change_codes_Inr)
  have ids: "CodeID \<circ> ?f = CodeID" "CodeEmail \<circ> ?f = CodeEmail" by auto
  then have u: "codes_unique (data w')"
    using assms(2) unfolding codes_unique_def d map_map by (simp only: ids)
  have row: "row \<in> set (login_codes (data w))" "CodeEmail row = e" using assms(3) by (auto simp: find_Some_iff)
  then have r': "find (\<lambda>c. CodeEmail c = e) (login_codes (data w')) = Some (?f row)"
    using u find_distinct [of CodeEmail "login_codes (data w')" e "?f row"] by (simp add: codes_unique_def d)
  have "b \<Longrightarrow> ?P row"
  proof -
    assume b: b
    then obtain c where "c \<in> set (login_codes (data w))" "?P c" using \<open>b = _\<close> by (auto simp: list_ex_iff)
    then have "c = row" using row(1) assms(2) code_by_id by blast
    with \<open>?P c\<close> show ?thesis by simp
  qed
  with u r' assms(3) show ?thesis by (auto simp: budget_def)
qed

lemma try_code_counts:
  assumes "try_row E ks (ByCode e0 code) row now w = (w', r)" "codes_unique (data w)"
    and "find (\<lambda>c. CodeEmail c = e) (login_codes (data w)) = Some row"
  shows "codes_unique (data w') \<and> budget E e (data w') + (if guess_answer r then 1 else 0) \<le> budget E e (data w)"
proof (cases "\<not> now < ExpiresAt row \<or> Attempts row \<ge> MaxAttempts E")
  case True
  with assms(1) have "failed E ks CodeExpired w = (w', r)" by (simp add: try_row_def)
  from failed_result [OF this] assms(2) show ?thesis by simp
next
  case False
  let ?k = "\<lambda>claimed. if \<not> claimed then failed E ks CodeExpired
      else if hmac E code \<noteq> CodeHash row then failed E ks (InvalidCode (MaxAttempts E - Attempts row - 1))
      else sign_in_by_code E ks row (MaxAttempts E - Attempts row - 1) now"
  from False assms(1) have "andThen (claimAttempt E row now) ?k w = (w', r)"
    by (simp add: try_row_def Let_def)
  then show ?thesis
  proof (cases rule: andThen_cases)
    case (fail x)
    then have "data w' = data w \<and> x = DbFailed"
      unfolding claimAttempt_def change_codes_def by (auto elim!: db_cases)
    with fail assms(2) show ?thesis by simp
  next
    case (ok w1 claimed)
    note c = claimAttempt_counts [OF ok(1) assms(2,3)]
    have s: "codes_shrink (data w1) (data w')"
    proof -
      have "keeps codes_shrink (?k claimed)" unfolding failed_def by (intro keeps_intros shrink_sign_in)
      then show ?thesis using ok(2) unfolding keeps_def by (metis fst_conv)
    qed
    with c have u: "codes_unique (data w')" "budget E e (data w') \<le> budget E e (data w1)"
      using shrink_unique shrink_budget by blast+
    have "guess_answer r \<Longrightarrow> claimed"
      using ok(2) failed_result [of E ks CodeExpired w1 w' r] by (cases claimed) auto
    with c u show ?thesis by auto
  qed
qed

lemma verify_counts:
  assumes "passwordlessVerify E cip (ByCode e0 code) w = (w', r)" "codes_unique (data w)"
  shows "codes_unique (data w') \<and>
    budget E (normalizeEmail e0) (data w') + (if guess_answer r then 1 else 0) \<le> budget E (normalizeEmail e0) (data w)"
proof -
  let ?ks = "verify_keys cip (ByCode e0 code)"
  obtain ok where lc: "limit_check ?ks w = (w, Inr ok)"
    by (auto simp: limit_check_def getw_def)
  show ?thesis
  proof (cases ok)
    case False
    with assms lc show ?thesis
      by (auto simp: passwordlessVerify_def Let_def andThen_def fails_def)
  next
    case True
    obtain w1 q where f: "find_code (code_query E (ByCode e0 code)) w = (w1, q)"
      by (cases "find_code (code_query E (ByCode e0 code)) w")
    have d: "data w1 = data w"
      using f unfolding find_code_def by (rule db_cases) auto
    show ?thesis
    proof (cases q)
      case (Inl x)
      then have "r = Inl x \<or> r = Inl CodeExpired" "data w' = data w" "x = NotFound \<or> x = DbFailed"
        using assms(1) lc True f d failed_result [of E ?ks CodeExpired w1 w' r]
        by (auto simp: passwordlessVerify_def Let_def andThen_def catching_def fails_def find_code_def
            split: if_splits option.splits elim!: db_cases)
      with assms(2) show ?thesis by auto
    next
      case (Inr row)
      then have "find (\<lambda>c. CodeEmail c = normalizeEmail e0) (login_codes (data w1)) = Some row"
        using f d unfolding find_code_def by (auto elim!: db_cases simp: code_query_def [abs_def] split: option.splits)
      moreover have "try_row E ?ks (ByCode e0 code) row (clock w1) w1 = (w', r)"
        using assms(1) lc True f Inr
        by (simp add: passwordlessVerify_def Let_def andThen_def catching_def getw_def)
      ultimately show ?thesis
        using try_code_counts assms(2) d by metis
    qed
  qed
qed

text \<open>
  Guesses at the code of an address: requests to verify, in any number and from anywhere, and
  between them anything that leaves the rows of codes as they are or deletes some.
\<close>

inductive guesses :: "env \<Rightarrow> string \<Rightarrow> world \<Rightarrow> nat \<Rightarrow> world \<Rightarrow> bool" for E e0 w where
  none: "guesses E e0 w 0 w"
| verify: "guesses E e0 w n w1 \<Longrightarrow> passwordlessVerify E cip (ByCode e0 code) w1 = (w2, r) \<Longrightarrow>
     guesses E e0 w (n + (if guess_answer r then 1 else 0)) w2"
| other: "guesses E e0 w n w1 \<Longrightarrow> codes_shrink (data w1) (data w2) \<Longrightarrow> guesses E e0 w n w2"

lemma guesses_budget:
  assumes "guesses E e0 w n w'" "codes_unique (data w)"
  shows "codes_unique (data w') \<and> n + budget E (normalizeEmail e0) (data w') \<le> budget E (normalizeEmail e0) (data w)"
  using assms
proof (induction rule: guesses.induct)
  case (verify n w1 cip code w2 r)
  from verify_counts [OF verify(2)] verify(3) [OF verify(4)] show ?case by auto
next
  case (other n w1 w2)
  then show ?case using shrink_unique shrink_budget by (meson add_left_mono le_trans)
qed simp

section \<open>What a right code does\<close>

text \<open>Only the roles and the versions of users change, and no link.\<close>

definition sans_roles :: "User \<Rightarrow> User" where
  "sans_roles u = u\<lparr>Roles := [], Version := 0\<rparr>"

definition roles_only :: "tables \<Rightarrow> tables \<Rightarrow> bool" where
  "roles_only d d' \<longleftrightarrow> links d' = links d \<and> login_codes d' = login_codes d \<and> map sans_roles (users d') = map sans_roles (users d)"

interpretation roles: table_order roles_only
  by unfold_locales (auto simp: roles_only_def)

lemma roles_grant [keeps_intros]: "keeps roles_only (grantAdmin E u)"
proof -
  have up: "keeps roles_only (update_user_at rid v (\<lambda>v. v\<lparr>Roles := rs\<rparr>))" for rid v rs
    unfolding update_user_at_def
    by (rule roles.keeps_db) (auto simp: roles_only_def change_user_def sans_roles_def split: option.splits)
  have tx: "keeps roles_only (grant_tx E u after)" for u after
    unfolding grant_tx_def by (intro keeps_intros up roles.keeps_db) (simp add: roles_only_def)
  have "keeps roles_only (grant_loop E n u)" for n u
  proof (induction n arbitrary: u)
    case 0
    show ?case by (subst grant_loop.simps) (simp, intro conjI impI keeps_intros)
  next
    case (Suc n)
    show ?case unfolding grant_loop.simps [of E "Suc n"] Let_def nat.case by (intro keeps_intros tx Suc)
  qed
  then show ?thesis unfolding grantAdmin_def by (intro keeps_intros)
qed

lemma roles_issue: "keeps roles_only (issueToken E u s)"
  unfolding issueToken_def by (intro keeps_intros)

lemma roles_only_user:
  assumes "roles_only d d'" "user_at d rid = Some u"
  shows "\<exists>u'. user_at d' rid = Some u' \<and> sans_roles u' = sans_roles u"
proof -
  have f: "find (\<lambda>u. RID u = rid) (map sans_roles us) = map_option sans_roles (find (\<lambda>u. RID u = rid) us)" for us
    by (rule find_map_row) (simp add: sans_roles_def)
  from assms(1) have "map_option sans_roles (user_at d' rid) = map_option sans_roles (user_at d rid)"
    unfolding user_at_def roles_only_def f [symmetric] by simp
  with assms(2) show ?thesis by auto
qed

lemma sans_roles_fields:
  assumes "sans_roles u' = sans_roles u"
  shows "EmailVerified u' = EmailVerified u \<and> EmailAssumed u' = EmailAssumed u \<and> HasPassword u' = HasPassword u \<and>
    PasswordVersion u' = PasswordVersion u"
  using assms by (cases u; cases u') (simp add: sans_roles_def)

lemma taken_over_roles:
  assumes "taken_over rid v d" "roles_only d d'"
  shows "taken_over rid v d'"
proof -
  from assms(1) obtain u where u: "user_at d rid = Some u" "emailProven u" "\<not> HasPassword u" "v < PasswordVersion u"
    unfolding taken_over_def by blast
  obtain u' where u': "user_at d' rid = Some u'" "sans_roles u' = sans_roles u"
    using roles_only_user [OF assms(2) u(1)] by blast
  then have "EmailVerified u' = EmailVerified u" "EmailAssumed u' = EmailAssumed u" "HasPassword u' = HasPassword u"
      "PasswordVersion u' = PasswordVersion u"
    using sans_roles_fields [OF u'(2)] by blast+
  with u u' assms show ?thesis
    by (auto simp: taken_over_def emailProven_def roles_only_def)
qed

lemma spendCode_Inr:
  assumes "spendCode row now w = (w', Inr b)"
  shows "users (data w') = users (data w) \<and> links (data w') = links (data w) \<and>
    login_codes (data w') = filter (\<lambda>c. \<not> (CodeID c = CodeID row \<and> ExpiresAt c > now)) (login_codes (data w))"
  using assms unfolding spendCode_def delete_codes_def by (rule db_cases) (auto simp: prod_eq_iff dest: sym [of _ "data w'"])

lemma user_by_email_result:
  assumes "user_by_email e w = (w', r)"
  shows "data w' = data w \<and> (\<forall>u. r = Inr u \<longrightarrow> find (\<lambda>u. Email u = e) (users (data w)) = Some u) \<and>
    (r = Inl NotFound \<longrightarrow> find (\<lambda>u. Email u = e) (users (data w)) = None)"
  using assms unfolding user_by_email_def find_user_def by (rule db_cases) (auto split: option.splits)

lemma found_user_at: "users_unique d \<Longrightarrow> find (\<lambda>u. Email u = e) (users d) = Some u \<Longrightarrow> user_at d (RID u) = Some u"
  unfolding user_at_def users_unique_def using find_distinct [of RID "users d" "RID u" u] by (auto simp: find_Some_iff)

lemma prove_address_over:
  assumes "prove_address E u w = (w', Inr u')" "user_at (data w) (RID u) = Some u" "\<not> emailProven u"
  shows "taken_over (RID u) (PasswordVersion u) (data w')"
proof -
  from assms(1,3) obtain w1 where "takeOver E u w = (w1, Inr ())" and r: "user_by_rid (RID u) w1 = (w', Inr u')"
    by (auto simp: prove_address_def elim: andThen_Inr)
  from takeOver_Inr [OF this(1) assms(3,2)] user_by_rid_Inr [OF r] show ?thesis by simp
qed

lemma sign_in_Inr:
  assumes "sign_in_by_code E ks row n now w = (w', Inr y)" "users_unique (data w)"
  shows "login_codes (data w') = filter (\<lambda>c. \<not> (CodeID c = CodeID row \<and> ExpiresAt c > now)) (login_codes (data w)) \<and>
    (\<forall>u. find (\<lambda>u. Email u = CodeEmail row) (users (data w)) = Some u \<longrightarrow>
       Active u \<and> (\<not> emailProven u \<longrightarrow> taken_over (RID u) (PasswordVersion u) (data w')))"
proof -
  let ?left = "filter (\<lambda>c. \<not> (CodeID c = CodeID row \<and> ExpiresAt c > now)) (login_codes (data w))"
  obtain w1 q where q: "user_by_email (CodeEmail row) w = (w1, q)"
    by (cases "user_by_email (CodeEmail row) w")
  note r = user_by_email_result [OF q]
  let ?finish = "\<lambda>user. andThen (prove_address E user) (\<lambda>user. issueToken E user (unix now))"
  have kept: "login_codes (data w') = login_codes (data w2)" if "?finish user w2 = (w', Inr y)" for user w2
  proof -
    have "keeps (\<lambda>d d'. login_codes d' = login_codes d) (?finish user)"
      unfolding prove_address_def by (intro keeps_intros)
    then show ?thesis using that unfolding keeps_def by (metis fst_conv)
  qed
  show ?thesis
  proof (cases q)
    case (Inr user)
    with assms(1) q have a: "Active user" and "andThen (spendCode row now) (\<lambda>spent. if \<not> spent then failed E ks CodeExpired else ?finish user) w1 = (w', Inr y)"
      by (auto simp: sign_in_by_code_def catching_def split: if_splits)
    then obtain w2 b where sp: "spendCode row now w1 = (w2, Inr b)" and fin: "?finish user w2 = (w', Inr y)"
      by (elim andThen_Inr) (auto split: if_splits dest: failed_result)
    note s = spendCode_Inr [OF sp]
    have u: "find (\<lambda>u. Email u = CodeEmail row) (users (data w)) = Some user" using r Inr by simp
    have "taken_over (RID user) (PasswordVersion user) (data w')" if np: "\<not> emailProven user"
    proof -
      from fin obtain w3 u3 where p: "prove_address E user w2 = (w3, Inr u3)" "issueToken E u3 (unix now) w3 = (w', Inr y)"
        by (rule andThen_Inr)
      have "user_at (data w2) (RID user) = Some user"
        using found_user_at [OF assms(2) u] s r by (simp add: user_at_def)
      from prove_address_over [OF p(1) this np]
      have "taken_over (RID user) (PasswordVersion user) (data w3)" .
      moreover have "roles_only (data w3) (data w')" using roles_issue p(2) unfolding keeps_def by (metis fst_conv)
      ultimately show ?thesis by (rule taken_over_roles)
    qed
    with u a s r kept [OF fin] show ?thesis by simp
  next
    case (Inl x)
    with assms(1) q r have "andThen (spendCode row now) (\<lambda>spent. if \<not> spent then failed E ks CodeExpired
        else andThen (registerByCode E (CodeEmail row)) ?finish) w1 = (w', Inr y)" and n: "x = NotFound"
      by (auto simp: sign_in_by_code_def catching_def split: if_splits dest: failed_result)
    then obtain w2 b where sp: "spendCode row now w1 = (w2, Inr b)" and "andThen (registerByCode E (CodeEmail row)) ?finish w2 = (w', Inr y)"
      by (elim andThen_Inr) (auto split: if_splits dest: failed_result)
    from this(2) obtain w3 u3 where reg: "registerByCode E (CodeEmail row) w2 = (w3, Inr u3)" and fin: "?finish u3 w3 = (w', Inr y)"
      by (rule andThen_Inr)
    have "keeps (\<lambda>d d'. login_codes d' = login_codes d) (registerByCode E (CodeEmail row))"
      unfolding registerByCode_def by (intro keeps_intros)
    then have "login_codes (data w3) = login_codes (data w2)" using reg unfolding keeps_def by (metis fst_conv)
    with spendCode_Inr [OF sp] kept [OF fin] r Inl n show ?thesis by simp
  qed
qed

lemma verify_Inr:
  assumes "passwordlessVerify E cip req w = (w', Inr y)"
  obtains row w1 n where "find (code_query E req) (login_codes (data w)) = Some row" "clock w < ExpiresAt row"
    "Attempts row < MaxAttempts E" "\<And>e code. req = ByCode e code \<Longrightarrow> hmac E code = CodeHash row"
    "users (data w1) = users (data w)" "links (data w1) = links (data w)"
    "\<exists>f. login_codes (data w1) = map f (login_codes (data w)) \<and> (\<forall>c. CodeID (f c) = CodeID c \<and> ExpiresAt (f c) = ExpiresAt c)"
    "sign_in_by_code E (verify_keys cip req) row n (clock w) w1 = (w', Inr y)"
proof -
  let ?ks = "verify_keys cip req"
  have "\<exists>w1 row. find_code (code_query E req) w = (w1, Inr row) \<and> try_row E ?ks req row (clock w1) w1 = (w', Inr y)"
    using assms unfolding passwordlessVerify_def Let_def limit_check_def
    by (cases req) (auto simp: getw_def andThen_def catching_def split: if_splits sum.splits prod.splits dest: failed_result)
  then obtain w1 row where f: "find_code (code_query E req) w = (w1, Inr row)" and t: "try_row E ?ks req row (clock w1) w1 = (w', Inr y)"
    by blast
  have d: "data w1 = data w" "clock w1 = clock w" "find (code_query E req) (login_codes (data w)) = Some row"
    using f unfolding find_code_def by (auto elim!: db_cases split: option.splits)
  have e: "clock w < ExpiresAt row" "Attempts row < MaxAttempts E"
    using t d by (auto simp: try_row_def split: if_splits dest: failed_result)
  show ?thesis
  proof (cases "\<exists>em code. req = ByCode em code")
    case False
    then have "sign_in_by_code E ?ks row (MaxAttempts E - Attempts row) (clock w) w1 = (w', Inr y)"
      using t e d by (cases req) (auto simp: try_row_def Let_def)
    with that [of row w1] d e False show ?thesis by (metis list.map_ident)
  next
    case True
    then obtain em code where req: "req = ByCode em code" by blast
    have "andThen (claimAttempt E row (clock w)) (\<lambda>claimed.
        if \<not> claimed then failed E ?ks CodeExpired
        else if hmac E code \<noteq> CodeHash row then failed E ?ks (InvalidCode (MaxAttempts E - Attempts row - 1))
        else sign_in_by_code E ?ks row (MaxAttempts E - Attempts row - 1) (clock w)) w1 = (w', Inr y)"
      using t e unfolding d(2) try_row_def Let_def req by (simp split del: if_split)
    then obtain w2 b where c: "claimAttempt E row (clock w) w1 = (w2, Inr b)" and h: "hmac E code = CodeHash row"
        and s: "sign_in_by_code E ?ks row (MaxAttempts E - Attempts row - 1) (clock w) w2 = (w', Inr y)"
      by (elim andThen_Inr) (auto split: if_splits dest: failed_result)
    let ?P = "\<lambda>c. CodeID c = CodeID row \<and> Attempts c < MaxAttempts E \<and> ExpiresAt c > clock w"
    let ?f = "\<lambda>c. if ?P c then c\<lparr>Attempts := Attempts c + 1\<rparr> else c"
    have "login_codes (data w2) = map ?f (login_codes (data w))"
      using change_codes_Inr [OF c [unfolded claimAttempt_def]] d by simp
    moreover have "\<forall>c. CodeID (?f c) = CodeID c \<and> ExpiresAt (?f c) = ExpiresAt c" by simp
    moreover have "users (data w2) = users (data w)" "links (data w2) = links (data w)"
      using c d unfolding claimAttempt_def change_codes_def by (auto elim!: db_cases dest: sym [of _ "data w2"])
    ultimately show ?thesis using that [of row w2] d e h s req by blast
  qed
qed

section \<open>Properties\<close>


text \<open>C2: Who signs in with a mailed code had it: a row that has not expired and was not tried too often
  has the hash of the token, or the address and the hash of the code, that was sent. The row is
  gone afterwards, so that a code is good once. And when the address had not been proven before,
  the account is taken over: nothing its holder knew opens it, no password, no linked provider
  and no older token.\<close>

theorem code_sign_in_sound:
  assumes "passwordlessVerify E cip req w = (w', Inr y)" "users_unique (data w)" "codes_unique (data w)"
  shows "\<exists>row \<in> set (login_codes (data w)). code_query E req row \<and> clock w < ExpiresAt row \<and>
    Attempts row < MaxAttempts E \<and> (case req of ByCode _ code \<Rightarrow> hmac E code = CodeHash row | _ \<Rightarrow> True) \<and>
    CodeID row \<notin> CodeID ` set (login_codes (data w')) \<and>
    (\<forall>u. find (\<lambda>u. Email u = CodeEmail row) (users (data w)) = Some u \<longrightarrow>
       Active u \<and> (\<not> emailProven u \<longrightarrow> taken_over (RID u) (PasswordVersion u) (data w')))"
proof -
  from assms(1) obtain row w1 n where row: "find (code_query E req) (login_codes (data w)) = Some row"
    and live: "clock w < ExpiresAt row" "Attempts row < MaxAttempts E"
    and code: "\<And>e code. req = ByCode e code \<Longrightarrow> hmac E code = CodeHash row"
    and u: "users (data w1) = users (data w)"
    and c: "\<exists>f. login_codes (data w1) = map f (login_codes (data w)) \<and> (\<forall>c. CodeID (f c) = CodeID c \<and> ExpiresAt (f c) = ExpiresAt c)"
    and s: "sign_in_by_code E (verify_keys cip req) row n (clock w) w1 = (w', Inr y)"
    by (rule verify_Inr) blast
  have mem: "row \<in> set (login_codes (data w))" "code_query E req row" using row by (auto simp: find_Some_iff)
  have unique: "users_unique (data w1)" using assms(2) u by (simp add: users_unique_def)
  note r = sign_in_Inr [OF s unique]
  have "CodeID row \<notin> CodeID ` set (login_codes (data w'))"
  proof
    assume "CodeID row \<in> CodeID ` set (login_codes (data w'))"
    then obtain x where x: "x \<in> set (login_codes (data w1))" "CodeID x = CodeID row" "\<not> ExpiresAt x > clock w"
      using r by auto
    with c obtain z where "z \<in> set (login_codes (data w))" "CodeID z = CodeID row" "\<not> ExpiresAt z > clock w" by auto
    moreover from this have "z = row"
      using mem(1) assms(3) code_by_id by blast
    ultimately show False using live by simp
  qed
  with mem live code r u show ?thesis
    by (intro bexI [of _ row]) (auto split: verify_request.splits)
qed

section \<open>Witnesses\<close>

lemma demo_unique: "users_unique (data demo_world)" "codes_unique (data demo_world)"
  by (simp_all add: users_unique_def codes_unique_def demo_world_def demo_tables_def)

definition demo_guess :: "world \<times> (failure + (string \<times> instant))" where
  "demo_guess = passwordlessVerify demo_env ''1.2.3.4'' (ByCode '' A@b'' ''8'') demo_world"

lemma demo_guess_answer: "snd demo_guess = Inl (InvalidCode 4)"
  by code_simp


definition demo_right :: "world \<times> (failure + (string \<times> instant))" where
  "demo_right = passwordlessVerify demo_env ''1.2.3.4'' (ByCode ''a@b'' ''7'') demo_world"

lemma demo_right_ok: "(case snd demo_right of Inr _ \<Rightarrow> True | Inl _ \<Rightarrow> False)"
  by code_simp

lemma demo_user_found: "find (\<lambda>u. Email u = ''a@b'') (users (data demo_world)) = Some demo_user" "\<not> emailProven demo_user"
  by (simp_all add: demo_world_def demo_tables_def demo_user_def emailProven_def)

theorem code_sign_in_sound_witness:
  "taken_over ''usr_1'' 0 (data (fst demo_right))"
proof -
  obtain y where y: "passwordlessVerify demo_env ''1.2.3.4'' (ByCode ''a@b'' ''7'') demo_world = (fst demo_right, Inr y)"
    using demo_right_ok unfolding demo_right_def by (metis (no_types, lifting) old.sum.simps(5) prod.collapse sum.exhaust)
  obtain row where "row \<in> set (login_codes (data demo_world))" and t: "\<forall>u. find (\<lambda>u. Email u = CodeEmail row) (users (data demo_world)) = Some u \<longrightarrow>
       Active u \<and> (\<not> emailProven u \<longrightarrow> taken_over (RID u) (PasswordVersion u) (data (fst demo_right)))"
    using code_sign_in_sound [OF y demo_unique] by blast
  then have "CodeEmail row = ''a@b''" by (simp add: demo_world_def demo_tables_def)
  with t demo_user_found have "taken_over (RID demo_user) (PasswordVersion demo_user) (data (fst demo_right))" by metis
  then show ?thesis by (simp add: demo_user_def)
qed

end
