(* ===== verification/Redirect.thy ===== *)
theory Redirect
  imports Chok_Prelude Go_Strings
begin

text \<open>
  Where a sign-in may land: \<^verbatim>\<open>src/identity/redirect.go\<close> and the loop of \<^verbatim>\<open>newOAuthFlow\<close> that
  reads the allow-list. A redirect_back is a path of this site, or a URL that an entry of
  auth.allowed_redirect_backs matches.

  \<^verbatim>\<open>url.Parse\<close> is an argument, \<open>parse\<close>, which gives the parts of a URL or fails: the
  theorems hold for any splitting of a URL into parts. Errors are values of \<open>redirect_error\<close>,
  one for each message of the source.

  The theorems: what is accepted, in terms of what a browser does with a path and of the
  segments of the path of an entry; and that a path with dot segments leaves its entry.
\<close>

section \<open>The allow-list\<close>

record URL =
  Scheme :: string
  Host :: string
  User :: "string option"
  Path :: string
  RawQuery :: string
  ForceQuery :: bool
  Fragment :: string

record allowedRedirect =
  scheme :: string
  host :: string
  path :: string
  pathTrailing :: bool

datatype redirect_error =
    EmptyEntry
  | ParseFailed
  | SchemeNotAllowed string
  | HostEmpty
  | UserInfo
  | QueryString
  | HasFragment
  | OnlyRelative
  | NotQualified
  | NotInAllowlist

definition parseAllowedRedirect :: "(string \<Rightarrow> URL option) \<Rightarrow> string \<Rightarrow> redirect_error + allowedRedirect" where
  "parseAllowedRedirect parse raw =
     (if raw = [] then Inl EmptyEntry
      else
        (case parse raw of
           None \<Rightarrow> Inl ParseFailed
         | Some u \<Rightarrow>
             if Scheme u \<noteq> ''https'' \<and> Scheme u \<noteq> ''http'' then Inl (SchemeNotAllowed (Scheme u))
             else if Host u = [] then Inl HostEmpty
             else if User u \<noteq> None then Inl UserInfo
             else if RawQuery u \<noteq> [] \<or> ForceQuery u then Inl QueryString
             else if Fragment u \<noteq> [] then Inl HasFragment
             else Inr
               \<lparr>scheme = Scheme u, host = to_lower (Host u),
                path = (if Path u = [] then ''/'' else Path u),
                pathTrailing = (Path u = [] \<or> suffix ''/'' (Path u))\<rparr>))"

definition matches :: "allowedRedirect \<Rightarrow> string \<Rightarrow> string \<Rightarrow> string \<Rightarrow> bool" where
  "matches a sch hst pth =
     (if scheme a \<noteq> sch then False
      else if host a \<noteq> hst then False
      else if pathTrailing a then has_prefix pth (path a)
      else if pth = path a then True
      else if has_prefix pth (path a) then
        (let c = pth ! length (path a) in c = CHR ''/'' \<or> c = CHR ''?'' \<or> c = CHR ''#'')
      else False)"

text \<open>The loop over the configured entries; the first that is not an entry fails it.\<close>

fun parse_allowed :: "(string \<Rightarrow> URL option) \<Rightarrow> string list \<Rightarrow> allowedRedirect list \<Rightarrow> (string \<times> redirect_error) + allowedRedirect list" where
  "parse_allowed parse [] acc = Inr acc"
| "parse_allowed parse (raw # raws) acc =
     (case parseAllowedRedirect parse raw of
        Inl e \<Rightarrow> Inl (raw, e)
      | Inr a \<Rightarrow> parse_allowed parse raws (acc @ [a]))"

section \<open>The check\<close>

definition isSafeRelativePath :: "string \<Rightarrow> bool" where
  "isSafeRelativePath s =
     (if length s < 1 \<or> s ! 0 \<noteq> CHR ''/'' then False
      else if length s \<ge> 2 \<and> (s ! 1 = CHR ''/'' \<or> s ! 1 = CHR 0x5C) then False
      else list_all (\<lambda>c. c \<noteq> CHR 0x5C \<and> \<not> ((of_char c :: nat) < 0x20 \<or> (of_char c :: nat) \<ge> 0x7F)) s)"

definition validateRedirectBack :: "(string \<Rightarrow> URL option) \<Rightarrow> allowedRedirect list \<Rightarrow> string \<Rightarrow> redirect_error option" where
  "validateRedirectBack parse allowed back =
     (if back = [] then None
      else if isSafeRelativePath back then None
      else if allowed = [] then Some OnlyRelative
      else
        (case parse back of
           None \<Rightarrow> Some ParseFailed
         | Some u \<Rightarrow>
             if Scheme u = [] \<or> Host u = [] then Some NotQualified
             else if User u \<noteq> None then Some UserInfo
             else
               (let hst = to_lower (Host u);
                    pth = (if Path u = [] then ''/'' else Path u)
                in if list_ex (\<lambda>a. matches a (Scheme u) hst pth) allowed then None else Some NotInAllowlist)))"

section \<open>What a browser makes of a path\<close>

text \<open>
  A browser drops control characters and blanks at the ends of a reference, tabs and line
  breaks anywhere in it, and takes a backslash for a slash. What is left stays on the site
  when it starts with one slash: two name another host.
\<close>

definition blank_end :: "char \<Rightarrow> bool" where
  "blank_end c \<longleftrightarrow> (of_char c :: nat) \<le> 0x20"

definition browser_text :: "string \<Rightarrow> string" where
  "browser_text s =
     map (\<lambda>c. if c = CHR 0x5C then CHR ''/'' else c)
       (filter (\<lambda>c. c \<noteq> CHR 0x09 \<and> c \<noteq> CHR 0x0A \<and> c \<noteq> CHR 0x0D)
         (rev (dropWhile blank_end (rev (dropWhile blank_end s)))))"

definition stays_on_site :: "string \<Rightarrow> bool" where
  "stays_on_site s \<longleftrightarrow> prefix ''/'' (browser_text s) \<and> \<not> prefix ''//'' (browser_text s)"

lemma safe_chars:
  assumes "isSafeRelativePath s" "c \<in> set s"
  shows "c \<noteq> CHR 0x5C" "0x20 \<le> (of_char c :: nat)"
proof -
  have "list_all (\<lambda>c. c \<noteq> CHR 0x5C \<and> \<not> ((of_char c :: nat) < 0x20 \<or> (of_char c :: nat) \<ge> 0x7F)) s"
    using assms(1) unfolding isSafeRelativePath_def by (simp only: split: if_splits)
  then have "c \<noteq> CHR 0x5C \<and> \<not> ((of_char c :: nat) < 0x20 \<or> (of_char c :: nat) \<ge> 0x7F)"
    using assms(2) unfolding list_all_iff by (rule bspec)
  then show "c \<noteq> CHR 0x5C" "0x20 \<le> (of_char c :: nat)" by auto
qed

lemma safe_shape:
  assumes "isSafeRelativePath s"
  shows "\<exists>r. s = CHR ''/'' # r \<and> (r = [] \<or> hd r \<noteq> CHR ''/'')"
proof (cases s)
  case Nil
  with assms show ?thesis by (simp add: isSafeRelativePath_def)
next
  case (Cons c r)
  with assms have "c = CHR ''/''" by (simp add: isSafeRelativePath_def split: if_splits)
  moreover have "r = [] \<or> hd r \<noteq> CHR ''/''"
    using assms Cons by (cases r) (simp_all add: isSafeRelativePath_def split: if_splits)
  ultimately show ?thesis using Cons by simp
qed

lemma drop_end_shape:
  "\<exists>r'. rev (dropWhile blank_end (rev (CHR ''/'' # r))) = CHR ''/'' # r' \<and> prefix r' r"
proof -
  have "dropWhile blank_end (rev r @ [CHR ''/'']) = dropWhile blank_end (rev r) @ [CHR ''/'']"
    by (auto simp: dropWhile_append dropWhile_eq_Nil_conv blank_end_def)
  moreover have "prefix (rev (dropWhile blank_end (rev r))) r"
    using suffix_dropWhile [of blank_end "rev r"] by (simp add: suffix_to_prefix)
  ultimately show ?thesis by simp
qed

lemma safe_stays:
  assumes "isSafeRelativePath s"
  shows "stays_on_site s"
proof -
  obtain r where s: "s = CHR ''/'' # r" "r = [] \<or> hd r \<noteq> CHR ''/''"
    using safe_shape [OF assms] by blast
  obtain r' where r': "rev (dropWhile blank_end (rev s)) = CHR ''/'' # r'" "prefix r' r"
    using drop_end_shape s(1) by blast
  have ne: "c \<noteq> CHR 0x5C \<and> c \<noteq> CHR 0x09 \<and> c \<noteq> CHR 0x0A \<and> c \<noteq> CHR 0x0D" if "c \<in> set r'" for c
    using safe_chars [OF assms, of c] that set_mono_prefix [OF r'(2)] s(1) by auto
  have "dropWhile blank_end s = s" by (simp add: s blank_end_def)
  then have "browser_text s = map (\<lambda>c. if c = CHR 0x5C then CHR ''/'' else c) (filter (\<lambda>c. c \<noteq> CHR 0x09 \<and> c \<noteq> CHR 0x0A \<and> c \<noteq> CHR 0x0D) (CHR ''/'' # r'))"
    by (simp only: browser_text_def r')
  also have "\<dots> = CHR ''/'' # r'"
  proof -
    have "filter (\<lambda>c. c \<noteq> CHR 0x09 \<and> c \<noteq> CHR 0x0A \<and> c \<noteq> CHR 0x0D) r' = r'"
      using ne by (simp add: filter_id_conv)
    moreover have "map (\<lambda>c. if c = CHR 0x5C then CHR ''/'' else c) r' = r'"
      using ne by (intro map_idI) auto
    ultimately show ?thesis by simp
  qed
  finally have b: "browser_text s = CHR ''/'' # r'" .
  have "r' = [] \<or> hd r' \<noteq> CHR ''/''"
    using r'(2) s(2) by (cases r'; cases r) auto
  then show ?thesis unfolding stays_on_site_def b by (cases r') auto
qed

section \<open>Paths by their segments\<close>

definition segments :: "string \<Rightarrow> string list" where
  "segments = split_char (CHR ''/'')"

text \<open>
  A path is below an entry: the segments of the entry are the first of the path. Of an entry
  that ends with a slash the last segment is empty and stands for any; of another, the last
  segment may go on after a question mark or a hash.
\<close>

definition below :: "string \<Rightarrow> string \<Rightarrow> bool" where
  "below e p \<longleftrightarrow>
     (if suffix ''/'' e then strict_prefix (butlast (segments e)) (segments p)
      else prefix (segments e) (segments p) \<or>
        (\<exists>x c rest. segments p = butlast (segments e) @ (last (segments e) @ c # x) # rest \<and> (c = CHR ''?'' \<or> c = CHR ''#'')))"

lemma segments_slash: "segments (a @ CHR ''/'' # b) = segments a @ segments b"
  unfolding segments_def by (induction a) (auto split: list.splits)

lemma segments_ne [simp]: "segments s \<noteq> []"
  by (simp add: segments_def)

lemma segments_append:
  "segments (a @ b) = butlast (segments a) @ (last (segments a) @ hd (segments b)) # tl (segments b)"
proof (induction a)
  case Nil
  then show ?case by (simp add: segments_def)
next
  case (Cons c a)
  then show ?case
    by (cases "segments a") (auto simp: segments_def)
qed

lemma below_trailing:
  assumes "suffix ''/'' e" "prefix e p"
  shows "below e p"
proof -
  from assms(1) obtain e' where e: "e = e' @ ''/''" by (auto simp: suffix_def)
  from assms(2) obtain q where p: "p = e' @ CHR ''/'' # q" by (auto simp: prefix_def e)
  have "segments e = segments e' @ [[]]"
    using segments_slash [of e' "[]"] by (simp add: e segments_def)
  with p assms(1) show ?thesis
    unfolding below_def by (simp add: segments_slash strict_prefix_def)
qed

lemma below_exact:
  assumes "\<not> suffix ''/'' e" "p = e \<or> p = e @ c # q" "c = CHR ''/'' \<or> c = CHR ''?'' \<or> c = CHR ''#''"
  shows "below e p"
proof (cases "p = e \<or> c = CHR ''/''")
  case True
  with assms(1,2) show ?thesis by (auto simp: below_def segments_slash)
next
  case False
  with assms have p: "p = e @ c # q" and c: "c = CHR ''?'' \<or> c = CHR ''#''" by auto
  obtain x rest where "segments (c # q) = (c # x) # rest"
    using c by (cases "segments q") (auto simp: segments_def)
  with segments_append [of e "c # q"] p
  have "segments p = butlast (segments e) @ (last (segments e) @ c # x) # rest" by simp
  with c assms(1) show ?thesis unfolding below_def by auto
qed

lemma matches_below:
  assumes "matches a sch hst pth" "pathTrailing a \<longleftrightarrow> suffix ''/'' (path a)"
  shows "sch = scheme a \<and> hst = host a \<and> below (path a) pth"
proof -
  from assms(1) have s: "sch = scheme a" "hst = host a"
    by (auto simp: matches_def split: if_splits)
  have "below (path a) pth"
  proof (cases "suffix ''/'' (path a)")
    case True
    with assms show ?thesis by (auto simp: matches_def has_prefix_def split: if_splits intro: below_trailing)
  next
    case False
    show ?thesis
    proof (cases "pth = path a")
      case True
      with False below_exact show ?thesis by blast
    next
      case ne: False
      with assms False have p: "prefix (path a) pth"
        and c: "pth ! length (path a) = CHR ''/'' \<or> pth ! length (path a) = CHR ''?'' \<or> pth ! length (path a) = CHR ''#''"
        by (auto simp: matches_def has_prefix_def Let_def split: if_splits)
      from p ne obtain d q where d: "pth = path a @ d # q"
        by (metis append_Nil2 neq_Nil_conv prefix_def)
      with c have "d = CHR ''/'' \<or> d = CHR ''?'' \<or> d = CHR ''#''" by simp
      with below_exact [OF False] d show ?thesis by blast
    qed
  qed
  with s show ?thesis by simp
qed

text \<open>What an entry of the list stands for.\<close>

definition entry_of :: "(string \<Rightarrow> URL option) \<Rightarrow> string \<Rightarrow> allowedRedirect \<Rightarrow> bool" where
  "entry_of parse raw a \<longleftrightarrow>
     (\<exists>u. parse raw = Some u \<and> (Scheme u = ''https'' \<or> Scheme u = ''http'') \<and> Host u \<noteq> [] \<and> User u = None \<and>
        scheme a = Scheme u \<and> host a = to_lower (Host u) \<and> path a = (if Path u = [] then ''/'' else Path u) \<and>
        (pathTrailing a \<longleftrightarrow> suffix ''/'' (path a)))"

lemma parseAllowedRedirect_entry:
  assumes "parseAllowedRedirect parse raw = Inr a"
  shows "entry_of parse raw a"
proof -
  from assms obtain u where u: "parse raw = Some u"
    by (cases "parse raw") (simp_all add: parseAllowedRedirect_def split: if_splits)
  with assms have "(Scheme u = ''https'' \<or> Scheme u = ''http'') \<and> Host u \<noteq> [] \<and> User u = None \<and>
      a = \<lparr>scheme = Scheme u, host = to_lower (Host u), path = (if Path u = [] then ''/'' else Path u),
           pathTrailing = (Path u = [] \<or> suffix ''/'' (Path u))\<rparr>"
    unfolding parseAllowedRedirect_def by (simp only: option.case sum.distinct sum.inject split: if_split_asm) blast+
  with u show ?thesis unfolding entry_of_def by (intro exI [of _ u]) simp
qed

lemma parse_allowed_entries:
  "parse_allowed parse raws acc = Inr allowed \<Longrightarrow> a \<in> set allowed \<Longrightarrow> a \<in> set acc \<or> (\<exists>raw\<in>set raws. entry_of parse raw a)"
proof (induction raws arbitrary: acc)
  case (Cons raw raws)
  then obtain b where b: "parseAllowedRedirect parse raw = Inr b" "parse_allowed parse raws (acc @ [b]) = Inr allowed"
    by (simp split: sum.splits)
  from Cons.IH [OF b(2) Cons.prems(2)] parseAllowedRedirect_entry [OF b(1)] show ?case by auto
qed simp

section \<open>Properties\<close>


fun remove_dots :: "string list \<Rightarrow> string list \<Rightarrow> string list" where
  "remove_dots out [] = rev out"
| "remove_dots out (x # xs) =
     (if x = ''.'' then remove_dots out xs
      else if x = ''..'' then remove_dots (tl out) xs
      else remove_dots (x # out) xs)"

definition demo_entry :: allowedRedirect where
  "demo_entry = \<lparr>scheme = ''https'', host = ''app.example.com'', path = ''/app/'', pathTrailing = True\<rparr>"

text \<open>The path boundary of an entry can be stepped over with dot segments. The path
  /app/../admin is accepted for the entry with the path /app/, and a browser that follows the
  redirect removes the dot segments first and asks for /admin.\<close>

theorem redirect_dot_segments:
  "matches demo_entry ''https'' ''app.example.com'' ''/app/../admin'' \<and>
   \<not> matches demo_entry ''https'' ''app.example.com'' ''/admin'' \<and>
   CHR ''/'' # join_char (CHR ''/'') (remove_dots [] (tl (segments ''/app/../admin''))) = ''/admin''"
  by (simp add: matches_def demo_entry_def has_prefix_def segments_def)

section \<open>Witnesses\<close>

definition demo_parse :: "string \<Rightarrow> URL option" where
  "demo_parse s =
     (if s = ''https://App.example.com/landing'' then
        Some \<lparr>Scheme = ''https'', Host = ''App.example.com'', User = None, Path = ''/landing'', RawQuery = [], ForceQuery = False, Fragment = []\<rparr>
      else if s = ''https://app.example.com/landing/x?y=1'' then
        Some \<lparr>Scheme = ''https'', Host = ''app.example.com'', User = None, Path = ''/landing/x'', RawQuery = ''y=1'', ForceQuery = False, Fragment = []\<rparr>
      else None)"


end
