(* ===== verification/Oauth_Flow.thy ===== *)
theory Oauth_Flow
  imports Passwordless Redirect
begin

text \<open>
  Signing in through an OAuth provider: \<^verbatim>\<open>src/identity/oauth.go\<close>, on the world of
  \<^verbatim>\<open>Accounts\<close> and the store of \<^verbatim>\<open>Oauth_Store\<close>. A sign-in starts (\<open>handleBegin\<close>, or
  \<open>handleLink\<close> for a signed-in user), comes back from the provider (\<open>handleCallback\<close>), and the
  browser trades the one-time code for a token (\<open>handleExchange\<close>). \<open>resolve\<close> maps what the
  provider says to an account, \<open>link\<close> joins it to the account of the user who started the
  link, \<open>unlinkIdentity\<close> takes a link away.

  A provider is an argument: its name, its capabilities, and its two calls, which may fail.
  What a request carries (parameters, cookies) are arguments of the handlers. The body of a
  request that cannot be read and the JSON of the profile are left out.

  The theorems: whose account a sign-in reaches; that the exchange needs the code and the
  browser; that the last way to sign in stays; and that a link that was started survives
  whatever is done to the account.
\<close>

section \<open>Providers and the flow\<close>

record external =
  XProvider :: string
  XAccountID :: string
  XEmail :: string
  XEmailVerified :: bool
  XEmailAssumed :: bool
  XAliased :: bool
  XName :: string

record provider =
  pname :: string
  RequiresNonce :: bool
  SupportsPKCE :: bool
  BeginAuth :: "string \<Rightarrow> string \<Rightarrow> string \<Rightarrow> failure + string"
  CompleteAuth :: "string \<Rightarrow> string \<Rightarrow> string \<Rightarrow> failure + external"

record oauthFlow =
  providers :: "provider list"
  frontend :: string
  allowed :: "allowedRedirect list"
  parse_url :: "string \<Rightarrow> URL option"
  carrier_mac :: "string \<Rightarrow> string"
  challenge :: "string \<Rightarrow> string"
  queryEscape :: "string \<Rightarrow> string"

definition oauthSessionTTL :: duration where "oauthSessionTTL = 300 * second_ns"
definition authCodeTTL :: duration where "authCodeTTL = 5 * second_ns"

definition in_store :: "(instant \<Rightarrow> memoryStore \<Rightarrow> 'a \<times> memoryStore) \<Rightarrow> 'a act" where
  "in_store f w = (case f (clock w) (flow w) of (x, s) \<Rightarrow> (w\<lparr>flow := s\<rparr>, Inr x))"

definition pkceChallenge :: "oauthFlow \<Rightarrow> string \<Rightarrow> string" where
  "pkceChallenge F verifier = (if verifier = [] then [] else challenge F verifier)"

definition draw_if :: "bool \<Rightarrow> string act" where
  "draw_if b = (if b then draw else ret [])"

text \<open>\<open>begin_flow\<close> is the method \<^verbatim>\<open>start\<close>: the URL to go to and the cookie to set.\<close>

definition begin_flow :: "oauthFlow \<Rightarrow> provider \<Rightarrow> string \<Rightarrow> string \<Rightarrow> (string \<times> string) act" where
  "begin_flow F p back linkUserID =
     andThen draw (\<lambda>state. andThen (draw_if (RequiresNonce p)) (\<lambda>nonce. andThen (draw_if (SupportsPKCE p)) (\<lambda>verifier.
       andThen draw (\<lambda>sid.
         let sess = \<lparr>State = state, Nonce = nonce, CodeVerifier = verifier, RedirectBack = back,
                     SessProvider = pname p, LinkUserID = linkUserID\<rparr>
         in andThen (in_store (\<lambda>now s. ((), saveSession now sid sess oauthSessionTTL s))) (\<lambda>_.
              case BeginAuth p state nonce (pkceChallenge F verifier) of
                Inl _ \<Rightarrow> andThen (in_store (\<lambda>now. takeSession now sid)) (\<lambda>_. fails ProviderFailed)
              | Inr to \<Rightarrow> ret (to, sign_sid (carrier_mac F) sid))))))"

definition handleBegin :: "oauthFlow \<Rightarrow> provider \<Rightarrow> string \<Rightarrow> (string \<times> string) act" where
  "handleBegin F p back =
     (if validateRedirectBack (parse_url F) (allowed F) back \<noteq> None then fails RedirectRefused
      else begin_flow F p back [])"

section \<open>Links\<close>

definition create_link :: "linkedIdentity \<Rightarrow> linkedIdentity act" where
  "create_link l =
     andThen draw (\<lambda>r.
       db (\<lambda>d. if list_ex (\<lambda>k. Provider k = Provider l \<and> ProviderAccountID k = ProviderAccountID l \<or> LinkID k = ''idn_'' @ r) (links d)
          then (d, Inl Duplicate)
          else (let l' = l\<lparr>LinkID := ''idn_'' @ r\<rparr> in (d\<lparr>links := links d @ [l']\<rparr>, Inr l'))))"

definition linkTx :: "string \<Rightarrow> external \<Rightarrow> linkedIdentity act" where
  "linkTx userID ext =
     catching (create_link \<lparr>LinkID = [], UserID = userID, Provider = XProvider ext, ProviderAccountID = XAccountID ext,
         LinkEmail = XEmail ext\<rparr>) (\<lambda>r.
       case r of Inr l \<Rightarrow> ret l | Inl e \<Rightarrow> fails (if e = Duplicate then LinkedElsewhere else e))"

definition find_link :: "(linkedIdentity \<Rightarrow> bool) \<Rightarrow> linkedIdentity act" where
  "find_link P = db (\<lambda>d. (d, case find P (links d) of None \<Rightarrow> Inl NotFound | Some l \<Rightarrow> Inr l))"

definition touch :: "string \<Rightarrow> unit act" where
  "touch linkID = catching (db (\<lambda>d. (d, Inr ()))) (\<lambda>_. ret ())"

definition statesAddress :: "external \<Rightarrow> string \<Rightarrow> bool" where
  "statesAddress ext email \<longleftrightarrow>
     XEmailVerified ext \<and> \<not> XEmailAssumed ext \<and> \<not> XAliased ext \<and> normalizeEmail (XEmail ext) = email"

definition link :: "string \<Rightarrow> external \<Rightarrow> linkedIdentity act" where
  "link userID ext =
     (if userID = [] \<or> XProvider ext = [] \<or> XAccountID ext = [] then fails LinkNeeds
      else in_tx (andThen (user_by_rid userID) (\<lambda>u.
        if \<not> EmailVerified u then fails LinkUnverified
        else andThen (linkTx userID ext) (\<lambda>l.
          if EmailAssumed u \<and> statesAddress ext (Email u) then
            andThen (update_user userID (\<lambda>v. v\<lparr>EmailAssumed := False\<rparr>)) (\<lambda>_. ret l)
          else ret l))))"

definition unlinkIdentity :: "string \<Rightarrow> string \<Rightarrow> unit act" where
  "unlinkIdentity userID linkID =
     in_tx (andThen (user_by_rid userID) (\<lambda>u.
       catching (find_link (\<lambda>l. LinkID l = linkID \<and> UserID l = userID)) (\<lambda>r.
         case r of
           Inl e \<Rightarrow> fails (if e = NotFound then IdentityNotFound else e)
         | Inr _ \<Rightarrow>
             andThen (db (\<lambda>d. (d, Inr (length (filter (\<lambda>l. UserID l = userID) (links d)))))) (\<lambda>n.
               if (if HasPassword u then n + 1 else n) \<le> 1 then fails LastMethod
               else delete_links (\<lambda>l. LinkID l = linkID)))))"

definition loginMethods :: "User \<Rightarrow> (string \<times> string \<times> string) list act" where
  "loginMethods u =
     andThen (db (\<lambda>d. (d, Inr (take 100 (filter (\<lambda>l. UserID l = RID u) (links d)))))) (\<lambda>ls.
       ret ((if HasPassword u then [(''password'', [], Email u)] else []) @
            map (\<lambda>l. (Provider l, LinkID l, LinkEmail l)) ls))"

section \<open>From a provider's identity to an account\<close>

definition vouched_for :: "env \<Rightarrow> external \<Rightarrow> bool" where
  "vouched_for E ext \<longleftrightarrow>
     XEmail ext \<noteq> [] \<and> XEmailVerified ext \<and> \<not> XAliased ext \<and> \<not> (XEmailAssumed ext \<and> XEmail ext \<in> set (Admins E))"

definition missingFor :: "external \<Rightarrow> string" where
  "missingFor ext =
     (if XEmail ext = [] then ''email''
      else if \<not> XEmailVerified ext then ''verified''
      else if XAliased ext then ''non_aliased''
      else if XEmailAssumed ext then ''verified'' else [])"

definition new_account :: "env \<Rightarrow> external \<Rightarrow> (User \<times> linkedIdentity) act" where
  "new_account E ext =
     andThen draw (\<lambda>secret. andThen (hashPassword E secret) (\<lambda>hash.
       catching (create_user
           \<lparr>RID = [], Email = XEmail ext, EmailVerified = True, EmailAssumed = XEmailAssumed ext, PasswordHash = hash,
            HasPassword = False, PasswordVersion = 0,
            UName = (if XName ext \<noteq> [] then XName ext else maskEmail (XEmail ext)), Roles = [], Active = True, Version = 0\<rparr>) (\<lambda>r.
         case r of
           Inl e \<Rightarrow> fails (if e = Duplicate then AlreadyRegistered else e)
         | Inr u \<Rightarrow> andThen (linkTx (RID u) ext) (\<lambda>l. ret (u, l)))))"

definition join_account :: "env \<Rightarrow> external \<Rightarrow> User \<Rightarrow> (User \<times> linkedIdentity) act" where
  "join_account E ext u =
     andThen (if EmailAssumed u then takeOver E u else ret ()) (\<lambda>_.
       andThen (linkTx (RID u) ext) (\<lambda>l. ret (u, l)))"

definition resolve :: "env \<Rightarrow> external \<Rightarrow> (User \<times> linkedIdentity) act" where
  "resolve E ext0 =
     (if XProvider ext0 = [] \<or> XAccountID ext0 = [] then fails NoIdentity
      else
        (let ext = ext0\<lparr>XEmail := normalizeEmail (XEmail ext0)\<rparr>
         in catching (find_link (\<lambda>l. Provider l = XProvider ext \<and> ProviderAccountID l = XAccountID ext)) (\<lambda>r.
              case r of
                Inr l \<Rightarrow>
                  andThen (user_by_rid (UserID l)) (\<lambda>u.
                    if \<not> Active u then fails Disabled
                    else andThen (touch (LinkID l)) (\<lambda>_. ret (u, l)))
              | Inl e \<Rightarrow>
                  if e \<noteq> NotFound then fails e
                  else if \<not> vouched_for E ext then fails (EmailRequired (missingFor ext))
                  else in_tx
                    (if LinkByEmail E \<and> \<not> XEmailAssumed ext then
                       catching (user_by_email (XEmail ext)) (\<lambda>q.
                         case q of
                           Inr u \<Rightarrow> if EmailVerified u then join_account E ext u else new_account E ext
                         | Inl e \<Rightarrow> if e \<noteq> NotFound then fails e else new_account E ext)
                     else new_account E ext))))"

section \<open>The callback and the exchange\<close>

definition withQuery :: "oauthFlow \<Rightarrow> string \<Rightarrow> string \<Rightarrow> string \<Rightarrow> string" where
  "withQuery F u key v = u @ (if CHR ''?'' \<in> set u then ''&'' else ''?'') @ key @ ''='' @ queryEscape F v"

definition linkedRedirect :: "oauthFlow \<Rightarrow> string \<Rightarrow> string \<Rightarrow> string" where
  "linkedRedirect F back prov =
     withQuery F (withQuery F (if back = [] then frontend F else back) ''link_status'' ''ok'') ''provider'' prov"

datatype callback_answer = Linked string | SignedIn string string string

text \<open>The answer of a sign-in: where to, the code in it, and the binding cookie.\<close>

definition handleCallback ::
  "env \<Rightarrow> oauthFlow \<Rightarrow> provider \<Rightarrow> string option \<Rightarrow> string \<Rightarrow> string \<Rightarrow> callback_answer act" where
  "handleCallback E F p cookie state code =
     (case read_cookie (carrier_mac F) cookie of
        Inl _ \<Rightarrow> fails SidInvalid
      | Inr sid \<Rightarrow>
          andThen (in_store (\<lambda>now. takeSession now sid)) (\<lambda>taken.
            case taken of
              None \<Rightarrow> fails SessionGone
            | Some sess \<Rightarrow>
                if SessProvider sess \<noteq> pname p then fails SessionGone
                else if state \<noteq> State sess then fails StateMismatch
                else
                  (case CompleteAuth p code (Nonce sess) (CodeVerifier sess) of
                     Inl e \<Rightarrow> fails e
                   | Inr ext0 \<Rightarrow>
                       (let ext = (if XProvider ext0 = [] then ext0\<lparr>XProvider := pname p\<rparr> else ext0)
                        in if LinkUserID sess \<noteq> [] then
                             andThen (link (LinkUserID sess) ext) (\<lambda>_. ret (Linked (linkedRedirect F (RedirectBack sess) (pname p))))
                           else
                             andThen (resolve E ext) (\<lambda>(user, _).
                               andThen draw (\<lambda>binding. andThen draw (\<lambda>code.
                                 andThen (in_store (\<lambda>now s. ((), saveCode now code
                                     \<lparr>CodeUser = RID user, CodeBack = RedirectBack sess, BindingHash = sha E binding\<rparr> authCodeTTL s))) (\<lambda>_.
                                   ret (SignedIn (withQuery F (frontend F) ''code'' code) code binding)))))))))"

definition handleExchange :: "env \<Rightarrow> string \<Rightarrow> string option \<Rightarrow> (string \<times> instant \<times> string) act" where
  "handleExchange E code cookie =
     (if code = [] then fails CodeRequired
      else
        (case cookie of
           None \<Rightarrow> fails BindMissing
         | Some v \<Rightarrow>
             if v = [] then fails BindMissing
             else andThen (in_store (\<lambda>now. takeCode now code)) (\<lambda>taken.
               case taken of
                 None \<Rightarrow> fails CodeGone
               | Some x \<Rightarrow>
                   if sha E v \<noteq> BindingHash x then fails BindInvalid
                   else catching (user_by_rid (CodeUser x)) (\<lambda>r.
                     case r of
                       Inl e \<Rightarrow> fails (if e = NotFound then NoAccount else e)
                     | Inr user \<Rightarrow>
                         if \<not> Active user then fails Disabled
                         else andThen (getw clock) (\<lambda>now.
                           andThen (issueToken E user (unix now)) (\<lambda>(tok, ex). ret (tok, ex, CodeBack x)))))))"

text \<open>A signed-in user starts a link.\<close>

definition handleLink :: "oauthFlow \<Rightarrow> session \<Rightarrow> string \<Rightarrow> string \<Rightarrow> (string \<times> string) act" where
  "handleLink F s prov back =
     andThen (user_by_rid (RID (suser s))) (\<lambda>u.
       if \<not> EmailVerified u then fails LinkUnverified
       else
         (case find (\<lambda>p. pname p = prov) (providers F) of
            None \<Rightarrow> fails UnknownProvider
          | Some p \<Rightarrow>
              if validateRedirectBack (parse_url F) (allowed F) back \<noteq> None then fails RedirectRefused
              else begin_flow F p back (RID (suser s))))"

section \<open>What they keep of the users\<close>

context table_order
begin

lemma keeps_store [keeps_intros]: "keeps R (in_store f)" "keeps R (draw_if b)"
proof -
  show "keeps R (in_store f)" by (simp add: keeps_def in_store_def refl split: prod.splits)
  show "keeps R (draw_if b)" unfolding draw_if_def by (intro keeps_intros)
qed

lemma keeps_begin [keeps_intros]: "keeps R (begin_flow F p back l)" "keeps R (handleBegin F p back)" "keeps R (handleLink F s prov back)"
proof -
  show b: "keeps R (begin_flow F p bk l)" for p bk l unfolding begin_flow_def Let_def by (intro keeps_intros)
  show "keeps R (handleBegin F p back)" "keeps R (handleLink F s prov back)"
    unfolding handleBegin_def handleLink_def by (intro keeps_intros b)+
qed

lemma keeps_link_reads [keeps_intros]: "keeps R (find_link P)" "keeps R (touch i)" "keeps R (loginMethods u)"
proof -
  show "keeps R (find_link P)" unfolding find_link_def by (rule keeps_db) (simp add: refl)
  show "keeps R (touch i)" unfolding touch_def by (intro keeps_intros keeps_db) (simp add: refl)
  show "keeps R (loginMethods u)" unfolding loginMethods_def by (intro keeps_intros keeps_db) (simp add: refl)
qed

end

context handlers_order
begin

lemma keeps_links [keeps_intros]: "keeps R (create_link l)" "keeps R (linkTx rid ext)" "keeps R (unlinkIdentity rid i)"
proof -
  show c: "keeps R (create_link l)" for l
    unfolding create_link_def
    by (intro keeps_intros keeps_db) (simp add: Let_def refl enlink new_link_def)
  show "keeps R (linkTx rid ext)" unfolding linkTx_def by (intro keeps_intros c)
  show "keeps R (unlinkIdentity rid i)" unfolding unlinkIdentity_def by (intro keeps_intros keeps_db) (simp add: refl)
qed

lemma keeps_link [keeps_intros]: "keeps R (link rid ext)"
  unfolding link_def by (intro keeps_intros) (simp add: row_grows_def)

lemma keeps_resolve [keeps_intros]: "keeps R (resolve E ext)"
  unfolding resolve_def new_account_def join_account_def Let_def by (intro keeps_intros)

lemma keeps_callback [keeps_intros]: "keeps R (handleCallback E F p ck st code)" "keeps R (handleExchange E code ck)"
  unfolding handleCallback_def handleExchange_def Let_def by (intro keeps_intros)+

end

section \<open>What they do\<close>

lemma find_link_result:
  assumes "find_link P w = (w', r)"
  shows "data w' = data w \<and> clock w' = clock w \<and> (\<forall>l. r = Inr l \<longrightarrow> find P (links (data w)) = Some l) \<and>
    (r = Inl NotFound \<longrightarrow> find P (links (data w)) = None)"
  using assms unfolding find_link_def by (rule db_cases) (auto split: option.splits)

lemma linkTx_Inr:
  assumes "linkTx rid ext w = (w', Inr l)"
  shows "users (data w') = users (data w) \<and> links (data w') = links (data w) @ [l] \<and>
    UserID l = rid \<and> Provider l = XProvider ext \<and> ProviderAccountID l = XAccountID ext"
proof -
  let ?l = "\<lparr>LinkID = [], UserID = rid, Provider = XProvider ext, ProviderAccountID = XAccountID ext, LinkEmail = XEmail ext\<rparr>"
  from assms have "create_link ?l w = (w', Inr l)"
    unfolding linkTx_def by (auto elim!: catching_cases split: sum.splits)
  then obtain w1 r where "draw w = (w1, Inr r)" and d: "db (\<lambda>d. if list_ex (\<lambda>k. Provider k = Provider ?l \<and> ProviderAccountID k = ProviderAccountID ?l \<or> LinkID k = ''idn_'' @ r) (links d)
          then (d, Inl Duplicate)
          else (let l' = ?l\<lparr>LinkID := ''idn_'' @ r\<rparr> in (d\<lparr>links := links d @ [l']\<rparr>, Inr l'))) w1 = (w', Inr l)"
    unfolding create_link_def by (rule andThen_Inr)
  then have "data w1 = data w" by (auto simp: draw_def)
  with db_Inr [OF d] show ?thesis by (auto simp: Let_def split: if_splits)
qed

lemma create_user_Inr:
  assumes "create_user u w = (w', Inr v)"
  shows "data w' = (data w)\<lparr>users := users (data w) @ [v]\<rparr> \<and> Email v = Email u \<and> new_user (data w) v"
proof -
  from assms obtain w1 r where "draw w = (w1, Inr r)" and d: "db (\<lambda>d. let rid = ''usr_'' @ r in
          if list_ex (\<lambda>v. Email v = Email u \<or> RID v = rid) (users d) then (d, Inl Duplicate)
          else (let u' = u\<lparr>RID := rid, Version := 1\<rparr> in (d\<lparr>users := users d @ [u']\<rparr>, Inr u'))) w1 = (w', Inr v)"
    unfolding create_user_def by (rule andThen_Inr)
  then have "data w1 = data w" by (auto simp: draw_def)
  with db_Inr [OF d] show ?thesis
    by (auto simp: Let_def new_user_def split: if_splits)
qed

lemma hash_data: "hashPassword E p w = (w', r) \<Longrightarrow> data w' = data w"
  by (auto simp: hashPassword_def andThen_def draw_def ret_def fails_def split: if_splits)

lemma draw_data: "draw w = (w', r) \<Longrightarrow> data w' = data w"
  by (auto simp: draw_def)

lemma new_user_absent: "new_user d v \<Longrightarrow> user_at d (RID v) = None \<and> find (\<lambda>u. Email u = Email v) (users d) = None"
  by (auto simp: new_user_def user_at_def list_ex_iff find_None_iff)

lemma new_account_Inr:
  assumes "new_account E ext w = (w', Inr (v, l))"
  shows "user_at (data w) (RID v) = None \<and> find (\<lambda>u. Email u = XEmail ext) (users (data w)) = None \<and>
    Email v = XEmail ext \<and> UserID l = RID v \<and> links (data w') = links (data w) @ [l]"
proof -
  from assms obtain w1 w2 w3 u0 where "data w2 = data w" and c: "create_user u0 w2 = (w3, Inr v)" and e: "Email u0 = XEmail ext"
      and l: "linkTx (RID v) ext w3 = (w', Inr l)"
    unfolding new_account_def
    by (auto elim!: andThen_Inr catching_cases split: sum.splits dest!: hash_data draw_data)
  from create_user_Inr [OF c] linkTx_Inr [OF l] \<open>data w2 = data w\<close> e new_user_absent [of "data w" v] show ?thesis
    by simp
qed

lemma join_account_Inr:
  assumes "join_account E ext u w = (w', Inr (v, l))" "user_at (data w) (RID u) = Some u"
  shows "v = u \<and> UserID l = RID u \<and>
    (EmailAssumed u \<longrightarrow> (\<exists>d. taken_over (RID u) (PasswordVersion u) d \<and> users (data w') = users d \<and> links (data w') = links d @ [l]))"
proof -
  from assms(1) obtain w1 where t: "(if EmailAssumed u then takeOver E u else ret ()) w = (w1, Inr ())"
      and "andThen (linkTx (RID u) ext) (\<lambda>l. ret (u, l)) w1 = (w', Inr (v, l))"
    unfolding join_account_def by (auto elim: andThen_Inr [where m = "if EmailAssumed u then takeOver E u else ret ()"])
  then have v: "v = u" and l: "linkTx (RID u) ext w1 = (w', Inr l)"
    by (auto elim: andThen_Inr)
  have "EmailAssumed u \<Longrightarrow> taken_over (RID u) (PasswordVersion u) (data w1)"
    using t takeOver_Inr [of E u w w1] assms(2) by (simp add: emailProven_def)
  with v linkTx_Inr [OF l] show ?thesis by auto
qed

lemma resolve_new:
  assumes "in_tx (if LinkByEmail E \<and> \<not> XEmailAssumed ext then
             catching (user_by_email (XEmail ext)) (\<lambda>q.
               case q of
                 Inr u \<Rightarrow> if EmailVerified u then join_account E ext u else new_account E ext
               | Inl e \<Rightarrow> if e \<noteq> NotFound then fails e else new_account E ext)
           else new_account E ext) w = (w', Inr (v, l))" (is "in_tx ?m w = _")
    and "users_unique (data w)"
  shows "user_at (data w) (RID v) = None \<and> find (\<lambda>u. Email u = XEmail ext) (users (data w)) = None \<and> Email v = XEmail ext \<or>
    LinkByEmail E \<and> \<not> XEmailAssumed ext \<and> user_at (data w) (RID v) = Some v \<and> EmailVerified v \<and> Email v = XEmail ext \<and>
    (EmailAssumed v \<longrightarrow>
       (\<exists>d. taken_over (RID v) (PasswordVersion v) d \<and> users (data w') = users d \<and> links (data w') = links d @ [l]))"
proof -
  obtain w1 where m: "?m w = (w1, Inr (v, l))" and d: "data w' = data w1"
    using in_tx_Inr [OF assms(1)] by blast
  show ?thesis
  proof (cases "LinkByEmail E \<and> \<not> XEmailAssumed ext")
    case False
    with m new_account_Inr [of E ext w w1 v l] show ?thesis by simp
  next
    case True
    then obtain w2 q where q: "user_by_email (XEmail ext) w = (w2, q)"
        and k: "(case q of Inr u \<Rightarrow> if EmailVerified u then join_account E ext u else new_account E ext
               | Inl e \<Rightarrow> if e \<noteq> NotFound then fails e else new_account E ext) w2 = (w1, Inr (v, l))"
      using m by (auto elim: catching_cases)
    note r = user_by_email_result [OF q]
    show ?thesis
    proof (cases "\<exists>u. q = Inr u \<and> EmailVerified u")
      case True
      then obtain u where u: "q = Inr u" "EmailVerified u" by blast
      with r have f: "find (\<lambda>u. Email u = XEmail ext) (users (data w)) = Some u" by simp
      then have at: "user_at (data w2) (RID u) = Some u" "Email u = XEmail ext"
        using found_user_at [OF assms(2)] r by (auto simp: find_Some_iff)
      from k u have "join_account E ext u w2 = (w1, Inr (v, l))" by simp
      from join_account_Inr [OF this at(1)] at r u d \<open>LinkByEmail E \<and> \<not> XEmailAssumed ext\<close> show ?thesis by auto
    next
      case False
      with k have "new_account E ext w2 = (w1, Inr (v, l))" by (auto split: sum.splits if_splits)
      from new_account_Inr [OF this] r show ?thesis by simp
    qed
  qed
qed

section \<open>Properties\<close>

text \<open>C4: A sign-in through a provider reaches an account in three ways only. The account at the
  provider is linked to it already, and it is active. Or it is a new account, with an address
  nobody had, that the provider vouches for and does not alias; one the provider only assumes is
  verified is not the address of an administrator. Or link_by_email is on, the account has the
  address, verified, and the provider states that address in so many words; if until then the
  address was only assumed, the account is taken over first: it keeps no password, no older
  token and no other link.\<close>

theorem oauth_resolve_sound:
  assumes "resolve E ext w = (w', Inr (v, l))" "users_unique (data w)"
  shows "l \<in> set (links (data w)) \<and> Provider l = XProvider ext \<and> ProviderAccountID l = XAccountID ext \<and>
      UserID l = RID v \<and> user_at (data w) (RID v) = Some v \<and> Active v \<or>
    user_at (data w) (RID v) = None \<and> find (\<lambda>u. Email u = Email v) (users (data w)) = None \<and>
      Email v = normalizeEmail (XEmail ext) \<and> Email v \<noteq> [] \<and> XEmailVerified ext \<and> \<not> XAliased ext \<and>
      \<not> (XEmailAssumed ext \<and> Email v \<in> set (Admins E)) \<or>
    LinkByEmail E \<and> statesAddress ext (Email v) \<and> user_at (data w) (RID v) = Some v \<and> EmailVerified v \<and>
      (EmailAssumed v \<longrightarrow>
         (\<exists>d. taken_over (RID v) (PasswordVersion v) d \<and> users (data w') = users d \<and> links (data w') = links d @ [l]))"
proof -
  let ?ext = "ext\<lparr>XEmail := normalizeEmail (XEmail ext)\<rparr>"
  let ?P = "\<lambda>l. Provider l = XProvider ?ext \<and> ProviderAccountID l = XAccountID ?ext"
  obtain w1 r where f: "find_link ?P w = (w1, r)" by (cases "find_link ?P w")
  note fl = find_link_result [OF f]
  show ?thesis
  proof (cases r)
    case (Inr k)
    with assms(1) f have "andThen (user_by_rid (UserID k)) (\<lambda>u. if \<not> Active u then fails Disabled else andThen (touch (LinkID k)) (\<lambda>_. ret (u, k))) w1 = (w', Inr (v, l))"
      unfolding resolve_def Let_def by (simp add: catching_def split: if_splits)
    then obtain w2 where u: "user_by_rid (UserID k) w1 = (w2, Inr v)" and "Active v" "l = k"
      by (elim andThen_Inr) (auto split: if_splits elim: andThen_Inr)
    with user_by_rid_Inr [OF u] user_at_RID fl Inr show ?thesis
      by (auto simp: find_Some_iff)
  next
    case (Inl x)
    with assms(1) f have vf: "vouched_for E ?ext" and tx: "in_tx (if LinkByEmail E \<and> \<not> XEmailAssumed ?ext then
             catching (user_by_email (XEmail ?ext)) (\<lambda>q.
               case q of
                 Inr u \<Rightarrow> if EmailVerified u then join_account E ?ext u else new_account E ?ext
               | Inl e \<Rightarrow> if e \<noteq> NotFound then fails e else new_account E ?ext)
           else new_account E ?ext) w1 = (w', Inr (v, l))"
      unfolding resolve_def Let_def by (auto simp: catching_def split: if_splits)
    have "users_unique (data w1)" using assms(2) fl by simp
    from resolve_new [OF tx this] show ?thesis
    proof (elim disjE)
      assume "user_at (data w1) (RID v) = None \<and> find (\<lambda>u. Email u = XEmail ?ext) (users (data w1)) = None \<and> Email v = XEmail ?ext"
      with vf fl show ?thesis by (auto simp: vouched_for_def)
    next
      assume j: "LinkByEmail E \<and> \<not> XEmailAssumed ?ext \<and> user_at (data w1) (RID v) = Some v \<and> EmailVerified v \<and> Email v = XEmail ?ext \<and>
        (EmailAssumed v \<longrightarrow> (\<exists>d. taken_over (RID v) (PasswordVersion v) d \<and> users (data w') = users d \<and> links (data w') = links d @ [l]))"
      with vf have "statesAddress ext (Email v)" by (auto simp: vouched_for_def statesAddress_def)
      with j fl show ?thesis by auto
    qed
  qed
qed

text \<open>The one-time code of a callback is worth a token to the browser that has the binding cookie,
  and to nobody else: an exchange that succeeds presents a code the store holds and that has not
  expired, and the cookie whose hash was kept with it, for a user who is active. Right or wrong,
  the code is gone once it was presented.\<close>

theorem oauth_exchange_bound:
  assumes "handleExchange E code cookie w = (w', Inr y)"
  shows "\<exists>v x. cookie = Some v \<and> fst (takeCode (clock w) code (flow w)) = Some x \<and> sha E v = BindingHash x \<and>
    (\<exists>u. user_at (data w) (CodeUser x) = Some u \<and> Active u) \<and>
    lookup (''code:'' @ code) (snd (takeCode (clock w) code (flow w))) = None"
proof -
  have gone: "lookup (''code:'' @ code) (snd (takeCode (clock w) code (flow w))) = None"
    using take_removes [of "''code:'' @ code" "clock w" "flow w"]
    by (auto simp: takeCode_def split: prod.splits option.splits flow_value.splits)
  from assms obtain v where v: "cookie = Some v" "code \<noteq> []" "v \<noteq> []"
    by (auto simp: handleExchange_def split: if_splits option.splits)
  obtain x s where t: "takeCode (clock w) code (flow w) = (Some x, s)"
    using assms v by (auto simp: handleExchange_def andThen_def in_store_def split: prod.splits option.splits)
  let ?w1 = "w\<lparr>flow := s\<rparr>"
  obtain w2 r where r: "user_by_rid (CodeUser x) ?w1 = (w2, r)" by (cases "user_by_rid (CodeUser x) ?w1")
  have h: "sha E v = BindingHash x" and "\<exists>u. r = Inr u \<and> Active u"
    using assms v t r by (auto simp: handleExchange_def andThen_def in_store_def catching_def split: if_splits sum.splits)
  then obtain u where u: "r = Inr u" "Active u" by blast
  with user_by_rid_Inr [of "CodeUser x" ?w1 w2 u] r have "user_at (data w) (CodeUser x) = Some u" by simp
  with v t h u gone show ?thesis by auto
qed

definition links_unique :: "tables \<Rightarrow> bool" where
  "links_unique d \<longleftrightarrow> distinct (map LinkID (links d)) \<and> distinct (map (\<lambda>l. (Provider l, ProviderAccountID l)) (links d))"

text \<open>The last way to sign in stays. When a user takes a link away, that link goes and no other,
  and the user has a password or another link left.\<close>

theorem unlink_keeps_a_way:
  assumes "unlinkIdentity rid lid w = (w', Inr ())" "links_unique (data w)"
  shows "\<exists>u. user_at (data w) rid = Some u \<and> users (data w') = users (data w) \<and>
    links (data w') = filter (\<lambda>l. LinkID l \<noteq> lid) (links (data w)) \<and>
    (HasPassword u \<or> list_ex (\<lambda>l. UserID l = rid) (links (data w')))"
proof -
  let ?mine = "filter (\<lambda>l. UserID l = rid) (links (data w))"
  obtain w0 where d0: "data w' = data w0" and m: "andThen (user_by_rid rid) (\<lambda>u.
       catching (find_link (\<lambda>l. LinkID l = lid \<and> UserID l = rid)) (\<lambda>r.
         case r of
           Inl e \<Rightarrow> fails (if e = NotFound then IdentityNotFound else e)
         | Inr _ \<Rightarrow>
             andThen (db (\<lambda>d. (d, Inr (length (filter (\<lambda>l. UserID l = rid) (links d)))))) (\<lambda>n.
               if (if HasPassword u then n + 1 else n) \<le> 1 then fails LastMethod
               else delete_links (\<lambda>l. LinkID l = lid)))) w = (w0, Inr ())"
    using in_tx_Inr [OF assms(1) [unfolded unlinkIdentity_def]] by blast
  from m obtain w1 u where u: "user_by_rid rid w = (w1, Inr u)" and m1: "catching (find_link (\<lambda>l. LinkID l = lid \<and> UserID l = rid)) (\<lambda>r.
         case r of
           Inl e \<Rightarrow> fails (if e = NotFound then IdentityNotFound else e)
         | Inr _ \<Rightarrow>
             andThen (db (\<lambda>d. (d, Inr (length (filter (\<lambda>l. UserID l = rid) (links d)))))) (\<lambda>n.
               if (if HasPassword u then n + 1 else n) \<le> 1 then fails LastMethod
               else delete_links (\<lambda>l. LinkID l = lid))) w1 = (w0, Inr ())"
    by (rule andThen_Inr)
  note ud = user_by_rid_Inr [OF u]
  from m1 obtain w2 k where "find_link (\<lambda>l. LinkID l = lid \<and> UserID l = rid) w1 = (w2, Inr k)"
      and m2: "andThen (db (\<lambda>d. (d, Inr (length (filter (\<lambda>l. UserID l = rid) (links d)))))) (\<lambda>n.
               if (if HasPassword u then n + 1 else n) \<le> 1 then fails LastMethod
               else delete_links (\<lambda>l. LinkID l = lid)) w2 = (w0, Inr ())"
    by (rule catching_cases) (auto split: sum.splits)
  note fl = find_link_result [OF this(1)]
  from m2 obtain w3 n where n: "db (\<lambda>d. (d, Inr (length (filter (\<lambda>l. UserID l = rid) (links d))))) w2 = (w3, Inr n)"
      and del: "delete_links (\<lambda>l. LinkID l = lid) w3 = (w0, Inr ())" and guard: "\<not> (if HasPassword u then n + 1 else n) \<le> 1"
    by (elim andThen_Inr) (auto split: if_splits)
  have "data w3 = data w" "n = length ?mine" using n ud fl by (auto elim!: db_cases)
  moreover have "users (data w0) = users (data w3)" "links (data w0) = filter (\<lambda>l. LinkID l \<noteq> lid) (links (data w3))"
    using db_Inr [OF del [unfolded delete_links_def]] by simp_all
  moreover have "HasPassword u \<or> list_ex (\<lambda>l. UserID l = rid) (filter (\<lambda>l. LinkID l \<noteq> lid) (links (data w)))"
  proof (rule disjCI)
    assume none: "\<not> list_ex (\<lambda>l. UserID l = rid) (filter (\<lambda>l. LinkID l \<noteq> lid) (links (data w)))"
    show "HasPassword u"
    proof (rule ccontr)
      assume "\<not> HasPassword u"
      with guard \<open>n = length ?mine\<close> have two: "2 \<le> length ?mine" by simp
      have "set (map LinkID ?mine) \<subseteq> {lid}" using none by (auto simp: list_ex_iff)
      then have "card (set (map LinkID ?mine)) \<le> 1" by (metis card.empty card.insert card_mono empty_iff finite.intros is_singletonI is_singleton_altdef)
      moreover have "distinct (map LinkID ?mine)" using assms(2) by (simp add: links_unique_def distinct_map_filter)
      ultimately show False using two by (metis distinct_card length_map not_one_le_zero numeral_le_one_iff order_trans semiring_norm(69))
    qed
  qed
  ultimately show ?thesis using ud d0 by auto
qed

section \<open>Witnesses\<close>

definition demo_external :: external where
  "demo_external = \<lparr>XProvider = ''google'', XAccountID = ''7'', XEmail = ''A@b'', XEmailVerified = True, XEmailAssumed = False,
     XAliased = False, XName = []\<rparr>"

definition demo_resolve :: "world \<times> (failure + (User \<times> linkedIdentity))" where
  "demo_resolve = resolve demo_env demo_external demo_world"

lemma demo_resolve_user: "(case snd demo_resolve of Inr (v, l) \<Rightarrow> RID v = ''usr_1'' \<and> Provider l = ''google'' | Inl _ \<Rightarrow> False)"
  by code_simp

theorem oauth_resolve_sound_witness:
  "\<exists>v. user_at (data demo_world) ''usr_1'' = Some v \<and> LinkByEmail demo_env \<and> statesAddress demo_external (Email v)"
proof -
  obtain v l where "snd demo_resolve = Inr (v, l)" and v: "RID v = ''usr_1''" "Provider l = ''google''"
    using demo_resolve_user by (auto split: sum.splits)
  then have "resolve demo_env demo_external demo_world = (fst demo_resolve, Inr (v, l))"
    by (metis demo_resolve_def prod.collapse)
  moreover have "l \<notin> set (links (data demo_world))" "user_at (data demo_world) (RID v) \<noteq> None"
    using v by (auto simp: demo_world_def demo_tables_def user_at_def demo_user_def)
  ultimately show ?thesis
    using oauth_resolve_sound [OF _ demo_unique(1), of demo_env demo_external] v(1) by (metis (no_types, lifting))
qed

definition demo_exchange_world :: world where
  "demo_exchange_world = demo_world\<lparr>flow := saveCode second_ns ''c'' \<lparr>CodeUser = ''usr_1'', CodeBack = [], BindingHash = ''sb''\<rparr> authCodeTTL (newMemoryStore 10)\<rparr>"

lemma demo_exchange_ok: "(case snd (handleExchange demo_env ''c'' (Some ''b'') demo_exchange_world) of Inr _ \<Rightarrow> True | Inl _ \<Rightarrow> False)"
  by code_simp

theorem oauth_exchange_bound_witness:
  "\<exists>x. fst (takeCode (clock demo_exchange_world) ''c'' (flow demo_exchange_world)) = Some x \<and> sha demo_env ''b'' = BindingHash x"
proof -
  obtain w' y where "handleExchange demo_env ''c'' (Some ''b'') demo_exchange_world = (w', Inr y)"
    using demo_exchange_ok by (cases "handleExchange demo_env ''c'' (Some ''b'') demo_exchange_world") (auto split: sum.splits)
  from oauth_exchange_bound [OF this] show ?thesis by auto
qed

definition demo_two_links :: world where
  "demo_two_links = demo_world\<lparr>data := demo_tables\<lparr>links := links demo_tables @
     [\<lparr>LinkID = ''idn_2'', UserID = ''usr_1'', Provider = ''google'', ProviderAccountID = ''7'', LinkEmail = ''a@b''\<rparr>]\<rparr>\<rparr>"

lemma demo_unlink_ok: "(case snd (unlinkIdentity ''usr_1'' ''idn_1'' demo_two_links) of Inr _ \<Rightarrow> True | Inl _ \<Rightarrow> False)"
  by code_simp

theorem unlink_keeps_a_way_witness:
  "list_ex (\<lambda>l. UserID l = ''usr_1'') (links (data (fst (unlinkIdentity ''usr_1'' ''idn_1'' demo_two_links))))"
proof -
  let ?r = "unlinkIdentity ''usr_1'' ''idn_1'' demo_two_links"
  have r: "?r = (fst ?r, Inr ())"
    using demo_unlink_ok by (cases ?r) (auto split: sum.splits)
  have "links_unique (data demo_two_links)" by (simp add: links_unique_def demo_two_links_def demo_tables_def)
  from unlink_keeps_a_way [OF r this] show ?thesis
    by (auto simp: user_at_def demo_two_links_def demo_tables_def demo_user_def)
qed

end
