(* ===== verification/Identity_System.thy ===== *)
theory Identity_System
  imports Oauth_Flow
begin

text \<open>
  The identity battery as a whole: the requests its routes take (\<^verbatim>\<open>src/identity/routes.go\<close>, \<open>Mount\<close>,
  and \<^verbatim>\<open>oauth.go\<close>, \<open>mount\<close>), the calls an operator makes (\<^verbatim>\<open>users.go\<close>), the sweep of the codes and
  what happens around them: time passes, database calls fail. A history is a list of these, one
  whole handler after another.

  The theorems hold of every history: ids, addresses and links stay unique; a token that was
  revoked never comes back. The last one is about two handlers that interact: a link that was
  started before an account was taken over is finished after it.
\<close>

section \<open>Histories\<close>

datatype request =
    Register string string string
  | Login string string string
  | Forgot string string
  | Reset string string
  | CodeStart string string
  | CodeVerify string verify_request
  | Begin provider string
  | Callback provider "string option" string string
  | Exchange string "string option"
  | Me string
  | Refresh string
  | ChangePassword string string string
  | ConfirmStart string
  | Confirm string string
  | Methods string
  | LinkStart string string string
  | Unlink string string
  | OpCreate string string string
  | OpActive string bool
  | OpRoles string "string list"
  | OpPassword string string
  | OpRevoke string
  | OpVerified string
  | SweepCodes
  | Tick nat
  | Faults "bool list"

definition serve :: "env \<Rightarrow> oauthFlow \<Rightarrow> request \<Rightarrow> world \<Rightarrow> world" where
  "serve E F rq w =
     (case rq of
        Register e p n \<Rightarrow> fst (register E e p n w)
      | Login cip e p \<Rightarrow> fst (login E cip e p w)
      | Forgot cip e \<Rightarrow> fst (forgotPassword E cip e w)
      | Reset t p \<Rightarrow> fst (resetPassword E t p w)
      | CodeStart cip e \<Rightarrow> fst (passwordlessStart E cip e w)
      | CodeVerify cip v \<Rightarrow> fst (passwordlessVerify E cip v w)
      | Begin p bk \<Rightarrow> fst (handleBegin F p bk w)
      | Callback p ck st cd \<Rightarrow> fst (handleCallback E F p ck st cd w)
      | Exchange cd ck \<Rightarrow> fst (handleExchange E cd ck w)
      | Me raw \<Rightarrow> fst (authed E raw ret w)
      | Refresh raw \<Rightarrow> fst (authed E raw (refreshToken E) w)
      | ChangePassword raw old new \<Rightarrow> fst (authed E raw (\<lambda>s. changePassword E s old new) w)
      | ConfirmStart raw \<Rightarrow> fst (authed E raw (confirmEmailStart E) w)
      | Confirm raw cd \<Rightarrow> fst (authed E raw (\<lambda>s. confirmEmail E s cd) w)
      | Methods raw \<Rightarrow> fst (authed E raw (\<lambda>s. loginMethods (suser s)) w)
      | LinkStart raw prov bk \<Rightarrow> fst (authed E raw (\<lambda>s. handleLink F s prov bk) w)
      | Unlink raw lid \<Rightarrow> fst (authed E raw (\<lambda>s. unlinkIdentity (RID (suser s)) lid) w)
      | OpCreate e p n \<Rightarrow> fst (create_account E e p n w)
      | OpActive rid b \<Rightarrow> fst (SetActive rid b w)
      | OpRoles rid rs \<Rightarrow> fst (SetRoles rid rs w)
      | OpPassword rid p \<Rightarrow> fst (ResetPassword E rid p w)
      | OpRevoke rid \<Rightarrow> fst (RevokeTokens rid w)
      | OpVerified rid \<Rightarrow> fst (MarkEmailVerified rid w)
      | SweepCodes \<Rightarrow> fst (sweepLoginCodes w)
      | Tick n \<Rightarrow> w\<lparr>clock := clock w + int n\<rparr>
      | Faults fs \<Rightarrow> w\<lparr>faults := fs\<rparr>)"

definition history :: "env \<Rightarrow> oauthFlow \<Rightarrow> request list \<Rightarrow> world \<Rightarrow> world" where
  "history E F rqs w = fold (serve E F) rqs w"

context handlers_order
begin

lemma serve_keeps: "R (data w) (data (serve E F rq w))"
proof -
  have k: "R (data w) (data (fst (m w)))" if "keeps R m" for m :: "'a act" and w
    using that unfolding keeps_def by blast
  show ?thesis
    by (cases rq) (simp_all only: serve_def request.case,
        (rule k, (rule keeps_intros | rule keeps_authed, rule keeps_intros, rule keeps_intros))+, simp_all add: refl)
qed

lemma history_keeps: "R (data w) (data (history E F rqs w))"
proof (induction rqs arbitrary: w)
  case (Cons rq rqs)
  from trans [OF serve_keeps Cons.IH] show ?case by (simp add: history_def)
qed (simp add: history_def refl)

end

section \<open>What stays unique\<close>

definition tables_sound :: "tables \<Rightarrow> bool" where
  "tables_sound d \<longleftrightarrow> users_unique d \<and> links_unique d \<and> codes_unique d"

lemma sound_links: "links d' = links d \<Longrightarrow> links_unique d' = links_unique d"
  by (simp add: links_unique_def)

lemma sound_codes: "login_codes d' = login_codes d \<Longrightarrow> codes_unique d' = codes_unique d"
  by (simp add: codes_unique_def)

lemma change_user_only: "links (change_user rid f d) = links d" "login_codes (change_user rid f d) = login_codes d"
  by (simp_all add: change_user_def)

interpretation sound: handlers_order "\<lambda>d d'. tables_sound d \<longrightarrow> tables_sound d'"
proof
  show "row_grows f \<Longrightarrow> tables_sound d \<longrightarrow> tables_sound (change_user rid f d)" for f d rid
    using unique.change [of f d rid] by (auto simp: tables_sound_def sound_links [OF change_user_only(1)] sound_codes [OF change_user_only(2)])
  show "new_user d u \<Longrightarrow> tables_sound d \<longrightarrow> tables_sound (d\<lparr>users := users d @ [u]\<rparr>)" for d u
    using unique.create [of d u] by (auto simp: tables_sound_def links_unique_def codes_unique_def)
  show "tables_sound d \<longrightarrow> tables_sound (d\<lparr>links := filter P (links d)\<rparr>)" for d P
    by (simp add: tables_sound_def links_unique_def distinct_map_filter users_unique_def codes_unique_def)
  show "new_link d l \<Longrightarrow> tables_sound d \<longrightarrow> tables_sound (d\<lparr>links := links d @ [l]\<rparr>)" for d l
    by (auto simp: tables_sound_def links_unique_def users_unique_def codes_unique_def new_link_def list_ex_iff)
  show "same_code g \<Longrightarrow> tables_sound d \<longrightarrow> tables_sound (d\<lparr>login_codes := map g (login_codes d)\<rparr>)" for g d
  proof -
    assume "same_code g"
    then have "CodeID \<circ> g = CodeID" "CodeEmail \<circ> g = CodeEmail" by (auto simp: same_code_def)
    then show ?thesis by (simp add: tables_sound_def links_unique_def users_unique_def codes_unique_def)
  qed
  show "tables_sound d \<longrightarrow> tables_sound (d\<lparr>login_codes := filter Q (login_codes d)\<rparr>)" for d Q
    by (simp add: tables_sound_def codes_unique_def distinct_map_filter users_unique_def links_unique_def)
  show "new_code d c \<Longrightarrow> tables_sound d \<longrightarrow> tables_sound (d\<lparr>login_codes := login_codes d @ [c]\<rparr>)" for d c
    by (auto simp: tables_sound_def links_unique_def users_unique_def codes_unique_def new_code_def list_ex_iff)
qed (auto simp: tables_sound_def users_unique_def links_unique_def codes_unique_def)

section \<open>Revocation\<close>

lemma grant_RID: "grant_loop E n u w = (w', Inr v) \<Longrightarrow> RID v = RID u"
proof (induction n arbitrary: u w)
  case 0
  then show ?case by (subst (asm) grant_loop.simps) (simp split: if_splits)
next
  case (Suc n)
  have again: "RID v = RID u" if "user_by_rid (RID u) w1 = (w2, Inr x)" "grant_loop E n x w2 = (w', Inr v)" for w1 w2 x
    using Suc.IH [OF that(2)] user_by_rid_Inr [OF that(1)] user_at_RID by metis
  from Suc.prems show ?case
    unfolding grant_loop.simps [of E "Suc n"] Let_def nat.case
    by (auto split: if_splits sum.splits elim!: catching_cases) (blast intro: again)
qed

lemma authenticate_session:
  assumes "authenticate E raw w = (w', Inr s)"
  obtains c u where "parse E (access_tokens E) (clock w) raw = Some c" "sub c = RID (suser s)"
    "user_at (data w) (RID (suser s)) = Some u" "pv c = Some (PasswordVersion u)"
proof -
  from assms obtain c w1 u where c: "parse E (access_tokens E) (clock w) raw = Some c"
      and u: "user_by_rid (sub c) w = (w1, Inr u)" "pv c = Some (PasswordVersion u)"
      and g: "\<exists>w2 v. grantAdmin E u w1 = (w2, Inr v) \<and> suser s = v"
    unfolding authenticate_def
    by (auto elim!: andThen_Inr catching_cases split: option.splits sum.splits if_splits)
  have "RID (suser s) = RID u" using g by (auto simp: grantAdmin_def dest: grant_RID split: if_splits)
  with user_by_rid_Inr [OF u(1)] have "sub c = RID (suser s)" "user_at (data w) (RID (suser s)) = Some u"
    using user_at_RID by auto
  with c u that show ?thesis by blast
qed

lemma update_bumps:
  assumes "update_user rid f w = (w', Inr ())" "user_at (data w) rid = Some u"
    and "\<And>v. RID (f v) = RID v" "\<And>v. PasswordVersion (f v) = PasswordVersion v + 1"
  shows "\<exists>u'. user_at (data w') rid = Some u' \<and> PasswordVersion u < PasswordVersion u'"
  using update_user_Inr [OF assms(1)] user_at_change [of f rid "data w" rid] assms by simp

text \<open>The operations that revoke the tokens of a user.\<close>

datatype revocation = Deactivate bool | NewRoles "string list" | RevokeAll | NewPassword string

fun revoke :: "env \<Rightarrow> string \<Rightarrow> revocation \<Rightarrow> unit act" where
  "revoke E rid (Deactivate b) = SetActive rid b"
| "revoke E rid (NewRoles rs) = SetRoles rid rs"
| "revoke E rid RevokeAll = RevokeTokens rid"
| "revoke E rid (NewPassword p) = setPassword E rid p"

lemma revoke_bumps:
  assumes "revoke E rid op w = (w', Inr ())" "user_at (data w) rid = Some u"
  shows "\<exists>u'. user_at (data w') rid = Some u' \<and> PasswordVersion u < PasswordVersion u'"
proof -
  obtain f w1 where "update_user rid f w1 = (w', Inr ())" "data w1 = data w"
    and "\<And>v. RID (f v) = RID v" "\<And>v. PasswordVersion (f v) = PasswordVersion v + 1"
  proof (cases op)
    case (Deactivate b)
    with assms that show ?thesis by (auto simp: SetActive_def update_account_def bump_pv_def split: if_splits)
  next
    case (NewRoles rs)
    with assms that show ?thesis by (auto simp: SetRoles_def update_account_def bump_pv_def split: if_splits option.splits)
  next
    case RevokeAll
    with assms that show ?thesis by (auto simp: RevokeTokens_def update_account_def bump_pv_def split: if_splits)
  next
    case (NewPassword p)
    with assms(1) obtain h w1 where "update_user rid (\<lambda>u. bump_pv (u\<lparr>PasswordHash := h, HasPassword := True\<rparr>)) w1 = (w', Inr ())"
        "data w1 = data w"
      by (auto simp: setPassword_def passwordColumns_def checkPasswordStrength_def elim!: andThen_Inr dest!: hash_data split: if_splits)
    then show ?thesis using that by (auto simp: bump_pv_def)
  qed
  with update_bumps [of rid f w1 w' u] assms(2) show ?thesis by simp
qed

section \<open>Properties\<close>

text \<open>C1: A revoked token stays revoked. Once an operator has deactivated or reactivated the user of
  a token, changed the roles, revoked the tokens, or the password was set, the token is refused,
  whatever requests came before or come after, whichever database calls fail and however long it
  would still be valid.\<close>

theorem tokens_revoked:
  assumes "jwt_ok E" "authenticate E raw w0 = (w1, Inr s)"
    and "revoke E (RID (suser s)) op (history E F before w1) = (w2, Inr ())"
  shows "\<exists>e. snd (authenticate E raw (history E F later w2)) = Inl e"
proof -
  let ?rid = "RID (suser s)"
  from assms(2) obtain c u where c: "parse E (access_tokens E) (clock w0) raw = Some c" "sub c = ?rid"
    and u: "user_at (data w0) ?rid = Some u"
    by (rule authenticate_session) blast
  have "versions_grow (data w0) (data w1)"
    using versions.keeps_authenticate [of E raw] assms(2) unfolding keeps_def by (metis fst_conv)
  then have "versions_grow (data w0) (data (history E F before w1))"
    using versions.history_keeps versions.trans by blast
  then obtain u1 where u1: "user_at (data (history E F before w1)) ?rid = Some u1" "PasswordVersion u \<le> PasswordVersion u1"
    using u unfolding versions_grow_def by blast
  obtain u2 where u2: "user_at (data w2) ?rid = Some u2" "PasswordVersion u1 < PasswordVersion u2"
    using revoke_bumps [OF assms(3) u1(1)] by blast
  have "versions_grow (data w2) (data (history E F later w2))" by (rule versions.history_keeps)
  then obtain u3 where u3: "user_at (data (history E F later w2)) ?rid = Some u3" "PasswordVersion u2 \<le> PasswordVersion u3"
    using u2(1) unfolding versions_grow_def by blast
  have "PasswordVersion u < PasswordVersion u3" using u1(2) u2(2) u3(2) by simp
  then have "snd (authenticate E raw (history E F later w2)) \<noteq> Inr s'" for s'
    by (rule stale_token [OF assms(1,2) u c u3(1)])
  then show ?thesis by (metis sumE)
qed


section \<open>A link that outlives the account's holder\<close>

text \<open>A provider that hands the state back, whose user is the account 666 there.\<close>

definition demo_provider :: provider where
  "demo_provider =
     \<lparr>pname = ''gh'', RequiresNonce = False, SupportsPKCE = True, BeginAuth = (\<lambda>state _ _. Inr state),
      CompleteAuth = (\<lambda>_ _ _. Inr \<lparr>XProvider = ''gh'', XAccountID = ''666'', XEmail = ''m@x'', XEmailVerified = True,
        XEmailAssumed = False, XAliased = False, XName = []\<rparr>)\<rparr>"

definition demo_flow :: oauthFlow where
  "demo_flow =
     \<lparr>providers = [demo_provider], frontend = ''/'', allowed = [], parse_url = (\<lambda>_. None), carrier_mac = (\<lambda>s. CHR ''m'' # s),
      challenge = id, queryEscape = id\<rparr>"

definition demo_token :: string where
  "demo_token = fst (sign demo_env (access_tokens demo_env) (clock demo_world) ''usr_1'' (no_claims\<lparr>pv := Some 0, sat := Some 1\<rparr>))"

text \<open>
  The holder of the account starts a link; the owner of the address signs in with a mailed code;
  the holder finishes the link and signs in through it. The steps give: the owner was let in,
  the holder's token after that, the link, and the user of the token the holder gets last.
\<close>

definition pending_link :: "bool \<times> bool \<times> bool \<times> string option" where
  "pending_link =
     (let (w1, started) = authed demo_env demo_token (\<lambda>s. handleLink demo_flow s ''gh'' []) demo_world;
          (w2, owner) = passwordlessVerify demo_env ''1.2.3.4'' (ByCode ''a@b'' ''7'') w1;
          (_, stale) = authenticate demo_env demo_token w2
      in case started of
           Inl _ \<Rightarrow> (False, False, False, None)
         | Inr (state, cookie) \<Rightarrow>
             (let (w3, linked) = handleCallback demo_env demo_flow demo_provider (Some cookie) state [] w2;
                  (w4, again) = handleBegin demo_flow demo_provider [] w3
              in (\<not> isl owner, \<not> isl stale, \<not> isl linked,
                  case again of
                    Inl _ \<Rightarrow> None
                  | Inr (state', cookie') \<Rightarrow>
                      (case handleCallback demo_env demo_flow demo_provider (Some cookie') state' [] w4 of
                         (w5, Inr (SignedIn _ code binding)) \<Rightarrow>
                           (case handleExchange demo_env code (Some binding) w5 of
                              (w6, Inr (tok, _)) \<Rightarrow>
                                (case authenticate demo_env tok w6 of (_, Inr s) \<Rightarrow> Some (RID (suser s)) | _ \<Rightarrow> None)
                            | _ \<Rightarrow> None)
                       | _ \<Rightarrow> None))))"


section \<open>Witnesses\<close>

lemma demo_token_ok: "(case snd (authenticate demo_env demo_token demo_world) of Inr s \<Rightarrow> RID (suser s) = ''usr_1'' | Inl _ \<Rightarrow> False)"
  by code_simp

definition demo_revoked :: "world \<times> (failure + unit)" where
  "demo_revoked = revoke demo_env ''usr_1'' RevokeAll (history demo_env demo_flow [Tick 1, Me demo_token] (fst (authenticate demo_env demo_token demo_world)))"

lemma demo_revoked_ok: "snd demo_revoked = Inr ()"
  by code_simp

theorem tokens_revoked_witness:
  "\<exists>e. snd (authenticate demo_env demo_token (history demo_env demo_flow [Tick 5] (fst demo_revoked))) = Inl e"
proof -
  let ?a = "authenticate demo_env demo_token demo_world"
  obtain s where s: "?a = (fst ?a, Inr s)" "RID (suser s) = ''usr_1''"
    using demo_token_ok by (cases ?a) (auto split: sum.splits)
  have "revoke demo_env (RID (suser s)) RevokeAll (history demo_env demo_flow [Tick 1, Me demo_token] (fst ?a)) = (fst demo_revoked, Inr ())"
    unfolding s(2) using demo_revoked_ok by (metis demo_revoked_def prod.collapse)
  from tokens_revoked [OF demo_jwt_ok s(1) this] show ?thesis .
qed


end
