(* ===== verification/Store_Query.thy ===== *)
theory Store_Query
  imports Chok_Prelude Go_Strings "HOL-Library.Char_ord" "HOL-Library.List_Lexorder" "HOL-Library.Product_Lexorder"
    "HOL-Library.Code_Target_Nat"
begin

text \<open>
  The query vocabulary of the store: \<^verbatim>\<open>src/store/where/where.go\<close>, \<^verbatim>\<open>src/store/where/query.go\<close> and
  \<^verbatim>\<open>src/store/internal/q/q.go\<close>. An option is a value of \<open>Option\<close>; \<open>run_option\<close> is what the source's
  closure does to the query under construction and to its configuration. A query is its list
  of conditions; what SQL makes of a condition on a row is \<open>holds\<close>, with NULL and with LIKE and
  its escape character.

  The theorems: what Contains, StartsWith and EndsWith match; that a request only filters and
  orders on what it may, with plain columns, and asks for a bounded page; and that a page far
  away wraps around to the first.
\<close>

section \<open>Values and rows\<close>

datatype sql_value = VNull | VBool bool | VInt int | VUint nat | VStr string | VTime instant

text \<open>The order of a column: within a type by value, NULL before the rest.\<close>

fun value_key :: "sql_value \<Rightarrow> nat \<times> int \<times> string" where
  "value_key VNull = (0, 0, [])"
| "value_key (VBool b) = (1, (if b then 1 else 0), [])"
| "value_key (VInt n) = (2, n, [])"
| "value_key (VUint n) = (5, int n, [])"
| "value_key (VStr s) = (3, 0, s)"
| "value_key (VTime t) = (4, t, [])"

lemma value_key_inject [simp]: "value_key v = value_key w \<longleftrightarrow> v = w"
  by (cases v; cases w) auto

instantiation sql_value :: linorder
begin

definition less_eq_sql_value :: "sql_value \<Rightarrow> sql_value \<Rightarrow> bool" where
  "v \<le> w \<longleftrightarrow> value_key v \<le> value_key w"

definition less_sql_value :: "sql_value \<Rightarrow> sql_value \<Rightarrow> bool" where
  "v < w \<longleftrightarrow> value_key v < value_key w"

instance
proof
  fix v w x :: sql_value
  show "v < w \<longleftrightarrow> v \<le> w \<and> \<not> w \<le> v" by (simp only: less_eq_sql_value_def less_sql_value_def less_le_not_le)
  show "v \<le> v" by (simp add: less_eq_sql_value_def)
  show "v \<le> w \<Longrightarrow> w \<le> x \<Longrightarrow> v \<le> x" by (auto simp: less_eq_sql_value_def)
  show "v \<le> w \<Longrightarrow> w \<le> v \<Longrightarrow> v = w" using value_key_inject by (auto simp: less_eq_sql_value_def)
  show "v \<le> w \<or> w \<le> v" by (auto simp: less_eq_sql_value_def)
qed

end

type_synonym row = "(string \<times> sql_value) list"

text \<open>A column may be written with its table.\<close>

definition bare :: "string \<Rightarrow> string" where
  "bare col = last (split_char (CHR ''.'') col)"

definition cell :: "string \<Rightarrow> row \<Rightarrow> sql_value" where
  "cell col r = (case map_of r (bare col) of None \<Rightarrow> VNull | Some v \<Rightarrow> v)"

section \<open>Conditions\<close>

datatype comparison = Eq | Ne | Gt | Gte | Lt | Lte

datatype cond =
    Never
  | Cmp comparison string sql_value
  | InList string "sql_value list"
  | LikePat string string
  | LikeEsc string string
  | IsNull string
  | IsNotNull string
  | RowBeyond bool string sql_value string sql_value

text \<open>
  LIKE: the underscore is any character, the percent sign any run of them, and under an escape
  character the character after it is itself. The bytes of a string are its characters here, so
  the underscore stands for one byte.
\<close>

datatype pat = PAny | POne | PChar char

fun pattern :: "char option \<Rightarrow> string \<Rightarrow> pat list" where
  "pattern e [] = []"
| "pattern e (c # cs) =
     (if e = Some c \<and> cs \<noteq> [] then PChar (hd cs) # pattern e (tl cs)
      else if c = CHR ''%'' then PAny # pattern e cs
      else if c = CHR ''_'' then POne # pattern e cs
      else PChar c # pattern e cs)"

fun like :: "pat list \<Rightarrow> string \<Rightarrow> bool" where
  "like [] s \<longleftrightarrow> s = []"
| "like (PAny # p) s \<longleftrightarrow> like p s \<or> (case s of [] \<Rightarrow> False | _ # cs \<Rightarrow> like (PAny # p) cs)"
| "like (POne # p) s \<longleftrightarrow> (case s of [] \<Rightarrow> False | _ # cs \<Rightarrow> like p cs)"
| "like (PChar c # p) s \<longleftrightarrow> (case s of [] \<Rightarrow> False | d # cs \<Rightarrow> c = d \<and> like p cs)"

fun compare_values :: "comparison \<Rightarrow> sql_value \<Rightarrow> sql_value \<Rightarrow> bool" where
  "compare_values Eq v w \<longleftrightarrow> v = w"
| "compare_values Ne v w \<longleftrightarrow> v \<noteq> w"
| "compare_values Gt v w \<longleftrightarrow> v > w"
| "compare_values Gte v w \<longleftrightarrow> v \<ge> w"
| "compare_values Lt v w \<longleftrightarrow> v < w"
| "compare_values Lte v w \<longleftrightarrow> v \<le> w"

text \<open>A comparison with NULL is not true.\<close>

definition sql_compare :: "comparison \<Rightarrow> sql_value \<Rightarrow> sql_value \<Rightarrow> bool" where
  "sql_compare op v w \<longleftrightarrow> v \<noteq> VNull \<and> w \<noteq> VNull \<and> compare_values op v w"

definition like_cell :: "char option \<Rightarrow> string \<Rightarrow> sql_value \<Rightarrow> bool" where
  "like_cell e p v = (case v of VStr s \<Rightarrow> like (pattern e p) s | _ \<Rightarrow> False)"

fun holds :: "cond \<Rightarrow> row \<Rightarrow> bool" where
  "holds Never r \<longleftrightarrow> False"
| "holds (Cmp op col v) r \<longleftrightarrow> sql_compare op (cell col r) v"
| "holds (InList col vs) r \<longleftrightarrow> list_ex (sql_compare Eq (cell col r)) vs"
| "holds (LikePat col p) r \<longleftrightarrow> like_cell None p (cell col r)"
| "holds (LikeEsc col p) r \<longleftrightarrow> like_cell (Some (CHR ''!'')) p (cell col r)"
| "holds (IsNull col) r \<longleftrightarrow> cell col r = VNull"
| "holds (IsNotNull col) r \<longleftrightarrow> cell col r \<noteq> VNull"
| "holds (RowBeyond desc a v b w) r \<longleftrightarrow>
     cell a r \<noteq> VNull \<and> cell b r \<noteq> VNull \<and> v \<noteq> VNull \<and> w \<noteq> VNull \<and>
     (if desc then (cell a r, cell b r) < (v, w) else (cell a r, cell b r) > (v, w))"

section \<open>Columns\<close>

datatype query_error =
    InvalidParam string
  | UnknownField string
  | UnsafeColumn string string
  | OrderField string
  | FilterField string

definition ident_char :: "char \<Rightarrow> bool" where
  "ident_char c \<longleftrightarrow>
     c = CHR ''_'' \<or> (CHR ''a'' \<le> c \<and> c \<le> CHR ''z'') \<or> (CHR ''A'' \<le> c \<and> c \<le> CHR ''Z'') \<or> is_digit c"

definition SafeIdent :: "string \<Rightarrow> bool" where
  "SafeIdent s =
     (if s = [] \<or> length s > 128 then False
      else
        (let parts = split_char (CHR ''.'') s
         in if length parts > 2 then False
            else list_all (\<lambda>p. p \<noteq> [] \<and> \<not> is_digit (hd p) \<and> list_all ident_char p) parts))"

type_synonym columns = "(string \<times> string) list"

definition Column :: "columns \<Rightarrow> string \<Rightarrow> query_error + string" where
  "Column flds field =
     (case map_of flds field of
        None \<Rightarrow> Inl (UnknownField field)
      | Some col \<Rightarrow> if \<not> SafeIdent col then Inl (UnsafeColumn field col) else Inr col)"

section \<open>Options\<close>

definition maxPageSize :: int where "maxPageSize = 10000"
definition maxInList :: nat where "maxInList = 500"
definition maxInt32 :: int where "maxInt32 = 2 ^ 31 - 1"

record orderBy =
  Field :: string
  OrderColumn :: string
  Desc :: bool

record Config =
  CountAsked :: bool
  HasFilter :: bool
  HasPage :: bool
  HasOrder :: bool
  Degenerate :: bool
  WithTrashed :: bool
  OnlyTrashed :: bool
  LockVersion :: int
  Preloads :: "string list"
  CursorToken :: string
  CursorSize :: int
  FirstPage :: bool
  Orders :: "orderBy list"
  FiltersOnly :: bool
  PageNumber :: int
  Offset :: int
  Limit :: int
  FromQueryMark :: bool

definition newConfig :: Config where
  "newConfig =
     \<lparr>CountAsked = False, HasFilter = False, HasPage = False, HasOrder = False, Degenerate = False, WithTrashed = False,
      OnlyTrashed = False, LockVersion = 0, Preloads = [], CursorToken = [], CursorSize = 0, FirstPage = False, Orders = [],
      FiltersOnly = False, PageNumber = 0, Offset = 0, Limit = 0, FromQueryMark = False\<rparr>"

datatype Option =
    Compare comparison string "sql_value"
  | In string "sql_value list"
  | Like string string
  | LikeEscaped string string
  | Null string
  | NotNull string
  | Order string bool
  | Page int int
  | LimitTo int
  | OffsetBy int
  | Cursor string int
  | CursorDefault string
  | Count
  | Preload string
  | AllRows
  | Trashed
  | AtVersion int
  | FromURL Option

text \<open>The conditions so far, with the configuration.\<close>

type_synonym building = "cond list \<times> Config"

definition filter_on :: "columns \<Rightarrow> string \<Rightarrow> (Config \<Rightarrow> string \<Rightarrow> query_error + building) \<Rightarrow> Config \<Rightarrow> query_error + building" where
  "filter_on flds field k cfg =
     (case Column flds field of Inl e \<Rightarrow> Inl e | Inr col \<Rightarrow> k (cfg\<lparr>HasFilter := True\<rparr>) col)"

fun run_option :: "columns \<Rightarrow> Option \<Rightarrow> building \<Rightarrow> query_error + building" where
  "run_option flds (Compare op field v) (tx, cfg) =
     filter_on flds field (\<lambda>cfg col.
       if v = VNull then Inr (tx @ [Never], cfg\<lparr>Degenerate := True\<rparr>) else Inr (tx @ [Cmp op col v], cfg)) cfg"
| "run_option flds (In field vs) (tx, cfg) =
     filter_on flds field (\<lambda>cfg col.
       if length vs > maxInList then Inl (InvalidParam ''in'')
       else if vs = [] then Inr (tx @ [Never], cfg\<lparr>Degenerate := True\<rparr>)
       else Inr (tx @ [InList col vs], cfg)) cfg"
| "run_option flds (Like field p) (tx, cfg) = filter_on flds field (\<lambda>cfg col. Inr (tx @ [LikePat col p], cfg)) cfg"
| "run_option flds (LikeEscaped field p) (tx, cfg) = filter_on flds field (\<lambda>cfg col. Inr (tx @ [LikeEsc col p], cfg)) cfg"
| "run_option flds (Null field) (tx, cfg) = filter_on flds field (\<lambda>cfg col. Inr (tx @ [IsNull col], cfg)) cfg"
| "run_option flds (NotNull field) (tx, cfg) = filter_on flds field (\<lambda>cfg col. Inr (tx @ [IsNotNull col], cfg)) cfg"
| "run_option flds (Order field d) (tx, cfg) =
     (case Column flds field of
        Inl e \<Rightarrow> Inl e
      | Inr col \<Rightarrow> Inr (tx, cfg\<lparr>HasOrder := True, Orders := Orders cfg @ [\<lparr>Field = field, OrderColumn = col, Desc = d\<rparr>]\<rparr>))"
| "run_option flds (Page page sz) (tx, cfg) =
     (if page < 1 then Inl (InvalidParam ''page'')
      else if sz < 0 \<or> sz > maxPageSize then Inl (InvalidParam ''size'')
      else
        (let off = wrap64 ((page - 1) * sz)
         in if off > maxInt32 then Inl (InvalidParam ''far'')
            else Inr (tx, cfg\<lparr>HasPage := True, PageNumber := page, Offset := off, Limit := sz\<rparr>)))"
| "run_option flds (LimitTo n) (tx, cfg) =
     (if n < 1 \<or> n > maxPageSize then Inl (InvalidParam ''limit'') else Inr (tx, cfg\<lparr>HasPage := True, Limit := n\<rparr>))"
| "run_option flds (OffsetBy n) (tx, cfg) =
     (if n < 0 then Inl (InvalidParam ''offset'') else Inr (tx, cfg\<lparr>HasPage := True, Offset := n\<rparr>))"
| "run_option flds (Cursor c sz) (tx, cfg) =
     (if sz < 1 \<or> sz > maxPageSize then Inl (InvalidParam ''cursor size'')
      else Inr (tx, cfg\<lparr>HasPage := True, CursorToken := c, CursorSize := sz, FirstPage := (c = [])\<rparr>))"
| "run_option flds (CursorDefault c) (tx, cfg) =
     Inr (tx, cfg\<lparr>HasPage := True, CursorToken := c, CursorSize := 0, FirstPage := (c = [])\<rparr>)"
| "run_option flds Count (tx, cfg) = Inr (tx, if FiltersOnly cfg then cfg else cfg\<lparr>CountAsked := True\<rparr>)"
| "run_option flds (Preload rel) (tx, cfg) = Inr (tx, cfg\<lparr>Preloads := Preloads cfg @ [rel]\<rparr>)"
| "run_option flds AllRows (tx, cfg) = Inr (tx, cfg\<lparr>WithTrashed := True\<rparr>)"
| "run_option flds Trashed (tx, cfg) = Inr (tx, cfg\<lparr>OnlyTrashed := True\<rparr>)"
| "run_option flds (AtVersion v) (tx, cfg) =
     (if v < 1 then Inl (InvalidParam ''version'') else Inr (tx, cfg\<lparr>LockVersion := v\<rparr>))"
| "run_option flds (FromURL op) (tx, cfg) =
     map_sum id (\<lambda>(tx, cfg). (tx, cfg\<lparr>FromQueryMark := True\<rparr>)) (run_option flds op (tx, cfg))"

fun run_options :: "columns \<Rightarrow> Option list \<Rightarrow> building \<Rightarrow> query_error + building" where
  "run_options flds [] b = Inr b"
| "run_options flds (op # ops) b =
     (case run_option flds op b of Inl e \<Rightarrow> Inl e | Inr b' \<Rightarrow> run_options flds ops b')"

text \<open>The literal matches.\<close>

fun escapeLike :: "string \<Rightarrow> string" where
  "escapeLike [] = []"
| "escapeLike (c # cs) = (if c \<in> {CHR ''!'', CHR ''%'', CHR ''_''} then CHR ''!'' # c # escapeLike cs else c # escapeLike cs)"

definition Contains :: "string \<Rightarrow> string \<Rightarrow> Option" where
  "Contains field s = LikeEscaped field (''%'' @ escapeLike s @ ''%'')"

definition StartsWith :: "string \<Rightarrow> string \<Rightarrow> Option" where
  "StartsWith field s = LikeEscaped field (escapeLike s @ ''%'')"

definition EndsWith :: "string \<Rightarrow> string \<Rightarrow> Option" where
  "EndsWith field s = LikeEscaped field (''%'' @ escapeLike s)"

section \<open>A request's query\<close>

type_synonym url_values = "(string \<times> string list) list"

definition url_get :: "url_values \<Rightarrow> string \<Rightarrow> string" where
  "url_get q key = (case map_of q key of Some (v # _) \<Rightarrow> v | _ \<Rightarrow> [])"

definition reserved :: "string list" where
  "reserved = [''page'', ''size'', ''order'', ''cursor'']"

definition sortedKeys :: "(string \<times> 'v) list \<Rightarrow> string list" where
  "sortedKeys m = sort (remdups (map fst m))"

definition positive :: "url_values \<Rightarrow> string \<Rightarrow> query_error + int" where
  "positive q key =
     (case url_get q key of
        [] \<Rightarrow> Inr 0
      | v \<Rightarrow> (case atoi v of Some n \<Rightarrow> if n < 1 then Inl (InvalidParam key) else Inr n | None \<Rightarrow> Inl (InvalidParam key)))"

definition cursorOrDefault :: "string \<Rightarrow> int \<Rightarrow> Option" where
  "cursorOrDefault c sz = (if sz > 0 then Cursor c sz else CursorDefault c)"

definition page_option :: "url_values \<Rightarrow> int \<Rightarrow> int \<Rightarrow> query_error + Option" where
  "page_option q page sz =
     (case map_of q ''cursor'' of
        Some cursor \<Rightarrow>
          (let c = (case cursor of [] \<Rightarrow> [] | v # _ \<Rightarrow> v)
           in if page > 0 then Inl (InvalidParam ''cursor'')
              else Inr (FromURL (cursorOrDefault c (if sz = 0 then -1 else sz))))
      | None \<Rightarrow> Inr (FromURL (Page (max page 1) sz)))"

fun order_options :: "columns \<Rightarrow> string list \<Rightarrow> query_error + Option list" where
  "order_options allowed [] = Inr []"
| "order_options allowed (part # parts) =
     (let (field, dir) = (case cut_char (CHR '':'') (trim_space part) of Some p \<Rightarrow> p | None \<Rightarrow> (trim_space part, []))
      in if map_of allowed field = None then Inl (OrderField field)
         else if to_lower dir = [] \<or> to_lower dir = ''asc'' then map_sum id ((#) (Order field False)) (order_options allowed parts)
         else if to_lower dir = ''desc'' then map_sum id ((#) (Order field True)) (order_options allowed parts)
         else Inl (InvalidParam ''order''))"

fun filter_options :: "url_values \<Rightarrow> columns \<Rightarrow> bool \<Rightarrow> string list \<Rightarrow> query_error + Option list" where
  "filter_options q allowed strict [] = Inr []"
| "filter_options q allowed strict (key # keys) =
     (if key \<in> set reserved then filter_options q allowed strict keys
      else if map_of allowed key = None then
        (if strict then Inl (FilterField key) else filter_options q allowed strict keys)
      else
        (let vals = filter (\<lambda>v. v \<noteq> []) (case map_of q key of Some vs \<Rightarrow> vs | None \<Rightarrow> [])
         in map_sum id (\<lambda>ops. (case vals of [] \<Rightarrow> [] | [v] \<Rightarrow> [Compare Eq key (VStr v)] | _ \<Rightarrow> [In key (map VStr vals)]) @ ops)
              (filter_options q allowed strict keys)))"

definition FromQuery :: "url_values \<Rightarrow> columns \<Rightarrow> bool \<Rightarrow> query_error + Option list" where
  "FromQuery q allowed strict =
     (case positive q ''page'' of
        Inl e \<Rightarrow> Inl e
      | Inr page \<Rightarrow>
          (case positive q ''size'' of
             Inl e \<Rightarrow> Inl e
           | Inr sz \<Rightarrow>
               (case page_option q page sz of
                  Inl e \<Rightarrow> Inl e
                | Inr p \<Rightarrow>
                    (case (if url_get q ''order'' = [] then Inr []
                           else order_options allowed (split_char (CHR '','') (url_get q ''order''))) of
                       Inl e \<Rightarrow> Inl e
                     | Inr os \<Rightarrow>
                         (case filter_options q allowed strict (sortedKeys q) of
                            Inl e \<Rightarrow> Inl e
                          | Inr fs \<Rightarrow> Inr (p # os @ fs))))))"

section \<open>Literal matches\<close>

lemma pattern_escape: "pattern (Some (CHR ''!'')) (escapeLike s @ p) = map PChar s @ pattern (Some (CHR ''!'')) p"
  by (induction s) auto

lemma like_chars: "like (map PChar s @ p) t \<longleftrightarrow> (\<exists>u. t = s @ u \<and> like p u)"
  by (induction s arbitrary: t) (auto split: list.splits)

lemma like_any: "like (PAny # p) t \<longleftrightarrow> (\<exists>a u. t = a @ u \<and> like p u)"
proof (induction t)
  case (Cons c t)
  show ?case
  proof
    assume "like (PAny # p) (c # t)"
    then consider "like p (c # t)" | "like (PAny # p) t" by auto
    then show "\<exists>a u. c # t = a @ u \<and> like p u"
    proof cases
      case 2
      with Cons obtain a u where "t = a @ u" "like p u" by blast
      then show ?thesis by (intro exI [of _ "c # a"] exI [of _ u]) simp
    qed (metis append_Nil)
  next
    assume "\<exists>a u. c # t = a @ u \<and> like p u"
    then obtain a u where au: "c # t = a @ u" "like p u" by blast
    show "like (PAny # p) (c # t)"
    proof (cases a)
      case (Cons d a')
      with au have "t = a' @ u" by simp
      then have "like (PAny # p) t" using \<open>like p u\<close> Cons.IH by blast
      then show ?thesis by simp
    qed (use au in simp)
  qed
qed auto

lemma like_rest: "like (pattern (Some (CHR ''!'')) ''%'') u"
  by (simp add: like_any del: like.simps(2)) 

section \<open>What a request may ask\<close>

definition cond_column :: "cond \<Rightarrow> string option" where
  "cond_column c =
     (case c of
        Never \<Rightarrow> None
      | Cmp _ col _ \<Rightarrow> Some col
      | InList col _ \<Rightarrow> Some col
      | LikePat col _ \<Rightarrow> Some col
      | LikeEsc col _ \<Rightarrow> Some col
      | IsNull col \<Rightarrow> Some col
      | IsNotNull col \<Rightarrow> Some col
      | RowBeyond _ col _ _ _ \<Rightarrow> Some col)"

text \<open>The columns a configuration and its conditions are about.\<close>

definition on_columns :: "string set \<Rightarrow> building \<Rightarrow> bool" where
  "on_columns A b \<longleftrightarrow>
     (\<forall>c \<in> set (fst b). \<forall>col. cond_column c = Some col \<longrightarrow> col \<in> A) \<and> (\<forall>o' \<in> set (Orders (snd b)). OrderColumn o' \<in> A)"

fun option_field :: "Option \<Rightarrow> string option" where
  "option_field (Compare _ f _) = Some f"
| "option_field (In f _) = Some f"
| "option_field (Like f _) = Some f"
| "option_field (LikeEscaped f _) = Some f"
| "option_field (Null f) = Some f"
| "option_field (NotNull f) = Some f"
| "option_field (Order f _) = Some f"
| "option_field (FromURL op) = option_field op"
| "option_field _ = None"

lemma Column_Inr: "Column flds f = Inr col \<longleftrightarrow> map_of flds f = Some col \<and> SafeIdent col"
  by (auto simp: Column_def split: option.splits)

lemma filter_on_Inr:
  "filter_on flds f k cfg = Inr b \<longleftrightarrow> (\<exists>col. Column flds f = Inr col \<and> k (cfg\<lparr>HasFilter := True\<rparr>) col = Inr b)"
  by (auto simp: filter_on_def split: sum.splits)

lemma run_option_columns:
  assumes "run_option flds op b = Inr b'" "on_columns A b"
    and "\<And>f col. option_field op = Some f \<Longrightarrow> Column flds f = Inr col \<Longrightarrow> col \<in> A"
  shows "on_columns A b'"
  using assms
proof (induction op arbitrary: b b')
  case (FromURL op)
  obtain tx cfg where b: "b = (tx, cfg)" by (cases b)
  from FromURL.prems(1) obtain b1 where b1: "run_option flds op b = Inr b1" "b' = (case b1 of (tx, cfg) \<Rightarrow> (tx, cfg\<lparr>FromQueryMark := True\<rparr>))"
    unfolding b by (cases "run_option flds op (tx, cfg)") auto
  have "on_columns A b1" using FromURL.IH [OF b1(1) FromURL.prems(2)] FromURL.prems(3) by simp
  with b1(2) show ?case by (cases b1) (simp add: on_columns_def)
qed (auto simp: on_columns_def filter_on_Inr Let_def cond_column_def split: prod.splits if_splits sum.splits)

lemma run_options_columns:
  assumes "run_options flds ops b = Inr b'" "on_columns A b"
    and "\<And>op f col. op \<in> set ops \<Longrightarrow> option_field op = Some f \<Longrightarrow> Column flds f = Inr col \<Longrightarrow> col \<in> A"
  shows "on_columns A b'"
  using assms
proof (induction ops arbitrary: b)
  case (Cons op ops)
  from Cons.prems(1) obtain b1 where b1: "run_option flds op b = Inr b1" "run_options flds ops b1 = Inr b'"
    by (auto split: sum.splits)
  have "on_columns A b1"
    by (rule run_option_columns [OF b1(1) Cons.prems(2)]) (use Cons.prems(3) in auto)
  from Cons.IH [OF b1(2) this] Cons.prems(3) show ?case by auto
qed simp

definition page_view :: "Config \<Rightarrow> bool \<times> bool \<times> int \<times> int \<times> int \<times> int \<times> string \<times> bool" where
  "page_view cfg =
     (HasPage cfg, FromQueryMark cfg, Limit cfg, CursorSize cfg, Offset cfg, PageNumber cfg, CursorToken cfg, FirstPage cfg)"

fun filters_or_orders :: "Option \<Rightarrow> bool" where
  "filters_or_orders (Compare _ _ _) = True"
| "filters_or_orders (In _ _) = True"
| "filters_or_orders (Order _ _) = True"
| "filters_or_orders _ = False"

lemma filters_keep_page:
  assumes "run_options flds ops b = Inr b'" "\<forall>op \<in> set ops. filters_or_orders op"
  shows "page_view (snd b') = page_view (snd b)"
  using assms
proof (induction ops arbitrary: b)
  case (Cons op ops)
  from Cons.prems(1) obtain b1 where b1: "run_option flds op b = Inr b1" "run_options flds ops b1 = Inr b'"
    by (auto split: sum.splits)
  have "page_view (snd b1) = page_view (snd b)"
    using b1(1) Cons.prems(2)
    by (cases op; cases b) (auto simp: filter_on_Inr page_view_def split: if_splits sum.splits)
  with Cons.IH [OF b1(2)] Cons.prems(2) show ?case by simp
qed simp

lemma order_options_shape:
  "order_options allowed parts = Inr os \<Longrightarrow> op \<in> set os \<Longrightarrow> \<exists>f d. op = Order f d \<and> map_of allowed f \<noteq> None"
proof (induction parts arbitrary: os)
  case (Cons part parts)
  obtain field dir where c: "(case cut_char (CHR '':'') (trim_space part) of Some p \<Rightarrow> p | None \<Rightarrow> (trim_space part, [])) = (field, dir)"
    by fastforce
  from Cons.prems(1) obtain rest d where "map_of allowed field \<noteq> None" "order_options allowed parts = Inr rest" "os = Order field d # rest"
    by (cases "order_options allowed parts") (auto simp: c split: if_splits)
  with Cons.IH Cons.prems(2) show ?case by auto
qed simp

lemma filter_options_shape:
  "filter_options q allowed strict keys = Inr fs \<Longrightarrow> op \<in> set fs \<Longrightarrow>
   \<exists>f. option_field op = Some f \<and> filters_or_orders op \<and> map_of allowed f \<noteq> None"
proof (induction keys arbitrary: fs)
  case (Cons key keys)
  show ?case
  proof (cases "key \<in> set reserved \<or> map_of allowed key = None")
    case True
    with Cons show ?thesis by (auto split: if_splits)
  next
    case False
    let ?vals = "filter (\<lambda>v. v \<noteq> []) (case map_of q key of Some vs \<Rightarrow> vs | None \<Rightarrow> [])"
    from False Cons.prems(1) obtain rest where r: "filter_options q allowed strict keys = Inr rest"
        "fs = (case ?vals of [] \<Rightarrow> [] | [v] \<Rightarrow> [Compare Eq key (VStr v)] | _ \<Rightarrow> [In key (map VStr ?vals)]) @ rest"
      by (cases "filter_options q allowed strict keys") (auto simp: Let_def simp del: filter.simps)
    then consider "op \<in> set rest" | v where "op = Compare Eq key (VStr v)" | vs where "op = In key vs"
      using Cons.prems(2) by (auto split: list.splits)
    then show ?thesis using False Cons.IH [OF r(1)] by cases auto
  qed
qed simp

lemma positive_Inr: "positive q key = Inr n \<Longrightarrow> 0 \<le> n"
  by (auto simp: positive_def split: list.splits option.splits if_splits)

lemma FromQuery_shape:
  assumes "FromQuery q allowed strict = Inr ops"
  obtains p os where "ops = p # os" "\<forall>op \<in> set os. filters_or_orders op \<and> (\<exists>f. option_field op = Some f \<and> map_of allowed f \<noteq> None)"
    "(\<exists>page sz. p = FromURL (Page page sz) \<and> 0 \<le> sz) \<or> (\<exists>c sz. p = FromURL (cursorOrDefault c sz))"
proof -
  from assms obtain page sz p os fs where a: "positive q ''page'' = Inr page" "positive q ''size'' = Inr sz"
      "page_option q page sz = Inr p"
      "(if url_get q ''order'' = [] then Inr [] else order_options allowed (split_char (CHR '','') (url_get q ''order''))) = Inr os"
      "filter_options q allowed strict (sortedKeys q) = Inr fs" "ops = p # os @ fs"
    unfolding FromQuery_def by (auto split: sum.splits)
  have p: "(\<exists>page sz. p = FromURL (Page page sz) \<and> 0 \<le> sz) \<or> (\<exists>c sz. p = FromURL (cursorOrDefault c sz))"
    using a(3) positive_Inr [OF a(2)] by (auto simp: page_option_def Let_def split: option.splits if_splits)
  have "filters_or_orders op \<and> (\<exists>f. option_field op = Some f \<and> map_of allowed f \<noteq> None)" if "op \<in> set (os @ fs)" for op
  proof (cases "op \<in> set fs")
    case True
    then show ?thesis using filter_options_shape [OF a(5)] by blast
  next
    case False
    with \<open>op \<in> set (os @ fs)\<close> have "op \<in> set os" by simp
    with a(4) have "\<exists>f d. op = Order f d \<and> map_of allowed f \<noteq> None"
      by (cases "url_get q ''order'' = []") (auto dest: order_options_shape)
    then show ?thesis by auto
  qed
  with p a(6) that [of p "os @ fs"] show ?thesis by blast
qed

definition paged :: "Config \<Rightarrow> bool" where
  "paged cfg \<longleftrightarrow> HasPage cfg \<and> FromQueryMark cfg \<and> 0 \<le> Limit cfg \<and> Limit cfg \<le> maxPageSize \<and>
     0 \<le> CursorSize cfg \<and> CursorSize cfg \<le> maxPageSize \<and> Offset cfg \<le> maxInt32 \<and>
     (PageNumber cfg = 0 \<or> CursorToken cfg = [] \<and> \<not> FirstPage cfg)"

lemma paged_view: "page_view cfg = page_view cfg' \<Longrightarrow> paged cfg = paged cfg'"
  by (simp add: page_view_def paged_def)

lemma first_option_paged:
  assumes "run_option flds p ([], newConfig) = Inr b"
    and "(\<exists>page sz. p = FromURL (Page page sz) \<and> 0 \<le> sz) \<or> (\<exists>c sz. p = FromURL (cursorOrDefault c sz))"
  shows "paged (snd b)"
  using assms
  by (auto simp: paged_def newConfig_def Let_def maxPageSize_def maxInt32_def cursorOrDefault_def split: if_splits)

section \<open>Properties\<close>

text \<open>C9: A list request cannot reach beyond what the store lets a URL ask. Whatever the query string
  is, each condition and each order it leads to is on a column of an allowed field, and that
  column is a plain identifier, so that nothing of the request becomes SQL; and the request is
  paged, by a page number or a cursor but not both, with a size of at most ten thousand rows.\<close>

theorem query_confined:
  assumes "FromQuery q allowed strict = Inr ops" "run_options allowed ops ([], newConfig) = Inr (conds, cfg)"
  shows "(\<forall>c \<in> set conds. \<forall>col. cond_column c = Some col \<longrightarrow> col \<in> snd ` set allowed \<and> SafeIdent col) \<and>
    (\<forall>by \<in> set (Orders cfg). OrderColumn by \<in> snd ` set allowed \<and> SafeIdent (OrderColumn by)) \<and> paged cfg"
proof -
  let ?A = "{col \<in> snd ` set allowed. SafeIdent col}"
  from assms(1) obtain p os where ops: "ops = p # os" and
    os: "\<forall>op \<in> set os. filters_or_orders op \<and> (\<exists>f. option_field op = Some f \<and> map_of allowed f \<noteq> None)"
    and p: "(\<exists>page sz. p = FromURL (Page page sz) \<and> 0 \<le> sz) \<or> (\<exists>c sz. p = FromURL (cursorOrDefault c sz))"
    by (rule FromQuery_shape)
  from assms(2) obtain b where b: "run_option allowed p ([], newConfig) = Inr b" "run_options allowed os b = Inr (conds, cfg)"
    unfolding ops by (auto split: sum.splits)
  have "on_columns ?A (conds, cfg)"
  proof (rule run_options_columns [OF assms(2)])
    show "on_columns ?A ([], newConfig)" by (simp add: on_columns_def newConfig_def)
    show "col \<in> ?A" if "Column allowed f = Inr col" for f col
      using that by (force simp: Column_Inr dest: map_of_SomeD)
  qed
  moreover have "paged cfg"
  proof -
    have "\<forall>op \<in> set os. filters_or_orders op" using os by blast
    from filters_keep_page [OF b(2) this] have "page_view cfg = page_view (snd b)" by simp
    with first_option_paged [OF b(1) p] show ?thesis using paged_view by blast
  qed
  ultimately show ?thesis by (auto simp: on_columns_def)
qed

definition option_matches :: "columns \<Rightarrow> Option \<Rightarrow> row \<Rightarrow> bool" where
  "option_matches flds op r =
     (case run_option flds op ([], newConfig) of Inl _ \<Rightarrow> False | Inr (conds, _) \<Rightarrow> list_all (\<lambda>c. holds c r) conds)"

lemma option_matches_like:
  assumes "Column flds f = Inr col"
  shows "option_matches flds (LikeEscaped f p) r \<longleftrightarrow> (\<exists>t. cell col r = VStr t \<and> like (pattern (Some (CHR ''!'')) p) t)"
  using assms by (auto simp: option_matches_def filter_on_def like_cell_def split: sql_value.splits)

lemma like_prefix: "like (pattern (Some (CHR ''!'')) (escapeLike s @ ''%'')) t \<longleftrightarrow> (\<exists>b. t = s @ b)"
  by (simp add: pattern_escape like_chars like_any del: like.simps(2))

lemma like_suffix: "like (pattern (Some (CHR ''!'')) (''%'' @ escapeLike s)) t \<longleftrightarrow> (\<exists>a. t = a @ s)"
  using pattern_escape [of s "[]"] like_chars [of s "[]"] by (simp add: like_any del: like.simps(2))

lemma like_infix: "like (pattern (Some (CHR ''!'')) (''%'' @ escapeLike s @ ''%'')) t \<longleftrightarrow> (\<exists>a b. t = a @ s @ b)"
  by (auto simp add: pattern_escape like_chars like_any simp del: like.simps(2))

text \<open>Contains, StartsWith and EndsWith match the text they are given, letter by letter: percent
  signs, underscores and exclamation marks in it stand for themselves.\<close>

theorem literal_matches:
  assumes "Column flds f = Inr col"
  shows "(option_matches flds (Contains f s) r \<longleftrightarrow> (\<exists>a b. cell col r = VStr (a @ s @ b))) \<and>
    (option_matches flds (StartsWith f s) r \<longleftrightarrow> (\<exists>b. cell col r = VStr (s @ b))) \<and>
    (option_matches flds (EndsWith f s) r \<longleftrightarrow> (\<exists>a. cell col r = VStr (a @ s)))"
  unfolding Contains_def StartsWith_def EndsWith_def option_matches_like [OF assms] like_prefix like_suffix like_infix
  by auto

section \<open>Witnesses\<close>

definition demo_fields :: columns where
  "demo_fields = [(''title'', ''title''), (''rank'', ''posts.rank'')]"

lemma demo_query:
  "FromQuery [(''order'', [''rank:desc'']), (''title'', [''a'', ''b'']), (''size'', [''7''])] demo_fields True =
     Inr [FromURL (Page 1 7), Order ''rank'' True, In ''title'' [VStr ''a'', VStr ''b'']]"
  by code_simp

theorem query_confined_witness:
  "\<exists>conds cfg. run_options demo_fields [FromURL (Page 1 7), Order ''rank'' True, In ''title'' [VStr ''a'', VStr ''b'']] ([], newConfig) =
     Inr (conds, cfg) \<and> paged cfg"
proof -
  let ?ops = "[FromURL (Page 1 7), Order ''rank'' True, In ''title'' [VStr ''a'', VStr ''b'']]"
  have "\<not> isl (run_options demo_fields ?ops ([], newConfig))" by code_simp
  then obtain conds cfg where r: "run_options demo_fields ?ops ([], newConfig) = Inr (conds, cfg)"
    by (cases "run_options demo_fields ?ops ([], newConfig)") auto
  from query_confined [OF demo_query r] r show ?thesis by blast
qed

theorem literal_matches_witness:
  "option_matches demo_fields (StartsWith ''title'' ''50%_'') [(''title'', VStr ''50%_off'')] \<and>
   \<not> option_matches demo_fields (StartsWith ''title'' ''50%_'') [(''title'', VStr ''500 off'')]"
proof -
  have "Column demo_fields ''title'' = Inr ''title''" by code_simp
  note m = literal_matches [OF this]
  have "cell ''title'' [(''title'', VStr ''50%_off'')] = VStr (''50%_'' @ ''off'')" "cell ''title'' [(''title'', VStr ''500 off'')] = VStr ''500 off''"
    by code_simp+
  with m [of "''50%_''" "[(''title'', VStr ''50%_off'')]"] m [of "''50%_''" "[(''title'', VStr ''500 off'')]"] show ?thesis
    by auto
qed

end
