(* ===== verification/Rid.thy ===== *)
theory Rid
  imports Go_Strings "HOL-Library.Char_ord"
begin

text \<open>
  The public identifiers: \<^verbatim>\<open>src/db/rid.go\<close>, and the hook that gives a new row its own,
  \<open>BeforeCreate\<close> of \<^verbatim>\<open>src/db/model.go\<close>. The bytes \<^verbatim>\<open>crypto/rand\<close> gives are a list; \<open>randBase62\<close> draws
  again while a byte is too large, so it is \<open>None\<close> when the list ends first.

  The theorems: an identifier is well formed and tells its prefix, and no character of it is more
  likely than another.
\<close>

section \<open>The operations\<close>

definition ridAlphabet :: string where
  "ridAlphabet = ''0123456789ABCDEFGHIJKLMNOPQRSTUVWXYZabcdefghijklmnopqrstuvwxyz''"

definition ridIDLen :: nat where "ridIDLen = 12"
definition ridMaxLen :: nat where "ridMaxLen = 23"
definition ridMaxPrefix :: nat where "ridMaxPrefix = 10"
definition unbiased :: nat where "unbiased = 248"

definition lower_char :: "char \<Rightarrow> bool" where
  "lower_char c \<longleftrightarrow> CHR ''a'' \<le> c \<and> c \<le> CHR ''z''"

definition upper_char :: "char \<Rightarrow> bool" where
  "upper_char c \<longleftrightarrow> CHR ''A'' \<le> c \<and> c \<le> CHR ''Z''"

datatype rid_error = PrefixLength | PrefixStart | PrefixChar | EmptyRID | LongRID | NoID | IDChar

definition validatePrefix :: "string \<Rightarrow> rid_error option" where
  "validatePrefix p =
     (if length p < 1 \<or> length p > ridMaxPrefix then Some PrefixLength
      else if \<not> lower_char (hd p) then Some PrefixStart
      else if list_ex (\<lambda>c. \<not> lower_char c \<and> \<not> is_digit c) (tl p) then Some PrefixChar
      else None)"

definition id_char :: "char \<Rightarrow> bool" where
  "id_char c \<longleftrightarrow> is_digit c \<or> upper_char c \<or> lower_char c"

definition validate_id :: "string \<Rightarrow> rid_error option" where
  "validate_id x = (if list_all id_char x then None else Some IDChar)"

definition validateRID :: "string \<Rightarrow> rid_error option" where
  "validateRID s =
     (if s = [] then Some EmptyRID
      else if length s > ridMaxLen then Some LongRID
      else
        (case cut_char (CHR ''_'') s of
           Some (before, after) \<Rightarrow>
             (case validatePrefix before of
                Some e \<Rightarrow> Some e
              | None \<Rightarrow> if after = [] then Some NoID else validate_id after)
         | None \<Rightarrow> validate_id s))"

definition ParseRID :: "string \<Rightarrow> string option" where
  "ParseRID rid =
     (if validateRID rid \<noteq> None then None
      else (case cut_char (CHR ''_'') rid of Some (before, _) \<Rightarrow> Some before | None \<Rightarrow> Some []))"

fun redraw :: "nat \<Rightarrow> nat list \<Rightarrow> (nat \<times> nat list) option" where
  "redraw b rest = (if b < unbiased then Some (b, rest) else (case rest of [] \<Rightarrow> None | c # cs \<Rightarrow> redraw c cs))"

fun base62_loop :: "nat list \<Rightarrow> nat list \<Rightarrow> string option" where
  "base62_loop [] rest = Some []"
| "base62_loop (b # bs) rest =
     (case redraw b rest of
        None \<Rightarrow> None
      | Some (b', rest') \<Rightarrow> map_option ((#) (ridAlphabet ! (b' mod 62))) (base62_loop bs rest'))"

definition randBase62 :: "nat \<Rightarrow> nat list \<Rightarrow> string option" where
  "randBase62 n rnd = (if length rnd < n then None else base62_loop (take n rnd) (drop n rnd))"

text \<open>\<open>Inl\<close> is the panic; the option is the end of the random bytes.\<close>

definition NewRID :: "string \<Rightarrow> nat list \<Rightarrow> rid_error + string option" where
  "NewRID p rnd =
     (case validatePrefix p of
        Some e \<Rightarrow> Inl e
      | None \<Rightarrow> Inr (map_option (\<lambda>x. p @ CHR ''_'' # x) (randBase62 ridIDLen rnd)))"

text \<open>
  The hook: the version and RID of a row that is about to be created, \<open>prefixer\<close> what the model's
  \<open>RIDPrefix\<close> gives, if it has one, and \<open>fresh\<close> the random part.
\<close>

definition prefixOf :: "string option \<Rightarrow> rid_error + string" where
  "prefixOf prefixer =
     (case prefixer of
        None \<Rightarrow> Inr []
      | Some p \<Rightarrow> (case validatePrefix p of Some e \<Rightarrow> Inl e | None \<Rightarrow> Inr p))"

definition model_before_create :: "string option \<Rightarrow> string \<Rightarrow> int \<Rightarrow> string \<Rightarrow> rid_error + int \<times> string" where
  "model_before_create prefixer fresh version rid =
     (let v = (if version = 0 then 1 else version)
      in if rid \<noteq> [] then (case validateRID rid of Some e \<Rightarrow> Inl e | None \<Rightarrow> Inr (v, rid))
         else
           (case prefixOf prefixer of
              Inl e \<Rightarrow> Inl e
            | Inr p \<Rightarrow> Inr (v, if p = [] then fresh else p @ CHR ''_'' # fresh)))"

section \<open>Well formed\<close>

lemma alphabet_chars: "list_all id_char ridAlphabet" "length ridAlphabet = 62" "CHR ''_'' \<notin> set ridAlphabet"
  by code_simp+

declare redraw.simps [simp del]

lemma redraw_step [simp]:
  "b < unbiased \<Longrightarrow> redraw b rest = Some (b, rest)"
  "\<not> b < unbiased \<Longrightarrow> redraw b [] = None"
  "\<not> b < unbiased \<Longrightarrow> redraw b (c # cs) = redraw c cs"
  by (simp_all add: redraw.simps [of b])

lemma redraw_small: "redraw b rest = Some (b', rest') \<Longrightarrow> b' < unbiased \<and> (b' = b \<or> b' \<in> set rest) \<and> set rest' \<subseteq> set rest"
proof (induction rest arbitrary: b)
  case (Cons c cs)
  then show ?case by (cases "b < unbiased") auto
qed (auto simp: redraw.simps split: if_splits)

lemma base62_chars: "base62_loop bs rest = Some x \<Longrightarrow> length x = length bs \<and> set x \<subseteq> set ridAlphabet"
proof (induction bs arbitrary: rest x)
  case (Cons b bs)
  then obtain b' rest' y where "x = ridAlphabet ! (b' mod 62) # y" "base62_loop bs rest' = Some y"
    by (auto split: option.splits)
  moreover have "ridAlphabet ! (b' mod 62) \<in> set ridAlphabet" by (rule nth_mem) (simp add: alphabet_chars)
  ultimately show ?case using Cons.IH by auto
qed simp

lemma randBase62_chars: "randBase62 n rnd = Some x \<Longrightarrow> length x = n \<and> set x \<subseteq> set ridAlphabet"
  using base62_chars by (fastforce simp: randBase62_def split: if_splits)

lemma randBase62_id: "randBase62 n rnd = Some x \<Longrightarrow> list_all id_char x \<and> CHR ''_'' \<notin> set x"
  using randBase62_chars [of n rnd x] alphabet_chars by (auto simp: list_all_iff)

lemma prefix_no_underscore: "validatePrefix p = None \<Longrightarrow> CHR ''_'' \<notin> set p \<and> p \<noteq> [] \<and> length p \<le> ridMaxPrefix"
  by (cases p) (auto simp: validatePrefix_def list_ex_iff lower_char_def is_digit_def split: if_splits)

lemma composed_rid:
  assumes "validatePrefix p = None" "randBase62 ridIDLen rnd = Some x"
  shows "ParseRID (p @ CHR ''_'' # x) = Some p" "length (p @ CHR ''_'' # x) \<le> ridMaxLen"
proof -
  note p = prefix_no_underscore [OF assms(1)] and x = randBase62_id [OF assms(2)] randBase62_chars [OF assms(2)]
  have "cut_char (CHR ''_'') (p @ CHR ''_'' # x) = Some (p, x)" using p by (simp add: cut_char_append)
  moreover show len: "length (p @ CHR ''_'' # x) \<le> ridMaxLen"
    using p x by (simp add: ridMaxLen_def ridMaxPrefix_def ridIDLen_def)
  moreover have "x \<noteq> []" using x by (auto simp: ridIDLen_def)
  ultimately show "ParseRID (p @ CHR ''_'' # x) = Some p"
    using assms(1) x by (simp add: ParseRID_def validateRID_def validate_id_def)
qed

lemma bare_rid:
  assumes "randBase62 ridIDLen rnd = Some x"
  shows "ParseRID x = Some []" "length x \<le> ridMaxLen"
proof -
  note x = randBase62_id [OF assms] randBase62_chars [OF assms]
  have "cut_char (CHR ''_'') x = None" using x by (simp add: cut_char_None)
  moreover have "length x = 12" "x \<noteq> []" using x by (auto simp: ridIDLen_def)
  moreover from this show "length x \<le> ridMaxLen" by (simp add: ridMaxLen_def)
  ultimately show "ParseRID x = Some []"
    using x by (simp add: ParseRID_def validateRID_def validate_id_def ridMaxLen_def)
qed

lemma ParseRID_valid: "ParseRID r = Some p \<Longrightarrow> validateRID r = None \<and> length r \<le> ridMaxLen"
  by (auto simp: ParseRID_def validateRID_def split: if_splits)

text \<open>C28: Every row that is created has a well-formed identifier of at most 23 bytes and a version that is not 0. A
  fresh identifier tells the prefix of its model, an identifier the caller set is kept; one that
  is not well formed is refused. The same holds of \<open>NewRID\<close>.\<close>

theorem rid_sound:
  assumes "randBase62 ridIDLen rnd = Some fresh"
  shows "(\<forall>v r. model_before_create prefixer fresh version rid = Inr (v, r) \<longrightarrow>
      v \<noteq> 0 \<and> validateRID r = None \<and> length r \<le> ridMaxLen \<and>
      (if rid = [] then ParseRID r = Some (case prefixer of None \<Rightarrow> [] | Some p \<Rightarrow> p) else r = rid)) \<and>
    (\<forall>r. NewRID p rnd = Inr (Some r) \<longrightarrow> ParseRID r = Some p)"
proof -
  have given: "v \<noteq> 0 \<and> validateRID r = None \<and> length r \<le> ridMaxLen \<and> r = rid"
    if "model_before_create prefixer fresh version rid = Inr (v, r)" "rid \<noteq> []" for v r
    using that by (auto simp: model_before_create_def Let_def validateRID_def split: option.splits if_splits)
  have drawn: "v \<noteq> 0 \<and> ParseRID r = Some (case prefixer of None \<Rightarrow> [] | Some p \<Rightarrow> p)"
    if "model_before_create prefixer fresh version [] = Inr (v, r)" for v r
    using that bare_rid(1) [OF assms] composed_rid(1) [OF _ assms] prefix_no_underscore
    by (auto simp: model_before_create_def prefixOf_def Let_def split: option.splits if_splits)
  have "NewRID p rnd = Inr (Some r) \<longrightarrow> ParseRID r = Some p" for r
    using composed_rid(1) [OF _ assms] assms by (auto simp: NewRID_def split: option.splits)
  moreover have "v \<noteq> 0 \<and> validateRID r = None \<and> length r \<le> ridMaxLen \<and>
      (if rid = [] then ParseRID r = Some (case prefixer of None \<Rightarrow> [] | Some p \<Rightarrow> p) else r = rid)"
    if "model_before_create prefixer fresh version rid = Inr (v, r)" for v r
  proof (cases "rid = []")
    case True
    with drawn that have "v \<noteq> 0 \<and> ParseRID r = Some (case prefixer of None \<Rightarrow> [] | Some p \<Rightarrow> p)" by simp
    with True ParseRID_valid show ?thesis by simp
  next
    case False
    from given [OF that False] False show ?thesis by auto
  qed
  ultimately show ?thesis by simp
qed

section \<open>Unbiased\<close>

definition good :: "nat list \<Rightarrow> nat" where
  "good bs = length (filter (\<lambda>b. b < unbiased) bs)"

lemma redraw_good:
  "good (b # rest) > 0 \<Longrightarrow> \<exists>b' rest'. redraw b rest = Some (b', rest') \<and> good rest' = good (b # rest) - 1"
proof (induction rest arbitrary: b)
  case (Cons c cs)
  from Cons.IH [of c] Cons.prems show ?case by (cases "b < unbiased") (auto simp: good_def)
qed (auto simp: good_def split: if_splits)

lemma base62_returns: "length bs \<le> good (bs @ rest) \<Longrightarrow> \<exists>x. base62_loop bs rest = Some x"
proof (induction bs arbitrary: rest)
  case (Cons b bs)
  show ?case
  proof (cases "b < unbiased")
    case True
    with Cons.prems have "length bs \<le> good (bs @ rest)" by (simp add: good_def)
    with Cons.IH True show ?thesis by auto
  next
    case False
    have "good bs \<le> length bs" "good (b # bs @ rest) = good bs + good (b # rest)" using False by (simp_all add: good_def)
    with Cons.prems have "good (b # rest) > 0" by simp
    then obtain b' rest' where r: "redraw b rest = Some (b', rest')" "good rest' = good (b # rest) - 1"
      using redraw_good by blast
    with Cons.prems False have "length bs \<le> good (bs @ rest')" by (simp add: good_def)
    with Cons.IH r(1) show ?thesis by auto
  qed
qed simp

lemma base62_bytes:
  "base62_loop bs rest = Some x \<Longrightarrow>
   \<exists>ys. length ys = length bs \<and> set ys \<subseteq> set (bs @ rest) \<inter> {..<unbiased} \<and> x = map (\<lambda>b. ridAlphabet ! (b mod 62)) ys"
proof (induction bs arbitrary: rest x)
  case (Cons b bs)
  then obtain b' rest' y where r: "redraw b rest = Some (b', rest')" "x = ridAlphabet ! (b' mod 62) # y" "base62_loop bs rest' = Some y"
    by (auto split: option.splits)
  from Cons.IH [OF r(3)] obtain ys where ys: "length ys = length bs" "set ys \<subseteq> set (bs @ rest') \<inter> {..<unbiased}"
      "y = map (\<lambda>b. ridAlphabet ! (b mod 62)) ys" by blast
  have "set rest' \<subseteq> set rest" using redraw_small [OF r(1)] by blast
  with ys r redraw_small [OF r(1)] show ?case by (intro exI [of _ "b' # ys"]) auto
qed simp

lemma alphabet_image:
  assumes "c \<in> set ridAlphabet"
  shows "card {b. b < unbiased \<and> ridAlphabet ! (b mod 62) = c} = 4"
proof -
  have "distinct ridAlphabet" by code_simp
  moreover from assms obtain i where i: "i < 62" "c = ridAlphabet ! i" by (auto simp: in_set_conv_nth alphabet_chars)
  ultimately have "ridAlphabet ! (b mod 62) = c \<longleftrightarrow> b mod 62 = i" for b
    by (simp add: nth_eq_iff_index_eq alphabet_chars)
  then have "{b. b < unbiased \<and> ridAlphabet ! (b mod 62) = c} = {b. b < 248 \<and> b mod 62 = i}" by (simp add: unbiased_def)
  also have "\<dots> = {i, i + 62, i + 124, i + 186}"
  proof (intro equalityI subsetI)
    fix b assume "b \<in> {b. b < 248 \<and> b mod 62 = i}"
    then have "b = b div 62 * 62 + i" "b div 62 = 0 \<or> b div 62 = 1 \<or> b div 62 = 2 \<or> b div 62 = 3" by auto
    then show "b \<in> {i, i + 62, i + 124, i + 186}" by (elim disjE) simp_all
  next
    have "(i + 124) mod 62 = i" "(i + 186) mod 62 = i"
      using i(1) mod_mult_self1 [of i 2 62] mod_mult_self1 [of i 3 62] mod_less [of i 62] by simp_all
    then show "b \<in> {b. b < 248 \<and> b mod 62 = i}" if "b \<in> {i, i + 62, i + 124, i + 186}" for b using that i(1) by auto
  qed
  finally show ?thesis by simp
qed

text \<open>No character of an identifier is more likely than another: each of the 62 is the image of exactly 4 of
  the 248 bytes that are accepted, and every character is the image of an accepted byte. The
  draw ends as soon as the random source has given as many accepted bytes as characters.\<close>

theorem rid_unbiased:
  "(\<forall>c \<in> set ridAlphabet. card {b. b < unbiased \<and> ridAlphabet ! (b mod 62) = c} = 4) \<and>
   (n \<le> length rnd \<and> n \<le> good rnd \<longrightarrow>
    (\<exists>bs. length bs = n \<and> set bs \<subseteq> set rnd \<inter> {..<unbiased} \<and> randBase62 n rnd = Some (map (\<lambda>b. ridAlphabet ! (b mod 62)) bs)))"
proof (intro conjI impI)
  show "\<forall>c \<in> set ridAlphabet. card {b. b < unbiased \<and> ridAlphabet ! (b mod 62) = c} = 4" using alphabet_image by blast
  assume n: "n \<le> length rnd \<and> n \<le> good rnd"
  then obtain x where x: "base62_loop (take n rnd) (drop n rnd) = Some x"
    using base62_returns [of "take n rnd" "drop n rnd"] by auto
  from base62_bytes [OF x] n obtain ys where "length ys = n" "set ys \<subseteq> set rnd \<inter> {..<unbiased}"
    "x = map (\<lambda>b. ridAlphabet ! (b mod 62)) ys" by auto
  with x n show "\<exists>bs. length bs = n \<and> set bs \<subseteq> set rnd \<inter> {..<unbiased} \<and> randBase62 n rnd = Some (map (\<lambda>b. ridAlphabet ! (b mod 62)) bs)"
    by (auto simp: randBase62_def)
qed

section \<open>Witnesses\<close>

definition demo_random :: "nat list" where
  "demo_random = [250, 1, 2, 3, 4, 5, 6, 7, 8, 9, 10, 11, 255, 61]"

theorem rid_sound_witness:
  "ParseRID ''pst_z123456789AB'' = Some ''pst'' \<and> randBase62 ridIDLen demo_random = Some ''z123456789AB''"
proof -
  have r: "randBase62 ridIDLen demo_random = Some ''z123456789AB''" by code_simp
  have "NewRID ''pst'' demo_random = Inr (Some ''pst_z123456789AB'')" by code_simp
  with rid_sound [OF r, of None 0 "[]" "''pst''"] r show ?thesis by blast
qed

theorem rid_unbiased_witness:
  "\<exists>bs. length bs = 12 \<and> set bs \<subseteq> set demo_random \<inter> {..<unbiased} \<and>
     randBase62 12 demo_random = Some (map (\<lambda>b. ridAlphabet ! (b mod 62)) bs)"
proof -
  have "12 \<le> length demo_random" "12 \<le> good demo_random" by code_simp+
  with rid_unbiased [of 12 demo_random] show ?thesis by blast
qed

end
