(* ===== verification/Store.thy ===== *)
theory Store
  imports Store_Query Rid
begin

text \<open>
  The typed store: \<^verbatim>\<open>src/store/store.go\<close>, \<^verbatim>\<open>locator.go\<close>, \<^verbatim>\<open>changes.go\<close>, \<^verbatim>\<open>write.go\<close>, and \<open>get\<close>, \<open>Exists\<close> and \<open>Count\<close> of
  \<^verbatim>\<open>read.go\<close>. The table is the list of its rows; a query reads or writes the rows on which its
  conditions hold, with gorm's own condition that leaves deleted rows of a soft-delete model out.
  The principal of the context, the time and what is random are arguments. The unique indexes
  are a function of the store, \<open>violates\<close>; so are the custom scopes and the hooks. What reflection
  finds in a model or a request, names and tags and types, is given as data.

  Left out: associations (Preload), Upsert, the recognition of a driver's duplicate-key error by
  its text, and that a patch writes the new values into the object given to \<open>Onto\<close>.

  The theorems: what a write may do to the rows of others, which \<^verbatim>\<open>Store_Owners\<close> builds on; without a
  principal nothing is read or written; a lock admits one writer. And two ways the lock does not
  do what it says.
\<close>

section \<open>Stores\<close>

record Principal =
  UserID :: string
  Roles :: "string list"

definition HasRole :: "Principal \<Rightarrow> string \<Rightarrow> bool" where
  "HasRole p role \<longleftrightarrow> role \<in> set (Roles p)"

datatype store_error =
    NotFound
  | VersionConflict int
  | Duplicate string
  | EmptyChanges
  | NoPrincipal
  | MissingConditions
  | BadRequest query_error
  | CodeFault query_error
  | NoSoftDelete
  | ManagedColumn string string
  | BadPatch string
  | Refused string

definition queryError :: "query_error \<Rightarrow> store_error" where
  "queryError e = BadRequest e"

definition codeError :: "query_error \<Rightarrow> store_error" where
  "codeError e = (case e of UnknownField _ \<Rightarrow> CodeFault e | UnsafeColumn _ _ \<Rightarrow> CodeFault e | _ \<Rightarrow> queryError e)"

record StorePolicy =
  RequirePrincipal :: bool
  AdminRoles :: "string list"
  OwnerScope :: "bool option"
  DefaultPageSize :: int
  MaxPageSize :: int

record fieldSpec =
  skind :: string
  sbits :: nat

datatype ScopeFunc = OwnerFence | CustomScope "Principal option \<Rightarrow> string + cond list"

datatype Locator = RID string | ID nat | Where "Option list"

record HookSet =
  BeforeCreate :: "row \<Rightarrow> string + row"
  BeforeUpdate :: "Locator \<Rightarrow> (string \<times> sql_value) list \<Rightarrow> string option"
  BeforeDelete :: "Locator \<Rightarrow> string option"

text \<open>
  \<open>schema_cols\<close> are the columns of the model: what \<open>specOf\<close> finds of each, if it is a scalar, and
  whether the field is a pointer. \<open>filterTypes\<close> are the query fields that are not text.
\<close>

record Store =
  table :: string
  schema_cols :: "(string \<times> fieldSpec option \<times> bool) list"
  queryFields :: columns
  updateFields :: columns
  columns :: columns
  filterTypes :: "(string \<times> fieldSpec) list"
  soft :: bool
  owned :: bool
  ridPrefix :: "string option"
  policy :: StorePolicy
  adminRoles :: "string list"
  scopes :: "ScopeFunc list"
  hooks :: HookSet
  violates :: "row list \<Rightarrow> string option"

definition protectedColumns :: "string list" where
  "protectedColumns = [''id'', ''rid'', ''version'', ''created_at'', ''updated_at'', ''deleted_at'', ''delete_token'', ''owner_id'']"

section \<open>Declaring a store\<close>

record FieldDef =
  DBName :: string
  publicName :: string
  tag :: "string option"

datatype new_error =
    FieldTwice string
  | BadTag string
  | NoTags
  | AliasUnknown string
  | AliasUnsafe string
  | UpdateManaged string
  | BlankRole

definition addField :: "columns \<Rightarrow> string \<Rightarrow> string \<Rightarrow> new_error + columns" where
  "addField m name col =
     (case map_of m name of
        Some prev \<Rightarrow> if prev \<noteq> col then Inl (FieldTwice name) else Inr (AList.update name col m)
      | None \<Rightarrow> Inr (AList.update name col m))"

fun tag_parts :: "string \<Rightarrow> string \<Rightarrow> string list \<Rightarrow> columns \<times> columns \<Rightarrow> new_error + columns \<times> columns" where
  "tag_parts name col [] qu = Inr qu"
| "tag_parts name col (part # parts) (query, update) =
     (if trim_space part = ''query'' then
        (case addField query name col of Inl e \<Rightarrow> Inl e | Inr query' \<Rightarrow> tag_parts name col parts (query', update))
      else if trim_space part = ''update'' then
        (case addField update name col of Inl e \<Rightarrow> Inl e | Inr update' \<Rightarrow> tag_parts name col parts (query, update'))
      else Inl (BadTag name))"

fun declare_fields :: "FieldDef list \<Rightarrow> bool \<times> columns \<times> columns \<times> columns \<Rightarrow> new_error + (bool \<times> columns \<times> columns \<times> columns)" where
  "declare_fields [] st = Inr st"
| "declare_fields (f # fs) (tagged, query, update, cols) =
     (if DBName f = [] \<or> DBName f = ''id'' then declare_fields fs (tagged, query, update, cols)
      else
        (case addField cols (publicName f) (DBName f) of
           Inl e \<Rightarrow> Inl e
         | Inr cols' \<Rightarrow>
             (case tag f of
                None \<Rightarrow> declare_fields fs (tagged, query, update, cols')
              | Some tg \<Rightarrow>
                  (case tag_parts (publicName f) (DBName f) (split_char (CHR '','') tg) (query, update) of
                     Inl e \<Rightarrow> Inl e
                   | Inr (query', update') \<Rightarrow> declare_fields fs (True, query', update', cols')))))"

definition add_always :: "columns \<Rightarrow> string \<Rightarrow> columns \<Rightarrow> columns" where
  "add_always cols name query =
     (case map_of cols name of
        None \<Rightarrow> query
      | Some col \<Rightarrow> if map_of query name = None then AList.update name col query else query)"

definition declaredFields :: "FieldDef list \<Rightarrow> new_error + (columns \<times> columns \<times> columns)" where
  "declaredFields fs =
     (case declare_fields fs (False, [], [], []) of
        Inl e \<Rightarrow> Inl e
      | Inr (tagged, query, update, cols) \<Rightarrow>
          if \<not> tagged then Inl NoTags
          else Inr (fold (add_always cols) [''id'', ''created_at'', ''updated_at''] query, update, cols))"

definition realias :: "string \<Rightarrow> string \<Rightarrow> columns \<Rightarrow> columns" where
  "realias field col m = (if map_of m field = None then m else AList.update field col m)"

fun run_aliases :: "(string \<times> string) list \<Rightarrow> columns \<times> columns \<times> columns \<Rightarrow> new_error + (columns \<times> columns \<times> columns)" where
  "run_aliases [] ms = Inr ms"
| "run_aliases ((field, col) # as) (query, update, cols) =
     (if map_of cols field = None then Inl (AliasUnknown field)
      else if \<not> SafeIdent col then Inl (AliasUnsafe field)
      else run_aliases as (realias field col query, realias field col update, realias field col cols))"

record store_decl =
  dtable :: string
  dfields :: "FieldDef list"
  dschema :: "(string \<times> fieldSpec option \<times> bool) list"
  dtypes :: "(string \<times> fieldSpec) list"
  dsoft :: bool
  downer :: bool
  dprefix :: "string option"
  dpolicy :: StorePolicy
  daliases :: "(string \<times> string) list"
  dscopes :: "(Principal option \<Rightarrow> string + cond list) list"
  dhooks :: HookSet
  dviolates :: "row list \<Rightarrow> string option"

definition New :: "store_decl \<Rightarrow> new_error + Store" where
  "New d =
     (case declaredFields (dfields d) of
        Inl e \<Rightarrow> Inl e
      | Inr ms \<Rightarrow>
          (case run_aliases (daliases d) ms of
             Inl e \<Rightarrow> Inl e
           | Inr (query, update, cols) \<Rightarrow>
               (case find (\<lambda>(f, col). col \<in> set protectedColumns) update of
                  Some (f, _) \<Rightarrow> Inl (UpdateManaged f)
                | None \<Rightarrow>
                    if list_ex (\<lambda>r. trim_space r = []) (AdminRoles (dpolicy d)) then Inl BlankRole
                    else
                      (let own = downer d \<and> OwnerScope (dpolicy d) \<noteq> Some False
                       in Inr \<lparr>table = dtable d, schema_cols = dschema d, queryFields = query, updateFields = update, columns = cols,
                            filterTypes = filter (\<lambda>(n, _). map_of (fst ms) n \<noteq> None) (dtypes d),
                            soft = dsoft d, owned = own, ridPrefix = dprefix d, policy = dpolicy d, adminRoles = AdminRoles (dpolicy d),
                            scopes = (if own then [OwnerFence] else []) @ map CustomScope (dscopes d),
                            hooks = dhooks d, violates = dviolates d\<rparr>))))"

section \<open>Scopes\<close>

definition isAdmin :: "Store \<Rightarrow> Principal \<Rightarrow> bool" where
  "isAdmin s p = list_ex (HasRole p) (adminRoles s)"

definition qualify :: "Store \<Rightarrow> string \<Rightarrow> string" where
  "qualify s col = (if CHR ''.'' \<in> set col then col else table s @ ''.'' @ col)"

definition ownerScope :: "Store \<Rightarrow> Principal option \<Rightarrow> store_error + cond list" where
  "ownerScope s p =
     (case p of
        None \<Rightarrow> Inl NoPrincipal
      | Some pr \<Rightarrow>
          if UserID pr = [] then Inl NoPrincipal
          else if isAdmin s pr then Inr []
          else Inr [Cmp Eq (table s @ ''.owner_id'') (VStr (UserID pr))])"

definition run_scope :: "Store \<Rightarrow> Principal option \<Rightarrow> ScopeFunc \<Rightarrow> store_error + cond list" where
  "run_scope s p sc = (case sc of OwnerFence \<Rightarrow> ownerScope s p | CustomScope f \<Rightarrow> map_sum Refused id (f p))"

fun run_scopes :: "Store \<Rightarrow> Principal option \<Rightarrow> ScopeFunc list \<Rightarrow> cond list \<Rightarrow> store_error + cond list" where
  "run_scopes s p [] tx = Inr tx"
| "run_scopes s p (sc # scs) tx = (case run_scope s p sc of Inl e \<Rightarrow> Inl e | Inr cs \<Rightarrow> run_scopes s p scs (tx @ cs))"

definition scoped :: "Store \<Rightarrow> Principal option \<Rightarrow> store_error + cond list" where
  "scoped s p = run_scopes s p (scopes s) []"

definition readScoped :: "Store \<Rightarrow> Principal option \<Rightarrow> store_error + cond list" where
  "readScoped s p =
     (case scoped s p of
        Inr tx \<Rightarrow> Inr tx
      | Inl e \<Rightarrow> if e = NoPrincipal then Inr [Never] else Inl e)"

definition owner_of :: "row \<Rightarrow> string" where
  "owner_of r = (case cell ''owner_id'' r of VStr o' \<Rightarrow> o' | _ \<Rightarrow> [])"

definition set_cells :: "(string \<times> sql_value) list \<Rightarrow> row \<Rightarrow> row" where
  "set_cells kvs r = fold (\<lambda>(col, v). AList.update (bare col) v) kvs r"

definition fillOwner :: "Store \<Rightarrow> Principal option \<Rightarrow> row \<Rightarrow> store_error + row" where
  "fillOwner s p obj =
     (if \<not> owned s then Inr obj
      else
        (case p of
           None \<Rightarrow> if RequirePrincipal (policy s) \<or> owner_of obj = [] then Inl NoPrincipal else Inr obj
         | Some pr \<Rightarrow>
             if UserID pr = [] then (if RequirePrincipal (policy s) \<or> owner_of obj = [] then Inl NoPrincipal else Inr obj)
             else if isAdmin s pr \<and> owner_of obj \<noteq> [] then Inr obj
             else Inr (set_cells [(''owner_id'', VStr (UserID pr))] obj)))"

definition pageSizes :: "Store \<Rightarrow> int \<times> int" where
  "pageSizes s =
     (let def' = (if DefaultPageSize (policy s) \<le> 0 then 20 else DefaultPageSize (policy s));
          mx = min (if MaxPageSize (policy s) \<le> 0 then 100 else MaxPageSize (policy s)) 10000
      in (min def' mx, mx))"

section \<open>Queries\<close>

text \<open>What the soft delete leaves of the rows.\<close>

definition trash_conds :: "Store \<Rightarrow> Config \<Rightarrow> cond list" where
  "trash_conds s cfg =
     (if OnlyTrashed cfg \<and> soft s then [IsNotNull (table s @ ''.deleted_at'')]
      else if OnlyTrashed cfg then [Never]
      else if WithTrashed cfg then []
      else if soft s then [IsNull (table s @ ''.deleted_at'')] else [])"

definition apply_options :: "Store \<Rightarrow> Option list \<Rightarrow> building \<Rightarrow> store_error + building" where
  "apply_options s opts b =
     (case run_options (columns s) opts b of
        Inl e \<Rightarrow> Inl (codeError e)
      | Inr (tx, cfg) \<Rightarrow> Inr (tx @ trash_conds s cfg, cfg))"

definition read_query :: "Store \<Rightarrow> Principal option \<Rightarrow> Config \<Rightarrow> Option list \<Rightarrow> store_error + building" where
  "read_query s p cfg opts =
     (case readScoped s p of Inl e \<Rightarrow> Inl e | Inr tx \<Rightarrow> apply_options s opts (tx, cfg))"

definition loc_apply :: "Store \<Rightarrow> Locator \<Rightarrow> cond list \<Rightarrow> store_error + cond list" where
  "loc_apply s loc tx =
     (case loc of
        RID rid \<Rightarrow> Inr (tx @ [Cmp Eq (table s @ ''.rid'') (VStr rid)])
      | ID i \<Rightarrow> Inr (tx @ [Cmp Eq (table s @ ''.id'') (VUint i)])
      | Where opts \<Rightarrow>
          (case run_options (columns s) opts (tx, newConfig\<lparr>FiltersOnly := True\<rparr>) of
             Inl e \<Rightarrow> Inl (codeError e)
           | Inr (tx', cfg) \<Rightarrow> if \<not> HasFilter cfg then Inl MissingConditions else Inr tx'))"

definition sat :: "cond list \<Rightarrow> row \<Rightarrow> bool" where
  "sat tx r = list_all (\<lambda>c. holds c r) tx"

definition get_row :: "Store \<Rightarrow> Principal option \<Rightarrow> Locator \<Rightarrow> Option list \<Rightarrow> row list \<Rightarrow> store_error + row" where
  "get_row s p loc opts rows =
     (case read_query s p newConfig opts of
        Inl e \<Rightarrow> Inl e
      | Inr (tx, cfg) \<Rightarrow>
          (case loc_apply s loc tx of
             Inl e \<Rightarrow> Inl e
           | Inr tx' \<Rightarrow>
               (case sort_key (cell ''id'') (filter (sat tx') rows) of [] \<Rightarrow> Inl NotFound | r # _ \<Rightarrow> Inr r)))"

definition exists_row :: "Store \<Rightarrow> cond list \<Rightarrow> Locator \<Rightarrow> row list \<Rightarrow> store_error + bool" where
  "exists_row s tx loc rows = map_sum id (\<lambda>tx'. list_ex (sat tx') rows) (loc_apply s loc tx)"

definition live_conds :: "Store \<Rightarrow> cond list" where
  "live_conds s = (if soft s then [IsNull (table s @ ''.deleted_at'')] else [])"

definition Exists :: "Store \<Rightarrow> Principal option \<Rightarrow> Locator \<Rightarrow> row list \<Rightarrow> store_error + bool" where
  "Exists s p loc rows =
     (case readScoped s p of Inl e \<Rightarrow> Inl e | Inr tx \<Rightarrow> exists_row s (tx @ live_conds s) loc rows)"

definition count_rows :: "Store \<Rightarrow> Principal option \<Rightarrow> Option list \<Rightarrow> row list \<Rightarrow> store_error + nat" where
  "count_rows s p opts rows =
     map_sum id (\<lambda>(tx, _). length (filter (sat tx) rows)) (read_query s p (newConfig\<lparr>FiltersOnly := True\<rparr>) opts)"

section \<open>Changes\<close>

datatype req_version = NoVersionField | IntField int | PtrField "int option"

text \<open>
  A patch as reflection reads it off a request: the fields it may change, those the client sent
  with their values, the fields whose type the column does not take, the version of the object
  given to \<open>Onto\<close>, and the request's version field.
\<close>

record PatchBuilder =
  plan :: "string list"
  given :: "(string \<times> sql_value) list"
  misfits :: "string list"
  onto :: "int option"
  req_version :: req_version

datatype Changes = NilChanges | Set "(string \<times> sql_value) list" | Patch PatchBuilder

record built =
  payload :: "(string \<times> sql_value) list"
  bfields :: "(string \<times> sql_value) list"
  lock :: int

fun set_payload :: "columns \<Rightarrow> (string \<times> sql_value) list \<Rightarrow> (string \<times> sql_value) list \<Rightarrow> store_error + (string \<times> sql_value) list" where
  "set_payload cols [] acc = Inr acc"
| "set_payload cols ((name, v) # kvs) acc =
     (case Column cols name of
        Inl e \<Rightarrow> Inl (CodeFault e)
      | Inr col \<Rightarrow>
          if col \<in> set protectedColumns then Inl (ManagedColumn name col)
          else set_payload cols kvs (AList.update col v acc))"

definition buildSet :: "columns \<Rightarrow> (string \<times> sql_value) list \<Rightarrow> store_error + built" where
  "buildSet cols kvs =
     (if kvs = [] then Inl EmptyChanges
      else map_sum id (\<lambda>pl. \<lparr>payload = pl, bfields = kvs, lock = 0\<rparr>) (set_payload cols kvs []))"

fun check_plan :: "Store \<Rightarrow> PatchBuilder \<Rightarrow> string list \<Rightarrow> store_error option" where
  "check_plan s pb [] = None"
| "check_plan s pb (f # fs) =
     (case map_of (updateFields s) f of
        None \<Rightarrow> Some (BadPatch f)
      | Some col \<Rightarrow>
          if map_of (schema_cols s) col = None then Some (BadPatch f)
          else if col \<in> set protectedColumns then Some (ManagedColumn f col)
          else if f \<in> set (misfits pb) then Some (BadPatch f)
          else check_plan s pb fs)"

definition patch_lock :: "PatchBuilder \<Rightarrow> int" where
  "patch_lock pb =
     (let l = (case onto pb of None \<Rightarrow> 0 | Some v \<Rightarrow> v)
      in case req_version pb of
           NoVersionField \<Rightarrow> l
         | PtrField None \<Rightarrow> l
         | PtrField (Some v) \<Rightarrow> v
         | IntField v \<Rightarrow> if v \<noteq> 0 then v else l)"

definition patch_build :: "Store \<Rightarrow> PatchBuilder \<Rightarrow> store_error + built" where
  "patch_build s pb =
     (if plan pb = [] then Inl (BadPatch [])
      else
        (case check_plan s pb (plan pb) of
           Some e \<Rightarrow> Inl e
         | None \<Rightarrow>
             (let kvs = filter (\<lambda>(f, _). f \<in> set (plan pb)) (given pb)
              in if kvs = [] then Inl EmptyChanges
                 else Inr \<lparr>payload = map (\<lambda>(f, v). (the (map_of (updateFields s) f), v)) kvs, bfields = kvs, lock = patch_lock pb\<rparr>)))"

definition build :: "Store \<Rightarrow> Changes \<Rightarrow> store_error + built" where
  "build s ch =
     (case ch of
        NilChanges \<Rightarrow> Inl EmptyChanges
      | Set kvs \<Rightarrow> buildSet (columns s) kvs
      | Patch pb \<Rightarrow> patch_build s pb)"

section \<open>Writes\<close>

definition write_query :: "Store \<Rightarrow> Principal option \<Rightarrow> Locator \<Rightarrow> Option list \<Rightarrow> store_error + building" where
  "write_query s p loc opts =
     (case scoped s p of
        Inl e \<Rightarrow> Inl e
      | Inr tx \<Rightarrow>
          (case apply_options s opts (tx, newConfig\<lparr>FiltersOnly := True\<rparr>) of
             Inl e \<Rightarrow> Inl e
           | Inr (tx, cfg) \<Rightarrow> map_sum id (\<lambda>tx'. (tx', cfg)) (loc_apply s loc tx)))"

text \<open>
  One statement: the rows it matches change, or a unique index refuses it and none does. Gorm
  sets updated_at in every update of a model that has it.
\<close>

definition update_rows :: "Store \<Rightarrow> cond list \<Rightarrow> (row \<Rightarrow> row) \<Rightarrow> row list \<Rightarrow> row list \<times> (store_error + bool)" where
  "update_rows s tx f rows =
     (let rows' = map (\<lambda>r. if sat tx r then f r else r) rows
      in case violates s rows' of
           Some fld \<Rightarrow> (rows, Inl (Duplicate fld))
         | None \<Rightarrow> (rows', Inr (list_ex (sat tx) rows)))"

definition next_version :: "row \<Rightarrow> sql_value" where
  "next_version r = (case cell ''version'' r of VInt n \<Rightarrow> VInt (n + 1) | v \<Rightarrow> v)"

definition version_lock :: "Store \<Rightarrow> int \<Rightarrow> cond list" where
  "version_lock s l = (if l > 0 then [Cmp Eq (table s @ ''.version'') (VInt l)] else [])"

definition missed :: "Store \<Rightarrow> Principal option \<Rightarrow> Locator \<Rightarrow> int \<Rightarrow> row list \<Rightarrow> store_error" where
  "missed s p loc l rows =
     (if l > 0 then
        (case scoped s p of
           Inl e \<Rightarrow> e
         | Inr tx \<Rightarrow>
             (case exists_row s tx loc rows of
                Inl e \<Rightarrow> e
              | Inr found \<Rightarrow> if found then VersionConflict l else NotFound))
      else NotFound)"

definition Update ::
  "Store \<Rightarrow> Principal option \<Rightarrow> instant \<Rightarrow> Locator \<Rightarrow> Changes \<Rightarrow> Option list \<Rightarrow> row list \<Rightarrow> row list \<times> (store_error + unit)" where
  "Update s p now loc ch opts rows =
     (case build s ch of
        Inl e \<Rightarrow> (rows, Inl e)
      | Inr b \<Rightarrow>
          (case write_query s p loc opts of
             Inl e \<Rightarrow> (rows, Inl e)
           | Inr (tx, cfg) \<Rightarrow>
               (case BeforeUpdate (hooks s) loc (bfields b) of
                  Some e \<Rightarrow> (rows, Inl (Refused e))
                | None \<Rightarrow>
                    (let l = (if LockVersion cfg > 0 then LockVersion cfg else lock b)
                     in case update_rows s (tx @ version_lock s l)
                            (\<lambda>r. set_cells (payload b @ [(''version'', next_version r), (''updated_at'', VTime now)]) r) rows of
                          (rows', Inl e) \<Rightarrow> (rows', Inl e)
                        | (rows', Inr hit) \<Rightarrow> if \<not> hit then (rows', Inl (missed s p loc l rows')) else (rows', Inr ())))))"

definition Delete ::
  "Store \<Rightarrow> Principal option \<Rightarrow> instant \<Rightarrow> string \<Rightarrow> Locator \<Rightarrow> Option list \<Rightarrow> row list \<Rightarrow> row list \<times> (store_error + unit)" where
  "Delete s p now token loc opts rows =
     (case write_query s p loc opts of
        Inl e \<Rightarrow> (rows, Inl e)
      | Inr (tx, cfg) \<Rightarrow>
          (case BeforeDelete (hooks s) loc of
             Some e \<Rightarrow> (rows, Inl (Refused e))
           | None \<Rightarrow>
               (let tx' = tx @ version_lock s (LockVersion cfg)
                in case (if soft s then
                           update_rows s tx' (\<lambda>r. set_cells [(''deleted_at'', VTime now), (''delete_token'', VStr token), (''version'', next_version r), (''updated_at'', VTime now)] r) rows
                         else (filter (\<lambda>r. \<not> sat tx' r) rows, Inr (list_ex (sat tx') rows))) of
                     (rows', Inl e) \<Rightarrow> (rows', Inl e)
                   | (rows', Inr hit) \<Rightarrow>
                       if \<not> hit \<and> LockVersion cfg > 0 then (rows', Inl (missed s p loc (LockVersion cfg) rows')) else (rows', Inr ()))))"

definition Restore :: "Store \<Rightarrow> Principal option \<Rightarrow> instant \<Rightarrow> Locator \<Rightarrow> row list \<Rightarrow> row list \<times> (store_error + unit)" where
  "Restore s p now loc rows =
     (if \<not> soft s then (rows, Inl NoSoftDelete)
      else
        (case write_query s p loc [Trashed] of
           Inl e \<Rightarrow> (rows, Inl e)
         | Inr (tx, _) \<Rightarrow>
             (case update_rows s tx (\<lambda>r. set_cells [(''deleted_at'', VNull), (''delete_token'', VStr []), (''version'', next_version r), (''updated_at'', VTime now)] r) rows of
                (rows', Inl e) \<Rightarrow> (rows', Inl e)
              | (rows', Inr True) \<Rightarrow> (rows', Inr ())
              | (rows', Inr False) \<Rightarrow>
                  (case scoped s p of
                     Inl e \<Rightarrow> (rows', Inl e)
                   | Inr live \<Rightarrow>
                       (case exists_row s (live @ live_conds s) loc rows' of
                          Inl e \<Rightarrow> (rows', Inl e)
                        | Inr found \<Rightarrow> if \<not> found then (rows', Inl NotFound) else (rows', Inr ()))))))"

definition beforeCreate :: "Store \<Rightarrow> Principal option \<Rightarrow> row \<Rightarrow> store_error + row" where
  "beforeCreate s p obj =
     (case fillOwner s p obj of Inl e \<Rightarrow> Inl e | Inr obj' \<Rightarrow> map_sum Refused id (BeforeCreate (hooks s) obj'))"

text \<open>
  Gorm runs the model's own hook, which gives the row its version and RID; the database gives it
  its key, gorm the times, unless they are set.
\<close>

definition model_create :: "Store \<Rightarrow> string \<Rightarrow> row \<Rightarrow> store_error + row" where
  "model_create s fresh obj =
     (case model_before_create (ridPrefix s) fresh (case cell ''version'' obj of VInt n \<Rightarrow> n | _ \<Rightarrow> 0)
             (case cell ''rid'' obj of VStr x \<Rightarrow> x | _ \<Rightarrow> []) of
        Inl _ \<Rightarrow> Inl (Refused ''rid'')
      | Inr (v, r) \<Rightarrow> Inr (set_cells [(''version'', VInt v), (''rid'', VStr r)] obj))"

definition next_key :: "row list \<Rightarrow> nat" where
  "next_key rows = Suc (fold (\<lambda>r n. case cell ''id'' r of VUint i \<Rightarrow> max i n | _ \<Rightarrow> n) rows 0)"

definition insert_row :: "instant \<Rightarrow> row list \<Rightarrow> row \<Rightarrow> row" where
  "insert_row now rows obj =
     set_cells
       ((if cell ''id'' obj \<in> {VNull, VUint 0} then [(''id'', VUint (next_key rows))] else []) @
        (if cell ''created_at'' obj = VNull then [(''created_at'', VTime now)] else []) @
        (if cell ''updated_at'' obj = VNull then [(''updated_at'', VTime now)] else [])) obj"

definition Create :: "Store \<Rightarrow> Principal option \<Rightarrow> instant \<Rightarrow> string \<Rightarrow> row \<Rightarrow> row list \<Rightarrow> row list \<times> (store_error + row)" where
  "Create s p now fresh obj rows =
     (case beforeCreate s p obj of
        Inl e \<Rightarrow> (rows, Inl e)
      | Inr obj' \<Rightarrow>
          (case model_create s fresh obj' of
             Inl e \<Rightarrow> (rows, Inl e)
           | Inr obj'' \<Rightarrow>
               (let r = insert_row now rows obj''
                in case violates s (rows @ [r]) of
                     Some fld \<Rightarrow> (rows, Inl (Duplicate fld))
                   | None \<Rightarrow> (rows @ [r], Inr r))))"

fun before_each :: "Store \<Rightarrow> Principal option \<Rightarrow> row list \<Rightarrow> store_error + row list" where
  "before_each s p [] = Inr []"
| "before_each s p (obj # objs) =
     (case beforeCreate s p obj of Inl e \<Rightarrow> Inl e | Inr obj' \<Rightarrow> map_sum id ((#) obj') (before_each s p objs))"

text \<open>One transaction: the rows are in the table or, when one of them is refused, none is.\<close>

fun insert_each :: "Store \<Rightarrow> instant \<Rightarrow> string list \<Rightarrow> row list \<Rightarrow> row list \<Rightarrow> store_error + row list" where
  "insert_each s now fresh [] rows = Inr rows"
| "insert_each s now fresh (obj # objs) rows =
     (case model_create s (case fresh of [] \<Rightarrow> [] | x # _ \<Rightarrow> x) obj of
        Inl e \<Rightarrow> Inl e
      | Inr obj' \<Rightarrow> insert_each s now (tl fresh) objs (rows @ [insert_row now rows obj']))"

definition BatchCreate :: "Store \<Rightarrow> Principal option \<Rightarrow> instant \<Rightarrow> string list \<Rightarrow> row list \<Rightarrow> row list \<Rightarrow> row list \<times> (store_error + unit)" where
  "BatchCreate s p now fresh objs rows =
     (if objs = [] then (rows, Inr ())
      else
        (case before_each s p objs of
           Inl e \<Rightarrow> (rows, Inl e)
         | Inr objs' \<Rightarrow>
             (case insert_each s now fresh objs' rows of
                Inl e \<Rightarrow> (rows, Inl e)
              | Inr rows' \<Rightarrow>
                  (case violates s rows' of Some fld \<Rightarrow> (rows, Inl (Duplicate fld)) | None \<Rightarrow> (rows', Inr ())))))"

section \<open>Cells\<close>

lemma bare_plain: "CHR ''.'' \<notin> set col \<Longrightarrow> bare col = col"
  by (simp add: bare_def split_char_single)

lemma split_char_tail: "\<exists>ps. ps \<noteq> [] \<and> split_char c (t @ c # s) = ps @ split_char c s"
proof (induction t)
  case (Cons x t)
  then obtain p ps where ps: "split_char c (t @ c # s) = (p # ps) @ split_char c s" by (metis list.exhaust)
  show ?case
  proof (cases "x = c")
    case True
    with ps show ?thesis by (intro exI [of _ "[] # p # ps"]) simp
  next
    case False
    with ps show ?thesis by (intro exI [of _ "(x # p) # ps"]) simp
  qed
qed (rule exI [of _ "[[]]"], simp)

lemma bare_qualified [simp]: "CHR ''.'' \<notin> set col \<Longrightarrow> bare (t @ CHR ''.'' # col) = col"
  unfolding bare_def using split_char_tail [of "CHR ''.''" t col] by (auto simp: split_char_single)

lemma cell_qualified: "CHR ''.'' \<notin> set col \<Longrightarrow> cell (t @ CHR ''.'' # col) r = cell col r"
  by (simp add: cell_def bare_plain)

lemma cell_set_cells_other:
  "(\<And>c v. (c, v) \<in> set kvs \<Longrightarrow> bare c \<noteq> bare col) \<Longrightarrow> cell col (set_cells kvs r) = cell col r"
proof (induction kvs arbitrary: r)
  case (Cons kv kvs)
  obtain c v where kv: "kv = (c, v)" by (cases kv)
  have "cell col (set_cells (kv # kvs) r) = cell col (set_cells kvs (AList.update (bare c) v r))"
    by (simp add: set_cells_def kv)
  also have "\<dots> = cell col (AList.update (bare c) v r)" using Cons by auto
  also have "\<dots> = cell col r" using Cons.prems [of c v] by (simp add: cell_def update_conv kv)
  finally show ?case .
qed (simp add: set_cells_def)

lemma set_cells_append: "set_cells (a @ b) r = set_cells b (set_cells a r)"
  by (simp add: set_cells_def)

lemma cell_set_cells_last: "cell col (set_cells (kvs @ [(col, v)]) r) = v"
  by (simp add: set_cells_append, simp add: set_cells_def cell_def update_conv)

section \<open>The fence\<close>

lemma run_option_extends: "run_option flds op (tx, cfg) = Inr (tx', cfg') \<Longrightarrow> \<exists>cs. tx' = tx @ cs"
proof (induction op arbitrary: tx cfg tx' cfg')
  case (FromURL op)
  then obtain cfg1 where "run_option flds op (tx, cfg) = Inr (tx', cfg1)"
    by (cases "run_option flds op (tx, cfg)") auto
  with FromURL.IH show ?case by blast
qed (auto simp: filter_on_Inr Let_def split: if_splits sum.splits)

lemma run_options_extends: "run_options flds ops (tx, cfg) = Inr (tx', cfg') \<Longrightarrow> \<exists>cs. tx' = tx @ cs"
proof (induction ops arbitrary: tx cfg)
  case (Cons op ops)
  from Cons.prems obtain tx1 cfg1 where "run_option flds op (tx, cfg) = Inr (tx1, cfg1)" "run_options flds ops (tx1, cfg1) = Inr (tx', cfg')"
    by (auto split: sum.splits)
  with Cons.IH run_option_extends show ?case by (metis append.assoc)
qed simp

lemma apply_options_extends: "apply_options s opts (tx, cfg) = Inr (tx', cfg') \<Longrightarrow> \<exists>cs. tx' = tx @ cs"
  by (auto simp: apply_options_def split: sum.splits prod.splits dest!: run_options_extends)

lemma loc_apply_extends: "loc_apply s loc tx = Inr tx' \<Longrightarrow> \<exists>cs. tx' = tx @ cs"
  by (auto simp: loc_apply_def split: Locator.splits sum.splits prod.splits if_splits dest: run_options_extends)

lemma run_scopes_extends: "run_scopes s p scs tx = Inr tx' \<Longrightarrow> \<exists>cs. tx' = tx @ cs"
proof (induction scs arbitrary: tx)
  case (Cons sc scs)
  from Cons.prems obtain cs where "run_scope s p sc = Inr cs" "run_scopes s p scs (tx @ cs) = Inr tx'"
    by (auto split: sum.splits)
  with Cons.IH show ?case by (metis append.assoc)
qed simp

text \<open>A store whose rows have owners: the fence is its first scope.\<close>

definition fenced_store :: "Store \<Rightarrow> bool" where
  "fenced_store s \<longleftrightarrow> owned s \<and> (\<exists>scs. scopes s = OwnerFence # scs)"

lemma New_fenced: "New d = Inr s \<Longrightarrow> downer d \<Longrightarrow> OwnerScope (dpolicy d) \<noteq> Some False \<Longrightarrow> fenced_store s"
  by (auto simp: New_def fenced_store_def Let_def split: sum.splits option.splits if_splits prod.splits)

lemma scoped_fence:
  assumes "fenced_store s" "scoped s (Some pr) = Inr tx" "\<not> isAdmin s pr" "UserID pr \<noteq> []"
  shows "\<exists>cs. tx = Cmp Eq (table s @ ''.owner_id'') (VStr (UserID pr)) # cs"
proof -
  from assms(1) obtain scs where "scopes s = OwnerFence # scs" by (auto simp: fenced_store_def)
  with assms have "run_scopes s (Some pr) scs [Cmp Eq (table s @ ''.owner_id'') (VStr (UserID pr))] = Inr tx"
    by (simp add: scoped_def run_scope_def ownerScope_def)
  from run_scopes_extends [OF this] show ?thesis by auto
qed

lemma sat_fence:
  assumes "sat (Cmp Eq (table s @ ''.owner_id'') (VStr u) # cs) r"
  shows "owner_of r = u"
  using assms by (simp add: sat_def sql_compare_def cell_qualified owner_of_def)

lemma scoped_none:
  assumes "fenced_store s" "p = None \<or> (\<exists>pr. p = Some pr \<and> UserID pr = [])"
  shows "scoped s p = Inl NoPrincipal"
  using assms by (auto simp: fenced_store_def scoped_def run_scope_def ownerScope_def)

lemma write_query_fence:
  assumes "fenced_store s" "write_query s (Some pr) loc opts = Inr (tx, cfg)" "\<not> isAdmin s pr" "UserID pr \<noteq> []"
  shows "\<exists>cs. tx = Cmp Eq (table s @ ''.owner_id'') (VStr (UserID pr)) # cs"
proof -
  from assms(2) obtain tx0 tx1 where t: "scoped s (Some pr) = Inr tx0" "apply_options s opts (tx0, newConfig\<lparr>FiltersOnly := True\<rparr>) = Inr (tx1, cfg)"
      "loc_apply s loc tx1 = Inr tx"
    by (auto simp: write_query_def split: sum.splits prod.splits simp: map_sum_Inr)
  from scoped_fence [OF assms(1) t(1) assms(3,4)] apply_options_extends [OF t(2)] loc_apply_extends [OF t(3)]
  show ?thesis by auto
qed

lemma read_query_fence:
  assumes "fenced_store s" "read_query s (Some pr) cfg0 opts = Inr (tx, cfg)" "\<not> isAdmin s pr" "UserID pr \<noteq> []"
  shows "(\<exists>cs. tx = Cmp Eq (table s @ ''.owner_id'') (VStr (UserID pr)) # cs) \<or> Never \<in> set tx"
proof -
  from assms(2) obtain tx0 where t: "readScoped s (Some pr) = Inr tx0" "apply_options s opts (tx0, cfg0) = Inr (tx, cfg)"
    by (auto simp: read_query_def split: sum.splits)
  show ?thesis
  proof (cases "scoped s (Some pr)")
    case (Inl e)
    with t(1) have "tx0 = [Never]" by (auto simp: readScoped_def split: if_splits)
    with apply_options_extends [OF t(2)] show ?thesis by auto
  next
    case (Inr cs)
    with t(1) scoped_fence [OF assms(1) Inr assms(3,4)] apply_options_extends [OF t(2)] show ?thesis
      by (auto simp: readScoped_def)
  qed
qed

lemma sat_extend: "sat (tx @ cs) r \<Longrightarrow> sat tx r"
  by (simp add: sat_def)

lemma sat_read_fence:
  assumes "fenced_store s" "read_query s (Some pr) cfg0 opts = Inr (tx, cfg)" "\<not> isAdmin s pr" "UserID pr \<noteq> []" "sat tx r"
  shows "owner_of r = UserID pr"
  using read_query_fence [OF assms(1-4)] assms(5) sat_fence by (fastforce simp: sat_def list_all_iff)

section \<open>Changes leave the managed columns\<close>

text \<open>No column of the store is written with its table.\<close>

definition plain_store :: "Store \<Rightarrow> bool" where
  "plain_store s \<longleftrightarrow> (\<forall>(f, col) \<in> set (columns s) \<union> set (updateFields s). CHR ''.'' \<notin> set col)"

definition unmanaged :: "(string \<times> sql_value) list \<Rightarrow> bool" where
  "unmanaged kvs \<longleftrightarrow> (\<forall>(col, v) \<in> set kvs. bare col \<notin> set protectedColumns)"

lemma set_payload_unmanaged:
  assumes "set_payload cols kvs acc = Inr pl" "\<forall>(f, col) \<in> set cols. CHR ''.'' \<notin> set col" "unmanaged acc"
  shows "unmanaged pl"
  using assms(1,3)
proof (induction kvs arbitrary: acc)
  case (Cons kv kvs)
  obtain name v where kv: "kv = (name, v)" by (cases kv)
  from Cons.prems(1) obtain col where c: "Column cols name = Inr col" "col \<notin> set protectedColumns"
      "set_payload cols kvs (AList.update col v acc) = Inr pl"
    by (auto simp: kv split: sum.splits if_splits)
  have "bare col = col" using c(1) assms(2) by (auto simp: Column_Inr dest!: map_of_SomeD intro!: bare_plain)
  then have "unmanaged (AList.update col v acc)"
    using c(2) Cons.prems(2) unfolding unmanaged_def by (auto dest!: set_update_subset)
  from Cons.IH [OF c(3) this] show ?case .
qed (simp add: unmanaged_def)

lemma check_plan_columns:
  "check_plan s pb fs = None \<Longrightarrow> f \<in> set fs \<Longrightarrow> \<exists>col. map_of (updateFields s) f = Some col \<and> col \<notin> set protectedColumns"
  by (induction fs) (auto split: option.splits if_splits)

lemma build_unmanaged:
  assumes "build s ch = Inr b" "plain_store s"
  shows "unmanaged (payload b)"
proof (cases ch)
  case (Set kvs)
  with assms(1) have pl: "set_payload (columns s) kvs [] = Inr (payload b)"
    by (auto simp: build_def buildSet_def map_sum_Inr split: if_splits)
  have "\<forall>(f, col) \<in> set (columns s). CHR ''.'' \<notin> set col" "unmanaged []"
    using assms(2) by (auto simp: plain_store_def unmanaged_def)
  from set_payload_unmanaged [OF pl this] show ?thesis .
next
  case (Patch pb)
  with assms(1) have c: "check_plan s pb (plan pb) = None"
      "payload b = map (\<lambda>(f, v). (the (map_of (updateFields s) f), v)) (filter (\<lambda>(f, _). f \<in> set (plan pb)) (given pb))"
    by (auto simp: build_def patch_build_def Let_def split: if_splits option.splits)
  have "bare (the (map_of (updateFields s) f)) \<notin> set protectedColumns" if f: "f \<in> set (plan pb)" for f
  proof -
    obtain col where col: "map_of (updateFields s) f = Some col" "col \<notin> set protectedColumns"
      using check_plan_columns [OF c(1) f] by blast
    then have "bare col = col" using assms(2) by (auto simp: plain_store_def dest!: map_of_SomeD intro!: bare_plain)
    with col show ?thesis by simp
  qed
  then show ?thesis unfolding unmanaged_def c(2) by auto
qed (use assms in \<open>simp add: build_def\<close>)

lemma cell_unmanaged:
  assumes "unmanaged kvs" "col \<in> set protectedColumns" "CHR ''.'' \<notin> set col" "col \<noteq> ''version''" "col \<noteq> ''updated_at''"
  shows "cell col (set_cells (kvs @ [(''version'', v), (''updated_at'', t)]) r) = cell col r"
  by (rule cell_set_cells_other) (use assms in \<open>auto simp: unmanaged_def bare_plain\<close>)

lemma owner_written: "unmanaged kvs \<Longrightarrow> owner_of (set_cells (kvs @ [(''version'', v), (''updated_at'', t)]) r) = owner_of r"
  using cell_unmanaged [of kvs "''owner_id''"] by (simp add: owner_of_def protectedColumns_def)

section \<open>What a write may do\<close>

text \<open>
  Under the fence of \<open>u\<close> a write changes or removes rows of \<open>u\<close> and adds rows of \<open>u\<close>; all others are as
  they were, and no row gets another owner.
\<close>

definition fenced :: "string \<Rightarrow> row list \<Rightarrow> row list \<Rightarrow> bool" where
  "fenced u rows rows' \<longleftrightarrow>
     (\<exists>f keep new. rows' = map f (filter keep rows) @ new \<and> (\<forall>r. owner_of (f r) = owner_of r) \<and>
        (\<forall>r. owner_of r \<noteq> u \<longrightarrow> keep r \<and> f r = r) \<and> (\<forall>r \<in> set new. owner_of r = u))"

lemma fenced_refl: "fenced u rows rows"
  unfolding fenced_def by (intro exI [of _ id] exI [of _ "\<lambda>_. True"] exI [of _ "[]"]) simp

lemma fenced_update:
  assumes "\<And>r. sat tx r \<Longrightarrow> owner_of r = u" "\<And>r. owner_of (f r) = owner_of r"
  shows "fenced u rows (fst (update_rows s tx f rows))"
proof (cases "violates s (map (\<lambda>r. if sat tx r then f r else r) rows)")
  case None
  then show ?thesis
    unfolding fenced_def
    by (intro exI [of _ "\<lambda>r. if sat tx r then f r else r"] exI [of _ "\<lambda>_. True"] exI [of _ "[]"])
      (use assms in \<open>auto simp: update_rows_def Let_def\<close>)
qed (simp add: update_rows_def Let_def fenced_refl)

lemma fenced_remove:
  assumes "\<And>r. sat tx r \<Longrightarrow> owner_of r = u"
  shows "fenced u rows (filter (\<lambda>r. \<not> sat tx r) rows)"
  unfolding fenced_def
  by (intro exI [of _ id] exI [of _ "\<lambda>r. \<not> sat tx r"] exI [of _ "[]"]) (use assms in auto)

lemma write_sat:
  assumes "fenced_store s" "write_query s (Some pr) loc opts = Inr (tx, cfg)" "\<not> isAdmin s pr" "UserID pr \<noteq> []"
    and "sat (tx @ cs) r"
  shows "owner_of r = UserID pr"
  using write_query_fence [OF assms(1-4)] sat_extend [OF assms(5)] sat_fence by blast

lemma query_fenced:
  assumes "fenced_store s" "\<not> isAdmin s pr" "UserID pr \<noteq> []"
    and "write_query s (Some pr) loc opts = Inr (tx, cfg)" "update_rows s (tx @ cs) f rows = (rows', res)"
    and "\<And>r. owner_of (f r) = owner_of r"
  shows "fenced (UserID pr) rows rows'"
  using fenced_update [of "tx @ cs" "UserID pr" f rows s] write_sat [OF assms(1,4,2,3)] assms(5,6) by simp

lemma Update_fenced:
  assumes "fenced_store s" "plain_store s" "\<not> isAdmin s pr" "UserID pr \<noteq> []"
  shows "fenced (UserID pr) rows (fst (Update s (Some pr) now loc ch opts rows))"
proof -
  have "fenced (UserID pr) rows rows'"
    if "build s ch = Inr b" "write_query s (Some pr) loc opts = Inr (tx, cfg)"
      "update_rows s (tx @ cs) (\<lambda>r. set_cells (payload b @ [(''version'', next_version r), (''updated_at'', VTime now)]) r) rows = (rows', res)"
    for b tx cfg cs rows' res
    by (rule query_fenced [OF assms(1,3,4) that(2,3)]) (rule owner_written [OF build_unmanaged [OF that(1) assms(2)]])
  then show ?thesis
    unfolding Update_def Let_def by (auto simp: fenced_refl split: sum.splits option.splits prod.splits)
qed

lemma owner_cells:
  assumes "\<forall>(c, v) \<in> set kvs. bare c \<noteq> ''owner_id''"
  shows "owner_of (set_cells kvs r) = owner_of r"
proof -
  have "cell ''owner_id'' (set_cells kvs r) = cell ''owner_id'' r"
    by (rule cell_set_cells_other) (use assms in \<open>auto simp: bare_plain\<close>)
  then show ?thesis by (simp add: owner_of_def)
qed

lemma Delete_fenced:
  assumes "fenced_store s" "\<not> isAdmin s pr" "UserID pr \<noteq> []"
  shows "fenced (UserID pr) rows (fst (Delete s (Some pr) now token loc opts rows))"
proof -
  have u: "fenced (UserID pr) rows rows'"
    if "write_query s (Some pr) loc opts = Inr (tx, cfg)"
      "update_rows s (tx @ cs) (\<lambda>r. set_cells [(''deleted_at'', VTime now), (''delete_token'', VStr token), (''version'', next_version r), (''updated_at'', VTime now)] r) rows = (rows', res)"
    for tx cfg cs rows' res
    by (rule query_fenced [OF assms that]) (rule owner_cells, simp add: bare_plain)
  have d: "fenced (UserID pr) rows (filter (\<lambda>r. \<not> sat (tx @ cs) r) rows)"
    if "write_query s (Some pr) loc opts = Inr (tx, cfg)" for tx cfg cs
    using fenced_remove [of "tx @ cs" "UserID pr" rows] write_sat [OF assms(1) that assms(2,3)] by blast
  show ?thesis
    unfolding Delete_def Let_def by (auto simp: fenced_refl split: sum.splits option.splits prod.splits if_splits intro: u d)
qed

lemma Restore_fenced:
  assumes "fenced_store s" "\<not> isAdmin s pr" "UserID pr \<noteq> []"
  shows "fenced (UserID pr) rows (fst (Restore s (Some pr) now loc rows))"
proof -
  have u: "fenced (UserID pr) rows rows'"
    if "write_query s (Some pr) loc [Trashed] = Inr (tx, cfg)"
      "update_rows s tx (\<lambda>r. set_cells [(''deleted_at'', VNull), (''delete_token'', VStr []), (''version'', next_version r), (''updated_at'', VTime now)] r) rows = (rows', res)"
    for tx cfg rows' res
    by (rule query_fenced [OF assms that(1), where cs = "[]", unfolded append_Nil2, OF that(2)]) (rule owner_cells, simp add: bare_plain)
  show ?thesis
    unfolding Restore_def by (auto simp: fenced_refl split: sum.splits prod.splits if_splits bool.splits intro: u)
qed

lemma owner_insert: "owner_of (insert_row now rows obj) = owner_of obj"
  unfolding insert_row_def by (rule owner_cells) (auto simp: bare_plain split: if_splits)

lemma owner_model: "model_create s fresh obj = Inr obj' \<Longrightarrow> owner_of obj' = owner_of obj"
  by (auto simp: model_create_def bare_plain intro!: owner_cells split: sum.splits)

lemma owner_filled:
  assumes "fillOwner s (Some pr) obj = Inr obj'" "owned s" "\<not> isAdmin s pr" "UserID pr \<noteq> []"
  shows "owner_of obj' = UserID pr"
  using assms cell_set_cells_last [of "''owner_id''" "[]"] by (auto simp: fillOwner_def owner_of_def)

lemma beforeCreate_owner:
  assumes "beforeCreate s (Some pr) obj = Inr obj'" "owned s" "\<not> isAdmin s pr" "UserID pr \<noteq> []"
    and "\<And>r r'. BeforeCreate (hooks s) r = Inr r' \<Longrightarrow> owner_of r' = owner_of r"
  shows "owner_of obj' = UserID pr"
proof -
  from assms(1) obtain o1 where "fillOwner s (Some pr) obj = Inr o1" "BeforeCreate (hooks s) o1 = Inr obj'"
    by (auto simp: beforeCreate_def map_sum_Inr split: sum.splits)
  with owner_filled assms(2-5) show ?thesis by metis
qed

lemma fenced_append: "(\<And>r. r \<in> set new \<Longrightarrow> owner_of r = u) \<Longrightarrow> fenced u rows (rows @ new)"
  unfolding fenced_def by (intro exI [of _ id] exI [of _ "\<lambda>_. True"] exI [of _ new]) simp

lemma Create_fenced:
  assumes "fenced_store s" "\<not> isAdmin s pr" "UserID pr \<noteq> []"
    and "\<And>r r'. BeforeCreate (hooks s) r = Inr r' \<Longrightarrow> owner_of r' = owner_of r"
  shows "fenced (UserID pr) rows (fst (Create s (Some pr) now fresh obj rows))"
proof -
  have "fenced (UserID pr) rows (rows @ [insert_row now rows obj''])"
    if "beforeCreate s (Some pr) obj = Inr obj'" "model_create s fresh obj' = Inr obj''" for obj' obj''
    using beforeCreate_owner [OF that(1) _ assms(2-4)] assms(1) owner_model [OF that(2)]
    by (intro fenced_append) (simp add: owner_insert fenced_store_def)
  then show ?thesis
    by (auto simp: Create_def Let_def fenced_refl split: sum.splits option.splits)
qed

lemma before_each_owner:
  assumes "before_each s (Some pr) objs = Inr objs'" "owned s" "\<not> isAdmin s pr" "UserID pr \<noteq> []"
    and "\<And>r r'. BeforeCreate (hooks s) r = Inr r' \<Longrightarrow> owner_of r' = owner_of r"
  shows "\<forall>r \<in> set objs'. owner_of r = UserID pr"
  using assms(1)
proof (induction objs arbitrary: objs')
  case (Cons obj objs)
  then obtain o1 os where o: "beforeCreate s (Some pr) obj = Inr o1" "before_each s (Some pr) objs = Inr os" "objs' = o1 # os"
    by (auto simp: map_sum_Inr split: sum.splits)
  with Cons.IH [OF o(2)] beforeCreate_owner [OF o(1) assms(2-5)] show ?case by simp
qed simp

lemma insert_each_appends:
  "insert_each s now fresh objs rows = Inr rows' \<Longrightarrow> \<forall>r \<in> set objs. owner_of r = u \<Longrightarrow>
   \<exists>new. rows' = rows @ new \<and> (\<forall>r \<in> set new. owner_of r = u)"
proof (induction objs arbitrary: fresh rows)
  case (Cons obj objs)
  then obtain o1 where o: "model_create s (case fresh of [] \<Rightarrow> [] | x # _ \<Rightarrow> x) obj = Inr o1"
      "insert_each s now (tl fresh) objs (rows @ [insert_row now rows o1]) = Inr rows'"
    by (auto split: sum.splits)
  from Cons.IH [OF o(2)] Cons.prems(2) obtain new where "rows' = (rows @ [insert_row now rows o1]) @ new" "\<forall>r \<in> set new. owner_of r = u"
    by auto
  moreover have "owner_of (insert_row now rows o1) = u" using owner_model [OF o(1)] Cons.prems(2) by (simp add: owner_insert)
  ultimately show ?case by (intro exI [of _ "insert_row now rows o1 # new"]) simp
qed simp

lemma BatchCreate_fenced:
  assumes "fenced_store s" "\<not> isAdmin s pr" "UserID pr \<noteq> []"
    and "\<And>r r'. BeforeCreate (hooks s) r = Inr r' \<Longrightarrow> owner_of r' = owner_of r"
  shows "fenced (UserID pr) rows (fst (BatchCreate s (Some pr) now fresh objs rows))"
proof -
  have "fenced (UserID pr) rows rows'"
    if "before_each s (Some pr) objs = Inr objs'" "insert_each s now fresh objs' rows = Inr rows'" for objs' rows'
    using insert_each_appends [OF that(2) before_each_owner [OF that(1) _ assms(2-4)]] assms(1)
    by (auto simp: fenced_store_def intro: fenced_append)
  then show ?thesis by (auto simp: BatchCreate_def fenced_refl split: sum.splits option.splits)
qed

section \<open>The lock\<close>

definition version_of :: "row \<Rightarrow> int" where
  "version_of r = (case cell ''version'' r of VInt n \<Rightarrow> n | _ \<Rightarrow> 0)"

text \<open>The version an update is locked on, 0 for none.\<close>

definition locked_at :: "Store \<Rightarrow> Principal option \<Rightarrow> Locator \<Rightarrow> Changes \<Rightarrow> Option list \<Rightarrow> int" where
  "locked_at s p loc ch opts =
     (case (build s ch, write_query s p loc opts) of
        (Inr b, Inr (_, cfg)) \<Rightarrow> if LockVersion cfg > 0 then LockVersion cfg else lock b
      | _ \<Rightarrow> 0)"

lemma version_written: "cell ''version'' (set_cells (kvs @ [(''version'', v), (''updated_at'', t)]) r) = v"
proof -
  have "set_cells (kvs @ [(''version'', v), (''updated_at'', t)]) r = set_cells [(''updated_at'', t)] (set_cells (kvs @ [(''version'', v)]) r)"
    using set_cells_append [of "kvs @ [(''version'', v)]" "[(''updated_at'', t)]" r] by simp
  moreover have "cell ''version'' (set_cells [(''updated_at'', t)] x) = cell ''version'' x" for x
    by (rule cell_set_cells_other) (simp add: bare_plain)
  ultimately show ?thesis by (simp only: cell_set_cells_last)
qed

text \<open>What an update leaves of the rows, one by one: the same id, and a version that did not fall.\<close>

definition later_row :: "row \<Rightarrow> row \<Rightarrow> bool" where
  "later_row r r' \<longleftrightarrow> cell ''rid'' r' = cell ''rid'' r \<and> version_of r \<le> version_of r'"

lemma later_row_trans: "later_row a b \<Longrightarrow> later_row b c \<Longrightarrow> later_row a c"
  by (simp add: later_row_def)

lemma Update_cases:
  assumes "Update s p now loc ch opts rows = (rows', res)"
  obtains (same) e where "rows' = rows" "res = Inl e"
    | (ran) b tx cfg f where "build s ch = Inr b" "write_query s p loc opts = Inr (tx, cfg)"
        "f = (\<lambda>r. set_cells (payload b @ [(''version'', next_version r), (''updated_at'', VTime now)]) r)"
        "rows' = map (\<lambda>r. if sat (tx @ version_lock s (locked_at s p loc ch opts)) r then f r else r) rows"
        "res = Inr () \<longleftrightarrow> list_ex (sat (tx @ version_lock s (locked_at s p loc ch opts))) rows"
proof (cases "\<exists>b tx cfg. build s ch = Inr b \<and> write_query s p loc opts = Inr (tx, cfg) \<and> BeforeUpdate (hooks s) loc (bfields b) = None")
  case True
  then obtain b tx cfg where b: "build s ch = Inr b" "write_query s p loc opts = Inr (tx, cfg)" "BeforeUpdate (hooks s) loc (bfields b) = None"
    by blast
  then have l: "locked_at s p loc ch opts = (if LockVersion cfg > 0 then LockVersion cfg else lock b)"
    by (simp add: locked_at_def)
  let ?tx = "tx @ version_lock s (locked_at s p loc ch opts)"
  let ?f = "\<lambda>r. set_cells (payload b @ [(''version'', next_version r), (''updated_at'', VTime now)]) r"
  show ?thesis
  proof (cases "violates s (map (\<lambda>r. if sat ?tx r then ?f r else r) rows)")
    case None
    with assms b l have "rows' = map (\<lambda>r. if sat ?tx r then ?f r else r) rows" "res = Inr () \<longleftrightarrow> list_ex (sat ?tx) rows"
      by (auto simp: Update_def Let_def update_rows_def split: if_splits)
    with b ran show ?thesis by blast
  next
    case (Some fld)
    with assms b l same show ?thesis by (auto simp: Update_def Let_def update_rows_def)
  qed
next
  case False
  with assms same show ?thesis
    by (fastforce simp: Update_def Let_def split: sum.splits prod.splits option.splits)
qed

lemma next_version_grows: "version_of r \<le> (case next_version r of VInt n \<Rightarrow> n | _ \<Rightarrow> 0)"
  by (simp add: next_version_def version_of_def split: sql_value.splits)

lemma written_later:
  assumes "unmanaged kvs"
  shows "later_row r (set_cells (kvs @ [(''version'', next_version r), (''updated_at'', t)]) r)"
  unfolding later_row_def version_of_def version_written
  using cell_unmanaged [OF assms, of "''rid''"] next_version_grows [of r]
  by (simp add: protectedColumns_def version_of_def)

lemma Update_later:
  assumes "Update s p now loc ch opts rows = (rows', res)" "plain_store s"
  shows "list_all2 later_row rows rows'"
  using assms(1)
proof (cases rule: Update_cases)
  case same
  then show ?thesis by (simp add: later_row_def list_all2_same)
next
  case (ran b tx cfg f)
  have "later_row r (f r)" for r
    unfolding ran(3) using written_later [OF build_unmanaged [OF ran(1) assms(2)]] .
  then show ?thesis unfolding ran(4) by (auto simp: list_all2_map2 list_all2_same later_row_def)
qed

type_synonym update_call = "Principal option \<times> instant \<times> Locator \<times> Changes \<times> Option list"

definition run_update :: "Store \<Rightarrow> update_call \<Rightarrow> row list \<Rightarrow> row list" where
  "run_update s c rows = (case c of (p, now, loc, ch, opts) \<Rightarrow> fst (Update s p now loc ch opts rows))"

lemma run_updates_later:
  assumes "plain_store s"
  shows "list_all2 later_row rows (fold (run_update s) cs rows)"
proof (induction cs arbitrary: rows)
  case (Cons c cs)
  obtain p now loc ch opts where c: "c = (p, now, loc, ch, opts)" by (cases c)
  have "list_all2 later_row rows (run_update s c rows)"
    using Update_later [OF _ assms, of p now loc ch opts rows] by (cases "Update s p now loc ch opts rows") (simp add: run_update_def c)
  with Cons.IH [of "run_update s c rows"] show ?case
    by (auto intro: list_all2_trans [OF later_row_trans])
qed (simp add: list_all2_same later_row_def)

lemma write_query_rid:
  assumes "write_query s p (RID rid) opts = Inr (tx, cfg)" "sat (tx @ cs) r"
  shows "cell ''rid'' r = VStr rid"
proof -
  from assms(1) obtain tx0 where "tx = tx0 @ [Cmp Eq (table s @ ''.rid'') (VStr rid)]"
    by (auto simp: write_query_def loc_apply_def map_sum_Inr split: sum.splits prod.splits)
  with assms(2) show ?thesis by (simp add: sat_def sql_compare_def cell_qualified)
qed

lemma sat_version: "l > 0 \<Longrightarrow> sat (tx @ version_lock s l) r \<Longrightarrow> version_of r = l"
  by (simp add: sat_def version_lock_def sql_compare_def cell_qualified version_of_def)

lemma locked_row:
  assumes "Update s p now (RID rid) ch opts rows = (rows', Inr ())" "locked_at s p (RID rid) ch opts = l" "l > 0"
    and "plain_store s" "\<forall>i < length rows. \<forall>j < length rows. cell ''rid'' (rows ! i) = VStr rid \<and> cell ''rid'' (rows ! j) = VStr rid \<longrightarrow> i = j"
  shows "\<forall>r \<in> set rows'. cell ''rid'' r = VStr rid \<longrightarrow> version_of r = l + 1"
  using assms(1)
proof (cases rule: Update_cases)
  case (ran b tx cfg f)
  let ?tx = "tx @ version_lock s (locked_at s p (RID rid) ch opts)"
  from ran(5) obtain i where i: "i < length rows" "sat ?tx (rows ! i)" by (auto simp: list_ex_length)
  have un: "unmanaged (payload b)" by (rule build_unmanaged [OF ran(1) assms(4)])
  have rid: "cell ''rid'' (f r) = cell ''rid'' r" for r
    unfolding ran(3) by (rule cell_unmanaged [OF un]) (simp_all add: protectedColumns_def)
  show ?thesis
  proof (intro ballI impI)
    fix r
    assume r: "r \<in> set rows'" "cell ''rid'' r = VStr rid"
    then obtain j where j: "j < length rows" "r = (if sat ?tx (rows ! j) then f (rows ! j) else rows ! j)"
      unfolding ran(4) by (auto simp: in_set_conv_nth)
    then have "cell ''rid'' (rows ! j) = VStr rid" using r(2) rid by (auto split: if_splits)
    then have "j = i" using assms(5) i write_query_rid [OF ran(2) i(2)] j(1) by blast
    with j i have f: "r = f (rows ! i)" by simp
    have "cell ''version'' (rows ! i) = VInt l"
      using i(2) assms(2,3) by (simp add: sat_def version_lock_def sql_compare_def cell_qualified)
    then show "version_of r = l + 1"
      unfolding f ran(3) version_of_def version_written next_version_def by simp
  qed
qed simp

lemma list_all2_member: "list_all2 P xs ys \<Longrightarrow> y \<in> set ys \<Longrightarrow> \<exists>x \<in> set xs. P x y"
  by (induction rule: list_all2_induct) auto

section \<open>Properties\<close>

text \<open>C8: Of two updates of a row that were locked on the same version, one succeeds: once the first
  did, the second changes nothing and is refused, whatever updates of whomever came between. So
  no client overwrites a change it has not seen, as long as its update carries a version.\<close>

theorem update_lock_once:
  assumes "plain_store s" "Update s p now (RID rid) ch opts rows = (rows1, Inr ())" "locked_at s p (RID rid) ch opts = l" "l > 0"
    and "\<forall>i < length rows. \<forall>j < length rows. cell ''rid'' (rows ! i) = VStr rid \<and> cell ''rid'' (rows ! j) = VStr rid \<longrightarrow> i = j"
    and "locked_at s p' (RID rid) ch' opts' = l" "rows2 = fold (run_update s) between rows1"
  shows "\<exists>e. Update s p' now' (RID rid) ch' opts' rows2 = (rows2, Inl e)"
proof -
  obtain rows3 res where u: "Update s p' now' (RID rid) ch' opts' rows2 = (rows3, res)"
    by (cases "Update s p' now' (RID rid) ch' opts' rows2")
  have late: "version_of r > l" if r: "r \<in> set rows2" "cell ''rid'' r = VStr rid" for r
  proof -
    have "list_all2 later_row rows1 rows2" unfolding assms(7) by (rule run_updates_later [OF assms(1)])
    then obtain r1 where "r1 \<in> set rows1" "later_row r1 r" using list_all2_member [OF _ r(1)] by blast
    then have "cell ''rid'' r1 = VStr rid" "version_of r1 \<le> version_of r" using r(2) by (simp_all add: later_row_def)
    moreover from this have "version_of r1 = l + 1" using locked_row [OF assms(2-4) assms(1,5)] \<open>r1 \<in> set rows1\<close> by blast
    ultimately show ?thesis by simp
  qed
  from u show ?thesis
  proof (cases rule: Update_cases)
    case (ran b tx cfg f)
    have "\<not> sat (tx @ version_lock s (locked_at s p' (RID rid) ch' opts')) r" if "r \<in> set rows2" for r
    proof
      assume m: "sat (tx @ version_lock s (locked_at s p' (RID rid) ch' opts')) r"
      then have "version_of r = l" unfolding assms(6) by (rule sat_version [OF assms(4)])
      moreover have "version_of r > l" by (rule late [OF that write_query_rid [OF ran(2) m]])
      ultimately show False by simp
    qed
    then have "rows3 = rows2" "res \<noteq> Inr ()" using ran(4,5) by (auto simp: list_ex_iff intro!: map_idI)
    with u show ?thesis by (cases res) auto
  qed (use u in auto)
qed

text \<open>Without a principal a fenced store gives nothing and takes nothing: a read finds no row, and an
  update, a delete or a restore is refused and changes nothing.\<close>

theorem store_no_principal:
  assumes "New d = Inr s" "downer d" "OwnerScope (dpolicy d) \<noteq> Some False"
    and "p = None \<or> (\<exists>pr. p = Some pr \<and> UserID pr = [])"
  shows "(\<forall>r. get_row s p loc opts rows \<noteq> Inr r) \<and> (\<forall>n. count_rows s p opts rows = Inr n \<longrightarrow> n = 0) \<and>
    Exists s p loc rows \<noteq> Inr True \<and>
    (\<exists>e. Update s p now loc ch opts rows = (rows, Inl e)) \<and> Delete s p now token loc opts rows = (rows, Inl NoPrincipal) \<and>
    (\<exists>e. Restore s p now loc rows = (rows, Inl e))"
proof -
  have sc: "scoped s p = Inl NoPrincipal"
    by (rule scoped_none [OF New_fenced [OF assms(1-3)] assms(4)])
  then have rd: "readScoped s p = Inr [Never]" and wr: "write_query s p loc ops = Inl NoPrincipal" for ops
    by (simp_all add: readScoped_def write_query_def)
  have never: "\<not> sat tx r" if "Never \<in> set tx" for tx r
    using that holds.simps(1) [of r] unfolding sat_def list_all_iff by blast
  have q: "Never \<in> set tx" if "read_query s p cfg0 opts = Inr (tx, cfg)" for cfg0 tx cfg
    using that rd by (auto simp: read_query_def dest: apply_options_extends)
  have l: "Never \<in> set tx'" if "loc_apply s loc tx = Inr tx'" "Never \<in> set tx" for tx tx'
    using loc_apply_extends [OF that(1)] that(2) by auto
  have "get_row s p loc opts rows \<noteq> Inr r" for r
    using q l never by (auto simp: get_row_def split: sum.splits list.splits)
  moreover have "count_rows s p opts rows = Inr n \<longrightarrow> n = 0" for n
    using q never by (auto simp: count_rows_def map_sum_Inr)
  moreover have "Exists s p loc rows \<noteq> Inr True"
    using rd never l [of "[Never] @ live_conds s"] by (auto simp: Exists_def exists_row_def map_sum_Inr list_ex_iff)
  ultimately show ?thesis
    using wr by (auto simp: Update_def Delete_def Restore_def split: sum.splits)
qed

section \<open>Two ways around the lock\<close>

definition demo_decl :: store_decl where
  "demo_decl =
     \<lparr>dtable = ''posts'',
      dfields = [\<lparr>DBName = ''id'', publicName = ''id'', tag = None\<rparr>, \<lparr>DBName = ''rid'', publicName = ''id'', tag = None\<rparr>,
        \<lparr>DBName = ''version'', publicName = ''version'', tag = None\<rparr>, \<lparr>DBName = ''title'', publicName = ''title'', tag = Some ''query,update''\<rparr>,
        \<lparr>DBName = ''rank'', publicName = ''rank'', tag = Some ''query''\<rparr>, \<lparr>DBName = ''owner_id'', publicName = ''owner_id'', tag = None\<rparr>],
      dschema = [(''rid'', Some \<lparr>skind = ''str'', sbits = 0\<rparr>, False), (''title'', Some \<lparr>skind = ''str'', sbits = 0\<rparr>, False),
        (''rank'', Some \<lparr>skind = ''int'', sbits = 64\<rparr>, False)],
      dtypes = [(''rank'', \<lparr>skind = ''int'', sbits = 64\<rparr>)],
      dsoft = True, downer = True, dprefix = Some ''pst'',
      dpolicy = \<lparr>RequirePrincipal = False, AdminRoles = [''admin''], OwnerScope = None, DefaultPageSize = 20, MaxPageSize = 100\<rparr>,
      daliases = [], dscopes = [],
      dhooks = \<lparr>BeforeCreate = Inr, BeforeUpdate = (\<lambda>_ _. None), BeforeDelete = (\<lambda>_. None)\<rparr>,
      dviolates = (\<lambda>_. None)\<rparr>"

definition demo_store :: Store where
  "demo_store = (case New demo_decl of Inr s \<Rightarrow> s | Inl _ \<Rightarrow>
     \<lparr>table = [], schema_cols = [], queryFields = [], updateFields = [], columns = [], filterTypes = [], soft = False, owned = False, ridPrefix = None,
      policy = dpolicy demo_decl, adminRoles = [], scopes = [], hooks = dhooks demo_decl, violates = (\<lambda>_. None)\<rparr>)"

definition demo_row :: "string \<Rightarrow> nat \<Rightarrow> string \<Rightarrow> int \<Rightarrow> int \<Rightarrow> string \<Rightarrow> row" where
  "demo_row rid i title rank ver own =
     [(''id'', VUint i), (''rid'', VStr rid), (''title'', VStr title), (''rank'', VInt rank), (''version'', VInt ver),
      (''deleted_at'', VNull), (''owner_id'', VStr own)]"

definition ann :: "Principal option" where
  "ann = Some \<lparr>UserID = ''ann'', Roles = []\<rparr>"

definition retitle :: "req_version \<Rightarrow> Changes" where
  "retitle v = Patch \<lparr>plan = [''title''], given = [(''title'', VStr ''mine'')], misfits = [], onto = Some 1, req_version = v\<rparr>"

definition moved_rows :: "row list" where
  "moved_rows = [demo_row ''p1'' 1 ''theirs'' 3 5 ''ann'']"


text \<open>A conflict is reported that is none. The row is at version 5, the update is locked on version 5 and
  has a filter the row does not meet: it is refused as a version conflict, as if the row had
  moved on, where a row that is not at another version is to be not found.\<close>

theorem missed_without_conflict:
  "snd (Update demo_store ann 9 (RID ''p1'') (Set [(''title'', VStr ''x'')]) [AtVersion 5, Compare Eq ''rank'' (VInt 7)] moved_rows) =
     Inl (VersionConflict 5) \<and>
   map version_of moved_rows = [5]"
  by code_simp

section \<open>Witnesses\<close>

lemma demo_new: "New demo_decl = Inr demo_store"
proof -
  have "\<not> isl (New demo_decl)" by code_simp
  then show ?thesis unfolding demo_store_def by (cases "New demo_decl") simp_all
qed

lemma demo_plain: "plain_store demo_store"
proof -
  have "list_all (\<lambda>(f, col). CHR ''.'' \<notin> set col) (columns demo_store @ updateFields demo_store)" by code_simp
  then show ?thesis by (auto simp: plain_store_def list_all_iff)
qed

theorem update_lock_once_witness:
  "\<exists>e. Update demo_store ann 9 (RID ''p1'') (retitle (PtrField (Some 5)))  []
      (fst (Update demo_store ann 8 (RID ''p1'') (retitle (PtrField (Some 5))) [] moved_rows)) =
    (fst (Update demo_store ann 8 (RID ''p1'') (retitle (PtrField (Some 5))) [] moved_rows), Inl e)"
proof (rule update_lock_once [OF demo_plain, where l = 5 and between = "[]"])
  show "Update demo_store ann 8 (RID ''p1'') (retitle (PtrField (Some 5))) [] moved_rows =
    (fst (Update demo_store ann 8 (RID ''p1'') (retitle (PtrField (Some 5))) [] moved_rows), Inr ())"
    by code_simp
  show "locked_at demo_store ann (RID ''p1'') (retitle (PtrField (Some 5))) [] = 5"
    "locked_at demo_store ann (RID ''p1'') (retitle (PtrField (Some 5))) [] = 5" by code_simp+
qed (simp_all add: moved_rows_def)

theorem store_no_principal_witness:
  "Delete demo_store None 9 ''t'' (RID ''p1'') [] moved_rows = (moved_rows, Inl NoPrincipal)"
  using store_no_principal [OF demo_new, of None "RID ''p1''"] by (simp add: demo_decl_def)

end
