(* ===== verification/Store_Owners.thy ===== *)
theory Store_Owners
  imports Store_Pages
begin

text \<open>
  What the owner scope of \<^verbatim>\<open>src/store/store.go\<close> is worth, over the reads and writes of \<^verbatim>\<open>Store\<close> and
  \<^verbatim>\<open>Store_Pages\<close>: one call stays within the rows of its caller, and no sequence of calls of others
  changes what a caller can read. The second is proved of any operations that keep the rows of
  others, a locale, which the writes of a store are an instance of.
\<close>

section \<open>The fence of the owner\<close>

lemma after_cursor_extends: "after_cursor s C cfg spec tx = Inr tx' \<Longrightarrow> sat tx' r \<Longrightarrow> sat tx r"
  by (auto simp: after_cursor_def sat_def split: prod.splits if_splits sum.splits)

lemma keyset_sat:
  assumes "keyset s C p tx cfg opts rows = Inr pg" "r \<in> set (Items pg)"
  shows "sat tx r"
proof -
  from assms(1) obtain spec tx' where "after_cursor s C cfg spec tx = Inr tx'" "set (Items pg) \<subseteq> set (keyset_rows s cfg tx' rows)"
    unfolding keyset_def Let_def by (auto simp: set_take_subset split: if_splits sum.splits option.splits prod.splits)
  with assms(2) after_cursor_extends show ?thesis by (auto simp: set_keyset_rows dest: in_set_takeD)
qed

lemma List_sat:
  "List s C p opts rows = Inr pg \<Longrightarrow> r \<in> set (Items pg) \<Longrightarrow> \<exists>tx cfg. read_query s p newConfig opts = Inr (tx, cfg) \<and> sat tx r"
  by (auto simp: List_def Let_def dest!: in_set_takeD in_set_dropD keyset_sat split: if_splits sum.splits)

lemma ListWithCursor_sat:
  "ListWithCursor s C p opts rows = Inr pg \<Longrightarrow> r \<in> set (Items pg) \<Longrightarrow> \<exists>tx cfg. read_query s p newConfig opts = Inr (tx, cfg) \<and> sat tx r"
  by (auto simp: ListWithCursor_def dest!: keyset_sat split: sum.splits)

lemma ListFromQuery_sat:
  assumes "ListFromQuery s C p q rows = Inr pg" "r \<in> set (Items pg)"
  shows "\<exists>opts tx cfg. read_query s p newConfig opts = Inr (tx, cfg) \<and> sat tx r"
proof -
  from assms(1) obtain opts where "List s C p opts rows = Inr pg" by (auto simp: ListFromQuery_def split: sum.splits prod.splits)
  from List_sat [OF this assms(2)] show ?thesis by blast
qed

lemma get_row_sat:
  assumes "get_row s p loc opts rows = Inr r"
  shows "\<exists>tx cfg. read_query s p newConfig opts = Inr (tx, cfg) \<and> sat tx r"
proof -
  from assms obtain tx cfg tx' rest where q: "read_query s p newConfig opts = Inr (tx, cfg)" "loc_apply s loc tx = Inr tx'"
      "sort_key (cell ''id'') (filter (sat tx') rows) = r # rest"
    by (auto simp: get_row_def split: sum.splits list.splits)
  then have "r \<in> set (filter (sat tx') rows)" by (metis list.set_intros(1) set_sort)
  then have "sat tx' r" by simp
  with q loc_apply_extends [OF q(2)] show ?thesis by (auto simp: sat_def)
qed

lemma New_hooks: "New d = Inr s \<Longrightarrow> hooks s = dhooks d"
  by (auto simp: New_def Let_def split: sum.splits option.splits if_splits prod.splits)

text \<open>C15: The fence of the owner. In a store whose model has an owner, a caller that is not an admin reads only
  rows of its own, by a get, a list, a list with cursors or the query of a request; and an
  update, a delete, a restore or a create changes, removes or adds rows of its own only, as long
  as the hooks leave the owner alone.\<close>

theorem store_owner_fence:
  assumes "New d = Inr s" "downer d" "OwnerScope (dpolicy d) \<noteq> Some False" "\<not> isAdmin s pr" "UserID pr \<noteq> []" "plain_store s"
    and "\<forall>r r'. BeforeCreate (dhooks d) r = Inr r' \<longrightarrow> owner_of r' = owner_of r"
  shows "(\<forall>r. get_row s (Some pr) loc opts rows = Inr r \<longrightarrow> owner_of r = UserID pr) \<and>
    (\<forall>pg. List s C (Some pr) opts rows = Inr pg \<or> ListWithCursor s C (Some pr) opts rows = Inr pg \<or>
       ListFromQuery s C (Some pr) q rows = Inr pg \<longrightarrow> (\<forall>r \<in> set (Items pg). owner_of r = UserID pr)) \<and>
    fenced (UserID pr) rows (fst (Update s (Some pr) now loc ch opts rows)) \<and>
    fenced (UserID pr) rows (fst (Delete s (Some pr) now token loc opts rows)) \<and>
    fenced (UserID pr) rows (fst (Restore s (Some pr) now loc rows)) \<and>
    fenced (UserID pr) rows (fst (Create s (Some pr) now fresh obj rows)) \<and>
    fenced (UserID pr) rows (fst (BatchCreate s (Some pr) now freshs objs rows))"
proof -
  have f: "fenced_store s" by (rule New_fenced [OF assms(1-3)])
  have own: "owner_of r = UserID pr" if "\<exists>opts tx cfg. read_query s (Some pr) newConfig opts = Inr (tx, cfg) \<and> sat tx r" for r
    using that sat_read_fence [OF f _ assms(4,5)] by blast
  have reads: "owner_of r = UserID pr" if "List s C (Some pr) opts rows = Inr pg \<or> ListWithCursor s C (Some pr) opts rows = Inr pg \<or>
       ListFromQuery s C (Some pr) q rows = Inr pg" "r \<in> set (Items pg)" for pg r
    using that by (elim disjE) (blast dest: List_sat ListWithCursor_sat ListFromQuery_sat intro: own)+
  have "owner_of r = UserID pr" if "get_row s (Some pr) loc opts rows = Inr r" for r
    using get_row_sat [OF that] own by blast
  moreover have "fenced (UserID pr) rows (fst (Create s (Some pr) now fresh obj rows))"
    by (rule Create_fenced [OF f assms(4,5)]) (use assms(7) New_hooks [OF assms(1)] in simp)
  moreover have "fenced (UserID pr) rows (fst (BatchCreate s (Some pr) now freshs objs rows))"
    by (rule BatchCreate_fenced [OF f assms(4,5)]) (use assms(7) New_hooks [OF assms(1)] in simp)
  ultimately show ?thesis
    using reads Update_fenced [OF f assms(6,4,5)] Delete_fenced [OF f assms(4,5)] Restore_fenced [OF f assms(4,5)] by blast
qed

section \<open>Calls of others\<close>

definition rows_of :: "string \<Rightarrow> row list \<Rightarrow> row list" where
  "rows_of u rows = filter (\<lambda>r. owner_of r = u) rows"

lemma fenced_apart:
  assumes "fenced v rows rows'" "u \<noteq> v"
  shows "rows_of u rows' = rows_of u rows"
proof -
  from assms(1) obtain f keep new where r: "rows' = map f (filter keep rows) @ new" "\<forall>r. owner_of (f r) = owner_of r"
      "\<forall>r. owner_of r \<noteq> v \<longrightarrow> keep r \<and> f r = r" "\<forall>r \<in> set new. owner_of r = v"
    by (auto simp: fenced_def)
  have "rows_of u new = []" using r(4) assms(2) by (auto simp: rows_of_def filter_empty_conv)
  moreover have "rows_of u (map f (filter keep rows)) = rows_of u rows"
    using r(2,3) assms(2) by (induction rows) (auto simp: rows_of_def)
  ultimately show ?thesis by (simp add: r(1) rows_of_def)
qed

text \<open>
  Operations with an actor, of which one leaves the rows of every other user as they are. A view
  is anything that is read of the rows of one user only.
\<close>

locale isolated =
  fixes run :: "'op \<Rightarrow> row list \<Rightarrow> row list" and actor :: "'op \<Rightarrow> string" and allowed :: "'op \<Rightarrow> bool"
  assumes apart: "allowed op \<Longrightarrow> actor op \<noteq> u \<Longrightarrow> rows_of u (run op rows) = rows_of u rows"
begin

lemma run_all: "list_all (\<lambda>op. allowed op \<and> actor op \<noteq> u) ops \<Longrightarrow> rows_of u (fold run ops rows) = rows_of u rows"
proof (induction ops arbitrary: rows)
  case (Cons op ops)
  then have "rows_of u (fold run (op # ops) rows) = rows_of u (run op rows)" by simp
  also have "\<dots> = rows_of u rows" using Cons.prems by (intro apart) simp_all
  finally show ?case .
qed simp

lemma view_kept:
  assumes "\<And>rows. view (rows_of u rows) = view rows" "list_all (\<lambda>op. allowed op \<and> actor op \<noteq> u) ops"
  shows "view (fold run ops rows) = view rows"
  using assms(1) run_all [OF assms(2)] by metis

end

datatype store_call =
    CallCreate instant string row
  | CallBatch instant "string list" "row list"
  | CallUpdate instant Locator Changes "Option list"
  | CallDelete instant string Locator "Option list"
  | CallRestore instant Locator

type_synonym store_op = "Store \<times> Principal \<times> store_call"

fun run_call :: "store_op \<Rightarrow> row list \<Rightarrow> row list" where
  "run_call (s, pr, CallCreate now fresh obj) rows = fst (Create s (Some pr) now fresh obj rows)"
| "run_call (s, pr, CallBatch now fresh objs) rows = fst (BatchCreate s (Some pr) now fresh objs rows)"
| "run_call (s, pr, CallUpdate now loc ch opts) rows = fst (Update s (Some pr) now loc ch opts rows)"
| "run_call (s, pr, CallDelete now token loc opts) rows = fst (Delete s (Some pr) now token loc opts rows)"
| "run_call (s, pr, CallRestore now loc) rows = fst (Restore s (Some pr) now loc rows)"

definition caller :: "store_op \<Rightarrow> string" where
  "caller op = UserID (fst (snd op))"

definition plain_user :: "Store \<Rightarrow> Principal \<Rightarrow> bool" where
  "plain_user s pr \<longleftrightarrow> \<not> isAdmin s pr \<and> UserID pr \<noteq> []"

text \<open>A store as \<open>New\<close> gives it for a model with owners, whose hooks leave the owner alone.\<close>

definition owner_store :: "Store \<Rightarrow> bool" where
  "owner_store s \<longleftrightarrow> fenced_store s \<and> plain_store s \<and> (\<forall>r r'. BeforeCreate (hooks s) r = Inr r' \<longrightarrow> owner_of r' = owner_of r)"

definition plain_call :: "store_op \<Rightarrow> bool" where
  "plain_call op \<longleftrightarrow> owner_store (fst op) \<and> plain_user (fst op) (fst (snd op))"

lemma run_call_fenced:
  assumes "plain_call op"
  shows "fenced (caller op) rows (run_call op rows)"
proof -
  obtain s pr c where op: "op = (s, pr, c)" by (cases op)
  with assms have s: "fenced_store s" "plain_store s" "\<not> isAdmin s pr" "UserID pr \<noteq> []"
      "\<And>r r'. BeforeCreate (hooks s) r = Inr r' \<Longrightarrow> owner_of r' = owner_of r"
    by (simp_all add: plain_call_def owner_store_def plain_user_def)
  show ?thesis
    using Create_fenced [OF s(1,3,4,5)] BatchCreate_fenced [OF s(1,3,4,5)] Update_fenced [OF s(1-4)]
      Delete_fenced [OF s(1,3,4)] Restore_fenced [OF s(1,3,4)]
    by (cases c) (simp_all add: op caller_def)
qed

interpretation calls: isolated run_call caller plain_call
  by unfold_locales (use run_call_fenced fenced_apart in metis)

section \<open>What a caller reads\<close>

lemma filter_own:
  "(\<And>r. sat tx r \<Longrightarrow> owner_of r = u) \<Longrightarrow> filter (sat tx) (rows_of u rows) = filter (sat tx) rows"
  by (induction rows) (auto simp: rows_of_def)

lemma count_own:
  assumes "fenced_store s" "plain_user s pr"
  shows "count_rows s (Some pr) opts (rows_of (UserID pr) rows) = count_rows s (Some pr) opts rows"
proof (cases "read_query s (Some pr) (newConfig\<lparr>FiltersOnly := True\<rparr>) opts")
  case (Inr q)
  obtain tx cfg where q: "q = (tx, cfg)" by (cases q)
  have "owner_of r = UserID pr" if "sat tx r" for r
    using sat_read_fence [OF assms(1) Inr [unfolded q] _ _ that] assms(2) by (simp add: plain_user_def)
  then show ?thesis by (simp add: count_rows_def Inr q filter_own)
qed (simp add: count_rows_def)

lemma get_own:
  assumes "fenced_store s" "plain_user s pr"
  shows "get_row s (Some pr) loc opts (rows_of (UserID pr) rows) = get_row s (Some pr) loc opts rows"
proof (cases "read_query s (Some pr) newConfig opts")
  case (Inr q)
  obtain tx cfg where q: "q = (tx, cfg)" by (cases q)
  have own: "owner_of r = UserID pr" if "sat tx r" for r
    using sat_read_fence [OF assms(1) Inr [unfolded q] _ _ that] assms(2) by (simp add: plain_user_def)
  have "filter (sat tx') (rows_of (UserID pr) rows) = filter (sat tx') rows" if "loc_apply s loc tx = Inr tx'" for tx'
    using loc_apply_extends [OF that] own by (intro filter_own) (auto simp: sat_def)
  then show ?thesis by (auto simp: get_row_def Inr q split: sum.splits)
qed (simp add: get_row_def)

lemma total_own:
  "fenced_store s \<Longrightarrow> plain_user s pr \<Longrightarrow> total_rows s (Some pr) cfg opts (rows_of (UserID pr) rows) = total_rows s (Some pr) cfg opts rows"
  by (simp add: total_rows_def count_own)

lemma keyset_own:
  assumes "fenced_store s" "plain_user s pr" "\<And>r. sat tx r \<Longrightarrow> owner_of r = UserID pr"
  shows "keyset s C (Some pr) tx cfg opts (rows_of (UserID pr) rows) = keyset s C (Some pr) tx cfg opts rows"
proof -
  have rows: "keyset_rows s cfg tx' (rows_of (UserID pr) rows) = keyset_rows s cfg tx' rows"
    if "after_cursor s C cfg spec tx = Inr tx'" for spec tx'
    using after_cursor_extends [OF that] assms(3) by (simp add: keyset_rows_def filter_own)
  show ?thesis
    unfolding keyset_def Let_def total_own [OF assms(1,2)]
    by (auto simp: rows split: option.splits sum.splits prod.splits)
qed

lemma List_own:
  assumes "fenced_store s" "plain_user s pr"
  shows "List s C (Some pr) opts (rows_of (UserID pr) rows) = List s C (Some pr) opts rows"
    "ListWithCursor s C (Some pr) opts (rows_of (UserID pr) rows) = ListWithCursor s C (Some pr) opts rows"
proof -
  have own: "owner_of r = UserID pr" if "read_query s (Some pr) newConfig opts = Inr (tx, cfg)" "sat tx r" for tx cfg r
    using sat_read_fence [OF assms(1) that(1) _ _ that(2)] assms(2) by (simp add: plain_user_def)
  show "ListWithCursor s C (Some pr) opts (rows_of (UserID pr) rows) = ListWithCursor s C (Some pr) opts rows"
    by (auto simp: ListWithCursor_def keyset_own [OF assms own] split: sum.splits prod.splits)
  show "List s C (Some pr) opts (rows_of (UserID pr) rows) = List s C (Some pr) opts rows"
  proof (cases "read_query s (Some pr) newConfig opts")
    case (Inr b)
    obtain tx cfg where b: "b = (tx, cfg)" by (cases b)
    note o = own [OF Inr [unfolded b]]
    have f: "filter (sat tx) (rows_of (UserID pr) rows) = filter (sat tx) rows" by (rule filter_own) (rule o)
    have k: "keyset s C (Some pr) tx cfg opts (rows_of (UserID pr) rows) = keyset s C (Some pr) tx cfg opts rows"
      by (rule keyset_own [OF assms]) (rule o)
    show ?thesis unfolding List_def total_own [OF assms] Inr b sum.case prod.case f k ..
  qed (simp add: List_def)
qed

lemma ListFromQuery_own:
  assumes "fenced_store s" "plain_user s pr"
  shows "ListFromQuery s C (Some pr) q (rows_of (UserID pr) rows) = ListFromQuery s C (Some pr) q rows"
  by (auto simp: ListFromQuery_def List_own(1) [OF assms] split: sum.splits)


section \<open>Witnesses\<close>

theorem store_owner_fence_witness:
  "fenced ''ann'' demo_rows (fst (Delete demo_store ann 9 ''t'' (RID ''p2'') [] demo_rows)) \<and>
   list_all (\<lambda>r. owner_of r = ''ann'') (Items (projr (List demo_store demo_codec ann [] demo_rows)))"
proof -
  have "\<not> isl (List demo_store demo_codec ann [] demo_rows)" by code_simp
  then have l: "List demo_store demo_codec ann [] demo_rows = Inr (projr (List demo_store demo_codec ann [] demo_rows))" by simp
  have "\<not> isAdmin demo_store \<lparr>UserID = ''ann'', Roles = []\<rparr>" by code_simp
  moreover have "BeforeCreate (dhooks demo_decl) r = Inr r' \<longrightarrow> owner_of r' = owner_of r" for r r'
    by (simp add: demo_decl_def)
  moreover have "downer demo_decl" "OwnerScope (dpolicy demo_decl) \<noteq> Some False" by (simp_all add: demo_decl_def)
  ultimately have "(\<forall>pg. List demo_store demo_codec ann [] demo_rows = Inr pg \<longrightarrow> (\<forall>r \<in> set (Items pg). owner_of r = ''ann''))"
    "fenced ''ann'' demo_rows (fst (Delete demo_store ann 9 ''t'' (RID ''p2'') [] demo_rows))"
    using store_owner_fence [OF demo_new _ _ _ _ demo_plain, where pr = "\<lparr>UserID = ''ann'', Roles = []\<rparr>", unfolded Principal.simps] unfolding ann_def by blast+
  with l show ?thesis unfolding list_all_iff by blast
qed

lemma demo_owner_store: "owner_store demo_store"
proof -
  have "fenced_store demo_store" by (rule New_fenced [OF demo_new]) (simp_all add: demo_decl_def)
  then show ?thesis by (simp add: owner_store_def demo_plain New_hooks [OF demo_new]) (simp add: demo_decl_def)
qed

definition bob :: Principal where
  "bob = \<lparr>UserID = ''bob'', Roles = []\<rparr>"

definition bobs_calls :: "store_op list" where
  "bobs_calls =
     [(demo_store, bob, CallDelete 5 ''t'' (RID ''p1'') []), (demo_store, bob, CallCreate 6 ''000000000000'' (demo_row [] 0 ''b'' 1 0 ''ann'')),
      (demo_store, bob, CallUpdate 7 (RID ''p2'') (Set [(''title'', VStr ''x'')]) [])]"


end
