(* ===== verification/Migrate.thy ===== *)
theory Migrate
  imports Sql_Split "HOL-Library.AList" "HOL-Library.Char_ord" "HOL-Library.List_Lexorder"
begin

text \<open>
  The versioned migrations: \<^verbatim>\<open>src/db/migrate.go\<close>, and of \<^verbatim>\<open>src/db/db.go\<close> what a start does with them. A
  directory is the list of its entries, SHA-256 a function, a statement fails when the function
  \<open>breaks\<close> says so of what has run. Every call of the database can fail: it is refused, or it is done
  and its answer is lost, which is also what a process sees that dies right after the call. The
  failures to come are a list in the database. The trace of the statements that ran, with the
  migration they belong to, is kept beside it.

  SQLite and Postgres run a migration in one transaction; MySQL runs it statement by statement.
  On SQLite there is no lock, and the transactions of several processes interleave.

  The theorems: whatever fails, on SQLite and Postgres every migration runs once and in order,
  and a run that reports success has applied all; on MySQL no statement is left out and none runs
  before its turn, and one is repeated only where its answer or record was lost. And a partly
  applied migration does not keep an older one from being applied after it.
\<close>

section \<open>Files\<close>

record migration =
  MOwner :: string
  MVersion :: string
  MName :: string
  MFile :: string
  MStmts :: "string list"
  MSum :: string

record ledgerRow =
  LName :: string
  LChecksum :: string
  LAppliedAt :: "instant option"
  LStatementIndex :: nat

datatype mig_error =
    DbFault
  | NoDir
  | BadName string
  | SameVersion string string
  | NoStatements string
  | ChecksumDrift "string list"
  | MissingFiles "string list"
  | TooOld string
  | StatementFailed string nat
  | NothingApplied string
  | StatementsChanged string
  | NotMigrated "(string \<times> string) list"
  | NoVersion string
  | Ambiguous string

text \<open>The names of migrations: 14 digits, an underscore, a name, and the suffix \<^verbatim>\<open>.sql\<close>.\<close>

definition name_char :: "char \<Rightarrow> bool" where
  "name_char c \<longleftrightarrow>
     (CHR ''A'' \<le> c \<and> c \<le> CHR ''Z'') \<or> (CHR ''a'' \<le> c \<and> c \<le> CHR ''z'') \<or> is_digit c \<or> c = CHR ''_'' \<or> c = CHR ''-''"

definition fileName :: "string \<Rightarrow> (string \<times> string) option" where
  "fileName n =
     (let v = take 14 n; name = take (length n - 19) (drop 15 n)
      in if length n \<ge> 20 \<and> list_all is_digit v \<and> n ! 14 = CHR ''_'' \<and> list_all name_char name \<and> drop (length n - 4) n = ''.sql''
         then Some (v, name) else None)"

record entry =
  EName :: string
  EIsDir :: bool
  EContent :: "string option"

fun crlf :: "string \<Rightarrow> string" where
  "crlf (a # b # cs) = (if a = CHR 0x0D \<and> b = CHR 0x0A then CHR 0x0A # crlf cs else a # crlf (b # cs))"
| "crlf cs = cs"

definition sql_suffix :: "string \<Rightarrow> bool" where
  "sql_suffix n \<longleftrightarrow> length n \<ge> 4 \<and> drop (length n - 4) n = ''.sql''"

definition split_text :: "string \<Rightarrow> string list" where
  "split_text t = (case splitSQLStatements t of Some ss \<Rightarrow> ss | None \<Rightarrow> [])"

fun load_loop :: "(string \<Rightarrow> string) \<Rightarrow> string \<Rightarrow> entry list \<Rightarrow> (string \<times> string) list \<Rightarrow> migration list \<Rightarrow> mig_error + migration list" where
  "load_loop sha owner [] seen out = Inr out"
| "load_loop sha owner (e # es) seen out =
     (if EIsDir e \<or> \<not> sql_suffix (EName e) then load_loop sha owner es seen out
      else
        (case fileName (EName e) of
           None \<Rightarrow> Inl (BadName (EName e))
         | Some (v, name) \<Rightarrow>
             (case map_of seen v of
                Some prev \<Rightarrow> Inl (SameVersion prev (EName e))
              | None \<Rightarrow>
                  (case EContent e of
                     None \<Rightarrow> Inl DbFault
                   | Some raw \<Rightarrow>
                       (let txt' = crlf raw; stmts = split_text txt'
                        in if stmts = [] then Inl (NoStatements (EName e))
                           else load_loop sha owner es ((v, EName e) # seen)
                                  (out @ [\<lparr>MOwner = owner, MVersion = v, MName = name, MFile = EName e, MStmts = stmts, MSum = sha txt'\<rparr>]))))))"

text \<open>A file system gives the entries of a directory, if there is one.\<close>

definition loadMigrations :: "(string \<Rightarrow> string) \<Rightarrow> (string \<Rightarrow> entry list option) \<Rightarrow> string \<Rightarrow> string \<Rightarrow> mig_error + migration list" where
  "loadMigrations sha fsys owner dialect =
     (case (case fsys dialect of Some es \<Rightarrow> Some es | None \<Rightarrow> fsys ''.'') of
        None \<Rightarrow> Inl NoDir
      | Some es \<Rightarrow> map_sum id (sort_key MVersion) (load_loop sha owner es [] []))"

section \<open>The database\<close>

datatype fault = Fine | RefusedCall | LostAnswer

type_synonym ledger = "((string \<times> string) \<times> ledgerRow) list"

record mdb =
  trace :: "(string \<times> string \<times> string) list"
  ledger :: ledger
  faults :: "fault list"

record menv =
  sha :: "string \<Rightarrow> string"
  breaks :: "string list \<Rightarrow> string \<Rightarrow> bool"
  dialect :: string
  mnow :: instant

definition pop :: "mdb \<Rightarrow> fault \<times> mdb" where
  "pop st = (case faults st of [] \<Rightarrow> (Fine, st) | f # fs \<Rightarrow> (f, st\<lparr>faults := fs\<rparr>))"

text \<open>A call that reads, one that changes the ledger, and one that runs a statement.\<close>

definition query_call :: "mdb \<Rightarrow> mdb \<times> bool" where
  "query_call st = (case pop st of (f, st') \<Rightarrow> (st', f = Fine))"

definition ledger_call :: "(ledger \<Rightarrow> ledger) \<Rightarrow> mdb \<Rightarrow> mdb \<times> bool" where
  "ledger_call g st =
     (case pop st of
        (Fine, st') \<Rightarrow> (st'\<lparr>ledger := g (ledger st')\<rparr>, True)
      | (RefusedCall, st') \<Rightarrow> (st', False)
      | (LostAnswer, st') \<Rightarrow> (st'\<lparr>ledger := g (ledger st')\<rparr>, False))"

definition exec_call :: "menv \<Rightarrow> migration \<Rightarrow> string \<Rightarrow> mdb \<Rightarrow> mdb \<times> bool" where
  "exec_call E f stmt st =
     (case pop st of
        (RefusedCall, st') \<Rightarrow> (st', False)
      | (flt, st') \<Rightarrow>
          if breaks E (map (snd \<circ> snd) (trace st')) stmt then (st', False)
          else (st'\<lparr>trace := trace st' @ [(MOwner f, MVersion f, stmt)]\<rparr>, flt = Fine))"

definition checksum :: "menv \<Rightarrow> string \<Rightarrow> string" where
  "checksum E s = sha E s"

fun strings_join :: "string \<Rightarrow> string list \<Rightarrow> string" where
  "strings_join sep [] = []"
| "strings_join sep [x] = x"
| "strings_join sep (x # xs) = x @ sep @ strings_join sep xs"

definition prefixSum :: "menv \<Rightarrow> string list \<Rightarrow> nat \<Rightarrow> string" where
  "prefixSum E stmts n = checksum E (strings_join [CHR '';'', CHR 0x0A] (take n stmts))"

definition readLedger :: "mdb \<Rightarrow> string \<Rightarrow> (string \<times> ledgerRow) list" where
  "readLedger st owner = map (\<lambda>((o', v), r). (v, r)) (filter (\<lambda>((o', v), r). o' = owner) (ledger st))"

section \<open>The state of the migrations\<close>

text \<open>The owner and the time of a status, which no decision reads, are left out.\<close>

datatype mig_state = Pending | Partial | Drifted | Applied | Missing

record MigrationStatus =
  SVersion :: string
  SName :: string
  SState :: mig_state
  SStatements :: nat

definition file_state :: "(string \<times> ledgerRow) list \<Rightarrow> migration \<Rightarrow> MigrationStatus" where
  "file_state rows f =
     (case map_of rows (MVersion f) of
        None \<Rightarrow> \<lparr>SVersion = MVersion f, SName = MName f, SState = Pending, SStatements = 0\<rparr>
      | Some r \<Rightarrow>
          \<lparr>SVersion = MVersion f, SName = MName f,
           SState = (if LAppliedAt r = None then Partial else if LChecksum r \<noteq> MSum f then Drifted else Applied),
           SStatements = LStatementIndex r\<rparr>)"

definition status :: "migration list \<Rightarrow> (string \<times> ledgerRow) list \<Rightarrow> MigrationStatus list" where
  "status files rows =
     sort_key SVersion
       (map (file_state rows) files @
        map (\<lambda>(v, r). \<lparr>SVersion = v, SName = LName r, SState = Missing, SStatements = LStatementIndex r\<rparr>)
          (filter (\<lambda>(v, r). v \<notin> set (map MVersion files)) rows))"

section \<open>Applying\<close>

fun run_stmts :: "menv \<Rightarrow> migration \<Rightarrow> string list \<Rightarrow> mdb \<Rightarrow> mdb \<times> bool" where
  "run_stmts E f [] st = (st, True)"
| "run_stmts E f (s # ss) st = (case exec_call E f s st of (st', ok) \<Rightarrow> if ok then run_stmts E f ss st' else (st', False))"

definition row_done :: "menv \<Rightarrow> migration \<Rightarrow> ledgerRow" where
  "row_done E f = \<lparr>LName = MName f, LChecksum = MSum f, LAppliedAt = Some (mnow E), LStatementIndex = length (MStmts f)\<rparr>"

definition applied :: "mdb \<Rightarrow> migration \<Rightarrow> bool" where
  "applied st f = (case map_of (ledger st) (MOwner f, MVersion f) of None \<Rightarrow> False | Some r \<Rightarrow> LAppliedAt r \<noteq> None)"

text \<open>The body of the transaction: whether it is to be committed.\<close>

definition tx_body :: "menv \<Rightarrow> migration \<Rightarrow> mdb \<Rightarrow> mdb \<times> bool" where
  "tx_body E f st =
     (case query_call st of
        (st1, False) \<Rightarrow> (st1, False)
      | (st1, True) \<Rightarrow>
          if applied st1 f then (st1, True)
          else
            (case run_stmts E f (MStmts f) st1 of
               (st2, False) \<Rightarrow> (st2, False)
             | (st2, True) \<Rightarrow>
                 if map_of (ledger st2) (MOwner f, MVersion f) \<noteq> None then (st2, False)
                 else ledger_call (\<lambda>l. ((MOwner f, MVersion f), row_done E f) # l) st2))"

definition applyInTx :: "menv \<Rightarrow> migration \<Rightarrow> mdb \<Rightarrow> mdb \<times> (mig_error + unit)" where
  "applyInTx E f st =
     (case query_call st of
        (st0, False) \<Rightarrow> (st0, Inl DbFault)
      | (st0, True) \<Rightarrow>
          (case tx_body E f st0 of
             (st1, False) \<Rightarrow> (st1\<lparr>trace := trace st0, ledger := ledger st0\<rparr>, Inl (NothingApplied (MFile f)))
           | (st1, True) \<Rightarrow>
               (case pop st1 of
                  (Fine, st2) \<Rightarrow> (st2, Inr ())
                | (RefusedCall, st2) \<Rightarrow> (st2\<lparr>trace := trace st0, ledger := ledger st0\<rparr>, Inl DbFault)
                | (LostAnswer, st2) \<Rightarrow> (st2, Inl DbFault))))"

definition record_partial :: "menv \<Rightarrow> migration \<Rightarrow> nat \<Rightarrow> bool \<Rightarrow> ledger \<Rightarrow> ledger" where
  "record_partial E f n has l =
     (if \<not> has then
        ((MOwner f, MVersion f), \<lparr>LName = MName f, LChecksum = prefixSum E (MStmts f) n, LAppliedAt = None, LStatementIndex = n\<rparr>) # l
      else AList.map_entry (MOwner f, MVersion f) (\<lambda>r. r\<lparr>LChecksum := prefixSum E (MStmts f) n, LStatementIndex := n, LName := MName f\<rparr>) l)"

definition record_done :: "menv \<Rightarrow> migration \<Rightarrow> ledger \<Rightarrow> ledger" where
  "record_done E f l =
     AList.map_entry (MOwner f, MVersion f)
       (\<lambda>r. r\<lparr>LChecksum := MSum f, LAppliedAt := Some (mnow E), LStatementIndex := length (MStmts f)\<rparr>) l"

text \<open>The statements from the \<open>i\<close>-th on.\<close>

fun by_statement :: "menv \<Rightarrow> migration \<Rightarrow> nat \<Rightarrow> bool \<Rightarrow> string list \<Rightarrow> mdb \<Rightarrow> mdb \<times> (mig_error + unit)" where
  "by_statement E f i has [] st = (case ledger_call (record_done E f) st of (st', ok) \<Rightarrow> (st', if ok then Inr () else Inl DbFault))"
| "by_statement E f i has (s # ss) st =
     (case exec_call E f s st of
        (st', False) \<Rightarrow> (st', Inl (StatementFailed (MFile f) (i + 1)))
      | (st', True) \<Rightarrow>
          (case ledger_call (record_partial E f (i + 1) has) st' of
             (st'', False) \<Rightarrow> (st'', Inl DbFault)
           | (st'', True) \<Rightarrow> by_statement E f (i + 1) True ss st''))"

definition applyByStatement :: "menv \<Rightarrow> migration \<Rightarrow> ledgerRow option \<Rightarrow> mdb \<Rightarrow> mdb \<times> (mig_error + unit)" where
  "applyByStatement E f row st =
     (case row of
        None \<Rightarrow> by_statement E f 0 False (MStmts f) st
      | Some r \<Rightarrow>
          if LStatementIndex r > length (MStmts f) \<or> prefixSum E (MStmts f) (LStatementIndex r) \<noteq> LChecksum r
          then (st, Inl (StatementsChanged (MFile f)))
          else by_statement E f (LStatementIndex r) True (drop (LStatementIndex r) (MStmts f)) st)"

definition newest_of :: "MigrationStatus list \<Rightarrow> string" where
  "newest_of sts = fold (\<lambda>st v. if SState st = Applied \<or> SState st = Drifted then max v (SVersion st) else v) sts []"

definition in_state :: "mig_state \<Rightarrow> MigrationStatus list \<Rightarrow> string list" where
  "in_state x sts = map (\<lambda>st. SVersion st @ CHR ''_'' # SName st) (filter (\<lambda>st. SState st = x) sts)"

text \<open>What a run decides before it applies anything: the newest version applied so far.\<close>

definition apply_checks :: "migration list \<Rightarrow> (string \<times> ledgerRow) list \<Rightarrow> mig_error + string" where
  "apply_checks files rows =
     (let sts = status files rows
      in if in_state Drifted sts \<noteq> [] then Inl (ChecksumDrift (in_state Drifted sts))
         else if in_state Missing sts \<noteq> [] then Inl (MissingFiles (in_state Missing sts))
         else Inr (newest_of sts))"

definition apply_file :: "menv \<Rightarrow> (string \<times> ledgerRow) list \<Rightarrow> string \<Rightarrow> migration \<Rightarrow> mdb \<Rightarrow> mdb \<times> (mig_error + unit)" where
  "apply_file E rows newest f st =
     (let row = map_of rows (MVersion f)
      in if (case row of None \<Rightarrow> False | Some r \<Rightarrow> LAppliedAt r \<noteq> None) then (st, Inr ())
         else if row = None \<and> MVersion f < newest then (st, Inl (TooOld (MFile f)))
         else if dialect E = ''mysql'' then applyByStatement E f row st
         else applyInTx E f st)"

fun apply_loop :: "menv \<Rightarrow> (string \<times> ledgerRow) list \<Rightarrow> string \<Rightarrow> migration list \<Rightarrow> mdb \<Rightarrow> mdb \<times> (mig_error + unit)" where
  "apply_loop E rows newest [] st = (st, Inr ())"
| "apply_loop E rows newest (f # fs) st =
     (case apply_file E rows newest f st of
        (st', Inl e) \<Rightarrow> (st', Inl e)
      | (st', Inr _) \<Rightarrow> apply_loop E rows newest fs st')"

definition lockMigrations :: "menv \<Rightarrow> mdb \<Rightarrow> mdb \<times> bool" where
  "lockMigrations E st = (if dialect E \<noteq> ''postgres'' \<and> dialect E \<noteq> ''mysql'' then (st, True) else query_call st)"

text \<open>The table of the ledger is there in the model; creating it is a call that can fail.\<close>

definition apply_migrations :: "menv \<Rightarrow> string \<Rightarrow> migration list \<Rightarrow> mdb \<Rightarrow> mdb \<times> (mig_error + unit)" where
  "apply_migrations E owner files st =
     (case lockMigrations E st of
        (st1, False) \<Rightarrow> (st1, Inl DbFault)
      | (st1, True) \<Rightarrow>
          (case query_call st1 of
             (st2, False) \<Rightarrow> (st2, Inl DbFault)
           | (st2, True) \<Rightarrow>
               (case query_call st2 of
                  (st3, False) \<Rightarrow> (st3, Inl DbFault)
                | (st3, True) \<Rightarrow>
                    (let rows = readLedger st3 owner
                     in case apply_checks files rows of
                          Inl e \<Rightarrow> (st3, Inl e)
                        | Inr newest \<Rightarrow> apply_loop E rows newest files st3))))"

definition markApplied :: "menv \<Rightarrow> migration \<Rightarrow> mdb \<Rightarrow> mdb \<times> (mig_error + unit)" where
  "markApplied E f st =
     (case lockMigrations E st of
        (st1, False) \<Rightarrow> (st1, Inl DbFault)
      | (st1, True) \<Rightarrow>
          (case query_call st1 of
             (st2, False) \<Rightarrow> (st2, Inl DbFault)
           | (st2, True) \<Rightarrow>
               (let has = map_of (ledger st2) (MOwner f, MVersion f) \<noteq> None
                in case ledger_call (AList.map_entry (MOwner f, MVersion f)
                          (\<lambda>r. r\<lparr>LChecksum := MSum f, LAppliedAt := Some (mnow E), LStatementIndex := length (MStmts f), LName := MName f\<rparr>)) st2 of
                     (st3, False) \<Rightarrow> (st3, Inl DbFault)
                   | (st3, True) \<Rightarrow>
                       if has then (st3, Inr ())
                       else (case ledger_call (\<lambda>l. ((MOwner f, MVersion f), row_done E f) # l) st3 of
                               (st4, ok) \<Rightarrow> (st4, if ok then Inr () else Inl DbFault)))))"

section \<open>Starting\<close>

text \<open>What an owner registers: its directory of migrations, if any, and whether it gave tables.\<close>

record ownerSchema =
  OOwner :: string
  OMigrations :: "(string \<Rightarrow> entry list option) option"
  OTables :: bool

definition statusOf :: "menv \<Rightarrow> ownerSchema \<Rightarrow> mdb \<Rightarrow> mdb \<times> (mig_error + MigrationStatus list)" where
  "statusOf E s st =
     (case OMigrations s of
        None \<Rightarrow> (st, Inr [])
      | Some fsys \<Rightarrow>
          (case loadMigrations (sha E) fsys (OOwner s) (dialect E) of
             Inl e \<Rightarrow> (st, Inl e)
           | Inr files \<Rightarrow>
               (case query_call st of
                  (st', ok) \<Rightarrow> (st', if ok then Inr (status files (readLedger st' (OOwner s))) else Inl DbFault))))"

text \<open>\<open>migrate\<close>, but for the mode that leaves the schema to gorm.\<close>

definition migrate_versioned :: "menv \<Rightarrow> ownerSchema \<Rightarrow> mdb \<Rightarrow> mdb \<times> (mig_error + unit)" where
  "migrate_versioned E s st =
     (case OMigrations s of
        None \<Rightarrow> (st, if OTables s then Inl NoDir else Inr ())
      | Some fsys \<Rightarrow>
          (case loadMigrations (sha E) fsys (OOwner s) (dialect E) of
             Inl e \<Rightarrow> (st, Inl e)
           | Inr files \<Rightarrow> apply_migrations E (OOwner s) files st))"

definition migrate_off :: "menv \<Rightarrow> ownerSchema \<Rightarrow> mdb \<Rightarrow> mdb \<times> (mig_error + unit)" where
  "migrate_off E s st =
     (case statusOf E s st of
        (st', Inl e) \<Rightarrow> (st', Inl e)
      | (st', Inr sts) \<Rightarrow>
          (let behind = filter (\<lambda>x. SState x \<noteq> Applied) sts
           in (st', if behind \<noteq> [] then Inl (NotMigrated (map (\<lambda>x. (SVersion x, SName x)) behind)) else Inr ())))"

fun find_version :: "menv \<Rightarrow> ownerSchema list \<Rightarrow> string \<Rightarrow> mig_error + migration list" where
  "find_version E [] v = Inr []"
| "find_version E (s # ss) v =
     (case OMigrations s of
        None \<Rightarrow> find_version E ss v
      | Some fsys \<Rightarrow>
          (case loadMigrations (sha E) fsys (OOwner s) (dialect E) of
             Inl e \<Rightarrow> Inl e
           | Inr files \<Rightarrow> map_sum id ((@) (filter (\<lambda>f. MVersion f = v) files)) (find_version E ss v)))"

definition MarkApplied :: "menv \<Rightarrow> ownerSchema list \<Rightarrow> string \<Rightarrow> mdb \<Rightarrow> mdb \<times> (mig_error + unit)" where
  "MarkApplied E ss v st =
     (case find_version E ss v of
        Inl e \<Rightarrow> (st, Inl e)
      | Inr [] \<Rightarrow> (st, Inl (NoVersion v))
      | Inr [f] \<Rightarrow> markApplied E f st
      | Inr _ \<Rightarrow> (st, Inl (Ambiguous v)))"

section \<open>Calls\<close>

lemma pop_keeps: "pop st = (f, st') \<Longrightarrow> trace st' = trace st \<and> ledger st' = ledger st"
  by (auto simp: pop_def split: list.splits)

lemma query_keeps: "query_call st = (st', ok) \<Longrightarrow> trace st' = trace st \<and> ledger st' = ledger st"
  by (auto simp: query_call_def dest: pop_keeps split: prod.splits)

lemma exec_keeps: "exec_call E f s st = (st', ok) \<Longrightarrow> ledger st' = ledger st"
  by (auto simp: exec_call_def dest: pop_keeps split: prod.splits fault.splits if_splits)

lemma exec_ok: "exec_call E f s st = (st', True) \<Longrightarrow> trace st' = trace st @ [(MOwner f, MVersion f, s)]"
  by (auto simp: exec_call_def dest: pop_keeps split: prod.splits fault.splits if_splits)

lemma run_stmts_keeps: "run_stmts E f ss st = (st', ok) \<Longrightarrow> ledger st' = ledger st"
proof (induction ss arbitrary: st)
  case (Cons s ss)
  obtain st1 ok1 where e: "exec_call E f s st = (st1, ok1)" by fastforce
  with Cons show ?case using exec_keeps [OF e] by (cases ok1) auto
qed simp

lemma run_stmts_ok: "run_stmts E f ss st = (st', True) \<Longrightarrow> trace st' = trace st @ map (\<lambda>s. (MOwner f, MVersion f, s)) ss"
proof (induction ss arbitrary: st)
  case (Cons s ss)
  obtain st1 ok1 where e: "exec_call E f s st = (st1, ok1)" by fastforce
  with Cons.prems have "ok1" "run_stmts E f ss st1 = (st', True)" by (auto split: if_splits)
  with Cons.IH e exec_ok show ?case by fastforce
qed simp

text \<open>The statements of a migration, as they are in the trace.\<close>

definition part :: "migration \<Rightarrow> (string \<times> string \<times> string) list" where
  "part f = map (\<lambda>s. (MOwner f, MVersion f, s)) (MStmts f)"

lemma tx_body_ok:
  assumes "tx_body E f st = (st', True)"
  shows "trace st' = trace st \<and> ledger st' = ledger st \<and> applied st f \<or>
    trace st' = trace st @ part f \<and> ledger st' = ((MOwner f, MVersion f), row_done E f) # ledger st \<and>
    map_of (ledger st) (MOwner f, MVersion f) = None"
proof -
  obtain st1 ok1 where q: "query_call st = (st1, ok1)" by fastforce
  with assms have "ok1" by (cases ok1) (simp_all add: tx_body_def)
  note k = query_keeps [OF q]
  show ?thesis
  proof (cases "applied st1 f")
    case True
    with assms q \<open>ok1\<close> k show ?thesis by (auto simp: tx_body_def applied_def)
  next
    case False
    obtain st2 ok2 where r: "run_stmts E f (MStmts f) st1 = (st2, ok2)" by fastforce
    with assms q \<open>ok1\<close> False have "ok2" "map_of (ledger st2) (MOwner f, MVersion f) = None"
        "ledger_call (\<lambda>l. ((MOwner f, MVersion f), row_done E f) # l) st2 = (st', True)"
      by (auto simp: tx_body_def split: bool.splits if_splits)
    with r k run_stmts_keeps [OF r] run_stmts_ok [of E f "MStmts f" st1 st2] show ?thesis
      by (auto simp: ledger_call_def part_def dest!: pop_keeps split: prod.splits fault.splits)
  qed
qed

text \<open>One transaction: nothing changed, or the whole migration is in, with its row.\<close>

lemma applyInTx_atomic:
  assumes "applyInTx E f st = (st', res)"
  shows "trace st' = trace st \<and> ledger st' = ledger st \<and> (res = Inr () \<longrightarrow> applied st f) \<or>
    trace st' = trace st @ part f \<and> ledger st' = ((MOwner f, MVersion f), row_done E f) # ledger st \<and>
    map_of (ledger st) (MOwner f, MVersion f) = None"
proof -
  obtain st0 ok0 where q: "query_call st = (st0, ok0)" by fastforce
  note k = query_keeps [OF q]
  show ?thesis
  proof (cases ok0)
    case True
    obtain st1 ok1 where b: "tx_body E f st0 = (st1, ok1)" by fastforce
    show ?thesis
    proof (cases ok1)
      case True
      obtain flt st2 where p: "pop st1 = (flt, st2)" by fastforce
      note k2 = pop_keeps [OF p]
      from b True have body: "tx_body E f st0 = (st1, True)" by simp
      have "applied st0 f = applied st f" using k by (simp add: applied_def)
      with assms q \<open>ok0\<close> b True p k k2 tx_body_ok [OF body] show ?thesis
        by (cases flt) (auto simp: applyInTx_def)
    next
      case False
      with assms q \<open>ok0\<close> b k show ?thesis by (auto simp: applyInTx_def)
    qed
  next
    case False
    with assms q k show ?thesis by (auto simp: applyInTx_def)
  qed
qed

section \<open>Once and in order\<close>

text \<open>The migrations of an owner, from the oldest on.\<close>

definition good_files :: "string \<Rightarrow> migration list \<Rightarrow> bool" where
  "good_files o' all \<longleftrightarrow> sorted_wrt (\<lambda>f g. MVersion f < MVersion g) all \<and> (\<forall>f \<in> set all. MOwner f = o')"

definition own :: "string \<Rightarrow> (string \<times> string \<times> string) list \<Rightarrow> (string \<times> string \<times> string) list" where
  "own o' tr = filter (\<lambda>e. fst e = o') tr"

text \<open>Rows that say of the first \<open>k\<close> migrations that they are applied, and of no other anything.\<close>

definition snapshot :: "migration list \<Rightarrow> nat \<Rightarrow> (string \<Rightarrow> ledgerRow option) \<Rightarrow> bool" where
  "snapshot all k rows \<longleftrightarrow>
     (\<forall>f \<in> set (take k all). rows (MVersion f) \<noteq> None) \<and>
     (\<forall>v r. rows v = Some r \<longrightarrow> (\<exists>f \<in> set (take k all). MVersion f = v \<and> LAppliedAt r \<noteq> None \<and> LChecksum r = MSum f))"

definition at_step :: "string \<Rightarrow> migration list \<Rightarrow> nat \<Rightarrow> mdb \<Rightarrow> bool" where
  "at_step o' all k st \<longleftrightarrow>
     k \<le> length all \<and> own o' (trace st) = concat (map part (take k all)) \<and> snapshot all k (\<lambda>v. map_of (ledger st) (o', v))"

lemma own_part: "own o' (part f) = (if MOwner f = o' then part f else [])"
  by (auto simp: own_def part_def filter_map comp_def intro!: filter_True)

lemma version_take:
  assumes "good_files o' all" "i < length all"
  shows "MVersion (all ! i) \<in> MVersion ` set (take k all) \<longleftrightarrow> i < k"
proof
  assume "MVersion (all ! i) \<in> MVersion ` set (take k all)"
  then obtain j where j: "j < k" "j < length all" "MVersion (all ! i) = MVersion (all ! j)" by (auto simp: in_set_conv_nth)
  have srt: "sorted_wrt (\<lambda>f g. MVersion f < MVersion g) all" using assms(1) by (simp add: good_files_def)
  have "i = j"
    using sorted_wrt_nth_less [OF srt, of i j] sorted_wrt_nth_less [OF srt, of j i] assms(2) j
    by (cases i j rule: linorder_cases) auto
  with j show "i < k" by simp
next
  assume "i < k"
  with assms(2) show "MVersion (all ! i) \<in> MVersion ` set (take k all)"
    by (intro imageI) (auto simp: in_set_conv_nth intro!: exI [of _ i])
qed

lemma snapshot_in: "snapshot all k rows \<Longrightarrow> rows v \<noteq> None \<Longrightarrow> v \<in> MVersion ` set (take k all)"
  unfolding snapshot_def image_iff by (metis not_None_eq)

lemma snapshot_row:
  assumes "snapshot all k rows" "good_files o' all" "i < length all"
  shows "rows (MVersion (all ! i)) = None \<longleftrightarrow> k \<le> i"
proof
  assume "rows (MVersion (all ! i)) = None"
  with assms(1) have "MVersion (all ! i) \<notin> MVersion ` set (take k all)" by (auto simp: snapshot_def)
  with version_take [OF assms(2,3), of k] show "k \<le> i" by simp
next
  assume "k \<le> i"
  with version_take [OF assms(2,3), of k] have "MVersion (all ! i) \<notin> MVersion ` set (take k all)" by simp
  with snapshot_in [OF assms(1)] show "rows (MVersion (all ! i)) = None" by blast
qed

lemma snapshot_applied: "snapshot all k rows \<Longrightarrow> rows v = Some r \<Longrightarrow> LAppliedAt r \<noteq> None"
  by (auto simp: snapshot_def)

lemma applied_iff:
  assumes "at_step o' all k st" "good_files o' all" "i < length all"
  shows "applied st (all ! i) \<longleftrightarrow> i < k"
proof -
  have "MOwner (all ! i) = o'" using assms(2,3) by (simp add: good_files_def)
  with assms snapshot_row [of all k "\<lambda>v. map_of (ledger st) (o', v)" o' i] snapshot_applied [of all k "\<lambda>v. map_of (ledger st) (o', v)"]
  show ?thesis by (auto simp: applied_def at_step_def split: option.splits)
qed

lemma snapshot_next:
  assumes "snapshot all k (\<lambda>v. map_of l (o', v))" "k < length all" "MOwner (all ! k) = o'"
  shows "snapshot all (Suc k) (\<lambda>v. map_of (((MOwner (all ! k), MVersion (all ! k)), row_done E (all ! k)) # l) (o', v))"
  using assms unfolding snapshot_def by (auto simp: take_Suc_conv_app_nth row_done_def)

lemma tx_step:
  assumes "at_step o' all k st" "good_files o' all" "i \<le> k" "i < length all" "applyInTx E (all ! i) st = (st', res)"
  shows "\<exists>k' \<ge> k. at_step o' all k' st' \<and> (res = Inr () \<longrightarrow> i < k') \<and> k' \<le> max k (Suc i)"
proof -
  have o': "MOwner (all ! i) = o'" using assms(2,4) by (simp add: good_files_def)
  from applyInTx_atomic [OF assms(5)] show ?thesis
  proof
    assume "trace st' = trace st \<and> ledger st' = ledger st \<and> (res = Inr () \<longrightarrow> applied st (all ! i))"
    with assms applied_iff [OF assms(1,2,4)] show ?thesis by (intro exI [of _ k]) (auto simp: at_step_def)
  next
    assume r: "trace st' = trace st @ part (all ! i) \<and> ledger st' = ((MOwner (all ! i), MVersion (all ! i)), row_done E (all ! i)) # ledger st \<and>
      map_of (ledger st) (MOwner (all ! i), MVersion (all ! i)) = None"
    then have "\<not> applied st (all ! i)" by (simp add: applied_def)
    with applied_iff [OF assms(1,2,4)] assms(3) have "i = k" by simp
    with r assms o' have "at_step o' all (Suc k) st'"
      using snapshot_next [of all k "ledger st" o' E] own_part [of o' "all ! k"]
      by (auto simp: at_step_def take_Suc_conv_app_nth own_def)
    with \<open>i = k\<close> show ?thesis by (intro exI [of _ "Suc k"]) simp
  qed
qed

lemma tx_other:
  assumes "at_step o' all k st" "MOwner f \<noteq> o'" "applyInTx E f st = (st', res)"
  shows "at_step o' all k st'"
  using applyInTx_atomic [OF assms(3)] assms(1,2) own_part [of o' f] by (auto simp: at_step_def own_def)

text \<open>The checks before a run: what is newest is applied, and nothing is missing.\<close>

lemma newest_in: "newest_of sts = [] \<or> newest_of sts \<in> SVersion ` {x \<in> set sts. SState x = Applied \<or> SState x = Drifted}"
proof -
  have "fold (\<lambda>st v. if SState st = Applied \<or> SState st = Drifted then max v (SVersion st) else v) sts v0 \<in>
    {v0} \<union> SVersion ` {x \<in> set sts. SState x = Applied \<or> SState x = Drifted}" for v0
    by (induction sts arbitrary: v0) (force simp: max_def)+
  then show ?thesis unfolding newest_of_def by blast
qed

lemma status_set:
  "x \<in> set (status files rows) \<longleftrightarrow>
   (\<exists>f \<in> set files. x = file_state rows f) \<or>
   (\<exists>v r. (v, r) \<in> set rows \<and> v \<notin> set (map MVersion files) \<and> x = \<lparr>SVersion = v, SName = LName r, SState = Missing, SStatements = LStatementIndex r\<rparr>)"
  by (auto simp: status_def)

lemma file_state_fields [simp]: "SVersion (file_state rows f) = MVersion f"
  by (simp add: file_state_def split: option.splits)

lemma newest_applied:
  assumes "apply_checks files rows = Inr newest"
  shows "newest = [] \<or> (\<exists>f \<in> set files. newest = MVersion f \<and> map_of rows (MVersion f) \<noteq> None)"
proof -
  have "newest = newest_of (status files rows)"
    using assms by (simp add: apply_checks_def Let_def split: if_splits)
  with newest_in [of "status files rows"] show ?thesis
    by (fastforce simp: status_set file_state_def split: option.splits)
qed

lemma checks_none_missing:
  assumes "apply_checks files rows = Inr newest" "(v, r) \<in> set rows"
  shows "v \<in> set (map MVersion files)"
proof (rule ccontr)
  assume "v \<notin> set (map MVersion files)"
  with assms(2) have "\<lparr>SVersion = v, SName = LName r, SState = Missing, SStatements = LStatementIndex r\<rparr> \<in> set (status files rows)"
    unfolding status_set by blast
  then have "in_state Missing (status files rows) \<noteq> []" by (force simp: in_state_def filter_empty_conv)
  with assms(1) show False by (simp add: apply_checks_def Let_def split: if_splits)
qed

lemma map_of_readLedger: "map_of (readLedger st o') v = map_of (ledger st) (o', v)"
proof -
  have "map_of (map (\<lambda>((o', v), r). (v, r)) (filter (\<lambda>((x, v), r). x = o') l)) v = map_of l (o', v)" for l :: ledger
    by (induction l) auto
  then show ?thesis by (simp add: readLedger_def)
qed

section \<open>Several processes\<close>

text \<open>
  The processes of a deployment. Each has the migrations its program was built with, the first
  \<open>n\<close> of its owner's. It reads the ledger, then goes through its files, one transaction each; it
  stops at an error and may be started again, also with another program. Between any two steps
  others take theirs, and failures come.
\<close>

datatype proc =
    Stopped
  | Running string nat "(string \<times> ledgerRow) list" string "migration list"

inductive mig_step :: "menv \<Rightarrow> (string \<Rightarrow> migration list) \<Rightarrow> mdb \<times> proc list \<Rightarrow> mdb \<times> proc list \<Rightarrow> bool" for E plan where
  fail_later: "mig_step E plan (st, ps) (st\<lparr>faults := fs\<rparr>, ps)"
| start: "i < length ps \<Longrightarrow> apply_checks (take n (plan u)) (readLedger st u) = Inr newest \<Longrightarrow>
    mig_step E plan (st, ps) (st, ps[i := Running u n (readLedger st u) newest (take n (plan u))])"
| next_file: "i < length ps \<Longrightarrow> ps ! i = Running u n rows newest (f # fs) \<Longrightarrow> apply_file E rows newest f st = (st', Inr ()) \<Longrightarrow>
    mig_step E plan (st, ps) (st', ps[i := Running u n rows newest fs])"
| stop: "i < length ps \<Longrightarrow> ps ! i = Running u n rows newest (f # fs) \<Longrightarrow> apply_file E rows newest f st = (st', Inl e) \<Longrightarrow>
    mig_step E plan (st, ps) (st', ps[i := Stopped])"
| crash: "i < length ps \<Longrightarrow> mig_step E plan (st, ps) (st, ps[i := Stopped])"

text \<open>What holds of a process when \<open>kf u\<close> migrations of \<open>u\<close> are applied.\<close>

definition proc_ok :: "(string \<Rightarrow> migration list) \<Rightarrow> (string \<Rightarrow> nat) \<Rightarrow> proc \<Rightarrow> bool" where
  "proc_ok plan kf p =
     (case p of
        Stopped \<Rightarrow> True
      | Running u n rows newest rest \<Rightarrow>
          \<exists>i k0. rest = drop i (take n (plan u)) \<and> i \<le> length (take n (plan u)) \<and> i \<le> kf u \<and> k0 \<le> kf u \<and> k0 \<le> length (plan u) \<and>
            snapshot (plan u) k0 (map_of rows) \<and> (newest = [] \<or> newest \<in> MVersion ` set (take k0 (plan u))))"

lemma proc_ok_mono: "proc_ok plan kf p \<Longrightarrow> (\<And>u. kf u \<le> kf' u) \<Longrightarrow> proc_ok plan kf' p"
  by (cases p) (auto simp: proc_ok_def intro: order_trans)

definition mig_inv :: "(string \<Rightarrow> migration list) \<Rightarrow> mdb \<times> proc list \<Rightarrow> bool" where
  "mig_inv plan S \<longleftrightarrow> (\<exists>kf. (\<forall>u. at_step u (plan u) (kf u) (fst S)) \<and> (\<forall>p \<in> set (snd S). proc_ok plan kf p))"

lemma newest_not_later:
  assumes "good_files u all" "k0 \<le> i" "i < length all" "newest = [] \<or> newest \<in> MVersion ` set (take k0 all)"
  shows "\<not> MVersion (all ! i) < newest"
proof -
  have "MVersion (all ! j) < MVersion (all ! i)" if "j < k0" "j < length all" for j
    using sorted_wrt_nth_less [of "\<lambda>f g. MVersion f < MVersion g" all j i] assms that by (simp add: good_files_def)
  with assms(4) show ?thesis by (fastforce simp: in_set_conv_nth dest: less_asym)
qed

lemma start_ok:
  assumes "\<forall>u. at_step u (plan u) (kf u) st" "apply_checks (take n (plan u)) (readLedger st u) = Inr newest"
  shows "proc_ok plan kf (Running u n (readLedger st u) newest (take n (plan u)))"
proof -
  have "map_of (readLedger st u) = (\<lambda>v. map_of (ledger st) (u, v))" by (simp add: fun_eq_iff map_of_readLedger)
  with assms(1) have s: "snapshot (plan u) (kf u) (map_of (readLedger st u))" "kf u \<le> length (plan u)"
    by (simp_all add: at_step_def)
  from newest_applied [OF assms(2)] have "newest = [] \<or> newest \<in> MVersion ` set (take (kf u) (plan u))"
    using snapshot_in [OF s(1)] by blast
  with s show ?thesis unfolding proc_ok_def proc.case
    by (intro exI [of _ 0] exI [of _ "kf u"]) simp
qed

text \<open>One file of a running process.\<close>

lemma file_step:
  assumes "\<forall>u. at_step u (plan u) (kf u) st" "\<forall>u. good_files u (plan u)" "dialect E \<noteq> ''mysql''"
    and "proc_ok plan kf (Running u n rows newest (f # fs))" "apply_file E rows newest f st = (st', res)"
  shows "\<exists>kf'. (\<forall>u. kf u \<le> kf' u) \<and> (\<forall>u. at_step u (plan u) (kf' u) st') \<and>
    (res = Inr () \<longrightarrow> proc_ok plan kf' (Running u n rows newest fs))"
proof -
  from assms(4) obtain i k0 where r: "f # fs = drop i (take n (plan u))" "i \<le> kf u" "k0 \<le> kf u" "k0 \<le> length (plan u)"
      "snapshot (plan u) k0 (map_of rows)" "newest = [] \<or> newest \<in> MVersion ` set (take k0 (plan u))"
    by (auto simp: proc_ok_def)
  have i: "i < length (take n (plan u))" using r(1) by (metis drop_all list.distinct(1) not_le)
  then have f: "f = plan u ! i" "fs = drop (Suc i) (take n (plan u))" "i < length (plan u)"
    using r(1) i unfolding Cons_nth_drop_Suc [OF i, symmetric] by auto
  have good: "good_files u (plan u)" using assms(2) by blast
  have rest: "proc_ok plan kf' (Running u n rows newest fs)" if "\<forall>u. kf u \<le> kf' u" "i < kf' u" for kf'
  proof -
    have "k0 \<le> kf' u" using that(1) r(3) order_trans by blast
    with that r i f show ?thesis unfolding proc_ok_def proc.case
      by (intro exI [of _ "Suc i"] exI [of _ k0]) auto
  qed
  show ?thesis
  proof (cases "map_of rows (MVersion f)")
    case (Some row)
    with snapshot_row [OF r(5) good f(3)] f(1) have "i < k0" by simp
    moreover have "st' = st" "res = Inr ()"
      using assms(5) Some snapshot_applied [OF r(5) Some] by (simp_all add: apply_file_def)
    ultimately show ?thesis using assms(1) rest r(3) by (intro exI [of _ kf]) simp
  next
    case None
    then have "k0 \<le> i" using snapshot_row [OF r(5) good f(3)] f(1) by simp
    with newest_not_later [OF good this f(3) r(6)] None f(1) assms(3,5) have tx: "applyInTx E (plan u ! i) st = (st', res)"
      by (simp add: apply_file_def)
    have "at_step u (plan u) (kf u) st" using assms(1) by blast
    from tx_step [OF this good r(2) f(3) tx] obtain k' where k: "k' \<ge> kf u" "at_step u (plan u) k' st'" "res = Inr () \<longrightarrow> i < k'"
      by blast
    have "at_step u' (plan u') (kf u') st'" if "u' \<noteq> u" for u'
    proof (rule tx_other [OF _ _ tx])
      show "at_step u' (plan u') (kf u') st" using assms(1) by blast
      show "MOwner (plan u ! i) \<noteq> u'" using good f(3) that by (auto simp: good_files_def)
    qed
    with k rest [of "kf(u := k')"] show ?thesis by (intro exI [of _ "kf(u := k')"]) auto
  qed
qed

lemma mig_step_inv:
  assumes "mig_step E plan S S'" "mig_inv plan S" "\<forall>u. good_files u (plan u)" "dialect E \<noteq> ''mysql''"
  shows "mig_inv plan S'"
  using assms(1,2)
proof (induction rule: mig_step.induct)
  case (fail_later st ps fs)
  then show ?case by (simp add: mig_inv_def at_step_def)
next
  case (start i ps n u st newest)
  then obtain kf where "\<forall>u. at_step u (plan u) (kf u) st" "\<forall>p \<in> set ps. proc_ok plan kf p" by (auto simp: mig_inv_def)
  with start_ok [OF this(1) start.hyps(2)] show ?case
    unfolding mig_inv_def by (intro exI [of _ kf]) (auto dest!: set_update_subset_insert [THEN subsetD])
next
  case (next_file i ps u n rows newest f fs st st')
  then obtain kf where kf: "\<forall>u. at_step u (plan u) (kf u) st" "\<forall>p \<in> set ps. proc_ok plan kf p" by (auto simp: mig_inv_def)
  then have "proc_ok plan kf (Running u n rows newest (f # fs))" using next_file.hyps(1,2) by (metis nth_mem)
  from file_step [OF kf(1) assms(3,4) this next_file.hyps(3)] obtain kf' where
    "\<forall>u. kf u \<le> kf' u" "\<forall>u. at_step u (plan u) (kf' u) st'" "proc_ok plan kf' (Running u n rows newest fs)" by blast
  with kf(2) proc_ok_mono [of plan kf _ kf'] show ?case
    unfolding mig_inv_def by (intro exI [of _ kf']) (auto dest!: set_update_subset_insert [THEN subsetD])
next
  case (stop i ps u n rows newest f fs st st' e)
  then obtain kf where kf: "\<forall>u. at_step u (plan u) (kf u) st" "\<forall>p \<in> set ps. proc_ok plan kf p" by (auto simp: mig_inv_def)
  then have "proc_ok plan kf (Running u n rows newest (f # fs))" using stop.hyps(1,2) by (metis nth_mem)
  from file_step [OF kf(1) assms(3,4) this stop.hyps(3)] obtain kf' where
    "\<forall>u. kf u \<le> kf' u" "\<forall>u. at_step u (plan u) (kf' u) st'" by blast
  with kf(2) proc_ok_mono [of plan kf _ kf'] show ?case
    unfolding mig_inv_def by (intro exI [of _ kf']) (auto simp: proc_ok_def dest!: set_update_subset_insert [THEN subsetD])
next
  case (crash i ps st)
  then show ?case unfolding mig_inv_def by (fastforce simp: proc_ok_def dest!: set_update_subset_insert [THEN subsetD])
qed

text \<open>C5: On SQLite and Postgres every migration runs once and in order, whatever fails and however many
  processes start at once. At any time the statements of an owner that have taken effect are
  those of its first \<open>k\<close> migrations, each once, in the order of their versions; exactly these are
  recorded as applied; and a process that has come to its end finds all of its files among them.\<close>

theorem migrate_once:
  assumes "(mig_step E plan)\<^sup>*\<^sup>* (\<lparr>trace = [], ledger = [], faults = fs\<rparr>, replicate m Stopped) (st, ps)"
    and "\<forall>u. good_files u (plan u)" "dialect E \<noteq> ''mysql''"
  shows "\<exists>k. own u (trace st) = concat (map part (take k (plan u))) \<and>
    (\<forall>i < length (plan u). applied st (plan u ! i) \<longleftrightarrow> i < k) \<and>
    (\<forall>n rows newest. Running u n rows newest [] \<in> set ps \<longrightarrow> min n (length (plan u)) \<le> k)"
proof -
  have "mig_inv plan (st, ps)"
    using assms(1)
  proof (induction rule: rtranclp_induct)
    case base
    then show ?case
      unfolding mig_inv_def by (intro exI [of _ "\<lambda>_. 0"]) (auto simp: at_step_def snapshot_def own_def proc_ok_def)
  next
    case (step S S')
    then show ?case using mig_step_inv assms(2,3) by blast
  qed
  then obtain kf where kf: "\<forall>u. at_step u (plan u) (kf u) st" "\<forall>p \<in> set ps. proc_ok plan kf p" by (auto simp: mig_inv_def)
  have "min n (length (plan u)) \<le> kf u" if "Running u n rows newest [] \<in> set ps" for n rows newest
  proof -
    from kf(2) that have "proc_ok plan kf (Running u n rows newest [])" by blast
    then obtain i where "[] = drop i (take n (plan u))" "i \<le> length (take n (plan u))" "i \<le> kf u" by (auto simp: proc_ok_def)
    then show ?thesis by (simp add: min_def split: if_splits)
  qed
  moreover have "at_step u (plan u) (kf u) st" using kf(1) by blast
  ultimately show ?thesis
    using applied_iff assms(2) by (intro exI [of _ "kf u"]) (auto simp: at_step_def)
qed

section \<open>Statement by statement\<close>

text \<open>A sequence in which some elements come again right away, \<open>r\<close> times in all.\<close>

inductive stutter :: "nat \<Rightarrow> 'a list \<Rightarrow> 'a list \<Rightarrow> bool" where
  s_nil: "stutter 0 [] []"
| s_new: "stutter r xs ys \<Longrightarrow> stutter r (xs @ [x]) (ys @ [x])"
| s_again: "stutter r (xs @ [x]) ys \<Longrightarrow> stutter (Suc r) (xs @ [x]) (ys @ [x])"

lemma stutter_length: "stutter r xs ys \<Longrightarrow> length ys = length xs + r"
  by (induction rule: stutter.induct) auto

lemma stutter_none: "stutter r xs ys \<Longrightarrow> r = 0 \<Longrightarrow> xs = ys"
  by (induction rule: stutter.induct) auto

text \<open>The statements up to the \<open>m\<close>-th of migration \<open>k\<close>.\<close>

definition want :: "migration list \<Rightarrow> nat \<Rightarrow> nat \<Rightarrow> (string \<times> string \<times> string) list" where
  "want all k m = concat (map part (take k all)) @ (if k < length all then take m (part (all ! k)) else [])"

lemma want_stmt:
  "k < length all \<Longrightarrow> m < length (MStmts (all ! k)) \<Longrightarrow>
   want all k (Suc m) = want all k m @ [(MOwner (all ! k), MVersion (all ! k), MStmts (all ! k) ! m)]"
  by (simp add: want_def part_def take_Suc_conv_app_nth)

lemma want_full: "k < length all \<Longrightarrow> want all k (length (MStmts (all ! k))) = want all (Suc k) 0"
  by (simp add: want_def part_def take_Suc_conv_app_nth)

text \<open>
  What the rows say when \<open>k\<close> migrations are applied, and \<open>j\<close> statements of the next are recorded.
\<close>

definition file_row :: "menv \<Rightarrow> migration list \<Rightarrow> nat \<Rightarrow> nat \<Rightarrow> nat \<Rightarrow> ledgerRow option \<Rightarrow> bool" where
  "file_row E all k j i row \<longleftrightarrow>
     (case row of
        None \<Rightarrow> k < i \<or> i = k \<and> j = 0
      | Some r \<Rightarrow>
          i < k \<and> LAppliedAt r \<noteq> None \<or>
          i = k \<and> j \<noteq> 0 \<and> LAppliedAt r = None \<and> LStatementIndex r = j \<and> LChecksum r = prefixSum E (MStmts (all ! i)) j)"

definition my_rows :: "menv \<Rightarrow> migration list \<Rightarrow> nat \<Rightarrow> nat \<Rightarrow> (string \<Rightarrow> ledgerRow option) \<Rightarrow> bool" where
  "my_rows E all k j rows \<longleftrightarrow> (\<forall>i < length all. file_row E all k j i (rows (MVersion (all ! i))))"

definition at_stmt :: "menv \<Rightarrow> string \<Rightarrow> migration list \<Rightarrow> nat \<Rightarrow> nat \<Rightarrow> nat \<Rightarrow> nat \<Rightarrow> mdb \<Rightarrow> bool" where
  "at_stmt E o' all k j u r st \<longleftrightarrow>
     k \<le> length all \<and> u \<le> 1 \<and> (if k < length all then j + u \<le> length (MStmts (all ! k)) else j = 0 \<and> u = 0) \<and>
     stutter r (want all k (j + u)) (own o' (trace st)) \<and> my_rows E all k j (\<lambda>v. map_of (ledger st) (o', v))"

definition bad :: "fault list \<Rightarrow> nat" where
  "bad fs = length (filter (\<lambda>f. f \<noteq> Fine) fs)"

definition files_ok :: "string \<Rightarrow> migration list \<Rightarrow> bool" where
  "files_ok o' all \<longleftrightarrow> good_files o' all \<and> (\<forall>f \<in> set all. MStmts f \<noteq> [])"

lemma pop_bad: "pop st = (f, st') \<Longrightarrow> bad (faults st) = bad (faults st') + (if f = Fine then 0 else 1)"
  by (auto simp: pop_def bad_def split: list.splits)

lemma pop_at: "pop st = (f, st') \<Longrightarrow> at_stmt E o' all k j u r st' = at_stmt E o' all k j u r st"
  using pop_keeps by (simp add: at_stmt_def)

lemma version_inj: "good_files o' all \<Longrightarrow> i < length all \<Longrightarrow> k < length all \<Longrightarrow> MVersion (all ! i) = MVersion (all ! k) \<Longrightarrow> i = k"
  using version_take [of o' all i "Suc k"] version_take [of o' all k "Suc k"] version_take [of o' all k "Suc i"] version_take [of o' all i "Suc i"]
  by simp

text \<open>The effect of the two writes on the rows.\<close>

lemma my_rows_partial:
  assumes "my_rows E all k j (\<lambda>v. map_of l (o', v))" "files_ok o' all" "k < length all"
    and "has \<longleftrightarrow> map_of l (o', MVersion (all ! k)) \<noteq> None" "m \<noteq> 0"
  shows "my_rows E all k m (\<lambda>v. map_of (record_partial E (all ! k) m has l) (o', v))"
proof -
  have o': "MOwner (all ! k) = o'" using assms(2,3) by (simp add: files_ok_def good_files_def)
  have "file_row E all k m i (map_of (record_partial E (all ! k) m has l) (o', MVersion (all ! i)))" if i: "i < length all" for i
  proof (cases "i = k")
    case True
    with assms(1,4,5) i o' show ?thesis
      by (auto simp: my_rows_def record_partial_def map_of_map_entry file_row_def split: option.splits dest!: spec [of _ k])
  next
    case False
    then have "MVersion (all ! i) \<noteq> MVersion (all ! k)" using version_inj assms(2,3) i by (metis files_ok_def)
    then have "map_of (record_partial E (all ! k) m has l) (o', MVersion (all ! i)) = map_of l (o', MVersion (all ! i))"
      by (simp add: record_partial_def map_of_map_entry o')
    with assms(1) i False show ?thesis by (auto simp: my_rows_def file_row_def split: option.splits)
  qed
  then show ?thesis by (simp add: my_rows_def)
qed

lemma my_rows_done:
  assumes "my_rows E all k j (\<lambda>v. map_of l (o', v))" "files_ok o' all" "k < length all" "j \<noteq> 0"
  shows "my_rows E all (Suc k) 0 (\<lambda>v. map_of (record_done E (all ! k) l) (o', v))"
proof -
  have o': "MOwner (all ! k) = o'" using assms(2,3) by (simp add: files_ok_def good_files_def)
  have "file_row E all (Suc k) 0 i (map_of (record_done E (all ! k) l) (o', MVersion (all ! i)))" if i: "i < length all" for i
  proof (cases "i = k")
    case True
    with assms(1,3,4) o' show ?thesis
      by (auto simp: my_rows_def record_done_def map_of_map_entry file_row_def split: option.splits dest!: spec [of _ k])
  next
    case False
    then have "MVersion (all ! i) \<noteq> MVersion (all ! k)" using version_inj assms(2,3) i by (metis files_ok_def)
    then have "map_of (record_done E (all ! k) l) (o', MVersion (all ! i)) = map_of l (o', MVersion (all ! i))"
      by (simp add: record_done_def map_of_map_entry o')
    with assms(1) i False show ?thesis by (auto simp: my_rows_def file_row_def split: option.splits)
  qed
  then show ?thesis by (simp add: my_rows_def)
qed

lemma ran_stmt:
  assumes "at_stmt E o' all k j u r st" "files_ok o' all" "k < length all" "j < length (MStmts (all ! k))"
    and "trace st' = trace st @ [(MOwner (all ! k), MVersion (all ! k), MStmts (all ! k) ! j)]" "ledger st' = ledger st"
  shows "at_stmt E o' all k j 1 (r + u) st'"
proof -
  let ?x = "(MOwner (all ! k), MVersion (all ! k), MStmts (all ! k) ! j)"
  have own: "own o' (trace st') = own o' (trace st) @ [?x]"
    using assms(2,3,5) by (simp add: own_def files_ok_def good_files_def)
  have st: "stutter r (want all k (j + u)) (own o' (trace st))" "u \<le> 1" using assms(1) by (simp_all add: at_stmt_def)
  have "stutter (r + u) (want all k (Suc j)) (own o' (trace st) @ [?x])"
  proof (cases "u = 0")
    case True
    with st s_new show ?thesis unfolding want_stmt [OF assms(3,4)] by simp
  next
    case False
    with st(2) have "u = 1" by simp
    with st have "stutter r (want all k j @ [?x]) (own o' (trace st))" using want_stmt [OF assms(3,4)] by simp
    from s_again [OF this] False st(2) show ?thesis unfolding want_stmt [OF assms(3,4)] by (simp add: le_Suc_eq)
  qed
  with assms own show ?thesis by (simp add: at_stmt_def)
qed

lemma by_statement_at:
  assumes "at_stmt E o' all k j u r st" "files_ok o' all" "k < length all"
    and "has \<longleftrightarrow> map_of (ledger st) (o', MVersion (all ! k)) \<noteq> None"
    and "by_statement E (all ! k) j has (drop j (MStmts (all ! k))) st = (st', res)"
  shows "\<exists>k' j' u' r'. at_stmt E o' all k' j' u' r' st' \<and> r' + u' + bad (faults st') \<le> r + u + bad (faults st) \<and>
    (res = Inr () \<longrightarrow> k' = Suc k \<and> j' = 0 \<and> u' = 0)"
  using assms(1,4,5)
proof (induction "length (MStmts (all ! k)) - j" arbitrary: j u r st has)
  case 0
  let ?f = "all ! k"
  have "j + u \<le> length (MStmts ?f)" using 0(2) assms(3) by (simp add: at_stmt_def)
  with 0(1) have j: "j = length (MStmts ?f)" "u = 0" by simp_all
  have "MStmts ?f \<noteq> []" using assms(2,3) by (simp add: files_ok_def)
  then have j0: "j \<noteq> 0" using j by simp
  obtain flt st1 where p: "pop st = (flt, st1)" by fastforce
  have fin: "at_stmt E o' all (Suc k) 0 0 r (st1\<lparr>ledger := record_done E ?f (ledger st1)\<rparr>)"
  proof -
    have "my_rows E all k j (\<lambda>v. map_of (ledger st) (o', v))" using 0(2) by (simp add: at_stmt_def)
    from my_rows_done [OF this assms(2,3) j0] 0(2) j want_full [OF assms(3)] pop_keeps [OF p] assms(3)
    show ?thesis by (simp add: at_stmt_def)
  qed
  have same: "at_stmt E o' all k j u r st1" using pop_at [OF p] 0(2) by simp
  show ?case
  proof (cases flt)
    case RefusedCall
    with 0 p j have "st' = st1" "res = Inl DbFault" by (auto simp: ledger_call_def)
    with same pop_bad [OF p] show ?thesis by (intro exI [of _ k] exI [of _ j] exI [of _ u] exI [of _ r]) simp
  next
    case Fine
    with 0 p j have "st' = st1\<lparr>ledger := record_done E ?f (ledger st1)\<rparr>" by (auto simp: ledger_call_def)
    with fin pop_bad [OF p] show ?thesis by (intro exI [of _ "Suc k"] exI [of _ 0] exI [of _ r]) simp
  next
    case LostAnswer
    with 0 p j have "st' = st1\<lparr>ledger := record_done E ?f (ledger st1)\<rparr>" by (auto simp: ledger_call_def)
    with fin pop_bad [OF p] show ?thesis by (intro exI [of _ "Suc k"] exI [of _ 0] exI [of _ r]) simp
  qed
next
  case (Suc d)
  let ?f = "all ! k"
  have j: "j < length (MStmts ?f)" using Suc(2) by simp
  then have dr: "drop j (MStmts ?f) = MStmts ?f ! j # drop (Suc j) (MStmts ?f)" by (simp add: Cons_nth_drop_Suc)
  obtain st1 ok1 where e: "exec_call E ?f (MStmts ?f ! j) st = (st1, ok1)" by fastforce
  obtain flt st0 where p: "pop st = (flt, st0)" by fastforce
  note b = pop_bad [OF p] and keep = pop_keeps [OF p]
  show ?case
  proof (cases ok1)
    case False
    with Suc.prems(3) dr e have st': "st' = st1" "res \<noteq> Inr ()" by auto
    show ?thesis
    proof (cases "st1 = st0")
      case True
      with st' Suc.prems(1) pop_at [OF p] b show ?thesis by (intro exI [of _ k] exI [of _ j] exI [of _ u] exI [of _ r]) auto
    next
      case ran: False
      with e p False have "flt = LostAnswer" "st1 = st0\<lparr>trace := trace st0 @ [(MOwner ?f, MVersion ?f, MStmts ?f ! j)]\<rparr>"
        by (auto simp: exec_call_def split: fault.splits if_splits)
      with ran_stmt [OF Suc.prems(1) assms(2,3) j, of st1] keep b st' show ?thesis
        by (intro exI [of _ k] exI [of _ j] exI [of _ 1] exI [of _ "r + u"]) simp
    qed
  next
    case True
    with e p have st1: "flt = Fine" "st1 = st0\<lparr>trace := trace st0 @ [(MOwner ?f, MVersion ?f, MStmts ?f ! j)]\<rparr>"
      by (auto simp: exec_call_def split: fault.splits if_splits)
    have at1: "at_stmt E o' all k j 1 (r + u) st1" using ran_stmt [OF Suc.prems(1) assms(2,3) j, of st1] st1 keep by simp
    have has1: "has \<longleftrightarrow> map_of (ledger st1) (o', MVersion ?f) \<noteq> None" using Suc.prems(2) st1 keep by simp
    obtain flt2 st2 where p2: "pop st1 = (flt2, st2)" by fastforce
    note b2 = pop_bad [OF p2] and keep2 = pop_keeps [OF p2]
    let ?st3 = "st2\<lparr>ledger := record_partial E ?f (j + 1) has (ledger st2)\<rparr>"
    have at3: "at_stmt E o' all k (Suc j) 0 (r + u) ?st3"
    proof -
      have "my_rows E all k j (\<lambda>v. map_of (ledger st1) (o', v))" using at1 by (simp add: at_stmt_def)
      from my_rows_partial [OF this assms(2,3) has1, of "j + 1"] at1 keep2 assms(3) j show ?thesis by (simp add: at_stmt_def)
    qed
    have has3: "map_of (ledger ?st3) (o', MVersion ?f) \<noteq> None"
      using has1 keep2 assms(2,3) by (auto simp: record_partial_def map_of_map_entry files_ok_def good_files_def split: option.splits)
    show ?thesis
    proof (cases flt2)
      case Fine
      with Suc.prems(3) dr e True p2 have rest: "by_statement E ?f (Suc j) True (drop (Suc j) (MStmts ?f)) ?st3 = (st', res)"
        by (auto simp: ledger_call_def)
      have "\<exists>k' j' u' r'. at_stmt E o' all k' j' u' r' st' \<and> r' + u' + bad (faults st') \<le> (r + u) + 0 + bad (faults ?st3) \<and>
          (res = Inr () \<longrightarrow> k' = Suc k \<and> j' = 0 \<and> u' = 0)"
        by (rule Suc.hyps(1) [OF _ at3 _ rest]) (use Suc.hyps(2) has3 in auto)
      with b b2 st1 Fine show ?thesis by auto
    next
      case RefusedCall
      with Suc.prems(3) dr e True p2 have "st' = st2" "res = Inl DbFault" by (auto simp: ledger_call_def)
      with at1 pop_at [OF p2] b b2 st1 RefusedCall show ?thesis
        by (intro exI [of _ k] exI [of _ j] exI [of _ 1] exI [of _ "r + u"]) simp
    next
      case LostAnswer
      with Suc.prems(3) dr e True p2 have "st' = ?st3" "res = Inl DbFault" by (auto simp: ledger_call_def)
      with at3 b b2 st1 LostAnswer show ?thesis
        by (intro exI [of _ k] exI [of _ "Suc j"] exI [of _ 0] exI [of _ "r + u"]) simp
    qed
  qed
qed

text \<open>A run skips what its rows say is applied and goes on with the next migration.\<close>

lemma resume_file:
  assumes "at_stmt E o' all i j u r st" "files_ok o' all" "i < length all" "dialect E = ''mysql''"
    and "file_row E all i j i (map_of rows (MVersion (all ! i)))" "apply_file E rows newest (all ! i) st = (st', res)"
  shows "\<exists>k' j' u' r'. at_stmt E o' all k' j' u' r' st' \<and> r' + u' + bad (faults st') \<le> r + u + bad (faults st) \<and>
    (res = Inr () \<longrightarrow> k' = Suc i \<and> j' = 0 \<and> u' = 0)"
proof (cases "st' = st \<and> res \<noteq> Inr ()")
  case True
  with assms(1) show ?thesis by (intro exI [of _ i] exI [of _ j] exI [of _ u] exI [of _ r]) simp
next
  case False
  have rows: "file_row E all i j i (map_of (ledger st) (o', MVersion (all ! i)))"
    using assms(1,3) by (simp add: at_stmt_def my_rows_def)
  then have has: "map_of (ledger st) (o', MVersion (all ! i)) \<noteq> None \<longleftrightarrow> j \<noteq> 0"
    by (auto simp: file_row_def split: option.splits)
  have "by_statement E (all ! i) j (j \<noteq> 0) (drop j (MStmts (all ! i))) st = (st', res)"
    using assms(4-6) False
    by (auto simp: apply_file_def applyByStatement_def file_row_def split: option.splits if_splits)
  from by_statement_at [OF assms(1-3) _ this] has show ?thesis by blast
qed

lemma resume_loop:
  assumes "at_stmt E o' all i j u r st" "files_ok o' all" "i \<le> length (take n all)" "dialect E = ''mysql''"
    and "i < length all \<Longrightarrow> file_row E all i j i (map_of rows (MVersion (all ! i)))"
    and "\<And>i'. i < i' \<Longrightarrow> i' < length all \<Longrightarrow> map_of rows (MVersion (all ! i')) = None"
    and "apply_loop E rows newest (drop i (take n all)) st = (st', res)"
  shows "\<exists>k' j' u' r'. at_stmt E o' all k' j' u' r' st' \<and> r' + u' + bad (faults st') \<le> r + u + bad (faults st) \<and>
    (res = Inr () \<longrightarrow> length (take n all) \<le> k')"
  using assms(1,3,5-7)
proof (induction "length (take n all) - i" arbitrary: i j u r st)
  case 0
  then have "st' = st" "res = Inr ()" "length (take n all) \<le> i" by auto
  with 0 show ?case by (intro exI [of _ i] exI [of _ j] exI [of _ u] exI [of _ r]) simp
next
  case (Suc d)
  then have i: "i < length (take n all)" by linarith
  then have "i < length all" by simp
  note i = i this
  then have dr: "drop i (take n all) = all ! i # drop (Suc i) (take n all)" using Cons_nth_drop_Suc [OF i(1)] by simp
  obtain st1 res1 where f: "apply_file E rows newest (all ! i) st = (st1, res1)" by fastforce
  from resume_file [OF Suc.prems(1) assms(2) i(2) assms(4) Suc.prems(3) [OF i(2)] f]
  obtain k1 j1 u1 r1 where a: "at_stmt E o' all k1 j1 u1 r1 st1" "r1 + u1 + bad (faults st1) \<le> r + u + bad (faults st)"
    "res1 = Inr () \<longrightarrow> k1 = Suc i \<and> j1 = 0 \<and> u1 = 0" by blast
  show ?case
  proof (cases res1)
    case (Inl e)
    with Suc.prems(5) dr f have "st' = st1" "res = Inl e" by simp_all
    with a show ?thesis by (intro exI [of _ k1] exI [of _ j1] exI [of _ u1] exI [of _ r1]) simp
  next
    case (Inr x)
    with a have k1: "k1 = Suc i" "j1 = 0" "u1 = 0" by simp_all
    have rest: "apply_loop E rows newest (drop (Suc i) (take n all)) st1 = (st', res)" using Suc.prems(5) dr f Inr by simp
    have row: "file_row E all (Suc i) 0 (Suc i) (map_of rows (MVersion (all ! Suc i)))" if "Suc i < length all"
      using Suc.prems(4) [of "Suc i"] that by (simp add: file_row_def)
    have "\<exists>k' j' u' r'. at_stmt E o' all k' j' u' r' st' \<and> r' + u' + bad (faults st') \<le> r1 + 0 + bad (faults st1) \<and>
        (res = Inr () \<longrightarrow> length (take n all) \<le> k')"
      by (rule Suc.hyps(1) [OF _ _ _ row _ rest]) (use Suc.hyps(2) a(1) k1 i Suc.prems(4) in auto)
    with a(2) k1 show ?thesis by fastforce
  qed
qed

lemma skip_applied:
  assumes "\<And>i'. i' < k \<Longrightarrow> i' < length all \<Longrightarrow> \<exists>row. map_of rows (MVersion (all ! i')) = Some row \<and> LAppliedAt row \<noteq> None"
  shows "apply_loop E rows newest (take n all) st = apply_loop E rows newest (drop k (take n all)) st"
proof -
  have "apply_loop E rows newest (fs @ gs) st = apply_loop E rows newest gs st"
    if "\<forall>f \<in> set fs. \<exists>row. map_of rows (MVersion f) = Some row \<and> LAppliedAt row \<noteq> None" for fs gs
    using that by (induction fs) (auto simp: apply_file_def)
  moreover have "\<forall>f \<in> set (take k (take n all)). \<exists>row. map_of rows (MVersion f) = Some row \<and> LAppliedAt row \<noteq> None"
    using assms by (auto simp: in_set_conv_nth)
  ultimately have "apply_loop E rows newest (take k (take n all) @ drop k (take n all)) st = apply_loop E rows newest (drop k (take n all)) st"
    by blast
  then show ?thesis unfolding append_take_drop_id .
qed

lemma apply_keeps_calls:
  assumes "apply_migrations E o' files st = (st', res)"
  obtains (early) "trace st' = trace st" "ledger st' = ledger st" "bad (faults st') \<le> bad (faults st)" "res \<noteq> Inr ()"
    | (loop) st3 newest where "trace st3 = trace st" "ledger st3 = ledger st" "bad (faults st3) \<le> bad (faults st)"
        "apply_checks files (readLedger st3 o') = Inr newest"
        "apply_loop E (readLedger st3 o') newest files st3 = (st', res)"
proof -
  have q: "trace b = trace a \<and> ledger b = ledger a \<and> bad (faults b) \<le> bad (faults a)" if "query_call a = (b, ok)" for a b ok
    using that query_keeps [OF that] pop_bad by (auto simp: query_call_def split: prod.splits)
  have l: "trace b = trace a \<and> ledger b = ledger a \<and> bad (faults b) \<le> bad (faults a)" if "lockMigrations E a = (b, ok)" for a b ok
    using that q by (auto simp: lockMigrations_def split: if_splits)
  obtain st1 ok1 where 1: "lockMigrations E st = (st1, ok1)" by fastforce
  obtain st2 ok2 where 2: "query_call st1 = (st2, ok2)" by fastforce
  obtain st3 ok3 where 3: "query_call st2 = (st3, ok3)" by fastforce
  note k = l [OF 1] q [OF 2] q [OF 3]
  show thesis
  proof (cases "ok1 \<and> ok2 \<and> ok3")
    case True
    show thesis
    proof (cases "apply_checks files (readLedger st3 o')")
      case (Inl e)
      with assms 1 2 3 True k show thesis by (intro early) (auto simp: apply_migrations_def Let_def)
    next
      case (Inr newest)
      with assms 1 2 3 True k show thesis by (intro loop [of st3 newest]) (auto simp: apply_migrations_def Let_def)
    qed
  next
    case False
    with assms 1 2 3 k show thesis by (intro early) (auto simp: apply_migrations_def split: bool.splits)
  qed
qed

lemma apply_at:
  assumes "at_stmt E o' all k j u r st" "files_ok o' all" "dialect E = ''mysql''" "apply_migrations E o' (take n all) st = (st', res)"
  shows "\<exists>k' j' u' r'. at_stmt E o' all k' j' u' r' st' \<and> r' + u' + bad (faults st') \<le> r + u + bad (faults st) \<and>
    (res = Inr () \<longrightarrow> length (take n all) \<le> k')"
  using assms(4)
proof (cases rule: apply_keeps_calls)
  case early
  with assms(1) show ?thesis by (intro exI [of _ k] exI [of _ j] exI [of _ u] exI [of _ r]) (simp add: at_stmt_def)
next
  case (loop st3 newest)
  let ?rows = "readLedger st3 o'"
  have rows: "file_row E all k j i (map_of ?rows (MVersion (all ! i)))" if "i < length all" for i
    using assms(1) that loop(2) by (simp add: at_stmt_def my_rows_def map_of_readLedger)
  have skip: "apply_loop E ?rows newest (drop k (take n all)) st3 = (st', res)"
    using loop(5) skip_applied [of k all ?rows E newest n st3] rows by (force simp: file_row_def split: option.splits)
  have at3: "at_stmt E o' all k j u r st3" using assms(1) loop(1,2) by (simp add: at_stmt_def)
  show ?thesis
  proof (cases "k \<le> length (take n all)")
    case True
    have "\<exists>k' j' u' r'. at_stmt E o' all k' j' u' r' st' \<and> r' + u' + bad (faults st') \<le> r + u + bad (faults st3) \<and>
        (res = Inr () \<longrightarrow> length (take n all) \<le> k')"
      by (rule resume_loop [OF at3 assms(2) True assms(3) _ _ skip]) (use rows in \<open>force simp: file_row_def split: option.splits\<close>)+
    with loop(3) show ?thesis by fastforce
  next
    case False
    then have "length (take n all) \<le> k" by linarith
    then have "drop k (take n all) = []" by simp
    with skip have "st' = st3" by simp
    moreover have "r + u + bad (faults st3) \<le> r + u + bad (faults st)" "res = Inr () \<longrightarrow> length (take n all) \<le> k"
      using loop(3) False by auto
    ultimately show ?thesis using at3 by blast
  qed
qed

text \<open>Runs one after another, of programs with the first \<open>n\<close> files, each with failures of its own.\<close>

definition mig_run :: "menv \<Rightarrow> string \<Rightarrow> migration list \<Rightarrow> nat \<times> fault list \<Rightarrow> mdb \<Rightarrow> mdb" where
  "mig_run E o' all run st = fst (apply_migrations E o' (take (fst run) all) (st\<lparr>faults := snd run\<rparr>))"

definition mdb_empty :: mdb where
  "mdb_empty = \<lparr>trace = [], ledger = [], faults = []\<rparr>"

lemma runs_at:
  assumes "files_ok o' all" "dialect E = ''mysql''"
  shows "\<exists>k j u r. at_stmt E o' all k j u r (fold (mig_run E o' all) runs mdb_empty) \<and> r + u \<le> sum_list (map (bad \<circ> snd) runs)"
proof (induction runs rule: rev_induct)
  case Nil
  have "at_stmt E o' all 0 0 0 0 mdb_empty"
    using s_nil by (auto simp: at_stmt_def mdb_empty_def want_def own_def my_rows_def file_row_def)
  then show ?case by (intro exI [of _ 0]) simp
next
  case (snoc run runs)
  let ?st = "fold (mig_run E o' all) runs mdb_empty"
  from snoc obtain k j u r where a: "at_stmt E o' all k j u r ?st" "r + u \<le> sum_list (map (bad \<circ> snd) runs)" by blast
  obtain st' res where ap: "apply_migrations E o' (take (fst run) all) (?st\<lparr>faults := snd run\<rparr>) = (st', res)" by fastforce
  have "at_stmt E o' all k j u r (?st\<lparr>faults := snd run\<rparr>)" using a(1) by (simp add: at_stmt_def)
  from apply_at [OF this assms ap] obtain k' j' u' r' where "at_stmt E o' all k' j' u' r' st'"
    "r' + u' + bad (faults st') \<le> r + u + bad (snd run)" by auto
  moreover have "fold (mig_run E o' all) (runs @ [run]) mdb_empty = st'" using ap by (simp add: mig_run_def)
  moreover have "r' + u' \<le> sum_list (map (bad \<circ> snd) (runs @ [run]))" using a(2) calculation(2) by simp
  ultimately show ?case by metis
qed

text \<open>C10: On MySQL, where a migration is not atomic, a run goes on where the last one stopped. After any runs with
  any failures the statements that ran are those of the first migrations in order, up to some
  statement of the next one: none is left out, none comes early. One is repeated only where the
  answer to a call was lost or its record failed, at most once for each such failure; without
  any, each ran once. A run that reports success has all its files applied.\<close>

theorem migrate_resumes:
  assumes "files_ok o' all" "dialect E = ''mysql''"
    and "apply_migrations E o' (take n all) ((fold (mig_run E o' all) runs mdb_empty)\<lparr>faults := fs\<rparr>) = (st, res)"
  shows "\<exists>k m r. stutter r (want all k m) (own o' (trace st)) \<and> r \<le> sum_list (map (bad \<circ> snd) runs) + bad fs \<and>
    (r = 0 \<longrightarrow> own o' (trace st) = want all k m) \<and> (res = Inr () \<longrightarrow> min n (length all) \<le> k)"
proof -
  let ?st = "fold (mig_run E o' all) runs mdb_empty"
  from runs_at [OF assms(1,2)] obtain k j u r where a: "at_stmt E o' all k j u r ?st" "r + u \<le> sum_list (map (bad \<circ> snd) runs)" by blast
  then have "at_stmt E o' all k j u r (?st\<lparr>faults := fs\<rparr>)" by (simp add: at_stmt_def)
  from apply_at [OF this assms] obtain k' j' u' r' where b: "at_stmt E o' all k' j' u' r' st" "r' + u' + bad (faults st) \<le> r + u + bad fs"
    "res = Inr () \<longrightarrow> length (take n all) \<le> k'" by auto
  then have "stutter r' (want all k' (j' + u')) (own o' (trace st))" by (simp add: at_stmt_def)
  moreover from this have "r' = 0 \<longrightarrow> own o' (trace st) = want all k' (j' + u')" using stutter_none by metis
  moreover have "r' \<le> sum_list (map (bad \<circ> snd) runs) + bad fs" using a(2) b(2) by linarith
  moreover have "res = Inr () \<longrightarrow> min n (length all) \<le> k'" using b(3) by (simp add: min.commute)
  ultimately show ?thesis by blast
qed

section \<open>What is loaded\<close>

lemma load_loop_ok:
  assumes "load_loop h owner es seen out = Inr files" "set (map fst seen) = set (map MVersion out)" "distinct (map MVersion out)"
    and "\<forall>f \<in> set out. MOwner f = owner \<and> MStmts f \<noteq> []"
  shows "distinct (map MVersion files) \<and> (\<forall>f \<in> set files. MOwner f = owner \<and> MStmts f \<noteq> [])"
  using assms
proof (induction es arbitrary: seen out)
  case (Cons e es)
  show ?case
  proof (cases "EIsDir e \<or> \<not> sql_suffix (EName e)")
    case True
    with Cons.prems(1) have "load_loop h owner es seen out = Inr files" by simp
    from Cons.IH [OF this Cons.prems(2-4)] show ?thesis .
  next
    case False
    with Cons.prems(1) obtain v name raw where v: "fileName (EName e) = Some (v, name)" "map_of seen v = None" "EContent e = Some raw"
        "split_text (crlf raw) \<noteq> []"
        "load_loop h owner es ((v, EName e) # seen)
           (out @ [\<lparr>MOwner = owner, MVersion = v, MName = name, MFile = EName e, MStmts = split_text (crlf raw), MSum = h (crlf raw)\<rparr>]) = Inr files"
      by (auto simp: Let_def split: option.splits prod.splits if_splits)
    have "v \<notin> set (map MVersion out)" using v(2) Cons.prems(2) by (simp add: map_of_eq_None_iff)
    with Cons.prems v(4) show ?thesis by (intro Cons.IH [OF v(5)]) auto
  qed
qed simp

lemma sorted_versions: "distinct (map MVersion files) \<Longrightarrow> sorted_wrt (\<lambda>f g. MVersion f < MVersion g) (sort_key MVersion files)"
proof -
  assume "distinct (map MVersion files)"
  then have "distinct (map MVersion (sort_key MVersion files))"
    by (metis mset_eq_imp_distinct_iff mset_map mset_sort)
  moreover have "sorted (map MVersion (sort_key MVersion files))" by simp
  ultimately have "sorted_wrt (<) (map MVersion (sort_key MVersion files))" by (simp add: strict_sorted_iff)
  then show ?thesis by (simp add: sorted_wrt_map)
qed

lemma load_files_ok: "loadMigrations h fsys owner d = Inr files \<Longrightarrow> files_ok owner files"
proof -
  assume "loadMigrations h fsys owner d = Inr files"
  then obtain es fs where "load_loop h owner es [] [] = Inr fs" "files = sort_key MVersion fs"
    by (auto simp: loadMigrations_def map_sum_Inr split: option.splits)
  with load_loop_ok [of h owner es "[]" "[]" fs] sorted_versions [of fs] show ?thesis
    by (simp add: files_ok_def good_files_def)
qed

section \<open>A database that answers\<close>

lemma calm_calls:
  assumes "faults st = []"
  shows "pop st = (Fine, st)" "query_call st = (st, True)" "ledger_call g st = (st\<lparr>ledger := g (ledger st)\<rparr>, True)"
  using assms by (simp_all add: pop_def query_call_def ledger_call_def)

lemma calm_stmts:
  assumes "faults st = []" "\<And>tr s. \<not> breaks E tr s"
  shows "run_stmts E f ss st = (st\<lparr>trace := trace st @ map (\<lambda>s. (MOwner f, MVersion f, s)) ss\<rparr>, True)"
  using assms by (induction ss arbitrary: st) (simp_all add: exec_call_def calm_calls)

lemma calm_tx:
  assumes "faults st = []" "\<And>tr s. \<not> breaks E tr s" "applied st f \<or> map_of (ledger st) (MOwner f, MVersion f) = None"
  shows "\<exists>st'. applyInTx E f st = (st', Inr ()) \<and> faults st' = []"
proof (cases "applied st f")
  case True
  with assms(1) show ?thesis by (simp add: applyInTx_def tx_body_def calm_calls)
next
  case False
  with assms show ?thesis by (simp add: applyInTx_def tx_body_def calm_calls calm_stmts)
qed

lemma calm_loop:
  assumes "at_step o' all k st" "good_files o' all" "dialect E \<noteq> ''mysql''" "faults st = []" "\<And>tr s. \<not> breaks E tr s"
    and "snapshot all k0 (map_of rows)" "k0 \<le> k" "newest = [] \<or> newest \<in> MVersion ` set (take k0 all)" "i \<le> k" "i \<le> length (take n all)"
  shows "\<exists>st' k'. apply_loop E rows newest (drop i (take n all)) st = (st', Inr ()) \<and> at_step o' all k' st' \<and>
    length (take n all) \<le> k' \<and> k' \<le> max k (length (take n all)) \<and> faults st' = []"
  using assms(1,4,7,9,10)
proof (induction "length (take n all) - i" arbitrary: i k st)
  case 0
  then have "drop i (take n all) = []" "length (take n all) \<le> k" by simp_all
  with 0 show ?case by (intro exI [of _ st] exI [of _ k]) simp
next
  case (Suc d)
  then have i: "i < length (take n all)" by linarith
  then have i': "i < length all" by simp
  have dr: "drop i (take n all) = all ! i # drop (Suc i) (take n all)" using Cons_nth_drop_Suc [OF i] i by simp
  have "\<exists>st1 k1. apply_file E rows newest (all ! i) st = (st1, Inr ()) \<and> at_step o' all k1 st1 \<and> faults st1 = [] \<and> k \<le> k1 \<and> i < k1 \<and> k1 \<le> max k (Suc i)"
  proof (cases "map_of rows (MVersion (all ! i))")
    case (Some row)
    with snapshot_row [OF assms(6,2) i'] Suc.prems(3) have "i < k" by simp
    moreover have "apply_file E rows newest (all ! i) st = (st, Inr ())"
      using Some snapshot_applied [OF assms(6) Some] by (simp add: apply_file_def)
    moreover have "k \<le> max k (Suc i)" by simp
    ultimately show ?thesis using Suc.prems(1,2) by blast
  next
    case None
    with snapshot_row [OF assms(6,2) i'] have "k0 \<le> i" by simp
    from newest_not_later [OF assms(2) this i' assms(8)] None assms(3)
    have tx: "apply_file E rows newest (all ! i) st = applyInTx E (all ! i) st" by (simp add: apply_file_def)
    have "MOwner (all ! i) = o'" using assms(2) i' by (simp add: good_files_def)
    then have "applied st (all ! i) \<or> map_of (ledger st) (MOwner (all ! i), MVersion (all ! i)) = None"
      using applied_iff [OF Suc.prems(1) assms(2) i'] snapshot_row [of all k "\<lambda>v. map_of (ledger st) (o', v)" o' i] Suc.prems(1) assms(2) i'
      by (auto simp: at_step_def)
    from calm_tx [OF Suc.prems(2) assms(5) this] obtain st1 where st1: "applyInTx E (all ! i) st = (st1, Inr ())" "faults st1 = []" by blast
    from tx_step [OF Suc.prems(1) assms(2) Suc.prems(4) i' st1(1)] show ?thesis using tx st1 by auto
  qed
  then obtain st1 k1 where s: "apply_file E rows newest (all ! i) st = (st1, Inr ())" "at_step o' all k1 st1" "faults st1 = []" "k \<le> k1" "i < k1"
      "k1 \<le> max k (Suc i)"
    by blast
  have "\<exists>st' k'. apply_loop E rows newest (drop (Suc i) (take n all)) st1 = (st', Inr ()) \<and> at_step o' all k' st' \<and>
      length (take n all) \<le> k' \<and> k' \<le> max k1 (length (take n all)) \<and> faults st' = []"
    by (rule Suc.hyps(1)) (use Suc.hyps(2) Suc.prems s i in auto)
  then obtain st' k' where l: "apply_loop E rows newest (drop (Suc i) (take n all)) st1 = (st', Inr ())" "at_step o' all k' st'"
      "length (take n all) \<le> k'" "k' \<le> max k1 (length (take n all))" "faults st' = []" by blast
  have "k' \<le> max k (length (take n all))" using l(4) s(6) i by linarith
  with s(1) dr l show ?case by auto
qed

lemma checks_pass:
  assumes "snapshot all k (map_of rows)" "good_files o' all" "k \<le> length all" "k \<le> n" "\<forall>x \<in> set rows. map_of rows (fst x) \<noteq> None"
  shows "\<exists>newest. apply_checks (take n all) rows = Inr newest"
proof -
  have "SState (file_state rows f) \<noteq> Drifted \<and> SState (file_state rows f) \<noteq> Missing" if f: "f \<in> set (take n all)" for f
  proof (cases "map_of rows (MVersion f)")
    case (Some r)
    with assms(1) obtain g where g: "g \<in> set (take k all)" "MVersion g = MVersion f" "LChecksum r = MSum g" unfolding snapshot_def by blast
    from f g(1) obtain i j where ij: "i < length all" "f = all ! i" "j < length all" "g = all ! j" by (auto simp: in_set_conv_nth)
    with version_inj [OF assms(2)] g(2) have "f = g" by metis
    with Some g(3) show ?thesis by (simp add: file_state_def)
  qed (simp add: file_state_def)
  moreover have "v \<in> set (map MVersion (take n all))" if "(v, r) \<in> set rows" for v r
  proof -
    have "v \<in> MVersion ` set (take k all)" using snapshot_in [OF assms(1)] assms(5) that by fastforce
    moreover have "set (take k all) \<subseteq> set (take n all)" by (rule set_take_subset_set_take [OF assms(4)])
    ultimately show ?thesis by auto
  qed
  ultimately have "in_state Drifted (status (take n all) rows) = []" "in_state Missing (status (take n all) rows) = []"
    by (fastforce simp: in_state_def filter_empty_conv status_set)+
  then show ?thesis by (simp add: apply_checks_def Let_def)
qed

lemma apply_complete:
  assumes "at_step o' all k st" "good_files o' all" "dialect E \<noteq> ''mysql''" "faults st = []" "\<forall>tr s. \<not> breaks E tr s" "k \<le> n"
  shows "\<exists>st' k'. apply_migrations E o' (take n all) st = (st', Inr ()) \<and> at_step o' all k' st' \<and> take k' all = take n all \<and> faults st' = []"
proof -
  let ?rows = "readLedger st o'"
  have rows: "map_of ?rows = (\<lambda>v. map_of (ledger st) (o', v))" by (simp add: fun_eq_iff map_of_readLedger)
  have snap: "snapshot all k (map_of ?rows)" "k \<le> length all" using assms(1) by (simp_all add: at_step_def rows)
  have "\<forall>x \<in> set ?rows. map_of ?rows (fst x) \<noteq> None" by (auto simp: map_of_eq_None_iff)
  from checks_pass [OF snap(1) assms(2) snap(2) assms(6) this] obtain newest where c: "apply_checks (take n all) ?rows = Inr newest" by blast
  have "newest = [] \<or> newest \<in> MVersion ` set (take k all)"
    using newest_applied [OF c] snapshot_in [OF snap(1)] by blast
  from calm_loop [OF assms(1-4) _ snap(1) le_refl this, of 0 n] assms(5) obtain st' k' where
    l: "apply_loop E ?rows newest (take n all) st = (st', Inr ())" "at_step o' all k' st'" "length (take n all) \<le> k'"
      "k' \<le> max k (length (take n all))" "faults st' = []"
    by auto
  have "apply_migrations E o' (take n all) st = (st', Inr ())"
    using l(1) c calm_calls(2) [OF assms(4)] by (simp add: apply_migrations_def lockMigrations_def Let_def)
  moreover have "take k' all = take n all"
    using l(3,4) assms(6) snap(2) by (cases "n \<le> length all") (auto simp: max_def split: if_splits)
  ultimately show ?thesis using l(2,5) by blast
qed

lemma all_applied_status:
  assumes "at_step o' files (length files) st" "good_files o' files"
  shows "\<forall>x \<in> set (status files (readLedger st o')). SState x = Applied"
proof -
  let ?rows = "readLedger st o'"
  have "map_of ?rows = (\<lambda>v. map_of (ledger st) (o', v))" by (simp add: fun_eq_iff map_of_readLedger)
  with assms(1) have snap: "snapshot files (length files) (map_of ?rows)" by (simp add: at_step_def)
  have "SState (file_state ?rows f) = Applied" if f: "f \<in> set files" for f
  proof -
    from f obtain i where i: "i < length files" "f = files ! i" by (auto simp: in_set_conv_nth)
    with snapshot_row [OF snap assms(2) i(1)] obtain r where r: "map_of ?rows (MVersion f) = Some r" by auto
    then obtain g where g: "g \<in> set files" "MVersion g = MVersion f" "LAppliedAt r \<noteq> None" "LChecksum r = MSum g"
      using snap unfolding snapshot_def take_all [OF order_refl] by blast
    from g(1) obtain j where "j < length files" "g = files ! j" by (auto simp: in_set_conv_nth)
    with version_inj [OF assms(2)] g(2) i have "g = f" by metis
    with r g show ?thesis by (simp add: file_state_def)
  qed
  moreover have "v \<in> set (map MVersion files)" if "(v, r) \<in> set ?rows" for v r
  proof -
    have "map_of ?rows v \<noteq> None" using weak_map_of_SomeI [OF that] by simp
    from snapshot_in [OF snap this] show ?thesis by simp
  qed
  ultimately show ?thesis by (auto simp: status_set)
qed


section \<open>What is refused\<close>

lemma newest_max:
  "x \<in> set sts \<Longrightarrow> SState x = Applied \<or> SState x = Drifted \<Longrightarrow> SVersion x \<le> newest_of sts"
proof -
  let ?g = "\<lambda>st v. if SState st = Applied \<or> SState st = Drifted then max v (SVersion st) else v"
  have grow: "v0 \<le> fold ?g sts v0" for sts v0
    by (induction sts arbitrary: v0) (auto intro: order_trans [OF max.cobounded1])
  have "x \<in> set sts \<Longrightarrow> SState x = Applied \<or> SState x = Drifted \<Longrightarrow> SVersion x \<le> fold ?g sts v0" for v0
  proof (induction sts arbitrary: v0)
    case (Cons y sts)
    then show ?case using order_trans [OF max.cobounded2 grow] by auto
  qed simp
  then show "x \<in> set sts \<Longrightarrow> SState x = Applied \<or> SState x = Drifted \<Longrightarrow> SVersion x \<le> newest_of sts"
    by (simp add: newest_of_def)
qed

lemma loop_too_old:
  assumes "f \<in> set files" "map_of rows (MVersion f) = None" "MVersion f < newest"
  shows "snd (apply_loop E rows newest files st) \<noteq> Inr ()"
  using assms(1)
proof (induction files arbitrary: st)
  case (Cons g gs)
  obtain st' res where a: "apply_file E rows newest g st = (st', res)" by fastforce
  show ?case
  proof (cases res)
    case (Inr x)
    have "g \<noteq> f" using a Inr assms(2,3) by (auto simp: apply_file_def)
    with Cons a Inr show ?thesis by auto
  qed (use a in simp)
qed simp


section \<open>Examples\<close>

definition demo_mig :: "string \<Rightarrow> string list \<Rightarrow> migration" where
  "demo_mig v ss = \<lparr>MOwner = ''app'', MVersion = v, MName = ''m'', MFile = v @ ''_m.sql'', MStmts = ss, MSum = concat ss\<rparr>"

definition demo_env :: "string \<Rightarrow> menv" where
  "demo_env d = \<lparr>sha = id, breaks = (\<lambda>_ _. False), dialect = d, mnow = 7\<rparr>"

definition demo_one :: migration where "demo_one = demo_mig ''1'' [''a'', ''b'']"
definition demo_two :: migration where "demo_two = demo_mig ''5'' [''c'', ''d'']"
definition demo_late :: migration where "demo_late = demo_mig ''3'' [''x'']"

definition demo_partial :: mdb where
  "demo_partial = mig_run (demo_env ''mysql'') ''app'' [demo_one, demo_two] (2, replicate 10 Fine @ [RefusedCall]) mdb_empty"

text \<open>A migration that was applied in part does not count. Version 5 stopped after its first statement; a
  file of version 3 that is added then is not refused as older but applied, after the first and
  before the second statement of version 5. Once version 5 is applied, it is refused.\<close>

theorem migrate_after_partial:
  "map snd (trace demo_partial) = [(''1'', ''a''), (''1'', ''b''), (''5'', ''c'')] \<and>
   snd (apply_migrations (demo_env ''mysql'') ''app'' [demo_one, demo_late, demo_two] demo_partial) = Inr () \<and>
   map snd (trace (fst (apply_migrations (demo_env ''mysql'') ''app'' [demo_one, demo_late, demo_two] demo_partial))) =
     [(''1'', ''a''), (''1'', ''b''), (''5'', ''c''), (''3'', ''x''), (''5'', ''d'')] \<and>
   snd (apply_migrations (demo_env ''mysql'') ''app'' [demo_one, demo_late, demo_two]
     (mig_run (demo_env ''mysql'') ''app'' [demo_one, demo_two] (2, []) demo_partial)) = Inl (TooOld ''3_m.sql'')"
  by code_simp

section \<open>Witnesses\<close>

definition demo_all :: "migration list" where
  "demo_all = [demo_one, demo_two]"

definition demo_plan :: "string \<Rightarrow> migration list" where
  "demo_plan u = (if u = ''app'' then demo_all else [])"

lemma demo_good: "good_files ''app'' demo_all" "files_ok ''app'' demo_all" "good_files u (demo_plan u)"
  by (auto simp: good_files_def files_ok_def demo_plan_def demo_all_def demo_one_def demo_two_def demo_mig_def)

definition race_one :: mdb where
  "race_one = fst (apply_file (demo_env ''sqlite'') [] [] demo_one mdb_empty)"

definition race_two :: mdb where
  "race_two = fst (apply_file (demo_env ''sqlite'') [] [] demo_one race_one)"

text \<open>Two processes read the empty ledger, and both come to the first migration.\<close>

lemma demo_race:
  "(mig_step (demo_env ''sqlite'') demo_plan)\<^sup>*\<^sup>* (mdb_empty, replicate 2 Stopped)
     (race_two, [Running ''app'' 2 [] [] [demo_two], Running ''app'' 2 [] [] [demo_two]])"
proof -
  let ?R = "mig_step (demo_env ''sqlite'') demo_plan"
  let ?run = "\<lambda>fs. Running ''app'' 2 [] [] fs"
  have start: "apply_checks (take 2 (demo_plan ''app'')) (readLedger mdb_empty ''app'') = Inr []" "readLedger mdb_empty ''app'' = []"
      "take 2 (demo_plan ''app'') = [demo_one, demo_two]" by code_simp+
  have files: "apply_file (demo_env ''sqlite'') [] [] demo_one mdb_empty = (race_one, Inr ())"
      "apply_file (demo_env ''sqlite'') [] [] demo_one race_one = (race_two, Inr ())" by code_simp+
  have 1: "?R (mdb_empty, [Stopped, Stopped]) (mdb_empty, [?run [demo_one, demo_two], Stopped])"
    using mig_step.start [of 0 "[Stopped, Stopped]" 2 demo_plan "''app''" mdb_empty "[]"] start by simp
  have 2: "?R (mdb_empty, [?run [demo_one, demo_two], Stopped]) (mdb_empty, [?run [demo_one, demo_two], ?run [demo_one, demo_two]])"
    using mig_step.start [of 1 "[?run [demo_one, demo_two], Stopped]" 2 demo_plan "''app''" mdb_empty "[]"] start by simp
  have 3: "?R (mdb_empty, [?run [demo_one, demo_two], ?run [demo_one, demo_two]]) (race_one, [?run [demo_two], ?run [demo_one, demo_two]])"
    using mig_step.next_file [OF _ _ files(1), of 0 "[?run [demo_one, demo_two], ?run [demo_one, demo_two]]" "''app''" 2 "[demo_two]"] by simp
  have 4: "?R (race_one, [?run [demo_two], ?run [demo_one, demo_two]]) (race_two, [?run [demo_two], ?run [demo_two]])"
    using mig_step.next_file [OF _ _ files(2), of 1 "[?run [demo_two], ?run [demo_one, demo_two]]" "''app''" 2 "[demo_two]"] by simp
  from 1 have "?R\<^sup>*\<^sup>* (mdb_empty, [Stopped, Stopped]) (mdb_empty, [?run [demo_one, demo_two], Stopped])" by (rule r_into_rtranclp)
  from this 2 have "?R\<^sup>*\<^sup>* (mdb_empty, [Stopped, Stopped]) (mdb_empty, [?run [demo_one, demo_two], ?run [demo_one, demo_two]])"
    by (rule rtranclp.rtrancl_into_rtrancl)
  from this 3 have "?R\<^sup>*\<^sup>* (mdb_empty, [Stopped, Stopped]) (race_one, [?run [demo_two], ?run [demo_one, demo_two]])"
    by (rule rtranclp.rtrancl_into_rtrancl)
  from this 4 have "?R\<^sup>*\<^sup>* (mdb_empty, [Stopped, Stopped]) (race_two, [?run [demo_two], ?run [demo_two]])"
    by (rule rtranclp.rtrancl_into_rtrancl)
  then show ?thesis by (simp add: numeral_2_eq_2)
qed

theorem migrate_once_witness:
  "\<exists>k. own ''app'' (trace race_two) = concat (map part (take k demo_all)) \<and> own ''app'' (trace race_two) = part demo_one"
proof -
  have "dialect (demo_env ''sqlite'') \<noteq> ''mysql''" by code_simp
  moreover have "own ''app'' (trace race_two) = part demo_one" "demo_plan ''app'' = demo_all" by code_simp+
  ultimately show ?thesis
    using migrate_once [OF demo_race [unfolded mdb_empty_def], of "''app''"] demo_good(3) by metis
qed

theorem migrate_resumes_witness:
  "\<exists>k m r. stutter r (want demo_all k m) (own ''app'' (trace (fst (apply_migrations (demo_env ''mysql'') ''app'' (take 2 demo_all) demo_partial)))) \<and> r \<le> 1"
proof -
  let ?run = "(2, replicate 10 Fine @ [RefusedCall])"
  have st: "(fold (mig_run (demo_env ''mysql'') ''app'' demo_all) [?run] mdb_empty)\<lparr>faults := []\<rparr> = demo_partial" by code_simp
  have d: "dialect (demo_env ''mysql'') = ''mysql''" "sum_list (map (bad \<circ> snd) [?run]) + bad [] = 1" by code_simp+
  show ?thesis
    using migrate_resumes [OF demo_good(2) d(1), where n = 2 and runs = "[?run]" and fs = "[]", unfolded st d(2)] by (metis prod.collapse)
qed

definition demo_dir :: "string \<Rightarrow> entry list option" where
  "demo_dir d =
     (if d = ''.'' then
        Some [\<lparr>EName = ''20261024120000_b.sql'', EIsDir = False, EContent = Some ''ALTER x;''\<rparr>,
              \<lparr>EName = ''20250101000000_a.sql'', EIsDir = False, EContent = Some ''CREATE x; CREATE y;''\<rparr>]
      else None)"



end
