(* ===== verification/Spec2Isabelle.thy ===== *)
theory Spec2Isabelle
  imports Cache Hub Sql_Split Cron Jobs_Delivery Jobs_Scheduler Tickets Conf_Tree Client_Ip Identity_System Store_Owners Migrate
begin

text \<open>
  A verification library for \<^verbatim>\<open>chok\<close>, a Go application framework with batteries: an HTTP core, a
  configuration loader, a database layer, background jobs, a cache, real-time push, identity and
  role-based access. The library models the parts that hold the framework's own logic, the ones
  with state, ordering, retries, bounds or a language of their own, and proves what they promise.

  \<^bold>\<open>The parts and how they interact.\<close> An application loads its configuration (\<^verbatim>\<open>internal/conf\<close>) from
  defaults, a YAML file, the environment and flags. The batteries are built from it. The jobs
  (\<^verbatim>\<open>jobs\<close>) keep messages in a table that application transactions insert into; one worker per topic
  sweeps the table, hands each message to a function, retries, and parks in a dead letter table
  what keeps failing; a scheduler triggers the sweeps, the periodic jobs (by cron specs) and the
  cleanup. The cache (\<^verbatim>\<open>cache\<close>) layers memory over Redis, loads a missing key once for all who
  wait, and puts a circuit breaker in front of Redis. The real-time hub
  (\<^verbatim>\<open>realtime\<close>) hands published events to the connections subscribed to their topics, keeps the
  latest ones in a ring for clients that come back, and admits clients by tickets used once. The
  identity battery (\<^verbatim>\<open>identity\<close>) keeps accounts: people sign in with a password, a mailed code or an
  OAuth provider, get a token that every later request shows, and throttling bounds the guesses;
  it asks the HTTP core for the address of the client (\<^verbatim>\<open>internal/clientip\<close>). The database layer (\<^verbatim>\<open>db\<close>)
  applies migrations, whose scripts it splits into statements, and names the rows; over it an application keeps its
  models in stores (\<^verbatim>\<open>store\<close>), which turn a request's query into conditions, fence every query to
  the rows of its caller, page the results and lock updates by version.

  \<^bold>\<open>Theories.\<close>

  \<^item> \<^verbatim>\<open>Chok_Prelude\<close>: instants and durations, the locale of a transition system with an invariant
    (\<open>guarded_component\<close> and its reachable states), shared lemmas on lists and rings.
  \<^item> \<^verbatim>\<open>Go_Strings\<close>: what the sources use of Go's \<^verbatim>\<open>strings\<close> and \<^verbatim>\<open>strconv\<close>: splitting, cutting,
    trimming, numbers, lower case; with the round trips the components rest on.
  \<^item> \<^verbatim>\<open>Go_Base64\<close>: unpadded base64url, which tickets and cursors are written in, and its round trip.
  \<^item> \<^verbatim>\<open>Breaker\<close> (\<^verbatim>\<open>cache/breaker.go\<close>): \<open>breaker\<close> is the struct; \<open>allow\<close>, \<open>record_outcome\<close> and the calls
    through them are the methods. It trips after exactly \<open>threshold\<close> failures in a row, lets one
    probe through, and recovers once Redis answers; two probes can be alive when one hangs.
  \<^item> \<^verbatim>\<open>Cache\<close> (\<^verbatim>\<open>cache/cache.go\<close>, \<^verbatim>\<open>flight.go\<close>, \<^verbatim>\<open>layers.go\<close>, \<^verbatim>\<open>config.go\<close>): the layers, \<open>Get\<close>, \<open>Set\<close>, \<open>Delete\<close>, and the
    flight of a load as steps of goroutines. A deleted key gives no old value; one load runs for
    a key at a time and all who wait get its value; a caller that changes the bytes it got
    changes what a waiter sees.
  \<^item> \<^verbatim>\<open>Replay\<close> (\<^verbatim>\<open>realtime/replay.go\<close>): the ring refines a list of the latest frames; resuming after
    a kept frame gives exactly the frames after it.
  \<^item> \<^verbatim>\<open>Hub\<close> (\<^verbatim>\<open>realtime/hub.go\<close>, \<^verbatim>\<open>conn.go\<close>, \<^verbatim>\<open>event.go\<close>, \<^verbatim>\<open>ws.go\<close>, \<^verbatim>\<open>backplane.go\<close>): the hub's maps, its
    connections with their queues, and every operation under the hub's lock. A system of
    interleaved operations keeps the tables consistent and the queues bounded, never delivers a
    private topic to another user, and leaves no gap between replayed and live events.
  \<^item> \<^verbatim>\<open>Tickets\<close> (\<^verbatim>\<open>realtime/ticket.go\<close>, \<^verbatim>\<open>mount.go\<close>): tickets in process, with their random text.
    A ticket is worth its claims until it is used or expires, and never twice.
  \<^item> \<^verbatim>\<open>Limiter\<close> (\<^verbatim>\<open>identity/ratelimit.go\<close>): the table refines a log of attempts in a sliding window;
    eviction, the background cleanup and closing are steps of a system.
  \<^item> \<^verbatim>\<open>Client_Ip\<close> (\<^verbatim>\<open>internal/clientip\<close>, \<^verbatim>\<open>middleware.go\<close>): addresses and prefixes, the trusted proxies, and the
    address of the client. Behind trusted proxies that append, no client chooses its address.
  \<^item> \<^verbatim>\<open>Accounts\<close> (\<^verbatim>\<open>identity/user.go\<close>, \<^verbatim>\<open>password.go\<close>, \<^verbatim>\<open>token.go\<close>, \<^verbatim>\<open>authn.go\<close>, \<^verbatim>\<open>admins.go\<close>, \<^verbatim>\<open>users.go\<close>, \<^verbatim>\<open>routes.go\<close>): the
    world of the identity battery (tables, clock, random source, mails, failing database calls)
    and every handler of accounts as an action on it; the locales of what handlers keep of the
    tables. \<^verbatim>\<open>Accounts_Demo\<close> is a concrete instance of the parameters.
  \<^item> \<^verbatim>\<open>Passwordless\<close> (\<^verbatim>\<open>identity/passwordless.go\<close>, \<^verbatim>\<open>confirm.go\<close>): mailed codes; how many guesses a code
    survives, and what a sign-in with one proves and leaves.
  \<^item> \<^verbatim>\<open>Redirect\<close> (\<^verbatim>\<open>identity/redirect.go\<close>), \<^verbatim>\<open>Oauth_Store\<close> (\<^verbatim>\<open>identity/oauth_session.go\<close>) and \<^verbatim>\<open>Oauth_Flow\<close>
    (\<^verbatim>\<open>identity/oauth.go\<close>): where a sign-in may return to, the store of its sessions and codes with its
    bound, and the flow itself: whose account a sign-in reaches.
  \<^item> \<^verbatim>\<open>Identity_System\<close>: all requests of the identity battery, one after another in any order. Ids,
    addresses and links stay unique, a revoked token stays revoked; a link under way survives.
  \<^item> \<^verbatim>\<open>Sql_Split\<close> (\<^verbatim>\<open>db/sqlsplit.go\<close>): the scanner, byte by byte; it preserves the script and cuts a
    script written as tokens at its semicolons only.
  \<^item> \<^verbatim>\<open>Migrate\<close> (\<^verbatim>\<open>db/migrate.go\<close>, \<^verbatim>\<open>db.go\<close>): the files, the ledger and the runs, over a database of which every
    call can fail or lose its answer. On SQLite and Postgres each migration runs once and in
    order, also when processes start at once; on MySQL a run goes on where the last one stopped;
    a start with a database that answers applies all; what is refused. A partly applied
    migration does not keep an older one out.
  \<^item> \<^verbatim>\<open>Rid\<close> (\<^verbatim>\<open>db/rid.go\<close>, \<^verbatim>\<open>model.go\<close>): the public identifiers; they are well formed, tell their prefix
    and are drawn without bias.
  \<^item> \<^verbatim>\<open>Store_Query\<close> (\<^verbatim>\<open>store/where\<close>, \<^verbatim>\<open>store/internal/q\<close>): the options of a query and what a URL can ask for,
    as conditions on rows with the meaning SQL gives them. A URL reaches only what the store
    lets it, and literal matches are literal.
  \<^item> \<^verbatim>\<open>Store\<close> (\<^verbatim>\<open>store/store.go\<close>, \<^verbatim>\<open>read.go\<close>, \<^verbatim>\<open>write.go\<close>, \<^verbatim>\<open>changes.go\<close>, \<^verbatim>\<open>locator.go\<close>): declaring a store, its scopes,
    and the reads and writes on a table that is a list of rows. Of two updates locked on one
    version one succeeds; a client can take the lock off.
  \<^item> \<^verbatim>\<open>Store_Pages\<close> (\<^verbatim>\<open>store/read.go\<close>, \<^verbatim>\<open>cursor.go\<close>): lists by page and by cursor. Following the cursors
    gives every row once and in order while the table changes; a page number can wrap around.
  \<^item> \<^verbatim>\<open>Store_Owners\<close>: the owner scope over all of them. A call stays within the rows of its caller, and
    what a caller reads does not depend on what others do (the locale \<open>isolated\<close>).
  \<^item> \<^verbatim>\<open>Cron\<close> (\<^verbatim>\<open>jobs/internal/cron\<close>): the parser with its 64-bit sets as words; a printed field parses
    to exactly the values it lists; parsing always ends.
  \<^item> \<^verbatim>\<open>Jobs_Relay\<close> (\<^verbatim>\<open>jobs/relay.go\<close>, \<^verbatim>\<open>state.go\<close>, \<^verbatim>\<open>message.go\<close>): a sweep with its three stages. The database
    is a table in which other transactions' rows arrive between any two statements and any
    statement may fail; the handler's results are an oracle. No message is lost and none overtakes
    a failing one. \<^verbatim>\<open>Jobs_Delivery\<close> shows that with a calm database a sweep delivers every ready
    message.
  \<^item> \<^verbatim>\<open>Jobs_Dead\<close> (\<^verbatim>\<open>jobs/core.go\<close>, \<^verbatim>\<open>dead.go\<close>): the enqueue gate, the cleanup, which deletes only what
    was acknowledged and expired, and the dead letters, whose operations are all or nothing.
  \<^item> \<^verbatim>\<open>Jobs_Scheduler\<close> (\<^verbatim>\<open>jobs/scheduler.go\<close>, \<^verbatim>\<open>jobs.go\<close>, \<^verbatim>\<open>config.go\<close>): an entry's triggers and runs as a step
    relation over goroutines; runs do not overlap unless allowed, a queued trigger is not missed,
    every trigger is accounted for; what \<open>New\<close> accepts; a stop happens once.
  \<^item> \<^verbatim>\<open>Conf_Tree\<close> (\<^verbatim>\<open>internal/conf/tree.go\<close>, \<^verbatim>\<open>schema.go\<close>, \<^verbatim>\<open>conf.go\<close>): the raw tree, YAML nodes, the schema, the
    layers and \<open>load_tree\<close>, which is \<^verbatim>\<open>Load\<close> up to decoding. Flags rank over the environment and the
    environment over the file, key by key; the suggestions use the true edit distance.

  \<^bold>\<open>Conventions.\<close> A struct is a record, an error a value; a section of code under a lock is one
  definition, and concurrency is the interleaving of such sections. Instants and durations are
  integers in nanoseconds, with the saturation of \<^verbatim>\<open>Time.Sub\<close> and the wrap-around of an \<^verbatim>\<open>int64\<close> written
  out where the code meets them (\<open>time_sub\<close>, \<open>wrap64\<close>). Bytes are characters. Code outside the
  repository is a parameter: bcrypt, JWT, HMAC and URL parsing, the OAuth providers, the YAML parser, the JSON codec, the time zone database, \<^verbatim>\<open>time.ParseDuration\<close> in the
  cron specs, the encoders, the functions an application registers. The order in which Go walks
  a map is a parameter or made irrelevant.

  \<^bold>\<open>Bounds and fuel.\<close> The loop of the cron parser that sets bits in a word, which wraps around, and
  the loop of the cleanup, which other transactions can feed, are partial functions;
  \<open>cron_parse_total\<close> and \<open>cleanup_exact\<close> show that they return. The page loops of a sweep take fuel,
  which is the code's own bound \<^verbatim>\<open>maxPages\<close>. All other loops are total functions.

  \<^bold>\<open>Not modelled.\<close> Logging, metrics and observers. I/O: the WebSocket and SSE transports, the Redis
  client, SMTP, HTTP routing and request binding (which rest on \<^verbatim>\<open>net/http\<close> and reflection), the text
  of the SQL that gorm builds, OpenTelemetry, the code generator and the OpenAPI documents. Of the parts with
  logic of their own, the next to be modelled are the decoding, validation and dump of the
  configuration, cron's \<^verbatim>\<open>SpecSchedule.Next\<close>, error values, the store's aggregates and upserts, and the
  audit log. Handlers of identity run one after another; what each statement keeps, by the
  locales of \<^verbatim>\<open>Accounts\<close>, any interleaving of them keeps.
\<close>

end
